(* ===== verification/Prelude.thy ===== *)
theory Prelude
  imports Main "HOL-Library.Word" "HOL-Library.Monad_Syntax"
begin

text \<open>
  Shared vocabulary of the development.

  The program is built with its assertions active (\<open>CMakeLists.txt\<close> sets no build type and
  never defines \<open>NDEBUG\<close>), so a failed \<open>assert\<close> ends the process. A routine that can fail an
  assertion returns an \<open>option\<close>: \<open>None\<close> is the aborted process, \<open>Some\<close> the value it returns.
  Exceptions and error results are values of a sum type.
\<close>

unbundle bit_operations_syntax

type_synonym byte = "8 word"
type_synonym bytes = "8 word list"
type_synonym u16 = "16 word"
type_synonym u32 = "32 word"
type_synonym u64 = "64 word"

named_theorems limb_simps \<open>rewriting multi-limb numbers to integers\<close>
named_theorems wire_simps \<open>what reading back a written field gives\<close>

section \<open>Assertions\<close>

definition assert_that :: "bool \<Rightarrow> unit option" where
  "assert_that b = (if b then Some () else None)"

lemma assert_that_simps [simp]:
  "assert_that True = Some ()"
  "assert_that False = None"
  "(assert_that b = Some u) \<longleftrightarrow> b"
  "(assert_that b = None) \<longleftrightarrow> \<not> b"
  by (simp_all add: assert_that_def)

lemma bind_assert [simp]:
  "Option.bind (assert_that b) f = (if b then f () else None)"
  by (simp add: assert_that_def)

section \<open>Lists\<close>

lemma take_Suc_snoc: "n < length xs \<Longrightarrow> take (Suc n) xs = take n xs @ [xs ! n]"
  by (rule take_Suc_conv_app_nth)

lemma drop_nth_Cons: "n < length xs \<Longrightarrow> drop n xs = xs ! n # drop (Suc n) xs"
  by (rule Cons_nth_drop_Suc [symmetric])

lemma list_all_update: "list_all P xs \<Longrightarrow> P x \<Longrightarrow> list_all P (xs[i := x])"
  by (cases "i < length xs") (simp_all add: list_all_length nth_list_update)

section \<open>Words\<close>

lemma uint_less_exp: "uint (w :: 'a::len word) < 2 ^ LENGTH('a)"
  by (rule uint_lt2p)

lemma low_dword_and: "ucast (n AND 0xffffffff :: u64) = (ucast n :: u32)"
proof -
  have "(0xffffffff :: u64) = mask 32" by (simp add: mask_eq_exp_minus_1)
  then have "n AND 0xffffffff = take_bit 32 n" by (simp add: take_bit_eq_mask)
  then show ?thesis by (simp add: unsigned_take_bit_eq) (rule bit_word_eqI, simp add: bit_simps)
qed

lemma uint_low_dword: "uint (ucast n :: u32) = uint (n :: u64) mod 2 ^ 32"
  by (simp add: unsigned_ucast_eq take_bit_eq_mod)

lemma uint_high_dword: "uint (drop_bit 32 n :: u64) = uint n div 2 ^ 32"
  unfolding unsigned_drop_bit_eq by (simp only: drop_bit_eq_div) (simp add: bintr_uint)

lemma dword_split: "uint (n :: u64) = uint (ucast n :: u32) + 2 ^ 32 * uint (drop_bit 32 n)"
  by (simp only: uint_low_dword uint_high_dword) (simp add: mod_mult_div_eq)

lemma low_byte_and: "ucast (n AND 0xff :: u64) = (ucast n :: byte)"
proof -
  have "(0xff :: u64) = mask 8" by (simp add: mask_eq_exp_minus_1)
  then have "n AND 0xff = take_bit 8 n" by (simp only: take_bit_eq_mask)
  then show ?thesis by (simp add: unsigned_take_bit_eq del: take_bit_eq_mod) (rule bit_word_eqI, simp add: bit_simps)
qed

lemma uint_low_byte: "uint (ucast (n AND 0xff :: u64) :: byte) = uint n mod 256"
  by (simp only: low_byte_and) (simp add: unsigned_ucast_eq take_bit_eq_mod)

lemma uint_drop_bit: "uint (drop_bit k w) = uint (w :: 'a::len word) div 2 ^ k"
  unfolding unsigned_drop_bit_eq by (simp only: drop_bit_eq_div bintr_uint order_refl)

lemma bit_le_uint: "bit (w :: 'a::len word) i \<Longrightarrow> 2 ^ i \<le> uint w"
proof -
  assume "bit w i"
  then have "bit (uint w) i" by (simp add: bit_uint_iff bit_imp_le_length)
  then have "uint w div 2 ^ i \<noteq> 0" by (auto simp: bit_iff_odd)
  then show ?thesis by (metis div_pos_pos_trivial not_less uint_ge_0)
qed

section \<open>Signed numbers\<close>

text \<open>An \<open>int64_t\<close> result that leaves the range of the type is undefined.\<close>

definition in64 :: "int \<Rightarrow> bool" where
  "in64 x \<longleftrightarrow> - (2 ^ 63) \<le> x \<and> x < 2 ^ 63"

definition int64 :: "int \<Rightarrow> int option" where
  "int64 x = (if in64 x then Some x else None)"

section \<open>Integer division\<close>

lemma int_le_div_iff: "n \<le> m div q \<longleftrightarrow> n * q \<le> m" if "0 < q" for m n q :: int
proof
  assume "n \<le> m div q"
  then have "n * q \<le> m div q * q" using that by simp
  also have "\<dots> \<le> m" using pos_mod_sign [OF that, of m] div_mult_mod_eq [of m q] by linarith
  finally show "n * q \<le> m" .
next
  assume "n * q \<le> m"
  then have "n * q div q \<le> m div q" using that by (rule zdiv_mono1)
  then show "n \<le> m div q" using that by simp
qed

lemma int_div_less_iff: "m div q < n \<longleftrightarrow> m < n * q" if "0 < q" for m n q :: int
  using int_le_div_iff [OF that, of n m] by linarith

end
