(* ===== verification/External.thy ===== *)
theory External
  imports Prelude
begin

text \<open>
  The interfaces of the library the program is written against (\<open>xul\<close>): its sources are not in
  the repository, so its operations are parameters of the model. A record collects the operations
  the code calls, and a locale states what the code relies on. Every locale is interpreted on a
  concrete little-endian implementation, which the witnesses evaluate.
\<close>

section \<open>Little-endian numbers\<close>

definition bytes_val :: "bytes \<Rightarrow> int" where
  "bytes_val = horner_sum uint (2 ^ 8)"

definition le_bytes :: "nat \<Rightarrow> 'a::len word \<Rightarrow> bytes" where
  "le_bytes n w = map (\<lambda>i. ucast (drop_bit (8 * i) w)) [0..<n]"

definition le_word :: "bytes \<Rightarrow> 'a::len word" where
  "le_word b = word_of_int (bytes_val b)"

lemma bytes_val_simps [simp]:
  "bytes_val [] = 0"
  "bytes_val (x # xs) = uint x + 2 ^ 8 * bytes_val xs"
  by (simp_all add: bytes_val_def)

lemma bytes_val_append: "bytes_val (xs @ ys) = bytes_val xs + 2 ^ (8 * length xs) * bytes_val ys"
  by (simp add: bytes_val_def horner_sum_append power_mult)

lemma bytes_val_nonneg [simp]: "0 \<le> bytes_val b"
  by (induction b) simp_all

lemma bytes_val_replicate_0 [simp]: "bytes_val (replicate n 0) = 0"
  by (induction n) simp_all

lemma bytes_val_less: "bytes_val b < 2 ^ (8 * length b)"
proof (induction b)
  case (Cons x b)
  have "uint x < 2 ^ 8" using uint_less_exp [of x] by simp
  moreover have "bytes_val b \<le> 2 ^ (8 * length b) - 1" using Cons by simp
  then have "2 ^ 8 * bytes_val b \<le> 2 ^ 8 * (2 ^ (8 * length b) - 1)"
    by (intro mult_left_mono) simp_all
  ultimately show ?case by (simp add: power_add algebra_simps)
qed simp

lemma bytes_val_eqI: "length a = length b \<Longrightarrow> bytes_val a = bytes_val b \<Longrightarrow> a = b"
proof (induction a b rule: list_induct2)
  case (Cons x xs y ys)
  have "uint x < 2 ^ 8" "uint y < 2 ^ 8" using uint_less_exp [of x] uint_less_exp [of y] by simp_all
  then have "uint x = bytes_val (x # xs) mod 2 ^ 8" "uint y = bytes_val (y # ys) mod 2 ^ 8" by simp_all
  then have "uint x = uint y" using Cons.prems by metis
  then show ?case using Cons by (simp add: word_uint_eq_iff)
qed simp

lemma length_le_bytes [simp]: "length (le_bytes n w) = n"
  by (simp add: le_bytes_def)

lemma le_bytes_Suc: "le_bytes (Suc n) w = ucast w # le_bytes n (drop_bit 8 w)"
  unfolding le_bytes_def by (simp only: upt_rec [of 0 "Suc n"])
    (simp add: map_Suc_upt [symmetric] add.commute del: upt_Suc)

lemma le_bytes_2: "le_bytes 2 w = [ucast w, ucast (drop_bit 8 w)]"
  by (simp add: le_bytes_Suc numeral_2_eq_2) (simp add: le_bytes_def)

lemma bytes_val_le_bytes: "bytes_val (le_bytes n w) = uint w mod 2 ^ (8 * n)"
proof (induction n arbitrary: w)
  case 0 then show ?case by (simp add: le_bytes_def)
next
  case (Suc n)
  have "uint (ucast w :: byte) = uint w mod 2 ^ 8" by (simp add: unsigned_ucast_eq take_bit_eq_mod)
  then have "bytes_val (le_bytes (Suc n) w) = uint w mod 2 ^ 8 + 2 ^ 8 * (uint w div 2 ^ 8 mod 2 ^ (8 * n))"
    by (simp add: le_bytes_Suc Suc uint_drop_bit)
  also have "\<dots> = uint w mod (2 ^ 8 * 2 ^ (8 * n))"
    using zmod_zmult2_eq [of "2 ^ (8 * n)" "uint w" "2 ^ 8"] by simp
  finally show ?case by (simp add: power_add mult.commute)
qed

lemma le_word_le_bytes: "LENGTH('a) \<le> 8 * n \<Longrightarrow> le_word (le_bytes n (w :: 'a::len word)) = w"
proof -
  assume "LENGTH('a) \<le> 8 * n"
  then have "(2 :: int) ^ LENGTH('a) \<le> 2 ^ (8 * n)" by (intro power_increasing) simp_all
  with uint_less_exp [of w] have "uint w < 2 ^ (8 * n)" by (rule less_le_trans)
  then have "uint w mod 2 ^ (8 * n) = uint w" by (intro mod_pos_pos_trivial) simp_all
  then show ?thesis by (simp add: le_word_def bytes_val_le_bytes)
qed

lemma uint_le_word: "8 * length b \<le> LENGTH('a) \<Longrightarrow> uint (le_word b :: 'a::len word) = bytes_val b"
proof -
  assume "8 * length b \<le> LENGTH('a)"
  then have "(2 :: int) ^ (8 * length b) \<le> 2 ^ LENGTH('a)" by (intro power_increasing) simp_all
  with bytes_val_less [of b] have "bytes_val b < 2 ^ LENGTH('a)" by (rule less_le_trans)
  then show ?thesis by (simp add: le_word_def uint_word_of_int mod_pos_pos_trivial)
qed

lemma le_bytes_le_word: "length b = n \<Longrightarrow> 8 * n \<le> LENGTH('a) \<Longrightarrow> le_bytes n (le_word b :: 'a::len word) = b"
  using bytes_val_less [of b] by (intro bytes_val_eqI) (simp_all add: bytes_val_le_bytes uint_le_word)

section \<open>\<open>xul::bit_converter::little_endian()\<close>\<close>

text \<open>\<open>from_dword(p, v)\<close> stores four bytes at \<open>p\<close>; \<open>to_dword(p)\<close> reads the four bytes at \<open>p\<close>.\<close>

record bit_converter =
  from_dword :: "u32 \<Rightarrow> bytes"
  to_dword :: "bytes \<Rightarrow> u32"

locale little_endian =
  fixes bc :: bit_converter
  assumes from_dword_val: "length (from_dword bc w) = 4 \<and> bytes_val (from_dword bc w) = uint w"
    and to_dword_val: "4 \<le> length b \<Longrightarrow> uint (to_dword bc b) = bytes_val (take 4 b)"
begin

lemma to_from: "to_dword bc (from_dword bc w @ r) = w"
  using to_dword_val [of "from_dword bc w @ r"] from_dword_val [of w] by (simp add: word_uint_eq_iff)

lemma length_from_dword [simp]: "length (from_dword bc w) = 4"
  using from_dword_val by simp

end

definition le_converter :: bit_converter where
  "le_converter = \<lparr>from_dword = le_bytes 4, to_dword = \<lambda>b. le_word (take 4 b)\<rparr>"

interpretation lec: little_endian le_converter
proof
  show "length (from_dword le_converter w) = 4 \<and> bytes_val (from_dword le_converter w) = uint w" for w
    using uint_less_exp [of w] by (simp add: le_converter_def bytes_val_le_bytes)
  show "uint (to_dword le_converter b) = bytes_val (take 4 b)" for b
    by (simp add: le_converter_def uint_le_word)
qed

section \<open>Big numbers\<close>

text \<open>A \<open>xul::big_number<32>\<close> (\<open>uint256\<close>) is an array of 32 bytes: the code reads and writes its
  bytes through \<open>begin()\<close>, \<open>data()\<close> and \<open>size()\<close>.\<close>

type_synonym uint256 = bytes

definition uint256_null :: uint256 where
  "uint256_null = replicate 32 0"

record big_number_ops =
  bn_assign :: "u32 \<Rightarrow> uint256"
  bn_shl :: "uint256 \<Rightarrow> nat \<Rightarrow> uint256"
  bn_add :: "uint256 \<Rightarrow> uint256 \<Rightarrow> uint256"
  bn_is_null :: "uint256 \<Rightarrow> bool"
  bn_greater :: "uint256 \<Rightarrow> uint256 \<Rightarrow> bool"

locale big_number =
  fixes bn :: big_number_ops
  assumes assign_val: "length (bn_assign bn w) = 32 \<and> bytes_val (bn_assign bn w) = uint w"
    and shl_val: "length a = 32 \<Longrightarrow> length (bn_shl bn a n) = 32 \<and>
      bytes_val (bn_shl bn a n) = bytes_val a * 2 ^ n mod 2 ^ 256"
    and add_val: "length a = 32 \<Longrightarrow> length b = 32 \<Longrightarrow> length (bn_add bn a b) = 32 \<and>
      bytes_val (bn_add bn a b) = (bytes_val a + bytes_val b) mod 2 ^ 256"
    and is_null_val: "length a = 32 \<Longrightarrow> bn_is_null bn a \<longleftrightarrow> bytes_val a = 0"
    and greater_val: "length a = 32 \<Longrightarrow> length b = 32 \<Longrightarrow> bn_greater bn a b \<longleftrightarrow> bytes_val a > bytes_val b"

section \<open>Data streams\<close>

text \<open>
  \<open>xul::data_input_stream\<close>. A read yields the value, or \<open>None\<close> when the stream is or becomes bad,
  and the stream after it; \<open>of_bytes\<close> is the stream over a buffer, as \<open>data_encoding::decode\<close> and
  the message decoder open it.
\<close>

record 's istream =
  of_bytes :: "bytes \<Rightarrow> 's"
  good :: "'s \<Rightarrow> bool"
  set_bad :: "'s \<Rightarrow> 's"
  rd8 :: "'s \<Rightarrow> byte option \<times> 's"
  rd16 :: "'s \<Rightarrow> u16 option \<times> 's"
  rd32 :: "'s \<Rightarrow> u32 option \<times> 's"
  rd64 :: "'s \<Rightarrow> u64 option \<times> 's"
  rd_bn :: "'s \<Rightarrow> uint256 option \<times> 's"
  rd_str :: "nat \<Rightarrow> 's \<Rightarrow> bytes option \<times> 's"

text \<open>\<open>xul::data_output_stream\<close>: the bytes each field appends; an output is the concatenation of the
  fields written. A byte appends itself.\<close>

record ostream =
  wr16 :: "u16 \<Rightarrow> bytes"
  wr32 :: "u32 \<Rightarrow> bytes"
  wr64 :: "u64 \<Rightarrow> bytes"
  wr_bn :: "uint256 \<Rightarrow> bytes"

definition fails_bad :: "'s istream \<Rightarrow> ('s \<Rightarrow> 'a option \<times> 's) \<Rightarrow> bool" where
  "fails_bad ist r \<longleftrightarrow> (\<forall>s. good ist (snd (r s)) = (fst (r s) \<noteq> None) \<and> (\<not> good ist s \<longrightarrow> fst (r s) = None))"

locale streams =
  fixes ist :: "'s istream" and os :: ostream
  assumes good_of_bytes [simp]: "good ist (of_bytes ist b)"
    and set_bad [simp]: "\<not> good ist (set_bad ist s)"
    and rd8 [simp]: "rd8 ist (of_bytes ist (x # r)) = (Some x, of_bytes ist r)"
    and rd8_end: "fst (rd8 ist (of_bytes ist [])) = None"
    and rd16 [simp]: "rd16 ist (of_bytes ist (wr16 os h @ r)) = (Some h, of_bytes ist r)"
    and wr16_le: "wr16 os h = [ucast h, ucast (drop_bit 8 h)]"
    and rd32 [simp]: "rd32 ist (of_bytes ist (wr32 os w @ r)) = (Some w, of_bytes ist r)"
    and rd64 [simp]: "rd64 ist (of_bytes ist (wr64 os q @ r)) = (Some q, of_bytes ist r)"
    and rd_bn [simp]: "length n = 32 \<Longrightarrow> rd_bn ist (of_bytes ist (wr_bn os n @ r)) = (Some n, of_bytes ist r)"
    and rd_str [simp]: "length b = k \<Longrightarrow> rd_str ist k (of_bytes ist (b @ r)) = (Some b, of_bytes ist r)"
    and rd_bad: "fails_bad ist (rd8 ist)" "fails_bad ist (rd16 ist)" "fails_bad ist (rd32 ist)"
      "fails_bad ist (rd64 ist)" "fails_bad ist (rd_bn ist)" "fails_bad ist (rd_str ist k)"
    and rd16_end: "length b < 2 \<Longrightarrow> fst (rd16 ist (of_bytes ist b)) = None"
    and rd32_end: "length b < 4 \<Longrightarrow> fst (rd32 ist (of_bytes ist b)) = None"
    and rd_str_end: "length b < k \<Longrightarrow> fst (rd_str ist k (of_bytes ist b)) = None"
    and wr32_le: "wr32 os w = le_bytes 4 w"

text \<open>The concrete streams: the bytes left, and whether every read so far has succeeded.\<close>

definition take_bytes :: "nat \<Rightarrow> (bytes \<Rightarrow> 'a) \<Rightarrow> bytes \<times> bool \<Rightarrow> 'a option \<times> bytes \<times> bool" where
  "take_bytes n f s = (if snd s \<and> n \<le> length (fst s) then (Some (f (take n (fst s))), drop n (fst s), True)
                       else (None, fst s, False))"

definition le_istream :: "(bytes \<times> bool) istream" where
  "le_istream = \<lparr>of_bytes = \<lambda>b. (b, True), good = snd, set_bad = \<lambda>s. (fst s, False),
     rd8 = take_bytes 1 hd, rd16 = take_bytes 2 le_word, rd32 = take_bytes 4 le_word,
     rd64 = take_bytes 8 le_word, rd_bn = take_bytes 32 id, rd_str = \<lambda>n. take_bytes n id\<rparr>"

definition le_ostream :: ostream where
  "le_ostream = \<lparr>wr16 = le_bytes 2, wr32 = le_bytes 4, wr64 = le_bytes 8, wr_bn = id\<rparr>"

lemma take_bytes_append [simp]:
  "length b = n \<Longrightarrow> take_bytes n f (b @ r, True) = (Some (f b), r, True)"
  by (auto simp: take_bytes_def)

lemma take_bytes_bad [simp]: "good ist = snd \<Longrightarrow> fails_bad ist (take_bytes n f)"
  by (simp add: fails_bad_def take_bytes_def)

interpretation les: streams le_istream le_ostream
proof (unfold_locales, goal_cases)
  case (3 x r)
  then show ?case by (simp add: le_istream_def take_bytes_def)
next
  case (6 h)
  then show ?case by (simp add: le_ostream_def le_bytes_2)
qed (simp_all add: le_istream_def le_ostream_def le_word_le_bytes take_bytes_def)

end
