(* ===== verification/Serialization.thy ===== *)
theory Serialization
  imports External
begin

text \<open>
  \<open>util/serialization.hpp\<close> and \<open>util/serialization.cpp\<close>: the variable-length encodings. A reader
  takes the value of its target before the read and the stream, and returns the target and the
  stream after it (\<open>is >> x\<close> leaves the target alone when the stream is bad). A writer is the bytes
  it appends. The lemmas prove, for streams that read back the fixed-width fields, that every
  reader reads back what the writer wrote.
\<close>

type_synonym ('s, 'a) reader = "'a \<Rightarrow> 's \<Rightarrow> 'a \<times> 's"

definition into :: "('s \<Rightarrow> 'a option \<times> 's) \<Rightarrow> ('s, 'a) reader" where
  "into rd old s = (case rd s of (Some v, s') \<Rightarrow> (v, s') | (None, s') \<Rightarrow> (old, s'))"

section \<open>Compact sizes\<close>

text \<open>The assertion after the one-byte form restates that \<open>read_byte\<close> succeeded (\<open>read_byte_good\<close>
  below).\<close>

definition readCompactSize :: "'s istream \<Rightarrow> 's \<Rightarrow> u64 option \<times> 's" where
  "readCompactSize ist s =
     (case rd8 ist s of
        (None, s1) \<Rightarrow> (None, s1)
      | (Some tag, s1) \<Rightarrow>
          if tag = 0xFD then (case rd16 ist s1 of (v, s2) \<Rightarrow>
            (if good ist s2 then map_option ucast v else None, s2))
          else if tag = 0xFE then (case rd32 ist s1 of (v, s2) \<Rightarrow>
            (if good ist s2 then map_option ucast v else None, s2))
          else if tag = 0xFF then (case rd64 ist s1 of (v, s2) \<Rightarrow>
            (if good ist s2 then v else None, s2))
          else (Some (ucast tag), s1))"

definition writeCompactSize :: "ostream \<Rightarrow> u64 \<Rightarrow> bytes" where
  "writeCompactSize os val =
     (if val < 0xFD then [ucast val]
      else if val \<le> 0xFFFF then 0xFD # wr16 os (ucast val)
      else if val \<le> 0xFFFFFFFF then 0xFE # wr32 os (ucast val)
      else 0xFF # wr64 os val)"

section \<open>Strings and vectors\<close>

definition readString :: "'s istream \<Rightarrow> nat \<Rightarrow> ('s, bytes) reader" where
  "readString ist maxsize old s =
     (case readCompactSize ist s of
        (None, s1) \<Rightarrow> (old, s1)
      | (Some sz, s1) \<Rightarrow>
          if unat sz > maxsize then (old, set_bad ist s1)
          else into (rd_str ist (unat sz)) old s1)"

definition writeString :: "ostream \<Rightarrow> bytes \<Rightarrow> bytes" where
  "writeString os s = writeCompactSize os (of_nat (length s)) @ s"

fun read_items :: "'s istream \<Rightarrow> ('s, 'a) reader \<Rightarrow> 'a \<Rightarrow> nat \<Rightarrow> 'a list \<Rightarrow> 's \<Rightarrow> 'a list \<times> 's" where
  "read_items ist rd new 0 items s = (items, s)"
| "read_items ist rd new (Suc n) items s =
     (case rd new s of (item, s') \<Rightarrow>
       if \<not> good ist s' then (items, set_bad ist s')
       else read_items ist rd new n (items @ [item]) s')"

definition readVector :: "'s istream \<Rightarrow> ('s, 'a) reader \<Rightarrow> 'a \<Rightarrow> nat \<Rightarrow> ('s, 'a list) reader" where
  "readVector ist rd new maxcount items s =
     (case readCompactSize ist s of
        (None, s1) \<Rightarrow> (items, s1)
      | (Some count, s1) \<Rightarrow>
          if unat count > maxcount then (items, set_bad ist s1)
          else read_items ist rd new (unat count) items s1)"

definition writeVector :: "ostream \<Rightarrow> ('a \<Rightarrow> bytes) \<Rightarrow> 'a list \<Rightarrow> bytes" where
  "writeVector os wr items = writeCompactSize os (of_nat (length items)) @ concat (map wr items)"

section \<open>Variable-length integers\<close>

text \<open>\<open>readInteger<T>\<close>, with \<open>tmax\<close> for \<open>std::numeric_limits<T>::max()\<close>. The accumulator is a
  number: \<open>read_loop_bound\<close> shows that it never exceeds \<open>tmax\<close>, so the shifts of the code do not
  overflow.\<close>

function read_loop :: "nat \<Rightarrow> 's istream \<Rightarrow> nat \<Rightarrow> 's \<Rightarrow> nat option \<times> 's" where
  "read_loop tmax ist n s =
     (if n > drop_bit 7 tmax then (None, set_bad ist s)
      else case rd8 ist s of
        (None, s1) \<Rightarrow> (None, set_bad ist s1)
      | (Some byteval, s1) \<Rightarrow>
          let n' = push_bit 7 n OR unat (byteval AND 0x7F)
          in if byteval AND 0x80 \<noteq> 0
             then if n' = tmax then (None, set_bad ist s1) else read_loop tmax ist (n' + 1) s1
             else (Some n', s1))"
  by pat_completeness auto

definition readInteger :: "nat \<Rightarrow> 's istream \<Rightarrow> 's \<Rightarrow> nat option \<times> 's" where
  "readInteger tmax ist s = read_loop tmax ist 0 s"

text \<open>The writer's \<open>pos\<close> counts from one here: at zero the code's \<open>pos\<close> is negative and its
  assertion fails. The value is an integer, so the signed instances of the template are covered.\<close>

fun write_loop :: "nat \<Rightarrow> int \<Rightarrow> bool \<Rightarrow> bytes \<Rightarrow> bytes option" where
  "write_loop 0 val ending buf = None"
| "write_loop (Suc pos) val ending buf =
     (let byteval = word_of_int (val AND 0x7F) :: byte;
          buf' = (if ending then byteval else byteval OR 0x80) # buf
      in if val \<le> 0x7F then Some buf' else write_loop pos (drop_bit 7 val - 1) False buf')"

definition writeInteger :: "nat \<Rightarrow> int \<Rightarrow> bytes option" where
  "writeInteger nbytes n = write_loop ((nbytes * 8 + 6) div 7) n True []"

section \<open>Termination and bounds of the integer reader\<close>

lemma push_or_add: "b < 128 \<Longrightarrow> push_bit 7 n OR b = 128 * n + b" for n b :: nat
proof -
  assume "b < 128"
  then have "take_bit 7 b = b" by (simp add: take_bit_nat_eq_self)
  then have "bit b i \<Longrightarrow> i < 7" for i by (metis bit_take_bit_iff)
  then have "push_bit 7 n AND b = 0" by (fastforce simp: bit_eq_iff bit_simps)
  then show ?thesis by (simp add: push_bit_eq_mult disjunctive_add_eq_or [symmetric])
qed

lemma low7_less: "unat (x AND 0x7F :: byte) < 128"
proof -
  have "(0x7F :: byte) = mask 7" by (simp add: mask_eq_exp_minus_1)
  then have "x AND 0x7F = take_bit 7 x" by (simp add: take_bit_eq_mask)
  then show ?thesis by (simp add: unsigned_take_bit_eq take_bit_nat_def)
qed

lemma read_step: "push_bit 7 n OR unat (x AND 0x7F :: byte) = 128 * n + unat (x AND 0x7F)"
  using low7_less by (rule push_or_add)

termination read_loop
proof (relation "measure (\<lambda>(tmax, ist, n, s). Suc tmax - n)")
  fix tmax n :: nat and ist :: "'s istream" and s s1 byteval n' x
  assume "\<not> n > drop_bit 7 tmax" and n': "n' = push_bit 7 n OR unat (byteval AND 0x7F :: byte)"
  then have "n \<le> tmax" by (simp add: drop_bit_eq_div)
  moreover have "n \<le> n'" unfolding n' read_step by simp
  ultimately show "((tmax, ist, n' + 1, s1), tmax, ist, n, s) \<in> measure (\<lambda>(tmax, ist, n, s). Suc tmax - n)"
    by simp
qed simp

declare read_loop.simps [simp del]

lemma div_128_step: "n \<le> tmax div 128 \<Longrightarrow> 128 dvd Suc tmax \<Longrightarrow> b < 128 \<Longrightarrow> 128 * n + b \<le> tmax"
proof -
  assume n: "n \<le> tmax div 128" and "128 dvd Suc tmax" and b: "b < 128"
  then obtain k where k: "tmax + 1 = 128 * k" by (auto elim: dvdE)
  then have "tmax div 128 < k" by (intro less_mult_imp_div_less) simp
  then have "n + 1 \<le> k" using n by simp
  then show ?thesis using k b by linarith
qed

lemma read_loop_bound:
  "128 dvd Suc tmax \<Longrightarrow> fst (read_loop tmax ist n s) = Some v \<Longrightarrow> v \<le> tmax"
proof (induction tmax ist n s rule: read_loop.induct)
  case (1 tmax ist n s)
  show ?case
  proof (cases "n > drop_bit 7 tmax")
    case True
    then show ?thesis using "1.prems" by (subst (asm) read_loop.simps) simp
  next
    case False
    obtain x s1 where rd: "rd8 ist s = (Some x, s1)"
      using "1.prems"(2) False by (subst (asm) read_loop.simps) (auto split: prod.splits option.splits)
    define n' where "n' = push_bit 7 n OR unat (x AND 0x7F :: byte)"
    have "n' \<le> tmax" unfolding n'_def read_step using False "1.prems"(1) low7_less [of x]
      by (intro div_128_step) (simp_all add: drop_bit_eq_div)
    moreover have "fst (read_loop tmax ist n s) =
        (if x AND 0x80 \<noteq> 0 then if n' = tmax then None else fst (read_loop tmax ist (n' + 1) s1) else Some n')"
      using False rd by (subst read_loop.simps) (simp add: Let_def n'_def)
    moreover note "1.IH" [OF False rd [symmetric] refl n'_def _ _ "1.prems"(1)]
    ultimately show ?thesis using "1.prems"(2) by (auto split: if_splits)
  qed
qed

section \<open>Reading back what was written\<close>

text \<open>\<open>reads ist rd old enc v\<close>: reading \<open>enc\<close> followed by any bytes into \<open>old\<close> gives \<open>v\<close> and leaves
  those bytes.\<close>

definition reads :: "'s istream \<Rightarrow> ('s, 'a) reader \<Rightarrow> 'a \<Rightarrow> bytes \<Rightarrow> 'a \<Rightarrow> bool" where
  "reads ist rd old enc v \<longleftrightarrow> (\<forall>r. rd old (of_bytes ist (enc @ r)) = (v, of_bytes ist r))"

lemma readsD: "reads ist rd old enc v \<Longrightarrow> rd old (of_bytes ist (enc @ r)) = (v, of_bytes ist r)"
  by (simp add: reads_def)

text \<open>The bytes of an integer before its last one, all with the continuation bit.\<close>

function enc_high :: "nat \<Rightarrow> bytes" where
  "enc_high v = (if v \<le> 127 then [of_nat v OR 0x80]
                 else enc_high (v div 128 - 1) @ [of_nat (v mod 128) OR 0x80])"
  by pat_completeness auto
termination by (relation "measure id") simp_all

declare enc_high.simps [simp del]

lemma int_low7: "(word_of_int (int v AND 0x7F) :: byte) = of_nat (v mod 128)"
proof -
  have "int v AND 0x7F = int v mod 128" using take_bit_eq_mask [of 7 "int v"] 
    by (simp add: take_bit_eq_mod mask_eq_exp_minus_1)
  also have "\<dots> = int (v mod 128)" by (simp add: zmod_int)
  finally show ?thesis by simp
qed

lemma low7_of_nat: "b < 128 \<Longrightarrow> unat ((of_nat b OR 0x80) AND 0x7F :: byte) = b"
  "b < 128 \<Longrightarrow> (of_nat b OR 0x80) AND 0x80 \<noteq> (0 :: byte)"
  "b < 128 \<Longrightarrow> unat (of_nat b AND 0x7F :: byte) = b"
  "b < 128 \<Longrightarrow> of_nat b AND 0x80 = (0 :: byte)"
proof -
  assume b: "b < 128"
  have m: "(0x7F :: byte) = mask 7" by (simp add: mask_eq_exp_minus_1)
  have t: "take_bit 7 (of_nat b :: byte) = of_nat b"
    using b by (simp add: take_bit_of_nat take_bit_nat_eq_self)
  have bits: "bit (of_nat b :: byte) i \<Longrightarrow> i < 7" for i
    using t by (metis bit_take_bit_iff)
  have u: "unat (of_nat b :: byte) = b" using b by (simp add: unat_of_nat)
  have x: "(0x80 :: byte) = push_bit 7 1" by (simp add: push_bit_eq_mult)
  have "(of_nat b OR push_bit 7 1) AND mask 7 = (of_nat b :: byte)"
    by (rule bit_word_eqI) (auto simp only: bit_and_iff bit_or_iff bit_push_bit_iff bit_mask_iff bit_1_iff bit_0_eq bot_apply bot_bool_def possible_bit_word len_bit0 len_num1 dest: bits)
  then show "unat ((of_nat b OR 0x80) AND 0x7F :: byte) = b" unfolding m x using u by simp
  show "unat (of_nat b AND 0x7F :: byte) = b" unfolding m using t u by (simp add: take_bit_eq_mask)
  have "bit ((of_nat b OR push_bit 7 1) AND push_bit 7 1 :: byte) 7" by (simp only: bit_and_iff bit_or_iff bit_push_bit_iff) simp
  then show "(of_nat b OR 0x80) AND 0x80 \<noteq> (0 :: byte)" unfolding x by auto
  show "of_nat b AND 0x80 = (0 :: byte)" unfolding x
    by (rule bit_word_eqI) (auto simp only: bit_and_iff bit_or_iff bit_push_bit_iff bit_mask_iff bit_1_iff bit_0_eq bot_apply bot_bool_def possible_bit_word len_bit0 len_num1 dest: bits)
qed

lemma read_enc_high:
  assumes "streams ist os"
  shows "v + 1 \<le> drop_bit 7 tmax \<Longrightarrow>
    read_loop tmax ist 0 (of_bytes ist (enc_high v @ r)) = read_loop tmax ist (v + 1) (of_bytes ist r)"
proof (induction v arbitrary: r rule: enc_high.induct)
  case (1 v)
  note rd8 = streams.rd8 [OF assms]
  have le: "v + 1 \<le> tmax" using "1.prems" by (simp add: drop_bit_eq_div)
  have last: "read_loop tmax ist n (of_bytes ist ((of_nat b OR 0x80) # r)) = read_loop tmax ist (v + 1) (of_bytes ist r)"
    if "128 * n + b = v" "b < 128" for n b
  proof -
    have "\<not> drop_bit 7 tmax < n" using that "1.prems" by simp
    moreover have "push_bit 7 n OR b = v" using that push_or_add [of b n] by simp
    moreover have "v \<noteq> tmax" using le by simp
    ultimately show ?thesis
      using low7_of_nat(1,2) [OF that(2)] by (subst read_loop.simps) (simp add: rd8 Let_def)
  qed
  show ?case
  proof (cases "v \<le> 127")
    case True
    then show ?thesis using last [of 0 v] by (simp add: enc_high.simps)
  next
    case False
    define u b where "u = v div 128 - 1" and "b = v mod 128"
    have ub: "128 * (u + 1) + b = v" "b < 128" using False by (simp_all add: u_def b_def)
    then have "u + 1 \<le> drop_bit 7 tmax" using "1.prems" by simp
    then have "read_loop tmax ist 0 (of_bytes ist (enc_high v @ r)) =
        read_loop tmax ist (u + 1) (of_bytes ist ((of_nat b OR 0x80) # r))"
      using "1.IH" [OF False] False by (subst enc_high.simps) (simp add: u_def b_def)
    then show ?thesis using last [OF ub] by simp
  qed
qed

lemma write_loop_high:
  "v < 2 ^ (7 * pos) \<Longrightarrow> 0 < pos \<Longrightarrow> write_loop pos (int v) False buf = Some (enc_high v @ buf)"
proof (induction pos arbitrary: v buf)
  case (Suc pos)
  show ?case
  proof (cases "v \<le> 127")
    case True
    then show ?thesis by (subst enc_high.simps) (simp add: int_low7 Let_def)
  next
    case False
    have s: "drop_bit 7 (int v) - 1 = int (v div 128 - 1)"
      using False by (simp add: drop_bit_eq_div zdiv_int of_nat_diff)
    have "v div 128 - 1 < 2 ^ (7 * pos)" using Suc.prems by (simp add: power_add less_mult_imp_div_less less_imp_diff_less mult.commute)
    moreover have "0 < pos" using Suc.prems False by (cases pos) simp_all
    ultimately show ?thesis using Suc.IH [of "v div 128 - 1"] False
      by (subst enc_high.simps) (simp add: int_low7 s Let_def)
  qed
qed simp

definition enc_int :: "nat \<Rightarrow> bytes" where
  "enc_int v = (if v \<le> 127 then [of_nat v] else enc_high (v div 128 - 1) @ [of_nat (v mod 128)])"

lemma writeInteger_enc:
  assumes "v < 2 ^ (8 * nbytes)" "0 < nbytes"
  shows "writeInteger nbytes (int v) = Some (enc_int v)"
proof -
  obtain pos where pos: "(nbytes * 8 + 6) div 7 = Suc pos" "8 * nbytes \<le> 7 * Suc pos"
    using assms(2) by (cases "(nbytes * 8 + 6) div 7") auto
  have "(2 :: nat) ^ (8 * nbytes) \<le> 2 ^ (7 * Suc pos)" using pos(2) by (intro power_increasing) simp_all
  then have v: "v < 128 * 2 ^ (7 * pos)" using assms(1) by (simp add: power_add)
  show ?thesis
  proof (cases "v \<le> 127")
    case True
    then show ?thesis by (simp add: writeInteger_def pos enc_int_def int_low7 Let_def)
  next
    case False
    have s: "drop_bit 7 (int v) - 1 = int (v div 128 - 1)"
      using False by (simp add: drop_bit_eq_div zdiv_int of_nat_diff)
    have "v div 128 - 1 < 2 ^ (7 * pos)" using v by (simp add: less_mult_imp_div_less less_imp_diff_less mult.commute)
    moreover have "0 < pos" using v False by (cases pos) simp_all
    ultimately show ?thesis using False write_loop_high [of "v div 128 - 1" pos]
      by (simp add: writeInteger_def pos(1) enc_int_def int_low7 s Let_def)
  qed
qed

lemma readInteger_enc:
  assumes "streams ist os" "v \<le> tmax"
  shows "readInteger tmax ist (of_bytes ist (enc_int v @ r)) = (Some v, of_bytes ist r)"
proof -
  note rd8 = streams.rd8 [OF assms(1)]
  have last: "read_loop tmax ist n (of_bytes ist (of_nat b # r)) = (Some v, of_bytes ist r)"
    if "128 * n + b = v" "b < 128" for n b
  proof -
    have "\<not> drop_bit 7 tmax < n" using that assms(2) by (simp add: drop_bit_eq_div)
    moreover have "push_bit 7 n OR b = v" using that push_or_add [of b n] by simp
    ultimately show ?thesis
      using low7_of_nat(3,4) [OF that(2)] by (subst read_loop.simps) (simp add: rd8 Let_def)
  qed
  show ?thesis
  proof (cases "v \<le> 127")
    case True
    then show ?thesis using last [of 0 v] by (simp add: enc_int_def readInteger_def)
  next
    case False
    define u b where "u = v div 128 - 1" and "b = v mod 128"
    have ub: "128 * (u + 1) + b = v" "b < 128" using False by (simp_all add: u_def b_def)
    then have "u + 1 \<le> drop_bit 7 tmax" using assms(2) by (simp add: drop_bit_eq_div)
    then show ?thesis using False last [OF ub] read_enc_high [OF assms(1), of u tmax "of_nat b # r"]
      by (simp add: enc_int_def readInteger_def u_def b_def)
  qed
qed

section \<open>Compact sizes, strings and vectors\<close>

lemma read_byte_good: "streams ist os \<Longrightarrow> fst (rd8 ist s) \<noteq> None \<Longrightarrow> good ist (snd (rd8 ist s))"
  using streams.rd_bad(1) [of ist os] by (simp add: fails_bad_def)

lemma u64_le_FF: "v < 0xFD \<Longrightarrow> ucast (ucast v :: byte) = (v :: u64)"
  "v \<le> 0xFFFF \<Longrightarrow> ucast (ucast v :: u16) = v"
  "v \<le> 0xFFFFFFFF \<Longrightarrow> ucast (ucast v :: u32) = v"
proof -
  have *: "ucast (ucast v :: 'b::len word) = v" if "uint v < 2 ^ LENGTH('b)" "LENGTH('b) \<le> 64"
  proof -
    have "uint (ucast v :: 'b word) = uint v"
      using that by (simp only: unsigned_ucast_eq) (simp add: take_bit_int_eq_self)
    then show ?thesis using uint_less_exp [of v] by (subst word_uint_eq_iff) (simp only: unsigned_ucast_eq, simp add: take_bit_int_eq_self unsigned_take_bit_eq)
  qed
  show "v < 0xFD \<Longrightarrow> ucast (ucast v :: byte) = v" by (rule *) (simp_all add: word_less_def)
  show "v \<le> 0xFFFF \<Longrightarrow> ucast (ucast v :: u16) = v" by (rule *) (simp_all add: word_le_def)
  show "v \<le> 0xFFFFFFFF \<Longrightarrow> ucast (ucast v :: u32) = v" by (rule *) (simp_all add: word_le_def)
qed

lemma read_loop_good:
  "streams ist os \<Longrightarrow> good ist (snd (read_loop tmax ist n s)) \<longleftrightarrow> fst (read_loop tmax ist n s) \<noteq> None"
proof (induction tmax ist n s rule: read_loop.induct)
  case (1 tmax ist n s)
  note bad = streams.set_bad [OF "1.prems"]
  show ?case
  proof (cases "n > drop_bit 7 tmax")
    case True
    then show ?thesis by (subst (1 2) read_loop.simps) (simp add: bad)
  next
    case False
    show ?thesis
    proof (cases "rd8 ist s")
      case (Pair b s1)
      show ?thesis
      proof (cases b)
        case None
        then show ?thesis using False Pair by (subst (1 2) read_loop.simps) (simp add: bad)
      next
        case (Some x)
        note rd = Pair [unfolded Some]
        define n' where "n' = push_bit 7 n OR unat (x AND 0x7F :: byte)"
        have "read_loop tmax ist n s =
           (if x AND 0x80 \<noteq> 0 then if n' = tmax then (None, set_bad ist s1) else read_loop tmax ist (n' + 1) s1
            else (Some n', s1))"
          using False rd by (subst read_loop.simps) (simp add: Let_def n'_def)
        moreover have "good ist s1" using read_byte_good [OF "1.prems", of s] rd by simp
        ultimately show ?thesis using "1.IH" [OF False rd [symmetric] refl n'_def _ _ "1.prems"] bad by auto
      qed
    qed
  qed
qed

context streams
begin

lemma readCompactSize_write [wire_simps]:
  "readCompactSize ist (of_bytes ist (writeCompactSize os v @ r)) = (Some v, of_bytes ist r)"
proof -
  consider "v < 0xFD" | "\<not> v < 0xFD" "v \<le> 0xFFFF" | "\<not> v < 0xFD" "\<not> v \<le> 0xFFFF" "v \<le> 0xFFFFFFFF"
    | "\<not> v < 0xFD" "\<not> v \<le> 0xFFFF" "\<not> v \<le> 0xFFFFFFFF" by blast
  then show ?thesis
  proof cases
    case 1
    have "ucast v \<noteq> (0xFD :: byte)" "ucast v \<noteq> (0xFE :: byte)" "ucast v \<noteq> (0xFF :: byte)"
      using u64_le_FF(1) [OF 1] 1 by auto
    then show ?thesis using 1 u64_le_FF(1) [OF 1]
      by (simp add: writeCompactSize_def readCompactSize_def)
  qed (simp_all add: writeCompactSize_def readCompactSize_def u64_le_FF)
qed

lemma readString_write [wire_simps]:
  assumes "length s \<le> maxsize" "length s < 2 ^ 64"
  shows "readString ist maxsize old (of_bytes ist (writeString os s @ r)) = (s, of_bytes ist r)"
proof -
  have "unat (of_nat (length s) :: u64) = length s" using assms by (simp add: unat_of_nat)
  then show ?thesis using assms
    by (simp add: readString_def writeString_def readCompactSize_write into_def)
qed

lemma read_items_write:
  assumes "\<forall>x \<in> set xs. reads ist rd new (wr x) (f x)"
  shows "read_items ist rd new (length xs) ys (of_bytes ist (concat (map wr xs) @ r)) = (ys @ map f xs, of_bytes ist r)"
  using assms by (induction xs arbitrary: ys) (simp_all add: reads_def)

lemma readVector_write:
  assumes "\<forall>x \<in> set xs. reads ist rd new (wr x) (f x)" "length xs \<le> maxcount" "length xs < 2 ^ 64"
  shows "readVector ist rd new maxcount [] (of_bytes ist (writeVector os wr xs @ r)) = (map f xs, of_bytes ist r)"
proof -
  have "unat (of_nat (length xs) :: u64) = length xs" using assms by (simp add: unat_of_nat)
  then show ?thesis using assms read_items_write [OF assms(1), of "[]" r]
    by (simp add: readVector_def writeVector_def readCompactSize_write)
qed

lemma into_simps [wire_simps]:
  "into (rd32 ist) x (of_bytes ist (wr32 os w @ r)) = (w, of_bytes ist r)"
  "into (rd64 ist) y (of_bytes ist (wr64 os q @ r)) = (q, of_bytes ist r)"
  "length n = 32 \<Longrightarrow> into (rd_bn ist) z (of_bytes ist (wr_bn os n @ r)) = (n, of_bytes ist r)"
  by (simp_all add: into_def)

end

section \<open>Properties\<close>

text \<open>C33: a variable-length integer of \<open>nbytes\<close> bytes is always written without failing the buffer
  assertion, and reading it back into an integer type that can hold it gives the number and consumes
  exactly the bytes written; hence different numbers have different encodings.\<close>

theorem varint_roundtrip:
  assumes "streams ist os" "v < 2 ^ (8 * nbytes)" "0 < nbytes" "v \<le> tmax"
  shows "\<exists>e. writeInteger nbytes (int v) = Some e \<and>
    (\<forall>r. readInteger tmax ist (of_bytes ist (e @ r)) = (Some v, of_bytes ist r)) \<and>
    (\<forall>u < 2 ^ (8 * nbytes). writeInteger nbytes (int u) = Some e \<longrightarrow> u = v)"
proof -
  have "u = v" if "u < 2 ^ (8 * nbytes)" "writeInteger nbytes (int u) = Some (enc_int v)" for u
  proof -
    have e: "enc_int u = enc_int v" using that writeInteger_enc [of u nbytes] assms(3) by simp
    have "readInteger (max u v) ist (of_bytes ist (enc_int u @ [])) = (Some u, of_bytes ist [])"
      "readInteger (max u v) ist (of_bytes ist (enc_int v @ [])) = (Some v, of_bytes ist [])"
      by (rule readInteger_enc [OF assms(1)], simp)+
    then show ?thesis using e by simp
  qed
  then show ?thesis using writeInteger_enc [OF assms(2,3)] readInteger_enc [OF assms(1,4)] by auto
qed

theorem varint_roundtrip_witness:
  "\<exists>e. writeInteger 4 (int 65535) = Some e \<and>
    readInteger (2 ^ 32 - 1) le_istream (of_bytes le_istream (e @ [])) = (Some 65535, of_bytes le_istream [])"
proof -
  have "\<exists>e. writeInteger 4 (int 65535) = Some e \<and>
    (\<forall>r. readInteger (2 ^ 32 - 1) le_istream (of_bytes le_istream (e @ r)) = (Some 65535, of_bytes le_istream r)) \<and>
    (\<forall>u < 2 ^ (8 * 4). writeInteger 4 (int u) = Some e \<longrightarrow> u = 65535)"
    by (rule varint_roundtrip [OF les.streams_axioms]) simp_all
  then show ?thesis by blast
qed

text \<open>reading a variable-length integer from any stream ends; it never yields more than the
  maximum of its type, so the accumulator of the code never wraps, and when it yields nothing the
  stream is bad.\<close>

theorem varint_read_bounded:
  assumes "streams ist os" "128 dvd Suc tmax"
  shows "case readInteger tmax ist s of (Some v, s') \<Rightarrow> v \<le> tmax \<and> good ist s' | (None, s') \<Rightarrow> \<not> good ist s'"
  using read_loop_bound [OF assms(2), of ist 0 s] read_loop_good [OF assms(1), of tmax 0 s]
  by (auto simp: readInteger_def split: prod.splits option.splits)

theorem varint_read_bounded_witness:
  "case readInteger 127 le_istream (of_bytes le_istream [0x80, 0x80]) of
     (Some v, s') \<Rightarrow> v \<le> 127 \<and> good le_istream s' | (None, s') \<Rightarrow> \<not> good le_istream s'"
  by (rule varint_read_bounded [OF les.streams_axioms]) simp

text \<open>compact sizes, bounded strings and bounded vectors read back as they were written, for any
  element whose reader reads back what its writer wrote (\<open>f x\<close> is what remains of \<open>x\<close>, for elements
  with fields that are not on the wire).\<close>

theorem containers_roundtrip:
  assumes "streams ist os"
  shows "readCompactSize ist (of_bytes ist (writeCompactSize os v @ r)) = (Some v, of_bytes ist r) \<and>
    (length s \<le> maxsize \<longrightarrow> length s < 2 ^ 64 \<longrightarrow>
      readString ist maxsize old (of_bytes ist (writeString os s @ r)) = (s, of_bytes ist r)) \<and>
    ((\<forall>x \<in> set xs. reads ist rd new (wr x) (f x)) \<longrightarrow> length xs \<le> maxcount \<longrightarrow> length xs < 2 ^ 64 \<longrightarrow>
      readVector ist rd new maxcount [] (of_bytes ist (writeVector os wr xs @ r)) = (map f xs, of_bytes ist r))"
  by (intro conjI impI, rule streams.readCompactSize_write [OF assms], erule (1) streams.readString_write [OF assms],
      erule (2) streams.readVector_write [OF assms])

theorem containers_roundtrip_witness:
  "readString le_istream 5 [] (of_bytes le_istream (writeString le_ostream [1, 2, 3] @ [9])) =
     ([1, 2, 3], of_bytes le_istream [9])"
  by (rule containers_roundtrip [OF les.streams_axioms, THEN conjunct2, THEN conjunct1, rule_format]) simp_all

text \<open>a reader refuses a length or a count above its limit before it reads any element: the
  target keeps its value and the stream is bad.\<close>

theorem limits_enforced:
  assumes "streams ist os"
  shows "(maxsize < unat v \<longrightarrow> (\<exists>s'. readString ist maxsize old (of_bytes ist (writeCompactSize os v @ r)) = (old, s') \<and> \<not> good ist s')) \<and>
    (maxcount < unat v \<longrightarrow> (\<exists>s'. readVector ist rd new maxcount items (of_bytes ist (writeCompactSize os v @ r)) = (items, s') \<and> \<not> good ist s'))"
  by (simp_all add: readString_def readVector_def streams.readCompactSize_write [OF assms] streams.set_bad [OF assms])

theorem limits_enforced_witness:
  "\<exists>s'. readString le_istream 3 [] (of_bytes le_istream (writeCompactSize le_ostream 4 @ [1, 2, 3, 4])) = ([], s') \<and>
     \<not> good le_istream s'"
proof -
  have "3 < unat (4 :: u64)" by simp
  then show ?thesis by (rule limits_enforced [OF les.streams_axioms, THEN conjunct1, THEN mp])
qed

end
