(* ===== verification/SipHash.thy ===== *)
theory SipHash
  imports External
begin

text \<open>
  \<open>util/Hasher.hpp\<close> and \<open>util/Hasher.cpp\<close>: the double hashes \<open>Hasher256\<close> and \<open>Hasher160\<close> over the
  library's digests, and SipHash-2-4: the incremental hasher, which takes whole words or bytes, and
  the specialised routines for a 256-bit key, which are shown to compute the incremental hash of
  the key's bytes.
\<close>

section \<open>The double hashes\<close>

text \<open>The digests of the library: the hash of all the bytes given to \<open>update\<close>.\<close>

record digests =
  sha256 :: "bytes \<Rightarrow> uint256"
  ripemd160 :: "bytes \<Rightarrow> bytes"

definition hash256 :: "digests \<Rightarrow> bytes \<Rightarrow> uint256" where
  "hash256 dg b = sha256 dg (sha256 dg b)"

definition hash160 :: "digests \<Rightarrow> bytes \<Rightarrow> bytes" where
  "hash160 dg b = ripemd160 dg (sha256 dg b)"

section \<open>SipHash\<close>

type_synonym sip_v = "u64 \<times> u64 \<times> u64 \<times> u64"

definition ROTL :: "u64 \<Rightarrow> nat \<Rightarrow> u64" where
  "ROTL x b = push_bit b x OR drop_bit (64 - b) x"

fun SIPROUND :: "sip_v \<Rightarrow> sip_v" where
  "SIPROUND (v0, v1, v2, v3) =
     (let v0 = v0 + v1; v1 = ROTL v1 13; v1 = v1 XOR v0;
          v0 = ROTL v0 32;
          v2 = v2 + v3; v3 = ROTL v3 16; v3 = v3 XOR v2;
          v0 = v0 + v3; v3 = ROTL v3 21; v3 = v3 XOR v0;
          v2 = v2 + v1; v1 = ROTL v1 17; v1 = v1 XOR v2;
          v2 = ROTL v2 32
      in (v0, v1, v2, v3))"

text \<open>\<open>v3 ^= d; SIPROUND; SIPROUND; v0 ^= d\<close>, the step every routine takes for a word of input, and
  the end of every routine: \<open>v2 ^= 0xFF\<close>, four rounds and the final combination.\<close>

fun sip_absorb :: "u64 \<Rightarrow> sip_v \<Rightarrow> sip_v" where
  "sip_absorb d (v0, v1, v2, v3) =
     (case SIPROUND (SIPROUND (v0, v1, v2, v3 XOR d)) of (w0, w1, w2, w3) \<Rightarrow> (w0 XOR d, w1, w2, w3))"

fun sip_end :: "sip_v \<Rightarrow> u64" where
  "sip_end (v0, v1, v2, v3) =
     (case (SIPROUND ^^ 4) (v0, v1, v2 XOR 0xFF, v3) of (w0, w1, w2, w3) \<Rightarrow> w0 XOR w1 XOR w2 XOR w3)"

definition sip_init :: "u64 \<Rightarrow> u64 \<Rightarrow> sip_v" where
  "sip_init k0 k1 = (0x736f6d6570736575 XOR k0, 0x646f72616e646f6d XOR k1,
                     0x6c7967656e657261 XOR k0, 0x7465646279746573 XOR k1)"

record SipHasher =
  sip_v :: sip_v
  sip_tmp :: u64
  sip_count :: nat

definition SipHasher_new :: "u64 \<Rightarrow> u64 \<Rightarrow> SipHasher" where
  "SipHasher_new k0 k1 = \<lparr>sip_v = sip_init k0 k1, sip_tmp = 0, sip_count = 0\<rparr>"

definition update_word :: "SipHasher \<Rightarrow> u64 \<Rightarrow> SipHasher option" where
  "update_word h d = do {
     assert_that (sip_count h mod 8 = 0);
     Some (h\<lparr>sip_v := sip_absorb d (sip_v h), sip_count := sip_count h + 8\<rparr>)
   }"

definition update_byte :: "SipHasher \<Rightarrow> byte \<Rightarrow> SipHasher" where
  "update_byte h x =
     (let t = sip_tmp h OR push_bit (8 * (sip_count h mod 8)) (ucast x);
          c = sip_count h + 1
      in if c mod 8 = 0
         then h\<lparr>sip_v := sip_absorb t (sip_v h), sip_tmp := 0, sip_count := c\<rparr>
         else h\<lparr>sip_tmp := t, sip_count := c\<rparr>)"

definition update_bytes :: "SipHasher \<Rightarrow> bytes \<Rightarrow> SipHasher" where
  "update_bytes h b = foldl update_byte h b"

definition sip_finalize :: "SipHasher \<Rightarrow> u64" where
  "sip_finalize h =
     (let t = sip_tmp h OR push_bit 56 (of_nat (sip_count h)) in sip_end (sip_absorb t (sip_v h)))"

text \<open>\<open>get_uint64\<close> of the library's big number is a parameter; the specialised routines start with
  the first word already mixed into \<open>v3\<close>.\<close>

definition sip_key_words :: "(uint256 \<Rightarrow> nat \<Rightarrow> u64) \<Rightarrow> u64 \<Rightarrow> u64 \<Rightarrow> uint256 \<Rightarrow> sip_v" where
  "sip_key_words get_uint64 k0 k1 val =
     (let d = get_uint64 val 0;
          v = (case SIPROUND (SIPROUND (0x736f6d6570736575 XOR k0, 0x646f72616e646f6d XOR k1,
                   0x6c7967656e657261 XOR k0, 0x7465646279746573 XOR k1 XOR d))
               of (w0, w1, w2, w3) \<Rightarrow> (w0 XOR d, w1, w2, w3));
          v = sip_absorb (get_uint64 val 1) v;
          v = sip_absorb (get_uint64 val 2) v
      in sip_absorb (get_uint64 val 3) v)"

definition hashUInt256 :: "(uint256 \<Rightarrow> nat \<Rightarrow> u64) \<Rightarrow> u64 \<Rightarrow> u64 \<Rightarrow> uint256 \<Rightarrow> u64" where
  "hashUInt256 get_uint64 k0 k1 val =
     sip_end (sip_absorb (push_bit 59 4) (sip_key_words get_uint64 k0 k1 val))"

definition hashUInt256WithExtra :: "(uint256 \<Rightarrow> nat \<Rightarrow> u64) \<Rightarrow> u64 \<Rightarrow> u64 \<Rightarrow> uint256 \<Rightarrow> u32 \<Rightarrow> u64" where
  "hashUInt256WithExtra get_uint64 k0 k1 val extra =
     sip_end (sip_absorb (push_bit 56 36 OR ucast extra) (sip_key_words get_uint64 k0 k1 val))"

section \<open>Bytes and words\<close>

lemma update_bytes_append: "update_bytes h (a @ b) = update_bytes (update_bytes h a) b"
  by (simp add: update_bytes_def)

lemma bit_le_word:
  "bit (le_word b :: 'a::len word) i \<longleftrightarrow> i < LENGTH('a) \<and> i div 8 < length b \<and> bit (b ! (i div 8)) (i mod 8)"
proof -
  have "bit (bytes_val b) i \<longleftrightarrow> i div 8 < length b \<and> bit (b ! (i div 8)) (i mod 8)"
    using bit_horner_sum_uint_exp_iff [of b i] by (simp add: bytes_val_def)
  then show ?thesis by (simp add: le_word_def bit_word_of_int_iff)
qed

lemma le_word_snoc: "le_word (b @ [x]) = le_word b OR push_bit (8 * length b) (ucast x :: 'a::len word)"
proof (rule bit_word_eqI)
  fix i assume i: "i < LENGTH('a)"
  consider "i div 8 < length b" | "i div 8 = length b" | "length b < i div 8" by linarith
  then show "bit (le_word (b @ [x]) :: 'a word) i =
      bit (le_word b OR push_bit (8 * length b) (ucast x :: 'a word)) i"
  proof cases
    case 1
    then have "\<not> 8 * length b \<le> i" by linarith
    then show ?thesis using 1 i by (simp add: bit_le_word bit_or_iff bit_push_bit_iff nth_append)
  next
    case 2
    then have "i = 8 * length b + i mod 8" by (metis mult_div_mod_eq)
    then have "8 * length b \<le> i" "i - 8 * length b = i mod 8" by linarith+
    then show ?thesis using 2 i by (auto simp: bit_le_word bit_or_iff bit_push_bit_iff bit_ucast_iff)
  next
    case 3
    then have "8 \<le> i - 8 * length b" by linarith
    then have "\<not> bit x (i - 8 * length b)" using bit_imp_le_length [of x "i - 8 * length b"] by auto
    then show ?thesis using 3 i by (auto simp: bit_le_word bit_or_iff bit_push_bit_iff bit_ucast_iff)
  qed
qed

lemma update_partial:
  assumes "sip_count h mod 8 = 0" "sip_tmp h = 0" "length b < 8"
  shows "update_bytes h b = h\<lparr>sip_tmp := le_word b, sip_count := sip_count h + length b\<rparr>"
  using assms(3)
proof (induction b rule: rev_induct)
  case Nil
  then show ?case using assms by (simp add: update_bytes_def le_word_def)
next
  case (snoc x b)
  have "(sip_count h + length b) mod 8 = length b" "Suc (sip_count h + length b) mod 8 \<noteq> 0"
    using assms snoc.prems by (simp_all add: mod_add_eq [symmetric, of "sip_count h"] mod_Suc)
  then show ?case using snoc
    by (simp add: update_bytes_append) (simp add: update_bytes_def update_byte_def le_word_snoc)
qed

lemma update_bytes_word:
  assumes "sip_count h mod 8 = 0" "sip_tmp h = 0" "length b = 8"
  shows "update_word h (le_word b) = Some (update_bytes h b)"
proof -
  obtain a x where b: "b = a @ [x]" "length a = 7" using assms(3) by (cases b rule: rev_cases) auto
  have "(sip_count h + 7) mod 8 = 7" "Suc (sip_count h + 7) mod 8 = 0"
    using assms by presburger+
  then show ?thesis using assms b update_partial [of h a]
    by (simp add: update_bytes_append) (simp add: update_bytes_def update_byte_def update_word_def le_word_snoc)
qed

text \<open>What the code relies on of \<open>get_uint64\<close>: word \<open>i\<close> of the number is little-endian in its bytes.\<close>

definition get_uint64_law :: "(uint256 \<Rightarrow> nat \<Rightarrow> u64) \<Rightarrow> bool" where
  "get_uint64_law g \<longleftrightarrow> (\<forall>val i. length val = 32 \<longrightarrow> i < 4 \<longrightarrow> g val i = le_word (take 8 (drop (8 * i) val)))"

lemma update_bytes_words:
  assumes "sip_count h mod 8 = 0" "sip_tmp h = 0" "length b = 8"
  shows "update_bytes h b = h\<lparr>sip_v := sip_absorb (le_word b) (sip_v h), sip_count := sip_count h + 8\<rparr>"
  using update_bytes_word [OF assms] assms(1) by (simp add: update_word_def)

declare SIPROUND.simps [simp del] sip_absorb.simps [simp del] sip_end.simps [simp del]

lemma sip_key_words_absorb:
  "sip_key_words g k0 k1 val =
     sip_absorb (g val 3) (sip_absorb (g val 2) (sip_absorb (g val 1) (sip_absorb (g val 0) (sip_init k0 k1))))"
  by (simp add: sip_key_words_def sip_init_def sip_absorb.simps [of _ "_ XOR _"] Let_def xor.assoc)

lemma sip_key_words_update:
  assumes g: "get_uint64_law g" and len: "length val = 32"
  shows "update_bytes (SipHasher_new k0 k1) val = \<lparr>sip_v = sip_key_words g k0 k1 val, sip_tmp = 0, sip_count = 32\<rparr>"
proof -
  define b where "b i = take 8 (drop (8 * i) val)" for i
  have gb: "g val i = le_word (b i)" if "i < 4" for i
    using g len that by (simp add: get_uint64_law_def b_def)
  have val: "val = b 0 @ b 1 @ b 2 @ b 3"
  proof -
    have "val = take 8 val @ take 8 (drop 8 val) @ take 8 (drop 8 (drop 8 val)) @ drop 8 (drop 8 (drop 8 val))"
      by (simp only: append_take_drop_id)
    then show ?thesis using len by (simp add: b_def)
  qed
  have lb: "length (b i) = 8" if "i < 4" for i using len that by (simp add: b_def)
  have "update_bytes (SipHasher_new k0 k1) (b 0 @ b 1 @ b 2 @ b 3) =
      \<lparr>sip_v = sip_key_words g k0 k1 val, sip_tmp = 0, sip_count = 32\<rparr>"
    by (simp add: update_bytes_append update_bytes_words SipHasher_new_def lb sip_key_words_absorb gb)
  then show ?thesis using val by simp
qed

section \<open>Properties\<close>

text \<open>the specialised SipHash routines, used to bucket coins and blocks, compute the incremental
  hash: \<open>hashUInt256\<close> is the hasher's value after the 32 bytes of the key, and
  \<open>hashUInt256WithExtra\<close> its value after the key and the four little-endian bytes of the extra word.\<close>

theorem siphash_specialised:
  assumes "get_uint64_law g" "length val = 32"
  shows "hashUInt256 g k0 k1 val = sip_finalize (update_bytes (SipHasher_new k0 k1) val) \<and>
    hashUInt256WithExtra g k0 k1 val extra =
      sip_finalize (update_bytes (SipHasher_new k0 k1) (val @ le_bytes 4 extra))"
proof (intro conjI)
  note k = sip_key_words_update [OF assms, of k0 k1]
  show "hashUInt256 g k0 k1 val = sip_finalize (update_bytes (SipHasher_new k0 k1) val)"
    by (simp add: k hashUInt256_def sip_finalize_def push_bit_eq_mult)
  have "(le_word (le_bytes 4 extra) :: u64) = ucast extra"
    by (simp add: le_word_def bytes_val_le_bytes word_uint_eq_iff uint_word_of_int unsigned_ucast_eq)
      (use uint_less_exp [of extra] in \<open>simp add: take_bit_int_eq_self\<close>)
  then show "hashUInt256WithExtra g k0 k1 val extra =
      sip_finalize (update_bytes (SipHasher_new k0 k1) (val @ le_bytes 4 extra))"
    by (simp add: update_bytes_append k update_partial hashUInt256WithExtra_def sip_finalize_def push_bit_eq_mult or.commute)
qed

theorem siphash_specialised_witness:
  "hashUInt256 (\<lambda>val i. le_word (take 8 (drop (8 * i) val))) 1 2 (replicate 32 7) =
     sip_finalize (update_bytes (SipHasher_new 1 2) (replicate 32 7))"
  by (rule siphash_specialised [THEN conjunct1]) (simp_all add: get_uint64_law_def)

end
