(* ===== verification/Script.thy ===== *)
theory Script
  imports Serialization SipHash
begin

text \<open>
  \<open>script/Script.hpp\<close> and \<open>script/Script.cpp\<close>: the opcodes and error codes with their names,
  hexadecimal text, the numbers of the script language, and the writers and the builder that put
  numbers and strings into a script.

  An \<open>opcodetype\<close> is a byte, since the code casts every byte of a script to it. An \<open>int64_t\<close> is an
  integer in its range: signed overflow is undefined in C++, so an operation whose result leaves
  the range gives \<open>None\<close>, as a failed assertion does.
\<close>

section \<open>Opcodes\<close>

definition MAX_PUBKEYS_PER_MULTISIG :: int where
  "MAX_PUBKEYS_PER_MULTISIG = 20"

abbreviation (input) OP_0 :: byte where "OP_0 \<equiv> 0x00"
abbreviation (input) OP_FALSE :: byte where "OP_FALSE \<equiv> OP_0"
abbreviation (input) OP_PUSHDATA1 :: byte where "OP_PUSHDATA1 \<equiv> 0x4c"
abbreviation (input) OP_PUSHDATA2 :: byte where "OP_PUSHDATA2 \<equiv> 0x4d"
abbreviation (input) OP_PUSHDATA4 :: byte where "OP_PUSHDATA4 \<equiv> 0x4e"
abbreviation (input) OP_1NEGATE :: byte where "OP_1NEGATE \<equiv> 0x4f"
abbreviation (input) OP_RESERVED :: byte where "OP_RESERVED \<equiv> 0x50"
abbreviation (input) OP_1 :: byte where "OP_1 \<equiv> 0x51"
abbreviation (input) OP_TRUE :: byte where "OP_TRUE \<equiv> OP_1"
abbreviation (input) OP_2 :: byte where "OP_2 \<equiv> 0x52"
abbreviation (input) OP_3 :: byte where "OP_3 \<equiv> 0x53"
abbreviation (input) OP_4 :: byte where "OP_4 \<equiv> 0x54"
abbreviation (input) OP_5 :: byte where "OP_5 \<equiv> 0x55"
abbreviation (input) OP_6 :: byte where "OP_6 \<equiv> 0x56"
abbreviation (input) OP_7 :: byte where "OP_7 \<equiv> 0x57"
abbreviation (input) OP_8 :: byte where "OP_8 \<equiv> 0x58"
abbreviation (input) OP_9 :: byte where "OP_9 \<equiv> 0x59"
abbreviation (input) OP_10 :: byte where "OP_10 \<equiv> 0x5a"
abbreviation (input) OP_11 :: byte where "OP_11 \<equiv> 0x5b"
abbreviation (input) OP_12 :: byte where "OP_12 \<equiv> 0x5c"
abbreviation (input) OP_13 :: byte where "OP_13 \<equiv> 0x5d"
abbreviation (input) OP_14 :: byte where "OP_14 \<equiv> 0x5e"
abbreviation (input) OP_15 :: byte where "OP_15 \<equiv> 0x5f"
abbreviation (input) OP_16 :: byte where "OP_16 \<equiv> 0x60"
abbreviation (input) OP_NOP :: byte where "OP_NOP \<equiv> 0x61"
abbreviation (input) OP_VER :: byte where "OP_VER \<equiv> 0x62"
abbreviation (input) OP_IF :: byte where "OP_IF \<equiv> 0x63"
abbreviation (input) OP_NOTIF :: byte where "OP_NOTIF \<equiv> 0x64"
abbreviation (input) OP_VERIF :: byte where "OP_VERIF \<equiv> 0x65"
abbreviation (input) OP_VERNOTIF :: byte where "OP_VERNOTIF \<equiv> 0x66"
abbreviation (input) OP_ELSE :: byte where "OP_ELSE \<equiv> 0x67"
abbreviation (input) OP_ENDIF :: byte where "OP_ENDIF \<equiv> 0x68"
abbreviation (input) OP_VERIFY :: byte where "OP_VERIFY \<equiv> 0x69"
abbreviation (input) OP_RETURN :: byte where "OP_RETURN \<equiv> 0x6a"
abbreviation (input) OP_TOALTSTACK :: byte where "OP_TOALTSTACK \<equiv> 0x6b"
abbreviation (input) OP_FROMALTSTACK :: byte where "OP_FROMALTSTACK \<equiv> 0x6c"
abbreviation (input) OP_2DROP :: byte where "OP_2DROP \<equiv> 0x6d"
abbreviation (input) OP_2DUP :: byte where "OP_2DUP \<equiv> 0x6e"
abbreviation (input) OP_3DUP :: byte where "OP_3DUP \<equiv> 0x6f"
abbreviation (input) OP_2OVER :: byte where "OP_2OVER \<equiv> 0x70"
abbreviation (input) OP_2ROT :: byte where "OP_2ROT \<equiv> 0x71"
abbreviation (input) OP_2SWAP :: byte where "OP_2SWAP \<equiv> 0x72"
abbreviation (input) OP_IFDUP :: byte where "OP_IFDUP \<equiv> 0x73"
abbreviation (input) OP_DEPTH :: byte where "OP_DEPTH \<equiv> 0x74"
abbreviation (input) OP_DROP :: byte where "OP_DROP \<equiv> 0x75"
abbreviation (input) OP_DUP :: byte where "OP_DUP \<equiv> 0x76"
abbreviation (input) OP_NIP :: byte where "OP_NIP \<equiv> 0x77"
abbreviation (input) OP_OVER :: byte where "OP_OVER \<equiv> 0x78"
abbreviation (input) OP_PICK :: byte where "OP_PICK \<equiv> 0x79"
abbreviation (input) OP_ROLL :: byte where "OP_ROLL \<equiv> 0x7a"
abbreviation (input) OP_ROT :: byte where "OP_ROT \<equiv> 0x7b"
abbreviation (input) OP_SWAP :: byte where "OP_SWAP \<equiv> 0x7c"
abbreviation (input) OP_TUCK :: byte where "OP_TUCK \<equiv> 0x7d"
abbreviation (input) OP_CAT :: byte where "OP_CAT \<equiv> 0x7e"
abbreviation (input) OP_SUBSTR :: byte where "OP_SUBSTR \<equiv> 0x7f"
abbreviation (input) OP_LEFT :: byte where "OP_LEFT \<equiv> 0x80"
abbreviation (input) OP_RIGHT :: byte where "OP_RIGHT \<equiv> 0x81"
abbreviation (input) OP_SIZE :: byte where "OP_SIZE \<equiv> 0x82"
abbreviation (input) OP_INVERT :: byte where "OP_INVERT \<equiv> 0x83"
abbreviation (input) OP_AND :: byte where "OP_AND \<equiv> 0x84"
abbreviation (input) OP_OR :: byte where "OP_OR \<equiv> 0x85"
abbreviation (input) OP_XOR :: byte where "OP_XOR \<equiv> 0x86"
abbreviation (input) OP_EQUAL :: byte where "OP_EQUAL \<equiv> 0x87"
abbreviation (input) OP_EQUALVERIFY :: byte where "OP_EQUALVERIFY \<equiv> 0x88"
abbreviation (input) OP_RESERVED1 :: byte where "OP_RESERVED1 \<equiv> 0x89"
abbreviation (input) OP_RESERVED2 :: byte where "OP_RESERVED2 \<equiv> 0x8a"
abbreviation (input) OP_1ADD :: byte where "OP_1ADD \<equiv> 0x8b"
abbreviation (input) OP_1SUB :: byte where "OP_1SUB \<equiv> 0x8c"
abbreviation (input) OP_2MUL :: byte where "OP_2MUL \<equiv> 0x8d"
abbreviation (input) OP_2DIV :: byte where "OP_2DIV \<equiv> 0x8e"
abbreviation (input) OP_NEGATE :: byte where "OP_NEGATE \<equiv> 0x8f"
abbreviation (input) OP_ABS :: byte where "OP_ABS \<equiv> 0x90"
abbreviation (input) OP_NOT :: byte where "OP_NOT \<equiv> 0x91"
abbreviation (input) OP_0NOTEQUAL :: byte where "OP_0NOTEQUAL \<equiv> 0x92"
abbreviation (input) OP_ADD :: byte where "OP_ADD \<equiv> 0x93"
abbreviation (input) OP_SUB :: byte where "OP_SUB \<equiv> 0x94"
abbreviation (input) OP_MUL :: byte where "OP_MUL \<equiv> 0x95"
abbreviation (input) OP_DIV :: byte where "OP_DIV \<equiv> 0x96"
abbreviation (input) OP_MOD :: byte where "OP_MOD \<equiv> 0x97"
abbreviation (input) OP_LSHIFT :: byte where "OP_LSHIFT \<equiv> 0x98"
abbreviation (input) OP_RSHIFT :: byte where "OP_RSHIFT \<equiv> 0x99"
abbreviation (input) OP_BOOLAND :: byte where "OP_BOOLAND \<equiv> 0x9a"
abbreviation (input) OP_BOOLOR :: byte where "OP_BOOLOR \<equiv> 0x9b"
abbreviation (input) OP_NUMEQUAL :: byte where "OP_NUMEQUAL \<equiv> 0x9c"
abbreviation (input) OP_NUMEQUALVERIFY :: byte where "OP_NUMEQUALVERIFY \<equiv> 0x9d"
abbreviation (input) OP_NUMNOTEQUAL :: byte where "OP_NUMNOTEQUAL \<equiv> 0x9e"
abbreviation (input) OP_LESSTHAN :: byte where "OP_LESSTHAN \<equiv> 0x9f"
abbreviation (input) OP_GREATERTHAN :: byte where "OP_GREATERTHAN \<equiv> 0xa0"
abbreviation (input) OP_LESSTHANOREQUAL :: byte where "OP_LESSTHANOREQUAL \<equiv> 0xa1"
abbreviation (input) OP_GREATERTHANOREQUAL :: byte where "OP_GREATERTHANOREQUAL \<equiv> 0xa2"
abbreviation (input) OP_MIN :: byte where "OP_MIN \<equiv> 0xa3"
abbreviation (input) OP_MAX :: byte where "OP_MAX \<equiv> 0xa4"
abbreviation (input) OP_WITHIN :: byte where "OP_WITHIN \<equiv> 0xa5"
abbreviation (input) OP_RIPEMD160 :: byte where "OP_RIPEMD160 \<equiv> 0xa6"
abbreviation (input) OP_SHA1 :: byte where "OP_SHA1 \<equiv> 0xa7"
abbreviation (input) OP_SHA256 :: byte where "OP_SHA256 \<equiv> 0xa8"
abbreviation (input) OP_HASH160 :: byte where "OP_HASH160 \<equiv> 0xa9"
abbreviation (input) OP_HASH256 :: byte where "OP_HASH256 \<equiv> 0xaa"
abbreviation (input) OP_CODESEPARATOR :: byte where "OP_CODESEPARATOR \<equiv> 0xab"
abbreviation (input) OP_CHECKSIG :: byte where "OP_CHECKSIG \<equiv> 0xac"
abbreviation (input) OP_CHECKSIGVERIFY :: byte where "OP_CHECKSIGVERIFY \<equiv> 0xad"
abbreviation (input) OP_CHECKMULTISIG :: byte where "OP_CHECKMULTISIG \<equiv> 0xae"
abbreviation (input) OP_CHECKMULTISIGVERIFY :: byte where "OP_CHECKMULTISIGVERIFY \<equiv> 0xaf"
abbreviation (input) OP_NOP1 :: byte where "OP_NOP1 \<equiv> 0xb0"
abbreviation (input) OP_CHECKLOCKTIMEVERIFY :: byte where "OP_CHECKLOCKTIMEVERIFY \<equiv> 0xb1"
abbreviation (input) OP_NOP2 :: byte where "OP_NOP2 \<equiv> OP_CHECKLOCKTIMEVERIFY"
abbreviation (input) OP_CHECKSEQUENCEVERIFY :: byte where "OP_CHECKSEQUENCEVERIFY \<equiv> 0xb2"
abbreviation (input) OP_NOP3 :: byte where "OP_NOP3 \<equiv> OP_CHECKSEQUENCEVERIFY"
abbreviation (input) OP_NOP4 :: byte where "OP_NOP4 \<equiv> 0xb3"
abbreviation (input) OP_NOP5 :: byte where "OP_NOP5 \<equiv> 0xb4"
abbreviation (input) OP_NOP6 :: byte where "OP_NOP6 \<equiv> 0xb5"
abbreviation (input) OP_NOP7 :: byte where "OP_NOP7 \<equiv> 0xb6"
abbreviation (input) OP_NOP8 :: byte where "OP_NOP8 \<equiv> 0xb7"
abbreviation (input) OP_NOP9 :: byte where "OP_NOP9 \<equiv> 0xb8"
abbreviation (input) OP_NOP10 :: byte where "OP_NOP10 \<equiv> 0xb9"
abbreviation (input) OP_SMALLINTEGER :: byte where "OP_SMALLINTEGER \<equiv> 0xfa"
abbreviation (input) OP_PUBKEYS :: byte where "OP_PUBKEYS \<equiv> 0xfb"
abbreviation (input) OP_PUBKEYHASH :: byte where "OP_PUBKEYHASH \<equiv> 0xfd"
abbreviation (input) OP_PUBKEY :: byte where "OP_PUBKEY \<equiv> 0xfe"
abbreviation (input) OP_INVALIDOPCODE :: byte where "OP_INVALIDOPCODE \<equiv> 0xff"

text \<open>The enumeration as a table.\<close>

definition opcode_values :: "(string \<times> byte) list" where
  "opcode_values = [
     (''OP_0'', OP_0), (''OP_FALSE'', OP_FALSE), (''OP_PUSHDATA1'', OP_PUSHDATA1)
     , (''OP_PUSHDATA2'', OP_PUSHDATA2), (''OP_PUSHDATA4'', OP_PUSHDATA4)
     , (''OP_1NEGATE'', OP_1NEGATE), (''OP_RESERVED'', OP_RESERVED), (''OP_1'', OP_1)
     , (''OP_TRUE'', OP_TRUE), (''OP_2'', OP_2), (''OP_3'', OP_3), (''OP_4'', OP_4)
     , (''OP_5'', OP_5), (''OP_6'', OP_6), (''OP_7'', OP_7), (''OP_8'', OP_8), (''OP_9'', OP_9)
     , (''OP_10'', OP_10), (''OP_11'', OP_11), (''OP_12'', OP_12), (''OP_13'', OP_13)
     , (''OP_14'', OP_14), (''OP_15'', OP_15), (''OP_16'', OP_16), (''OP_NOP'', OP_NOP)
     , (''OP_VER'', OP_VER), (''OP_IF'', OP_IF), (''OP_NOTIF'', OP_NOTIF)
     , (''OP_VERIF'', OP_VERIF), (''OP_VERNOTIF'', OP_VERNOTIF), (''OP_ELSE'', OP_ELSE)
     , (''OP_ENDIF'', OP_ENDIF), (''OP_VERIFY'', OP_VERIFY), (''OP_RETURN'', OP_RETURN)
     , (''OP_TOALTSTACK'', OP_TOALTSTACK), (''OP_FROMALTSTACK'', OP_FROMALTSTACK)
     , (''OP_2DROP'', OP_2DROP), (''OP_2DUP'', OP_2DUP), (''OP_3DUP'', OP_3DUP)
     , (''OP_2OVER'', OP_2OVER), (''OP_2ROT'', OP_2ROT), (''OP_2SWAP'', OP_2SWAP)
     , (''OP_IFDUP'', OP_IFDUP), (''OP_DEPTH'', OP_DEPTH), (''OP_DROP'', OP_DROP)
     , (''OP_DUP'', OP_DUP), (''OP_NIP'', OP_NIP), (''OP_OVER'', OP_OVER), (''OP_PICK'', OP_PICK)
     , (''OP_ROLL'', OP_ROLL), (''OP_ROT'', OP_ROT), (''OP_SWAP'', OP_SWAP)
     , (''OP_TUCK'', OP_TUCK), (''OP_CAT'', OP_CAT), (''OP_SUBSTR'', OP_SUBSTR)
     , (''OP_LEFT'', OP_LEFT), (''OP_RIGHT'', OP_RIGHT), (''OP_SIZE'', OP_SIZE)
     , (''OP_INVERT'', OP_INVERT), (''OP_AND'', OP_AND), (''OP_OR'', OP_OR), (''OP_XOR'', OP_XOR)
     , (''OP_EQUAL'', OP_EQUAL), (''OP_EQUALVERIFY'', OP_EQUALVERIFY)
     , (''OP_RESERVED1'', OP_RESERVED1), (''OP_RESERVED2'', OP_RESERVED2), (''OP_1ADD'', OP_1ADD)
     , (''OP_1SUB'', OP_1SUB), (''OP_2MUL'', OP_2MUL), (''OP_2DIV'', OP_2DIV)
     , (''OP_NEGATE'', OP_NEGATE), (''OP_ABS'', OP_ABS), (''OP_NOT'', OP_NOT)
     , (''OP_0NOTEQUAL'', OP_0NOTEQUAL), (''OP_ADD'', OP_ADD), (''OP_SUB'', OP_SUB)
     , (''OP_MUL'', OP_MUL), (''OP_DIV'', OP_DIV), (''OP_MOD'', OP_MOD)
     , (''OP_LSHIFT'', OP_LSHIFT), (''OP_RSHIFT'', OP_RSHIFT), (''OP_BOOLAND'', OP_BOOLAND)
     , (''OP_BOOLOR'', OP_BOOLOR), (''OP_NUMEQUAL'', OP_NUMEQUAL)
     , (''OP_NUMEQUALVERIFY'', OP_NUMEQUALVERIFY), (''OP_NUMNOTEQUAL'', OP_NUMNOTEQUAL)
     , (''OP_LESSTHAN'', OP_LESSTHAN), (''OP_GREATERTHAN'', OP_GREATERTHAN)
     , (''OP_LESSTHANOREQUAL'', OP_LESSTHANOREQUAL)
     , (''OP_GREATERTHANOREQUAL'', OP_GREATERTHANOREQUAL), (''OP_MIN'', OP_MIN)
     , (''OP_MAX'', OP_MAX), (''OP_WITHIN'', OP_WITHIN), (''OP_RIPEMD160'', OP_RIPEMD160)
     , (''OP_SHA1'', OP_SHA1), (''OP_SHA256'', OP_SHA256), (''OP_HASH160'', OP_HASH160)
     , (''OP_HASH256'', OP_HASH256), (''OP_CODESEPARATOR'', OP_CODESEPARATOR)
     , (''OP_CHECKSIG'', OP_CHECKSIG), (''OP_CHECKSIGVERIFY'', OP_CHECKSIGVERIFY)
     , (''OP_CHECKMULTISIG'', OP_CHECKMULTISIG)
     , (''OP_CHECKMULTISIGVERIFY'', OP_CHECKMULTISIGVERIFY), (''OP_NOP1'', OP_NOP1)
     , (''OP_CHECKLOCKTIMEVERIFY'', OP_CHECKLOCKTIMEVERIFY), (''OP_NOP2'', OP_NOP2)
     , (''OP_CHECKSEQUENCEVERIFY'', OP_CHECKSEQUENCEVERIFY), (''OP_NOP3'', OP_NOP3)
     , (''OP_NOP4'', OP_NOP4), (''OP_NOP5'', OP_NOP5), (''OP_NOP6'', OP_NOP6)
     , (''OP_NOP7'', OP_NOP7), (''OP_NOP8'', OP_NOP8), (''OP_NOP9'', OP_NOP9)
     , (''OP_NOP10'', OP_NOP10), (''OP_SMALLINTEGER'', OP_SMALLINTEGER)
     , (''OP_PUBKEYS'', OP_PUBKEYS), (''OP_PUBKEYHASH'', OP_PUBKEYHASH)
     , (''OP_PUBKEY'', OP_PUBKEY), (''OP_INVALIDOPCODE'', OP_INVALIDOPCODE)]"

definition getOpName :: "byte \<Rightarrow> string" where
  "getOpName opcode = (case map_of [
     (OP_0, ''0''), (OP_PUSHDATA1, ''OP_PUSHDATA1''), (OP_PUSHDATA2, ''OP_PUSHDATA2'')
     , (OP_PUSHDATA4, ''OP_PUSHDATA4''), (OP_1NEGATE, ''-1''), (OP_RESERVED, ''OP_RESERVED'')
     , (OP_1, ''1''), (OP_2, ''2''), (OP_3, ''3''), (OP_4, ''4''), (OP_5, ''5''), (OP_6, ''6'')
     , (OP_7, ''7''), (OP_8, ''8''), (OP_9, ''9''), (OP_10, ''10''), (OP_11, ''11'')
     , (OP_12, ''12''), (OP_13, ''13''), (OP_14, ''14''), (OP_15, ''15''), (OP_16, ''16'')
     , (OP_NOP, ''OP_NOP''), (OP_VER, ''OP_VER''), (OP_IF, ''OP_IF''), (OP_NOTIF, ''OP_NOTIF'')
     , (OP_VERIF, ''OP_VERIF''), (OP_VERNOTIF, ''OP_VERNOTIF''), (OP_ELSE, ''OP_ELSE'')
     , (OP_ENDIF, ''OP_ENDIF''), (OP_VERIFY, ''OP_VERIFY''), (OP_RETURN, ''OP_RETURN'')
     , (OP_TOALTSTACK, ''OP_TOALTSTACK''), (OP_FROMALTSTACK, ''OP_FROMALTSTACK'')
     , (OP_2DROP, ''OP_2DROP''), (OP_2DUP, ''OP_2DUP''), (OP_3DUP, ''OP_3DUP'')
     , (OP_2OVER, ''OP_2OVER''), (OP_2ROT, ''OP_2ROT''), (OP_2SWAP, ''OP_2SWAP'')
     , (OP_IFDUP, ''OP_IFDUP''), (OP_DEPTH, ''OP_DEPTH''), (OP_DROP, ''OP_DROP'')
     , (OP_DUP, ''OP_DUP''), (OP_NIP, ''OP_NIP''), (OP_OVER, ''OP_OVER''), (OP_PICK, ''OP_PICK'')
     , (OP_ROLL, ''OP_ROLL''), (OP_ROT, ''OP_ROT''), (OP_SWAP, ''OP_SWAP'')
     , (OP_TUCK, ''OP_TUCK''), (OP_CAT, ''OP_CAT''), (OP_SUBSTR, ''OP_SUBSTR'')
     , (OP_LEFT, ''OP_LEFT''), (OP_RIGHT, ''OP_RIGHT''), (OP_SIZE, ''OP_SIZE'')
     , (OP_INVERT, ''OP_INVERT''), (OP_AND, ''OP_AND''), (OP_OR, ''OP_OR''), (OP_XOR, ''OP_XOR'')
     , (OP_EQUAL, ''OP_EQUAL''), (OP_EQUALVERIFY, ''OP_EQUALVERIFY'')
     , (OP_RESERVED1, ''OP_RESERVED1''), (OP_RESERVED2, ''OP_RESERVED2''), (OP_1ADD, ''OP_1ADD'')
     , (OP_1SUB, ''OP_1SUB''), (OP_2MUL, ''OP_2MUL''), (OP_2DIV, ''OP_2DIV'')
     , (OP_NEGATE, ''OP_NEGATE''), (OP_ABS, ''OP_ABS''), (OP_NOT, ''OP_NOT'')
     , (OP_0NOTEQUAL, ''OP_0NOTEQUAL''), (OP_ADD, ''OP_ADD''), (OP_SUB, ''OP_SUB'')
     , (OP_MUL, ''OP_MUL''), (OP_DIV, ''OP_DIV''), (OP_MOD, ''OP_MOD'')
     , (OP_LSHIFT, ''OP_LSHIFT''), (OP_RSHIFT, ''OP_RSHIFT''), (OP_BOOLAND, ''OP_BOOLAND'')
     , (OP_BOOLOR, ''OP_BOOLOR''), (OP_NUMEQUAL, ''OP_NUMEQUAL'')
     , (OP_NUMEQUALVERIFY, ''OP_NUMEQUALVERIFY''), (OP_NUMNOTEQUAL, ''OP_NUMNOTEQUAL'')
     , (OP_LESSTHAN, ''OP_LESSTHAN''), (OP_GREATERTHAN, ''OP_GREATERTHAN'')
     , (OP_LESSTHANOREQUAL, ''OP_LESSTHANOREQUAL'')
     , (OP_GREATERTHANOREQUAL, ''OP_GREATERTHANOREQUAL''), (OP_MIN, ''OP_MIN'')
     , (OP_MAX, ''OP_MAX''), (OP_WITHIN, ''OP_WITHIN''), (OP_RIPEMD160, ''OP_RIPEMD160'')
     , (OP_SHA1, ''OP_SHA1''), (OP_SHA256, ''OP_SHA256''), (OP_HASH160, ''OP_HASH160'')
     , (OP_HASH256, ''OP_HASH256''), (OP_CODESEPARATOR, ''OP_CODESEPARATOR'')
     , (OP_CHECKSIG, ''OP_CHECKSIG''), (OP_CHECKSIGVERIFY, ''OP_CHECKSIGVERIFY'')
     , (OP_CHECKMULTISIG, ''OP_CHECKMULTISIG'')
     , (OP_CHECKMULTISIGVERIFY, ''OP_CHECKMULTISIGVERIFY''), (OP_NOP1, ''OP_NOP1'')
     , (OP_CHECKLOCKTIMEVERIFY, ''OP_CHECKLOCKTIMEVERIFY'')
     , (OP_CHECKSEQUENCEVERIFY, ''OP_CHECKSEQUENCEVERIFY''), (OP_NOP4, ''OP_NOP4'')
     , (OP_NOP5, ''OP_NOP5''), (OP_NOP6, ''OP_NOP6''), (OP_NOP7, ''OP_NOP7'')
     , (OP_NOP8, ''OP_NOP8''), (OP_NOP9, ''OP_NOP9''), (OP_NOP10, ''OP_NOP10'')
     , (OP_INVALIDOPCODE, ''OP_INVALIDOPCODE'')] opcode
     of Some name \<Rightarrow> name | None \<Rightarrow> ''OP_UNKNOWN'')"

section \<open>Errors\<close>

datatype ScriptError =
   SCRIPT_ERR_OK | SCRIPT_ERR_UNKNOWN_ERROR | SCRIPT_ERR_EVAL_FALSE | SCRIPT_ERR_OP_RETURN
    | SCRIPT_ERR_SCRIPT_SIZE | SCRIPT_ERR_PUSH_SIZE | SCRIPT_ERR_OP_COUNT | SCRIPT_ERR_STACK_SIZE
    | SCRIPT_ERR_SIG_COUNT | SCRIPT_ERR_PUBKEY_COUNT | SCRIPT_ERR_VERIFY | SCRIPT_ERR_EQUALVERIFY
    | SCRIPT_ERR_CHECKMULTISIGVERIFY | SCRIPT_ERR_CHECKSIGVERIFY | SCRIPT_ERR_NUMEQUALVERIFY
    | SCRIPT_ERR_BAD_OPCODE | SCRIPT_ERR_DISABLED_OPCODE | SCRIPT_ERR_INVALID_STACK_OPERATION
    | SCRIPT_ERR_INVALID_ALTSTACK_OPERATION | SCRIPT_ERR_UNBALANCED_CONDITIONAL
    | SCRIPT_ERR_NEGATIVE_LOCKTIME | SCRIPT_ERR_UNSATISFIED_LOCKTIME | SCRIPT_ERR_SIG_HASHTYPE
    | SCRIPT_ERR_SIG_DER | SCRIPT_ERR_MINIMALDATA | SCRIPT_ERR_SIG_PUSHONLY
    | SCRIPT_ERR_SIG_HIGH_S | SCRIPT_ERR_SIG_NULLDUMMY | SCRIPT_ERR_PUBKEYTYPE
    | SCRIPT_ERR_CLEANSTACK | SCRIPT_ERR_MINIMALIF | SCRIPT_ERR_SIG_NULLFAIL
    | SCRIPT_ERR_DISCOURAGE_UPGRADABLE_NOPS | SCRIPT_ERR_DISCOURAGE_UPGRADABLE_WITNESS_PROGRAM
    | SCRIPT_ERR_WITNESS_PROGRAM_WRONG_LENGTH | SCRIPT_ERR_WITNESS_PROGRAM_WITNESS_EMPTY
    | SCRIPT_ERR_WITNESS_PROGRAM_MISMATCH | SCRIPT_ERR_WITNESS_MALLEATED
    | SCRIPT_ERR_WITNESS_MALLEATED_P2SH | SCRIPT_ERR_WITNESS_UNEXPECTED
    | SCRIPT_ERR_WITNESS_PUBKEYTYPE | SCRIPT_ERR_INVALID_PARAM | SCRIPT_ERR_ERROR_COUNT

primrec error_code :: "ScriptError \<Rightarrow> int" where
  "error_code SCRIPT_ERR_OK = 0"
| "error_code SCRIPT_ERR_UNKNOWN_ERROR = 1"
| "error_code SCRIPT_ERR_EVAL_FALSE = 2"
| "error_code SCRIPT_ERR_OP_RETURN = 3"
| "error_code SCRIPT_ERR_SCRIPT_SIZE = 4"
| "error_code SCRIPT_ERR_PUSH_SIZE = 5"
| "error_code SCRIPT_ERR_OP_COUNT = 6"
| "error_code SCRIPT_ERR_STACK_SIZE = 7"
| "error_code SCRIPT_ERR_SIG_COUNT = 8"
| "error_code SCRIPT_ERR_PUBKEY_COUNT = 9"
| "error_code SCRIPT_ERR_VERIFY = 10"
| "error_code SCRIPT_ERR_EQUALVERIFY = 11"
| "error_code SCRIPT_ERR_CHECKMULTISIGVERIFY = 12"
| "error_code SCRIPT_ERR_CHECKSIGVERIFY = 13"
| "error_code SCRIPT_ERR_NUMEQUALVERIFY = 14"
| "error_code SCRIPT_ERR_BAD_OPCODE = 15"
| "error_code SCRIPT_ERR_DISABLED_OPCODE = 16"
| "error_code SCRIPT_ERR_INVALID_STACK_OPERATION = 17"
| "error_code SCRIPT_ERR_INVALID_ALTSTACK_OPERATION = 18"
| "error_code SCRIPT_ERR_UNBALANCED_CONDITIONAL = 19"
| "error_code SCRIPT_ERR_NEGATIVE_LOCKTIME = 20"
| "error_code SCRIPT_ERR_UNSATISFIED_LOCKTIME = 21"
| "error_code SCRIPT_ERR_SIG_HASHTYPE = 22"
| "error_code SCRIPT_ERR_SIG_DER = 23"
| "error_code SCRIPT_ERR_MINIMALDATA = 24"
| "error_code SCRIPT_ERR_SIG_PUSHONLY = 25"
| "error_code SCRIPT_ERR_SIG_HIGH_S = 26"
| "error_code SCRIPT_ERR_SIG_NULLDUMMY = 27"
| "error_code SCRIPT_ERR_PUBKEYTYPE = 28"
| "error_code SCRIPT_ERR_CLEANSTACK = 29"
| "error_code SCRIPT_ERR_MINIMALIF = 30"
| "error_code SCRIPT_ERR_SIG_NULLFAIL = 31"
| "error_code SCRIPT_ERR_DISCOURAGE_UPGRADABLE_NOPS = 32"
| "error_code SCRIPT_ERR_DISCOURAGE_UPGRADABLE_WITNESS_PROGRAM = 33"
| "error_code SCRIPT_ERR_WITNESS_PROGRAM_WRONG_LENGTH = 34"
| "error_code SCRIPT_ERR_WITNESS_PROGRAM_WITNESS_EMPTY = 35"
| "error_code SCRIPT_ERR_WITNESS_PROGRAM_MISMATCH = 36"
| "error_code SCRIPT_ERR_WITNESS_MALLEATED = 37"
| "error_code SCRIPT_ERR_WITNESS_MALLEATED_P2SH = 38"
| "error_code SCRIPT_ERR_WITNESS_UNEXPECTED = 39"
| "error_code SCRIPT_ERR_WITNESS_PUBKEYTYPE = 40"
| "error_code SCRIPT_ERR_INVALID_PARAM = 41"
| "error_code SCRIPT_ERR_ERROR_COUNT = 42"

fun ScriptErrorString :: "ScriptError \<Rightarrow> string" where
  "ScriptErrorString SCRIPT_ERR_OK = ''No error''"
| "ScriptErrorString SCRIPT_ERR_EVAL_FALSE = ''Script evaluated without error but finished with a false/empty top stack element''"
| "ScriptErrorString SCRIPT_ERR_VERIFY = ''Script failed an OP_VERIFY operation''"
| "ScriptErrorString SCRIPT_ERR_EQUALVERIFY = ''Script failed an OP_EQUALVERIFY operation''"
| "ScriptErrorString SCRIPT_ERR_CHECKMULTISIGVERIFY = ''Script failed an OP_CHECKMULTISIGVERIFY operation''"
| "ScriptErrorString SCRIPT_ERR_CHECKSIGVERIFY = ''Script failed an OP_CHECKSIGVERIFY operation''"
| "ScriptErrorString SCRIPT_ERR_NUMEQUALVERIFY = ''Script failed an OP_NUMEQUALVERIFY operation''"
| "ScriptErrorString SCRIPT_ERR_SCRIPT_SIZE = ''Script is too big''"
| "ScriptErrorString SCRIPT_ERR_PUSH_SIZE = ''Push value size limit exceeded''"
| "ScriptErrorString SCRIPT_ERR_OP_COUNT = ''Operation limit exceeded''"
| "ScriptErrorString SCRIPT_ERR_STACK_SIZE = ''Stack size limit exceeded''"
| "ScriptErrorString SCRIPT_ERR_SIG_COUNT = ''Signature count negative or greater than pubkey count''"
| "ScriptErrorString SCRIPT_ERR_PUBKEY_COUNT = ''Pubkey count negative or limit exceeded''"
| "ScriptErrorString SCRIPT_ERR_BAD_OPCODE = ''Opcode missing or not understood''"
| "ScriptErrorString SCRIPT_ERR_DISABLED_OPCODE = ''Attempted to use a disabled opcode''"
| "ScriptErrorString SCRIPT_ERR_INVALID_STACK_OPERATION = ''Operation not valid with the current stack size''"
| "ScriptErrorString SCRIPT_ERR_INVALID_ALTSTACK_OPERATION = ''Operation not valid with the current altstack size''"
| "ScriptErrorString SCRIPT_ERR_OP_RETURN = ''OP_RETURN was encountered''"
| "ScriptErrorString SCRIPT_ERR_UNBALANCED_CONDITIONAL = ''Invalid OP_IF construction''"
| "ScriptErrorString SCRIPT_ERR_NEGATIVE_LOCKTIME = ''Negative locktime''"
| "ScriptErrorString SCRIPT_ERR_UNSATISFIED_LOCKTIME = ''Locktime requirement not satisfied''"
| "ScriptErrorString SCRIPT_ERR_SIG_HASHTYPE = ''Signature hash type missing or not understood''"
| "ScriptErrorString SCRIPT_ERR_SIG_DER = ''Non-canonical DER signature''"
| "ScriptErrorString SCRIPT_ERR_MINIMALDATA = ''Data push larger than necessary''"
| "ScriptErrorString SCRIPT_ERR_SIG_PUSHONLY = ''Only non-push operators allowed in signatures''"
| "ScriptErrorString SCRIPT_ERR_SIG_HIGH_S = ''Non-canonical signature: S value is unnecessarily high''"
| "ScriptErrorString SCRIPT_ERR_SIG_NULLDUMMY = ''Dummy CHECKMULTISIG argument must be zero''"
| "ScriptErrorString SCRIPT_ERR_MINIMALIF = ''OP_IF/NOTIF argument must be minimal''"
| "ScriptErrorString SCRIPT_ERR_SIG_NULLFAIL = ''Signature must be zero for failed CHECK(MULTI)SIG operation''"
| "ScriptErrorString SCRIPT_ERR_DISCOURAGE_UPGRADABLE_NOPS = ''NOPx reserved for soft-fork upgrades''"
| "ScriptErrorString SCRIPT_ERR_DISCOURAGE_UPGRADABLE_WITNESS_PROGRAM = ''Witness version reserved for soft-fork upgrades''"
| "ScriptErrorString SCRIPT_ERR_PUBKEYTYPE = ''Public key is neither compressed or uncompressed''"
| "ScriptErrorString SCRIPT_ERR_CLEANSTACK = ''Extra items left on stack after execution''"
| "ScriptErrorString SCRIPT_ERR_WITNESS_PROGRAM_WRONG_LENGTH = ''Witness program has incorrect length''"
| "ScriptErrorString SCRIPT_ERR_WITNESS_PROGRAM_WITNESS_EMPTY = ''Witness program was passed an empty witness''"
| "ScriptErrorString SCRIPT_ERR_WITNESS_PROGRAM_MISMATCH = ''Witness program hash mismatch''"
| "ScriptErrorString SCRIPT_ERR_WITNESS_MALLEATED = ''Witness requires empty scriptSig''"
| "ScriptErrorString SCRIPT_ERR_WITNESS_MALLEATED_P2SH = ''Witness requires only-redeemscript scriptSig''"
| "ScriptErrorString SCRIPT_ERR_WITNESS_UNEXPECTED = ''Witness provided for non-witness script''"
| "ScriptErrorString SCRIPT_ERR_WITNESS_PUBKEYTYPE = ''Using non-compressed keys in segwit''"
| "ScriptErrorString _ = ''unknown error''"

section \<open>Hexadecimal text\<close>

definition p_util_hexdigit :: "int list" where
  "p_util_hexdigit = [
     -1, -1, -1, -1, -1, -1, -1, -1, -1, -1, -1, -1, -1, -1, -1, -1,
     -1, -1, -1, -1, -1, -1, -1, -1, -1, -1, -1, -1, -1, -1, -1, -1,
     -1, -1, -1, -1, -1, -1, -1, -1, -1, -1, -1, -1, -1, -1, -1, -1,
     0, 1, 2, 3, 4, 5, 6, 7, 8, 9, -1, -1, -1, -1, -1, -1,
     -1, 10, 11, 12, 13, 14, 15, -1, -1, -1, -1, -1, -1, -1, -1, -1,
     -1, -1, -1, -1, -1, -1, -1, -1, -1, -1, -1, -1, -1, -1, -1, -1,
     -1, 10, 11, 12, 13, 14, 15, -1, -1, -1, -1, -1, -1, -1, -1, -1,
     -1, -1, -1, -1, -1, -1, -1, -1, -1, -1, -1, -1, -1, -1, -1, -1,
     -1, -1, -1, -1, -1, -1, -1, -1, -1, -1, -1, -1, -1, -1, -1, -1,
     -1, -1, -1, -1, -1, -1, -1, -1, -1, -1, -1, -1, -1, -1, -1, -1,
     -1, -1, -1, -1, -1, -1, -1, -1, -1, -1, -1, -1, -1, -1, -1, -1,
     -1, -1, -1, -1, -1, -1, -1, -1, -1, -1, -1, -1, -1, -1, -1, -1,
     -1, -1, -1, -1, -1, -1, -1, -1, -1, -1, -1, -1, -1, -1, -1, -1,
     -1, -1, -1, -1, -1, -1, -1, -1, -1, -1, -1, -1, -1, -1, -1, -1,
     -1, -1, -1, -1, -1, -1, -1, -1, -1, -1, -1, -1, -1, -1, -1, -1,
     -1, -1, -1, -1, -1, -1, -1, -1, -1, -1, -1, -1, -1, -1, -1, -1]"

definition HexDigit :: "byte \<Rightarrow> int" where
  "HexDigit c = p_util_hexdigit ! unat c"

text \<open>\<open>isspace\<close> of the C library, in the \<open>C\<close> locale.\<close>

definition isspace :: "byte \<Rightarrow> bool" where
  "isspace c \<longleftrightarrow> c = 0x20 \<or> 0x09 \<le> c \<and> c \<le> 0x0D"

text \<open>The text is the bytes up to its terminating zero. The zero is neither a space nor a digit, so
  the loop never reads beyond it.\<close>

function hex_loop :: "bytes \<Rightarrow> bytes \<Rightarrow> bytes" where
  "hex_loop out psz =
     (case dropWhile isspace psz of
        c1 # c2 # rest \<Rightarrow>
          if HexDigit c1 = - 1 \<or> HexDigit c2 = - 1 then out
          else hex_loop (out @ [push_bit 4 (word_of_int (HexDigit c1)) OR word_of_int (HexDigit c2)]) rest
      | _ \<Rightarrow> out)"
  by pat_completeness auto

lemma dropWhile_shorter: "dropWhile P xs = c1 # c2 # r \<Longrightarrow> length r < length xs"
  using length_dropWhile_le [of P xs] by simp

termination hex_loop
  by (relation "measure (length \<circ> snd)") (auto simp: dropWhile_shorter)

definition parseHex :: "bytes \<Rightarrow> bytes" where
  "parseHex psz = hex_loop [] psz"

section \<open>Script numbers\<close>

function number_loop :: "u64 \<Rightarrow> bytes" where
  "number_loop absvalue =
     (if absvalue = 0 then [] else ucast (absvalue AND 0xff) # number_loop (drop_bit 8 absvalue))"
  by pat_completeness auto

definition encodeScriptNumber :: "int \<Rightarrow> bytes option" where
  "encodeScriptNumber val =
     (if val = 0 then Some []
      else do {
        absvalue \<leftarrow> int64 (if val < 0 then - val else val);
        let s = number_loop (word_of_int absvalue);
        let lastByte = last s;
        Some (if lastByte AND 0x80 \<noteq> 0 then s @ [if val < 0 then 0x80 else 0]
              else if val < 0 then butlast s @ [lastByte OR 0x80]
              else s)
      })"

text \<open>A shift of a 64-bit value by 64 bits or more is undefined.\<close>

fun decode_loop :: "nat \<Rightarrow> u64 \<Rightarrow> bytes \<Rightarrow> u64 option" where
  "decode_loop i tempval [] = Some tempval"
| "decode_loop i tempval (byteval # s) =
     (if byteval > 0
      then if 8 * i < 64 then decode_loop (i + 1) (tempval OR push_bit (8 * i) (ucast byteval)) s else None
      else decode_loop (i + 1) tempval s)"

definition decodeScriptNumber :: "bytes \<Rightarrow> int option" where
  "decodeScriptNumber s =
     (if s = [] then Some 0
      else do {
        tempval \<leftarrow> decode_loop 0 0 s;
        if last s AND 0x80 \<noteq> 0
        then int64 (- sint (tempval AND NOT (push_bit (8 * (length s - 1)) 0x80)))
        else do { assert_that (uint tempval \<le> 2 ^ 63 - 1); Some (uint tempval) }
      })"

section \<open>Writing numbers and strings into a script\<close>

text \<open>\<open>int size = value.size()\<close> keeps the low 32 bits as a signed number; \<open>write_byte\<close> and
  \<open>write_uint16\<close> keep the low bits of their argument.\<close>

definition as_int32 :: "nat \<Rightarrow> int" where
  "as_int32 n = sint (of_nat n :: u32)"

definition push_header :: "ostream \<Rightarrow> int \<Rightarrow> bytes" where
  "push_header os sz =
     (if sz < uint OP_PUSHDATA1 then [word_of_int sz]
      else if sz \<le> 0xff then [OP_PUSHDATA1, word_of_int sz]
      else if sz \<le> 0xffff then OP_PUSHDATA2 # wr16 os (word_of_int sz)
      else OP_PUSHDATA4 # wr32 os (word_of_int sz))"

definition writeScriptString :: "ostream \<Rightarrow> bytes \<Rightarrow> bytes" where
  "writeScriptString os value =
     (let sz = as_int32 (length value)
      in push_header os sz @ (if sz > 0 then take (nat sz) value else []))"

definition writeScriptNumber :: "ostream \<Rightarrow> int \<Rightarrow> bytes option" where
  "writeScriptNumber os value = do { s \<leftarrow> encodeScriptNumber value; Some (writeScriptString os s) }"

definition writeScriptInteger :: "ostream \<Rightarrow> int \<Rightarrow> bytes option" where
  "writeScriptInteger os val =
     (if val = - 1 \<or> (val \<ge> 1 \<and> val \<le> 16) then Some [word_of_int (val + (uint OP_1 - 1))]
      else if val = 0 then Some [OP_0]
      else writeScriptNumber os val)"

section \<open>The script builder\<close>

text \<open>The builder is the bytes written to its string stream.\<close>

record ScriptBuilder =
  oss :: bytes

definition ScriptBuilder_new :: ScriptBuilder where
  "ScriptBuilder_new = \<lparr>oss = []\<rparr>"

definition sb_write :: "bytes \<Rightarrow> ScriptBuilder \<Rightarrow> ScriptBuilder" where
  "sb_write b sb = sb\<lparr>oss := oss sb @ b\<rparr>"

definition pushByte :: "byte \<Rightarrow> ScriptBuilder \<Rightarrow> ScriptBuilder" where
  "pushByte val sb = sb_write [val] sb"

definition pushOpCode :: "byte \<Rightarrow> ScriptBuilder \<Rightarrow> ScriptBuilder" where
  "pushOpCode opcode sb = sb_write [opcode] sb"

definition pushScriptNumber :: "ostream \<Rightarrow> int \<Rightarrow> ScriptBuilder \<Rightarrow> ScriptBuilder option" where
  "pushScriptNumber os val sb = do { s \<leftarrow> encodeScriptNumber val; Some (sb_write (writeString os s) sb) }"

definition pushInteger :: "ostream \<Rightarrow> int \<Rightarrow> ScriptBuilder \<Rightarrow> ScriptBuilder option" where
  "pushInteger os val sb =
     (if val = - 1 \<or> (val \<ge> 1 \<and> val \<le> 16) then Some (sb_write [word_of_int (val + (uint OP_1 - 1))] sb)
      else if val = 0 then Some (sb_write [OP_0] sb)
      else pushScriptNumber os val sb)"

text \<open>\<open>write_bytes\<close> of the library writes nothing when its size is not positive.\<close>

definition pushBytes :: "ostream \<Rightarrow> bytes \<Rightarrow> int \<Rightarrow> ScriptBuilder \<Rightarrow> ScriptBuilder" where
  "pushBytes os data sz sb = sb_write (push_header os sz @ take (nat sz) data) sb"

definition pushVector :: "ostream \<Rightarrow> bytes \<Rightarrow> ScriptBuilder \<Rightarrow> ScriptBuilder" where
  "pushVector os data sb = pushBytes os data (as_int32 (length data)) sb"

definition pushString :: "ostream \<Rightarrow> bytes \<Rightarrow> ScriptBuilder \<Rightarrow> ScriptBuilder" where
  "pushString os data sb = pushBytes os data (as_int32 (length data)) sb"

section \<open>Number lemmas\<close>

termination number_loop
proof (relation "measure unat")
  fix w :: u64 assume "w \<noteq> 0"
  then have "0 < uint w" by (simp add: word_neq_0_conv word_less_def)
  then have "uint (drop_bit 8 w) < uint w" by (simp add: uint_drop_bit)
  then show "(drop_bit 8 w, w) \<in> measure unat" by (simp add: word_less_def unat_mono)
qed simp

declare number_loop.simps [simp del] hex_loop.simps [simp del]

lemma number_loop_0 [simp]: "number_loop 0 = []"
  by (simp add: number_loop.simps)

lemma bytes_val_number_loop: "bytes_val (number_loop w) = uint w"
proof (induction w rule: number_loop.induct)
  case (1 w)
  have "uint (ucast (w AND 0xff) :: byte) = uint w mod 256"
    by (rule uint_low_byte)
  then show ?case using 1 by (subst number_loop.simps) (simp add: uint_drop_bit)
qed

lemma number_loop_last: "w \<noteq> 0 \<Longrightarrow> number_loop w \<noteq> [] \<and> last (number_loop w) \<noteq> 0"
proof (induction w rule: number_loop.induct)
  case (1 w)
  show ?case
  proof (cases "drop_bit 8 w = 0")
    case True
    then have "bytes_val (number_loop w) = uint (ucast (w AND 0xff) :: byte)"
      using 1 by (subst number_loop.simps) simp
    then have "(ucast (w AND 0xff) :: byte) \<noteq> 0"
      using 1 by (metis bytes_val_number_loop unsigned_0 unsigned_eq_0_iff)
    then show ?thesis using 1 True by (subst (1 2) number_loop.simps) simp
  next
    case False
    then show ?thesis using 1 by (subst (1 2) number_loop.simps) simp
  qed
qed

lemma bytes_val_snoc: "bytes_val (p @ [x]) = bytes_val p + 2 ^ (8 * length p) * uint x"
  by (simp add: bytes_val_append)

lemma bytes_val_bits:
  assumes "bytes_val (p @ [x]) < 2 ^ k" "2 ^ j \<le> uint x"
  shows "8 * length p + j < k"
proof (rule ccontr)
  assume "\<not> ?thesis"
  then have "(2 :: int) ^ k \<le> 2 ^ (8 * length p + j)" by (intro power_increasing) simp_all
  also have "\<dots> \<le> 2 ^ (8 * length p) * uint x" using assms(2) by (simp add: power_add)
  also have "\<dots> \<le> bytes_val (p @ [x])" by (simp add: bytes_val_snoc)
  finally show False using assms(1) by simp
qed

lemma bit_128: "bit (0x80 :: byte) m \<longleftrightarrow> m = 7" "bit (0x80 :: u64) m \<longleftrightarrow> m = 7"
proof -
  have "(0x80 :: u64) = push_bit 7 1" "(0x80 :: byte) = push_bit 7 1" by simp_all
  then show "bit (0x80 :: byte) m \<longleftrightarrow> m = 7" "bit (0x80 :: u64) m \<longleftrightarrow> m = 7"
    by (simp_all only: bit_push_bit_iff) (auto simp: bit_1_iff)
qed

lemma byte_sign_bit: "x AND 0x80 \<noteq> 0 \<longleftrightarrow> bit x 7" for x :: byte
proof -
  have "bit (x AND 0x80) n \<longleftrightarrow> n = 7 \<and> bit x 7" for n by (auto simp: bit_and_iff bit_128 simp del: bit_numeral_word_iff)
  then show ?thesis using bit_eq_iff [of "x AND 0x80" 0] by (metis bit_0_eq bot_apply bot_bool_def)
qed

lemma byte_sign_bit_set [simp]: "(x OR 0x80) AND 0x80 \<noteq> (0 :: byte)"
  by (simp only: byte_sign_bit bit_or_iff bit_128) simp

lemma no_sign_bit_less: "x AND 0x80 = 0 \<Longrightarrow> uint (x :: byte) < 2 ^ 7"
proof -
  assume "x AND 0x80 = 0"
  then have "\<not> bit x 7" using byte_sign_bit by blast
  then have "take_bit 7 x = x"
    by (intro bit_word_eqI) (auto simp: bit_take_bit_iff less_Suc_eq numeral_eq_Suc)
  then have "uint x = take_bit 7 (uint x)" by (metis unsigned_take_bit_eq)
  then show ?thesis by (metis take_bit_int_less_exp)
qed

lemma byte_sign_bit_ge: "x AND 0x80 \<noteq> 0 \<Longrightarrow> 2 ^ 7 \<le> uint (x :: byte)"
  using bit_le_uint [of x 7] by (simp only: byte_sign_bit)

lemma decode_loop_le_word:
  "length p + length s \<le> 8 \<Longrightarrow> decode_loop (length p) (le_word p) s = Some (le_word (p @ s))"
proof (induction s arbitrary: p)
  case (Cons x s)
  have step: "decode_loop (length p) (le_word p) (x # s) = decode_loop (length (p @ [x])) (le_word (p @ [x])) s"
    using Cons.prems by (cases "x = 0") (simp_all add: le_word_snoc word_neq_0_conv)
  show ?case unfolding step using Cons.IH [of "p @ [x]"] Cons.prems by simp
qed simp

lemma clear_sign:
  assumes "x AND 0x80 = 0"
  shows "le_word (p @ [x OR 0x80]) AND NOT (push_bit (8 * length p) 0x80) = (le_word (p @ [x]) :: u64)"
proof (rule bit_word_eqI)
  fix n assume n: "n < LENGTH(64)"
  have x: "\<not> bit x 7" using assms byte_sign_bit by blast
  consider "n div 8 < length p" | "n div 8 = length p" | "length p < n div 8" by linarith
  then show "bit (le_word (p @ [x OR 0x80]) AND NOT (push_bit (8 * length p) 0x80) :: u64) n \<longleftrightarrow>
      bit (le_word (p @ [x]) :: u64) n"
  proof cases
    case 2
    then have "n = 8 * length p + n mod 8" by (metis mult_div_mod_eq)
    then have "8 * length p \<le> n" "n - 8 * length p = n mod 8" by linarith+
    then show ?thesis using n 2 x bit_128(1) [of "n mod 8"] bit_128(2) [of "n mod 8"]
      by (simp add: bit_le_word bit_and_iff bit_not_iff bit_push_bit_iff bit_or_iff) auto
  next
    case 1
    then have "\<not> 8 * length p \<le> n" by linarith
    then show ?thesis using n 1 by (simp add: bit_le_word bit_and_iff bit_not_iff bit_push_bit_iff nth_append)
  qed (use n in \<open>simp add: bit_le_word bit_and_iff\<close>)
qed

lemma le_word_small: "length p \<le> 7 \<Longrightarrow> x AND 0x80 = 0 \<Longrightarrow> uint (le_word (p @ [x]) :: u64) < 2 ^ 63"
proof -
  assume p: "length p \<le> 7" and x: "x AND 0x80 = 0"
  have "uint (le_word (p @ [x]) :: u64) = bytes_val (p @ [x])" using p by (intro uint_le_word) simp
  also have "\<dots> < 2 ^ (8 * length p) * (uint x + 1)"
    using bytes_val_less [of p] by (simp add: bytes_val_snoc algebra_simps)
  also have "\<dots> \<le> 2 ^ (8 * length p) * 2 ^ 7" using no_sign_bit_less [OF x] by simp
  also have "\<dots> \<le> 2 ^ 56 * 2 ^ 7" using p by (intro mult_right_mono power_increasing) simp_all
  finally show ?thesis by simp
qed

lemma sint_eq_uint64: "uint (w :: u64) < 2 ^ 63 \<Longrightarrow> sint w = uint w"
  using signed_take_bit_int_eq_self [of 63 "uint w"] by (simp add: sint_uint order_trans [OF _ uint_ge_0])

text \<open>A string of at most eight bytes is a sign and a magnitude.\<close>

lemma decode_positive:
  assumes "length p \<le> 7" "x AND 0x80 = 0"
  shows "decodeScriptNumber (p @ [x]) = Some (bytes_val (p @ [x]))"
proof -
  have "decode_loop 0 0 (p @ [x]) = Some (le_word (p @ [x]))"
    using decode_loop_le_word [of "[]" "p @ [x]"] assms by (simp add: le_word_def)
  moreover have "uint (le_word (p @ [x]) :: u64) = bytes_val (p @ [x])" using assms by (intro uint_le_word) simp
  ultimately show ?thesis using le_word_small [OF assms] assms(2) by (simp add: decodeScriptNumber_def)
qed

lemma decode_negative:
  assumes "length p \<le> 7" "x AND 0x80 = 0"
  shows "decodeScriptNumber (p @ [x OR 0x80]) = Some (- bytes_val (p @ [x]))"
proof -
  have 1: "decode_loop 0 0 (p @ [x OR 0x80]) = Some (le_word (p @ [x OR 0x80]))"
    using decode_loop_le_word [of "[]" "p @ [x OR 0x80]"] assms by (simp add: le_word_def)
  have 2: "uint (le_word (p @ [x]) :: u64) = bytes_val (p @ [x])" using assms by (intro uint_le_word) simp
  then have "sint (le_word (p @ [x]) :: u64) = bytes_val (p @ [x])"
    using sint_eq_uint64 [OF le_word_small [OF assms]] by simp
  moreover have "in64 (- bytes_val (p @ [x]))"
    using 2 le_word_small [OF assms] bytes_val_nonneg [of "p @ [x]"] unfolding in64_def by linarith
  ultimately show ?thesis using 1
    by (simp add: decodeScriptNumber_def clear_sign [OF assms(2)] int64_def)
qed

lemma nat_word64: "0 \<le> a \<Longrightarrow> a < 2 ^ 63 \<Longrightarrow> uint (word_of_int a :: u64) = a"
  by (simp add: uint_word_of_int)

lemma encode_shape:
  assumes "in64 v" "v \<noteq> - (2 ^ 63)" "v \<noteq> 0"
  obtains p x where "length p \<le> 7" "x AND 0x80 = 0" "bytes_val (p @ [x]) = \<bar>v\<bar>"
    "encodeScriptNumber v = Some (p @ [if v < 0 then x OR 0x80 else x])"
proof -
  have a: "0 < \<bar>v\<bar>" "\<bar>v\<bar> < 2 ^ 63" using assms by (auto simp: in64_def)
  have abs: "int64 (if v < 0 then - v else v) = Some \<bar>v\<bar>" using a by (simp add: int64_def in64_def abs_if)
  define s where "s = number_loop (word_of_int \<bar>v\<bar>)"
  have val: "bytes_val s = \<bar>v\<bar>" using a by (simp add: s_def bytes_val_number_loop nat_word64)
  have "uint (word_of_int \<bar>v\<bar> :: u64) \<noteq> 0" using a by (simp only: nat_word64)
  then have "word_of_int \<bar>v\<bar> \<noteq> (0 :: u64)" by (metis unsigned_0)
  then have "s \<noteq> []" "last s \<noteq> 0" using number_loop_last unfolding s_def by blast+
  then obtain q y where s: "s = q @ [y]" "y \<noteq> 0" by (metis append_butlast_last_id)
  have e: "encodeScriptNumber v = Some (if y AND 0x80 \<noteq> 0 then s @ [if v < 0 then 0x80 else 0]
      else if v < 0 then q @ [y OR 0x80] else s)"
    using abs assms(3) by (simp add: encodeScriptNumber_def s_def [symmetric]) (simp add: s)
  show thesis
  proof (cases "y AND 0x80 = 0")
    case True
    have "8 * length q + 0 < 63" using a val s by (intro bytes_val_bits [of _ y]) (auto simp: word_less_def word_neq_0_conv)
    then show thesis using that [of q y] True e val s by simp
  next
    case False
    have "8 * length q + 7 < 63" using a val s byte_sign_bit_ge [OF False] by (intro bytes_val_bits [of _ y]) auto
    then show thesis using that [of s 0] False e val s by (simp add: bytes_val_append)
  qed
qed

lemma split_sign:
  fixes y :: byte
  assumes "y AND 0x80 \<noteq> 0"
  obtains x where "x AND 0x80 = 0" "y = x OR 0x80"
proof
  have y: "bit y 7" using assms by (simp only: byte_sign_bit)
  show "y = y AND NOT 0x80 OR 0x80"
  proof (rule bit_word_eqI)
    fix n assume n: "n < LENGTH(8)"
    have "bit (y AND NOT 0x80 OR 0x80) n = (bit y n \<and> n \<noteq> 7 \<or> n = 7)"
      using n by (simp only: bit_or_iff bit_and_iff bit_not_iff bit_128 possible_bit_word simp_thms)
    also have "\<dots> = bit y n" using y by blast
    finally show "bit y n = bit (y AND NOT 0x80 OR 0x80) n" by (rule sym)
  qed
  show "(y AND NOT 0x80) AND 0x80 = 0" by (simp only: and.assoc) simp
qed

lemma decode_loop_too_long:
  "\<exists>j < length s. 8 \<le> i + j \<and> s ! j \<noteq> 0 \<Longrightarrow> decode_loop i t s = None"
proof (induction s arbitrary: i t)
  case (Cons x s)
  then obtain j where j: "j < length (x # s)" "8 \<le> i + j" "(x # s) ! j \<noteq> 0" by blast
  show ?case
  proof (cases j)
    case 0
    then show ?thesis using j by (simp add: word_neq_0_conv)
  next
    case (Suc k)
    then have "\<exists>j < length s. 8 \<le> (i + 1) + j \<and> s ! j \<noteq> 0" using j by (intro exI [of _ k]) simp
    from Cons.IH [OF this] show ?thesis by simp
  qed
qed simp

section \<open>Hexadecimal lemmas\<close>

lemma dropWhile_spaces:
  "list_all isspace sp \<Longrightarrow> \<not> isspace c \<Longrightarrow> dropWhile isspace (sp @ c # r) = c # r"
  by (induction sp) auto

lemma digit_not_space: "HexDigit c \<noteq> - 1 \<Longrightarrow> \<not> isspace c"
proof
  assume d: "HexDigit c \<noteq> - 1" and "isspace c"
  then have "unat c \<in> {32, 9, 10, 11, 12, 13}"
    by (auto simp: isspace_def word_le_nat_alt)
  then show False using d by (auto simp: HexDigit_def p_util_hexdigit_def)
qed

lemma script_number_roundtrip_ex:
  assumes "in64 u" "u \<noteq> - (2 ^ 63)"
  shows "\<exists>s. encodeScriptNumber u = Some s \<and> length s \<le> 8 \<and> decodeScriptNumber s = Some u"
proof (cases "u = 0")
  case True
  then show ?thesis by (simp add: encodeScriptNumber_def decodeScriptNumber_def)
next
  case False
  obtain p x where "length p \<le> 7" "x AND 0x80 = 0" "bytes_val (p @ [x]) = \<bar>u\<bar>"
    "encodeScriptNumber u = Some (p @ [if u < 0 then x OR 0x80 else x])"
    using encode_shape [OF assms False] by blast
  then show ?thesis using decode_positive [of p x] decode_negative [of p x] by (cases "u < 0") auto
qed

lemma encode_in64:
  assumes "encodeScriptNumber u = Some s" "in64 u"
  shows "length s \<le> 8 \<and> decodeScriptNumber s = Some u"
proof -
  have "encodeScriptNumber (- (2 ^ 63)) = None" by (simp add: encodeScriptNumber_def int64_def in64_def)
  then show ?thesis using assms script_number_roundtrip_ex [of u] by (cases "u = - (2 ^ 63)") auto
qed

section \<open>Properties\<close>

text \<open>every script number but the least 64-bit integer is encoded in at most eight bytes, decoding
  gives it back, no other number has its encoding, and the encoding has no redundant top byte.\<close>

theorem script_number_roundtrip:
  assumes "in64 v" "v \<noteq> - (2 ^ 63)"
  shows "\<exists>s. encodeScriptNumber v = Some s \<and> length s \<le> 8 \<and> decodeScriptNumber s = Some v \<and>
    (\<forall>u. in64 u \<longrightarrow> encodeScriptNumber u = Some s \<longrightarrow> u = v)"
proof -
  obtain s where s: "encodeScriptNumber v = Some s" using script_number_roundtrip_ex [OF assms] by blast
  have v: "length s \<le> 8 \<and> decodeScriptNumber s = Some v" using encode_in64 [OF s assms(1)] .
  have "u = v" if "in64 u" "encodeScriptNumber u = Some s" for u
    using encode_in64 [OF that(2,1)] v by simp
  then show ?thesis using s v by blast
qed

theorem script_number_roundtrip_witness:
  "\<exists>s. encodeScriptNumber (- 100) = Some s \<and> length s \<le> 8 \<and> decodeScriptNumber s = Some (- 100) \<and>
    (\<forall>u. in64 u \<longrightarrow> encodeScriptNumber u = Some s \<longrightarrow> u = - 100)"
  by (rule script_number_roundtrip) (simp_all add: in64_def)

text \<open>decoding a script number is defined for every string of at most eight bytes and gives a
  64-bit number that can be negated; a longer string with a byte other than zero beyond the eighth
  makes the code shift by 64 bits or more.\<close>

theorem script_number_bounds:
  "(length s \<le> 8 \<longrightarrow> (\<exists>v. decodeScriptNumber s = Some v \<and> \<bar>v\<bar> < 2 ^ 63)) \<and>
   ((\<exists>j < length s. 8 \<le> j \<and> s ! j \<noteq> 0) \<longrightarrow> decodeScriptNumber s = None)"
proof (intro conjI impI)
  assume len: "length s \<le> 8"
  show "\<exists>v. decodeScriptNumber s = Some v \<and> \<bar>v\<bar> < 2 ^ 63"
  proof (cases s rule: rev_cases)
    case Nil
    then show ?thesis by (simp add: decodeScriptNumber_def)
  next
    case (snoc p y)
    have p: "length p \<le> 7" using len snoc by simp
    have bound: "bytes_val (p @ [x]) < 2 ^ 63" if "x AND 0x80 = 0" for x
      using le_word_small [OF p that] uint_le_word [of "p @ [x]", where 'a = 64] p by simp
    show ?thesis
    proof (cases "y AND 0x80 = 0")
      case True
      then show ?thesis using decode_positive [OF p True] bound [OF True] by (simp only: snoc) simp
    next
      case False
      then obtain x where x: "x AND 0x80 = 0" "y = x OR 0x80" by (rule split_sign)
      then show ?thesis using decode_negative [OF p x(1)] bound [OF x(1)] by (simp only: snoc) simp
    qed
  qed
next
  assume j: "\<exists>j < length s. 8 \<le> j \<and> s ! j \<noteq> 0"
  then have "decode_loop 0 0 s = None" by (intro decode_loop_too_long) simp
  moreover have "s \<noteq> []" using j by auto
  ultimately show "decodeScriptNumber s = None" by (simp add: decodeScriptNumber_def)
qed

theorem script_number_bounds_witness:
  "\<exists>v. decodeScriptNumber [0xFF, 0xFF, 0xFF, 0xFF, 0xFF, 0xFF, 0xFF, 0xFF] = Some v \<and> \<bar>v\<bar> < 2 ^ 63"
  by (rule script_number_bounds [THEN conjunct1, THEN mp]) simp

text \<open>\<open>parseHex\<close> reads pairs of hexadecimal digits, each pair preceded by any space, up to the
  first text that is not such a pair.\<close>

theorem parseHex_correct:
  assumes "\<forall>(sp, c1, c2) \<in> set ds. list_all isspace sp \<and> HexDigit c1 \<noteq> - 1 \<and> HexDigit c2 \<noteq> - 1"
    and "\<forall>c1 c2 r. dropWhile isspace t = c1 # c2 # r \<longrightarrow> HexDigit c1 = - 1 \<or> HexDigit c2 = - 1"
  shows "parseHex (concat (map (\<lambda>(sp, c1, c2). sp @ [c1, c2]) ds) @ t) =
    map (\<lambda>(sp, c1, c2). push_bit 4 (word_of_int (HexDigit c1)) OR word_of_int (HexDigit c2)) ds"
proof -
  have "hex_loop out (concat (map (\<lambda>(sp, c1, c2). sp @ [c1, c2]) ds) @ t) =
    out @ map (\<lambda>(sp, c1, c2). push_bit 4 (word_of_int (HexDigit c1)) OR word_of_int (HexDigit c2)) ds" for out
    using assms(1)
  proof (induction ds arbitrary: out)
    case Nil
    then show ?case using assms(2) by (subst hex_loop.simps) (auto split: list.split)
  next
    case (Cons d ds)
    obtain sp c1 c2 where d: "d = (sp, c1, c2)" by (cases d) auto
    then have "dropWhile isspace (sp @ c1 # c2 # r) = c1 # c2 # r" for r
      using Cons.prems by (intro dropWhile_spaces digit_not_space) auto
    then show ?case using Cons by (subst hex_loop.simps) (simp add: d)
  qed
  then show ?thesis by (simp add: parseHex_def)
qed

theorem parseHex_correct_witness:
  "parseHex [0x20, 0x66, 0x46, 0x30, 0x41, 0x67] = [0xFF, 0x0A]"
  using parseHex_correct [of "[([0x20], 0x66, 0x46), ([], 0x30, 0x41)]" "[0x67]"]
  by (simp add: isspace_def HexDigit_def p_util_hexdigit_def)

end
