(* ===== verification/ScriptVM.thy ===== *)
theory ScriptVM
  imports Script "HOL-Library.Signed_Division" "HOL-Library.Sublist"
begin

text \<open>
  \<open>script/ScriptVM.cpp\<close>, \<open>script/ScriptFunction.hpp\<close> and \<open>script/ScriptFunctions.cpp\<close>: the stack,
  the table of opcode functions and the interpreter loop.

  A function of the machine returns \<open>None\<close> when an assertion fails. The macro \<open>VM_CHECK\<close> sets an
  error and then asserts \<open>false\<close>, so a failed check also ends the process. The interpreter loop
  is a partial function: its outer option is \<open>None\<close> when the loop does not end (it always ends,
  \<open>script_eval_terminates\<close>), the inner one when an assertion fails.
\<close>

section \<open>State\<close>

type_synonym stack = "bytes list"

record Env =
  errcode :: int
  env_code :: bytes

record ScriptVM =
  env :: Env
  vars :: stack

text \<open>What the machine is given: the streams it reads the code through, the digests, and the
  signature checker, which may fail an assertion of its own (\<open>None\<close>).\<close>

record script_digests = digests +
  sha1 :: "bytes \<Rightarrow> bytes"

record 's vm_context =
  code_stream :: "'s istream"
  vm_digests :: script_digests
  checker :: "bytes \<Rightarrow> bytes \<Rightarrow> bytes \<Rightarrow> bool option"

definition ScriptVM_new :: ScriptVM where
  "ScriptVM_new = \<lparr>env = \<lparr>errcode = 0, env_code = []\<rparr>, vars = []\<rparr>"

definition setError :: "int \<Rightarrow> ScriptVM \<Rightarrow> ScriptVM" where
  "setError err vm = vm\<lparr>env := (env vm)\<lparr>errcode := err\<rparr>\<rparr>"

definition vTrue :: bytes where
  "vTrue = [OP_TRUE]"

definition vFalse :: bytes where
  "vFalse = []"

section \<open>The stack\<close>

text \<open>The back of the vector is the end of the list.\<close>

definition stack_push :: "bytes \<Rightarrow> stack \<Rightarrow> stack" where
  "stack_push s st = st @ [s]"

definition stack_get :: "stack \<Rightarrow> int \<Rightarrow> bytes option" where
  "stack_get st index =
     (let i = (if index < 0 then index + int (length st) else index)
      in if 0 \<le> i \<and> i < int (length st) then Some (st ! nat i) else None)"

definition stack_pushInteger :: "int \<Rightarrow> stack \<Rightarrow> stack option" where
  "stack_pushInteger val st = do { s \<leftarrow> encodeScriptNumber val; Some (stack_push s st) }"

definition stack_push_index :: "int \<Rightarrow> stack \<Rightarrow> stack option" where
  "stack_push_index index st = do { s \<leftarrow> stack_get st index; Some (stack_push s st) }"

definition stack_dup :: "stack \<Rightarrow> stack option" where
  "stack_dup st = stack_push_index (- 1) st"

fun dup_from :: "nat \<Rightarrow> nat \<Rightarrow> stack \<Rightarrow> stack option" where
  "dup_from i 0 st = Some st"
| "dup_from i (Suc n) st = do { st' \<leftarrow> stack_push_index (- int i * 2 - 1) st; dup_from (Suc i) n st' }"

definition stack_dup_n :: "nat \<Rightarrow> stack \<Rightarrow> stack option" where
  "stack_dup_n count st = dup_from 0 count st"

definition stack_pop :: "stack \<Rightarrow> stack option" where
  "stack_pop st = do { assert_that (st \<noteq> []); Some (butlast st) }"

definition stack_pop_n :: "nat \<Rightarrow> stack \<Rightarrow> stack option" where
  "stack_pop_n n st = do { assert_that (length st \<ge> n); Some ((butlast ^^ n) st) }"

definition stack_pushBool :: "bool \<Rightarrow> stack \<Rightarrow> stack" where
  "stack_pushBool val st = stack_push (if val then vTrue else vFalse) st"

section \<open>Values of the machine\<close>

definition on_stack :: "(stack \<Rightarrow> stack) \<Rightarrow> ScriptVM \<Rightarrow> ScriptVM" where
  "on_stack f vm = vm\<lparr>vars := f (vars vm)\<rparr>"

definition try_stack :: "(stack \<Rightarrow> stack option) \<Rightarrow> ScriptVM \<Rightarrow> ScriptVM option" where
  "try_stack f vm = do { st \<leftarrow> f (vars vm); Some (vm\<lparr>vars := st\<rparr>) }"

definition vm_size :: "ScriptVM \<Rightarrow> int" where
  "vm_size vm = int (length (vars vm))"

definition getValue :: "ScriptVM \<Rightarrow> int \<Rightarrow> bytes option" where
  "getValue vm index =
     (if index < - vm_size vm \<or> index \<ge> vm_size vm then None else stack_get (vars vm) index)"

fun get_from :: "stack \<Rightarrow> int \<Rightarrow> nat \<Rightarrow> nat \<Rightarrow> bytes list option" where
  "get_from st index i 0 = Some []"
| "get_from st index i (Suc n) = do {
     v \<leftarrow> stack_get st (if index \<ge> 0 then index + int i else index - int i);
     vs \<leftarrow> get_from st index (Suc i) n;
     Some (v # vs)
   }"

text \<open>\<open>Some None\<close> is the result \<open>false\<close>.\<close>

definition getValues :: "ScriptVM \<Rightarrow> int \<Rightarrow> int \<Rightarrow> bytes list option option" where
  "getValues vm index count =
     (if index < - vm_size vm \<or> index \<ge> vm_size vm then Some None
      else if index < 0 \<and> index - count < - vm_size vm then Some None
      else if index \<ge> 0 \<and> index + count \<ge> vm_size vm then Some None
      else do { vs \<leftarrow> get_from (vars vm) index 0 (nat count); Some (Some vs) })"

fun bool_of :: "bytes \<Rightarrow> bool" where
  "bool_of [] = False"
| "bool_of (ch # s) = (if ch \<noteq> 0 then s \<noteq> [] \<or> ch \<noteq> 0x80 else bool_of s)"

definition getBoolValue :: "ScriptVM \<Rightarrow> int \<Rightarrow> bool option" where
  "getBoolValue vm index = map_option bool_of (getValue vm index)"

definition getIntegerValue :: "ScriptVM \<Rightarrow> int \<Rightarrow> int option option" where
  "getIntegerValue vm index =
     (case getValue vm index of None \<Rightarrow> Some None | Some s \<Rightarrow> map_option Some (decodeScriptNumber s))"

definition vm_verify :: "int \<Rightarrow> ScriptVM \<Rightarrow> ScriptVM option" where
  "vm_verify err vm =
     (case getBoolValue vm (- 1) of
        None \<Rightarrow> None
      | Some success \<Rightarrow> if success then try_stack stack_pop vm else Some (setError err vm))"

section \<open>Numeric operations\<close>

text \<open>Arithmetic that leaves the range of \<open>int64_t\<close>, a division by zero and a shift by a negative
  count or by 64 or more have no defined result. A left shift is defined on numbers that are not
  negative while no set bit is lost.\<close>

definition shift_left :: "int \<Rightarrow> int \<Rightarrow> int option" where
  "shift_left x y = (if 0 \<le> x \<and> 0 \<le> y \<and> y < 64 \<and> x * 2 ^ nat y < 2 ^ 64
     then Some (signed_take_bit 63 (x * 2 ^ nat y)) else None)"

definition shift_right :: "int \<Rightarrow> int \<Rightarrow> int option" where
  "shift_right x y = (if 0 \<le> y \<and> y < 64 then Some (drop_bit (nat y) x) else None)"

definition scriptOp_div :: "int \<Rightarrow> int \<Rightarrow> int option" where
  "scriptOp_div x y = (if y = 0 then None else int64 (x sdiv y))"

definition scriptOp_mod :: "int \<Rightarrow> int \<Rightarrow> int option" where
  "scriptOp_mod x y = (if y = 0 \<or> \<not> in64 (x sdiv y) then None else Some (x smod y))"

definition UnaryNumberOps :: "(int \<Rightarrow> int option) list" where
  "UnaryNumberOps =
    [\<lambda>val. int64 (val + 1),
     \<lambda>val. int64 (val - 1),
     \<lambda>val. shift_left val 1,
     \<lambda>val. shift_right val 1,
     \<lambda>val. int64 (- val),
     \<lambda>val. if val \<ge> 0 then Some val else int64 (- val),
     \<lambda>val. Some (of_bool (val = 0)),
     \<lambda>val. Some (of_bool (val \<noteq> 0))]"

definition BinaryNumberOps :: "(int \<Rightarrow> int \<Rightarrow> int option) list" where
  "BinaryNumberOps =
    [\<lambda>x y. int64 (x + y),
     \<lambda>x y. int64 (x - y),
     \<lambda>x y. int64 (x * y),
     scriptOp_div,
     scriptOp_mod,
     shift_left,
     shift_right,
     \<lambda>x y. Some (of_bool (x \<noteq> 0 \<and> y \<noteq> 0)),
     \<lambda>x y. Some (of_bool (x \<noteq> 0 \<or> y \<noteq> 0)),
     \<lambda>x y. Some (of_bool (x = y)),
     \<lambda>x y. Some (of_bool (x = y)),
     \<lambda>x y. Some (of_bool (x \<noteq> y)),
     \<lambda>x y. Some (of_bool (x < y)),
     \<lambda>x y. Some (of_bool (x > y)),
     \<lambda>x y. Some (of_bool (x \<le> y)),
     \<lambda>x y. Some (of_bool (x \<ge> y)),
     \<lambda>x y. Some (if x < y then x else y),
     \<lambda>x y. Some (if x > y then x else y)]"

section \<open>The opcode functions\<close>

text \<open>A function takes the machine, the opcode and the stream of the remaining code.\<close>

type_synonym 's script_function = "ScriptVM \<Rightarrow> byte \<Rightarrow> 's \<Rightarrow> (ScriptVM \<times> 's) option"

text \<open>A function that does not read the code.\<close>

definition no_code :: "(ScriptVM \<Rightarrow> byte \<Rightarrow> ScriptVM option) \<Rightarrow> 's script_function" where
  "no_code f vm opcode code = do { vm' \<leftarrow> f vm opcode; Some (vm', code) }"

abbreviation check_count :: "ScriptVM \<Rightarrow> int \<Rightarrow> unit option" where
  "check_count vm n \<equiv> assert_that (vm_size vm \<ge> n)"

text \<open>\<open>VM_CHECK_PARAM(vm, vm->getIntegerValue(index, val))\<close>\<close>

definition check_integer :: "ScriptVM \<Rightarrow> int \<Rightarrow> int option" where
  "check_integer vm index = Option.bind (getIntegerValue vm index) id"

definition check_values :: "ScriptVM \<Rightarrow> int \<Rightarrow> int \<Rightarrow> bytes list option" where
  "check_values vm index count = Option.bind (getValues vm index count) id"

definition script_reserved :: "ScriptVM \<Rightarrow> byte \<Rightarrow> ScriptVM option" where
  "script_reserved vm opcode = None"

definition script_noop :: "ScriptVM \<Rightarrow> byte \<Rightarrow> ScriptVM option" where
  "script_noop vm opcode = Some vm"

definition script_push0 :: "'s vm_context \<Rightarrow> 's script_function" where
  "script_push0 cx vm opcode code = do {
     assert_that (opcode < OP_PUSHDATA1);
     if opcode > 0
     then (case rd_str (code_stream cx) (unat opcode) code of
             (None, code') \<Rightarrow> Some (setError 1 vm, code')
           | (Some s, code') \<Rightarrow> Some (on_stack (stack_push s) vm, code'))
     else Some (on_stack (stack_push []) vm, code)
   }"

text \<open>\<open>code >> size\<close> leaves \<open>size\<close> at zero when the stream ends.\<close>

definition script_pushdata :: "'s vm_context \<Rightarrow> ('s \<Rightarrow> 'w::len word option \<times> 's) \<Rightarrow> 's script_function" where
  "script_pushdata cx rd vm opcode code =
     (case into rd 0 code of (sz, code1) \<Rightarrow>
        (case rd_str (code_stream cx) (unat sz) code1 of
           (Some s, code2) \<Rightarrow> Some (on_stack (stack_push s) vm, code2)
         | (None, code2) \<Rightarrow> Some (vm, code2)))"

definition script_integer :: "ScriptVM \<Rightarrow> byte \<Rightarrow> ScriptVM option" where
  "script_integer vm opcode = do {
     assert_that ((opcode \<ge> OP_1 \<and> opcode \<le> OP_16) \<or> opcode = OP_1NEGATE);
     let val = uint opcode - uint OP_1;
     s \<leftarrow> encodeScriptNumber (val + 1);
     Some (on_stack (stack_push s) vm)
   }"

definition script_equal :: "ScriptVM \<Rightarrow> byte \<Rightarrow> ScriptVM option" where
  "script_equal vm opcode = do {
     assert_that (opcode = OP_EQUAL \<or> opcode = OP_EQUALVERIFY);
     check_count vm 2;
     v1 \<leftarrow> stack_get (vars vm) (- 1);
     v2 \<leftarrow> stack_get (vars vm) (- 2);
     vm1 \<leftarrow> try_stack (stack_pop_n 2) vm;
     let vm2 = on_stack (stack_pushBool (v1 = v2)) vm1;
     if opcode = OP_EQUALVERIFY then vm_verify (error_code SCRIPT_ERR_EQUALVERIFY) vm2 else Some vm2
   }"

definition script_numericUnaryOp :: "ScriptVM \<Rightarrow> byte \<Rightarrow> ScriptVM option" where
  "script_numericUnaryOp vm opcode = do {
     assert_that (opcode \<ge> OP_1ADD \<and> opcode \<le> OP_0NOTEQUAL);
     check_count vm 1;
     let opIndex = unat opcode - unat OP_1ADD;
     val \<leftarrow> check_integer vm (- 1);
     assert_that (opIndex < length UnaryNumberOps);
     vm1 \<leftarrow> try_stack stack_pop vm;
     r \<leftarrow> (UnaryNumberOps ! opIndex) val;
     try_stack (stack_pushInteger r) vm1
   }"

definition script_numericBinaryOp :: "ScriptVM \<Rightarrow> byte \<Rightarrow> ScriptVM option" where
  "script_numericBinaryOp vm opcode = do {
     assert_that (opcode \<ge> OP_ADD \<and> opcode \<le> OP_MAX);
     check_count vm 2;
     let opIndex = unat opcode - unat OP_ADD;
     x \<leftarrow> check_integer vm (- 2);
     y \<leftarrow> check_integer vm (- 1);
     assert_that (opIndex < length BinaryNumberOps);
     vm1 \<leftarrow> try_stack (stack_pop_n 2) vm;
     r \<leftarrow> (BinaryNumberOps ! opIndex) x y;
     vm2 \<leftarrow> try_stack (stack_pushInteger r) vm1;
     if opcode = OP_NUMEQUALVERIFY then vm_verify (error_code SCRIPT_ERR_NUMEQUALVERIFY) vm2 else Some vm2
   }"

definition script_within :: "ScriptVM \<Rightarrow> byte \<Rightarrow> ScriptVM option" where
  "script_within vm opcode = do {
     check_count vm 3;
     x \<leftarrow> check_integer vm (- 3);
     minval \<leftarrow> check_integer vm (- 2);
     maxval \<leftarrow> check_integer vm (- 1);
     vm1 \<leftarrow> try_stack (stack_pop_n 3) vm;
     Some (on_stack (stack_pushBool (minval \<le> x \<and> x < maxval)) vm1)
   }"

definition script_dup :: "ScriptVM \<Rightarrow> byte \<Rightarrow> ScriptVM option" where
  "script_dup vm opcode = do { check_count vm 1; try_stack stack_dup vm }"

definition script_dup2 :: "ScriptVM \<Rightarrow> byte \<Rightarrow> ScriptVM option" where
  "script_dup2 vm opcode = do { check_count vm 2; try_stack (stack_dup_n 2) vm }"

definition script_dup3 :: "ScriptVM \<Rightarrow> byte \<Rightarrow> ScriptVM option" where
  "script_dup3 vm opcode = do { check_count vm 3; try_stack (stack_dup_n 3) vm }"

definition script_drop :: "ScriptVM \<Rightarrow> byte \<Rightarrow> ScriptVM option" where
  "script_drop vm opcode = do { check_count vm 1; try_stack stack_pop vm }"

definition script_drop2 :: "ScriptVM \<Rightarrow> byte \<Rightarrow> ScriptVM option" where
  "script_drop2 vm opcode = do { check_count vm 2; try_stack (stack_pop_n 2) vm }"

definition script_depth :: "ScriptVM \<Rightarrow> byte \<Rightarrow> ScriptVM option" where
  "script_depth vm opcode = try_stack (stack_pushInteger (vm_size vm)) vm"

definition script_size :: "ScriptVM \<Rightarrow> byte \<Rightarrow> ScriptVM option" where
  "script_size vm opcode = do {
     check_count vm 1;
     s \<leftarrow> stack_get (vars vm) (- 1);
     try_stack (stack_pushInteger (int (length s))) vm
   }"

definition script_return :: "ScriptVM \<Rightarrow> byte \<Rightarrow> ScriptVM option" where
  "script_return vm opcode = Some (setError (error_code SCRIPT_ERR_OP_RETURN) vm)"

definition Hashers :: "script_digests \<Rightarrow> (bytes \<Rightarrow> bytes) list" where
  "Hashers dg = [ripemd160 dg, sha1 dg, sha256 dg, hash160 (digests.truncate dg), hash256 (digests.truncate dg)]"

definition script_hash :: "'s vm_context \<Rightarrow> ScriptVM \<Rightarrow> byte \<Rightarrow> ScriptVM option" where
  "script_hash cx vm opcode = do {
     assert_that (opcode \<ge> OP_RIPEMD160 \<and> opcode \<le> OP_HASH256);
     check_count vm 1;
     s \<leftarrow> stack_get (vars vm) (- 1);
     let digest = (Hashers (vm_digests cx) ! (unat opcode - unat OP_RIPEMD160)) s;
     vm1 \<leftarrow> try_stack stack_pop vm;
     Some (on_stack (stack_push digest) vm1)
   }"

definition script_checkSig :: "'s vm_context \<Rightarrow> ScriptVM \<Rightarrow> byte \<Rightarrow> ScriptVM option" where
  "script_checkSig cx vm opcode = do {
     assert_that (opcode = OP_CHECKSIG \<or> opcode = OP_CHECKSIGVERIFY);
     check_count vm 2;
     sig \<leftarrow> stack_get (vars vm) (- 2);
     pubkey \<leftarrow> stack_get (vars vm) (- 1);
     success \<leftarrow> checker cx sig pubkey (env_code (env vm));
     vm1 \<leftarrow> try_stack (stack_pop_n 2) vm;
     let vm2 = on_stack (stack_pushBool success) vm1;
     assert_that success;
     if opcode = OP_CHECKSIGVERIFY then vm_verify (error_code SCRIPT_ERR_CHECKSIGVERIFY) vm2 else Some vm2
   }"

text \<open>The inner loop of \<open>checkMultiSig\<close>: the next public key that verifies the signature, as whether
  there is one and the number of keys used.\<close>

function next_key :: "(bytes \<Rightarrow> bool option) \<Rightarrow> bytes list \<Rightarrow> nat \<Rightarrow> (bool \<times> nat) option" where
  "next_key check pubkeys usedPubkey =
     (if usedPubkey < length pubkeys
      then do {
        b \<leftarrow> check (pubkeys ! usedPubkey);
        if b then Some (True, usedPubkey + 1) else next_key check pubkeys (usedPubkey + 1)
      }
      else Some (False, usedPubkey))"
  by pat_completeness auto

termination next_key
  by (relation "measure (\<lambda>(check, pubkeys, used). length pubkeys - used)") auto

fun sig_loop :: "(bytes \<Rightarrow> bytes \<Rightarrow> bool option) \<Rightarrow> bytes list \<Rightarrow> bytes list \<Rightarrow> nat \<Rightarrow> nat \<Rightarrow> nat option" where
  "sig_loop chk pubkeys [] usedPubkey passed = Some passed"
| "sig_loop chk pubkeys (sig # signatures) usedPubkey passed = do {
     (found, used) \<leftarrow> next_key (chk sig) pubkeys usedPubkey;
     sig_loop chk pubkeys signatures used (if found then passed + 1 else passed)
   }"

definition checkMultiSig :: "'s vm_context \<Rightarrow> ScriptVM \<Rightarrow> bytes list \<Rightarrow> bytes list \<Rightarrow> bool option" where
  "checkMultiSig cx vm pubkeys signatures = do {
     passed \<leftarrow> sig_loop (\<lambda>sig pubkey. checker cx sig pubkey (env_code (env vm))) pubkeys signatures 0 0;
     assert_that (passed \<le> length signatures);
     Some (passed \<ge> length signatures)
   }"

definition script_checkMultiSig :: "'s vm_context \<Rightarrow> ScriptVM \<Rightarrow> byte \<Rightarrow> ScriptVM option" where
  "script_checkMultiSig cx vm opcode = do {
     assert_that (opcode = OP_CHECKMULTISIG \<or> opcode = OP_CHECKMULTISIGVERIFY);
     check_count vm 1;
     keyCount \<leftarrow> check_integer vm (- 1);
     assert_that (keyCount \<ge> 0 \<and> keyCount < MAX_PUBKEYS_PER_MULTISIG);
     check_count vm (2 + keyCount);
     sigCount \<leftarrow> check_integer vm (- 2 - keyCount);
     assert_that (sigCount \<ge> 0 \<and> sigCount \<le> keyCount);
     pubkeys \<leftarrow> check_values vm (- 2) keyCount;
     signatures \<leftarrow> check_values vm (- 3 - keyCount) sigCount;
     success \<leftarrow> checkMultiSig cx vm pubkeys signatures;
     vm1 \<leftarrow> try_stack (stack_pop_n (nat (2 + keyCount + sigCount))) vm;
     vm2 \<leftarrow> (if vm_size vm1 \<ge> 1 then try_stack (stack_pop_n 1) vm1 else Some vm1);
     let vm3 = on_stack (stack_pushBool success) vm2;
     if opcode = OP_CHECKMULTISIGVERIFY then vm_verify (error_code SCRIPT_ERR_CHECKMULTISIGVERIFY) vm3 else Some vm3
   }"

section \<open>The function table and the interpreter\<close>

definition set_range :: "byte \<Rightarrow> byte \<Rightarrow> 'a \<Rightarrow> 'a list \<Rightarrow> 'a list" where
  "set_range a b f fs = fold (\<lambda>i fs. fs[i := f]) [unat a ..< Suc (unat b)] fs"

abbreviation set_one :: "byte \<Rightarrow> 'a \<Rightarrow> 'a list \<Rightarrow> 'a list" where
  "set_one a f fs \<equiv> fs[unat a := f]"

definition function_table :: "'s vm_context \<Rightarrow> 's script_function list" where
  "function_table cx =
     (let fs = replicate 256 (no_code script_reserved);
          fs = set_range OP_1 OP_16 (no_code script_integer) fs;
          fs = set_one OP_1NEGATE (no_code script_integer) fs;
          fs = set_range OP_0 (OP_PUSHDATA1 - 1) (script_push0 cx) fs;
          fs = set_one OP_PUSHDATA1 (script_pushdata cx (rd8 (code_stream cx))) fs;
          fs = set_one OP_PUSHDATA2 (script_pushdata cx (rd16 (code_stream cx))) fs;
          fs = set_one OP_PUSHDATA4 (script_pushdata cx (rd32 (code_stream cx))) fs;
          fs = set_one OP_EQUAL (no_code script_equal) fs;
          fs = set_one OP_EQUALVERIFY (no_code script_equal) fs;
          fs = set_one OP_DUP (no_code script_dup) fs;
          fs = set_one OP_2DUP (no_code script_dup2) fs;
          fs = set_one OP_3DUP (no_code script_dup3) fs;
          fs = set_one OP_DROP (no_code script_drop) fs;
          fs = set_one OP_2DROP (no_code script_drop2) fs;
          fs = set_one OP_DEPTH (no_code script_depth) fs;
          fs = set_one OP_SIZE (no_code script_size) fs;
          fs = set_range OP_1ADD OP_0NOTEQUAL (no_code script_numericUnaryOp) fs;
          fs = set_range OP_ADD OP_MAX (no_code script_numericBinaryOp) fs;
          fs = set_one OP_WITHIN (no_code script_within) fs;
          fs = set_range OP_RIPEMD160 OP_HASH256 (no_code (script_hash cx)) fs;
          fs = set_one OP_CHECKSIG (no_code (script_checkSig cx)) fs;
          fs = set_one OP_CHECKSIGVERIFY (no_code (script_checkSig cx)) fs;
          fs = set_one OP_CHECKMULTISIG (no_code (script_checkMultiSig cx)) fs;
          fs = set_one OP_CHECKMULTISIGVERIFY (no_code (script_checkMultiSig cx)) fs;
          fs = set_one OP_NOP (no_code script_noop) fs
      in set_one OP_RETURN (no_code script_return) fs)"

definition table_eval :: "'s vm_context \<Rightarrow> 's script_function" where
  "table_eval cx vm opcode code = (function_table cx ! unat opcode) vm opcode code"

partial_function (option) eval_loop :: "'s vm_context \<Rightarrow> ScriptVM \<Rightarrow> 's \<Rightarrow> ScriptVM option option" where
  "eval_loop cx vm code =
     (if errcode (env vm) = 0
      then case rd8 (code_stream cx) code of
             (None, code1) \<Rightarrow> Some (Some vm)
           | (Some op, code1) \<Rightarrow>
               (case table_eval cx vm op code1 of
                  None \<Rightarrow> Some None
                | Some (vm', code2) \<Rightarrow> eval_loop cx vm' code2)
      else Some (Some vm))"

text \<open>\<open>eval\<close> returns \<open>true\<close> whenever it returns.\<close>

definition vm_eval :: "'s vm_context \<Rightarrow> ScriptVM \<Rightarrow> bytes \<Rightarrow> ScriptVM option option" where
  "vm_eval cx vm code =
     (if code = [] then Some None
      else eval_loop cx (vm\<lparr>env := (env vm)\<lparr>env_code := code\<rparr>\<rparr>) (of_bytes (code_stream cx) code))"

section \<open>The table\<close>

lemma length_set_range [simp]: "length (set_range a b f fs) = length fs"
proof -
  have "length (fold (\<lambda>i fs. fs[i := f]) is fs) = length fs" for "is"
    by (induction "is" arbitrary: fs) simp_all
  then show ?thesis by (simp add: set_range_def)
qed

lemma nth_set_range:
  assumes "n < length fs"
  shows "set_range a b f fs ! n = (if unat a \<le> n \<and> n \<le> unat b then f else fs ! n)"
proof -
  have "n < length fs \<Longrightarrow> fold (\<lambda>i fs. fs[i := f]) is fs ! n = (if n \<in> set is then f else fs ! n)" for "is"
    by (induction "is" arbitrary: fs) (simp_all add: nth_list_update)
  then have "set_range a b f fs ! n = (if n \<in> set [unat a ..< Suc (unat b)] then f else fs ! n)"
    using assms unfolding set_range_def by blast
  then show ?thesis by (simp del: upt_Suc add: less_Suc_eq_le)
qed

lemma length_function_table: "length (function_table cx) = 256"
  by (simp add: function_table_def Let_def)

lemmas table_simps = table_eval_def function_table_def Let_def nth_set_range nth_list_update

lemma list_all_set_range: "list_all P fs \<Longrightarrow> P f \<Longrightarrow> list_all P (set_range a b f fs)"
  by (auto simp: list_all_length nth_set_range)

lemma reserved_entries:
  assumes "n = 80 \<or> 98 \<le> n \<and> n \<le> 105 \<or> 107 \<le> n \<and> n \<le> 108 \<or> 112 \<le> n \<and> n \<le> 115 \<or> 119 \<le> n \<and> n \<le> 129
    \<or> 131 \<le> n \<and> n \<le> 134 \<or> 137 \<le> n \<and> n \<le> 138 \<or> n = 171 \<or> 176 \<le> n \<and> n < 256"
  shows "function_table cx ! n = no_code script_reserved"
  using assms by (elim disjE conjE; simp add: function_table_def Let_def nth_set_range nth_list_update)

text \<open>Only the push functions read the code.\<close>

lemma function_table_all:
  assumes "\<And>f. P (no_code f)" "P (script_push0 cx)" "P (script_pushdata cx (rd8 (code_stream cx)))"
    "P (script_pushdata cx (rd16 (code_stream cx)))" "P (script_pushdata cx (rd32 (code_stream cx)))" "n < 256"
  shows "P (function_table cx ! n)"
proof -
  have "list_all P (function_table cx)"
    unfolding function_table_def Let_def
    by (intro list_all_update list_all_set_range assms) (simp add: list_all_iff assms)
  then show ?thesis using assms(6) by (simp add: list_all_length length_function_table)
qed

section \<open>The loop over the code\<close>

text \<open>A stream over a buffer is either bad or a stream over a shorter buffer after any read.\<close>

definition at_most :: "'s istream \<Rightarrow> nat \<Rightarrow> 's \<Rightarrow> bool" where
  "at_most ist n s \<longleftrightarrow> \<not> good ist s \<or> (\<exists>r. s = of_bytes ist r \<and> length r \<le> n)"

lemma at_most_of_bytes [intro]: "length r \<le> n \<Longrightarrow> at_most ist n (of_bytes ist r)"
  by (auto simp: at_most_def)

locale script_machine = streams "code_stream cx" os
  for cx :: "'s vm_context" and os
begin

lemma bad_read: "fails_bad (code_stream cx) rd \<Longrightarrow> rd s = (v, s') \<Longrightarrow> \<not> good (code_stream cx) s \<Longrightarrow>
    v = None \<and> \<not> good (code_stream cx) s'"
  by (auto simp: fails_bad_def dest!: spec [of _ s])

lemma none_bad: "fails_bad (code_stream cx) rd \<Longrightarrow> rd s = (None, s') \<Longrightarrow> \<not> good (code_stream cx) s'"
  by (auto simp: fails_bad_def dest!: spec [of _ s])

lemma at_most_read:
  assumes bad: "fails_bad (code_stream cx) rd"
    and short: "\<And>r. length r < k \<Longrightarrow> fst (rd (of_bytes (code_stream cx) r)) = None"
    and enough: "\<And>r. k \<le> length r \<Longrightarrow> snd (rd (of_bytes (code_stream cx) r)) = of_bytes (code_stream cx) (drop k r)"
    and s: "at_most (code_stream cx) n s" "rd s = (v, s')"
  shows "at_most (code_stream cx) n s'"
  using s(1) unfolding at_most_def [of _ n s]
proof (elim disjE exE conjE)
  assume "\<not> good (code_stream cx) s"
  then show ?thesis using bad_read [OF bad s(2)] by (simp add: at_most_def)
next
  fix r assume r: "s = of_bytes (code_stream cx) r" "length r \<le> n"
  show ?thesis
  proof (cases "length r < k")
    case True
    then have "v = None" using short s(2) r by fastforce
    then show ?thesis using none_bad [OF bad] s(2) by (simp add: at_most_def)
  next
    case False
    then show ?thesis using enough [of r] s(2) r by auto
  qed
qed

lemma enough_le: "length r \<ge> k \<Longrightarrow> r = le_bytes k (le_word (take k r) :: 'w::len word) @ drop k r" if "8 * k \<le> LENGTH('w)"
  using le_bytes_le_word [of "take k r" k, where 'a = 'w] that by simp

lemma wr16_le_bytes: "wr16 os h = le_bytes 2 h"
  by (simp add: wr16_le le_bytes_2)

lemma read_16: "2 \<le> length r \<Longrightarrow>
    rd16 (code_stream cx) (of_bytes (code_stream cx) r) = (Some (le_word (take 2 r)), of_bytes (code_stream cx) (drop 2 r))"
  using enough_le [of 2 r, where 'w = 16] rd16 [of "le_word (take 2 r)" "drop 2 r"] by (simp add: wr16_le_bytes)

lemma read_32: "4 \<le> length r \<Longrightarrow>
    rd32 (code_stream cx) (of_bytes (code_stream cx) r) = (Some (le_word (take 4 r)), of_bytes (code_stream cx) (drop 4 r))"
  using enough_le [of 4 r, where 'w = 32] rd32 [of "le_word (take 4 r)" "drop 4 r"] by (simp add: wr32_le)

lemma read_8: "1 \<le> length r \<Longrightarrow>
    rd8 (code_stream cx) (of_bytes (code_stream cx) r) = (Some (hd r), of_bytes (code_stream cx) (drop 1 r))"
  by (cases r) simp_all

lemma read_str: "k \<le> length r \<Longrightarrow>
    rd_str (code_stream cx) k (of_bytes (code_stream cx) r) = (Some (take k r), of_bytes (code_stream cx) (drop k r))"
  using rd_str [of "take k r" k "drop k r"] by simp

lemma at_most_reads:
  "at_most (code_stream cx) n s \<Longrightarrow> rd8 (code_stream cx) s = (v8, s') \<Longrightarrow> at_most (code_stream cx) n s'"
  "at_most (code_stream cx) n s \<Longrightarrow> rd16 (code_stream cx) s = (v16, s') \<Longrightarrow> at_most (code_stream cx) n s'"
  "at_most (code_stream cx) n s \<Longrightarrow> rd32 (code_stream cx) s = (v32, s') \<Longrightarrow> at_most (code_stream cx) n s'"
  "at_most (code_stream cx) n s \<Longrightarrow> rd_str (code_stream cx) k s = (vs, s') \<Longrightarrow> at_most (code_stream cx) n s'"
proof -
  have short: "length r < 1 \<Longrightarrow> fst (rd8 (code_stream cx) (of_bytes (code_stream cx) r)) = None" for r
    using rd8_end by (cases r) simp_all
  show "at_most (code_stream cx) n s \<Longrightarrow> rd8 (code_stream cx) s = (v8, s') \<Longrightarrow> at_most (code_stream cx) n s'"
    by (erule at_most_read [OF rd_bad(1), of 1, rotated 2]) (simp_all add: short read_8 del: One_nat_def)
  show "at_most (code_stream cx) n s \<Longrightarrow> rd16 (code_stream cx) s = (v16, s') \<Longrightarrow> at_most (code_stream cx) n s'"
    by (erule at_most_read [OF rd_bad(2) rd16_end, rotated 2]) (use read_16 in auto)
  show "at_most (code_stream cx) n s \<Longrightarrow> rd32 (code_stream cx) s = (v32, s') \<Longrightarrow> at_most (code_stream cx) n s'"
    by (erule at_most_read [OF rd_bad(3) rd32_end, rotated 2]) (use read_32 in auto)
  show "at_most (code_stream cx) n s \<Longrightarrow> rd_str (code_stream cx) k s = (vs, s') \<Longrightarrow> at_most (code_stream cx) n s'"
    by (erule at_most_read [OF rd_bad(6) rd_str_end, rotated 2]) (use read_str in auto)
qed

lemma at_most_pushdata:
  assumes "\<And>s v s'. at_most (code_stream cx) n s \<Longrightarrow> rd s = (v, s') \<Longrightarrow> at_most (code_stream cx) n s'"
    and "at_most (code_stream cx) n code" "script_pushdata cx rd vm opcode code = Some (vm', code')"
  shows "at_most (code_stream cx) n code'"
proof -
  obtain sz code1 where 1: "into rd 0 code = (sz, code1)" by fastforce
  then have "at_most (code_stream cx) n code1" using assms(1,2) by (auto simp: into_def split: prod.splits option.splits)
  then show ?thesis using assms(3) 1 at_most_reads(4)
    by (auto simp: script_pushdata_def split: prod.splits option.splits)
qed

lemma at_most_push0:
  assumes "at_most (code_stream cx) n code" "script_push0 cx vm opcode code = Some (vm', code')"
  shows "at_most (code_stream cx) n code'"
  using assms at_most_reads(4) [OF assms(1), of "unat opcode"]
  by (cases "rd_str (code_stream cx) (unat opcode) code")
    (auto simp: script_push0_def split: if_splits option.splits)

lemma at_most_eval:
  assumes code: "at_most (code_stream cx) n code" and e: "table_eval cx vm opcode code = Some (vm', code')"
  shows "at_most (code_stream cx) n code'"
proof -
  have "unat opcode < 256" using unsigned_less [of opcode] by simp
  then have "(function_table cx ! unat opcode) vm opcode code = Some (vm', code') \<longrightarrow> at_most (code_stream cx) n code'"
  proof (rule function_table_all [rotated 5], goal_cases)
    case (1 f)
    then show ?case using code by (cases "f vm opcode") (auto simp: no_code_def)
  next
    case 2
    then show ?case using at_most_push0 [OF code] by blast
  next
    case 3
    show ?case by (intro impI, rule at_most_pushdata [OF _ code]) (erule (1) at_most_reads(1), assumption)
  next
    case 4
    show ?case by (intro impI, rule at_most_pushdata [OF _ code]) (erule (1) at_most_reads(2), assumption)
  next
    case 5
    show ?case by (intro impI, rule at_most_pushdata [OF _ code]) (erule (1) at_most_reads(3), assumption)
  qed
  then show ?thesis using e by (simp add: table_eval_def)
qed

lemma eval_loop_end [simp]: "eval_loop cx vm (of_bytes (code_stream cx) []) = Some (Some vm)"
  using rd8_end by (subst eval_loop.simps) (auto split: prod.split option.split)

lemma eval_loop_bad: "\<not> good (code_stream cx) s \<Longrightarrow> eval_loop cx vm s = Some (Some vm)"
  using bad_read [OF rd_bad(1), of s] by (subst eval_loop.simps) (auto split: prod.split option.split)

lemma eval_loop_error: "errcode (env vm) \<noteq> 0 \<Longrightarrow> eval_loop cx vm s = Some (Some vm)"
  by (subst eval_loop.simps) simp

lemma eval_loop_step:
  "errcode (env vm) = 0 \<Longrightarrow> eval_loop cx vm (of_bytes (code_stream cx) (opcode # r)) =
     (case table_eval cx vm opcode (of_bytes (code_stream cx) r) of
        None \<Rightarrow> Some None | Some (vm', code') \<Rightarrow> eval_loop cx vm' code')"
  by (subst eval_loop.simps) simp

lemma eval_loop_returns: "at_most (code_stream cx) n s \<Longrightarrow> eval_loop cx vm s \<noteq> None"
proof (induction n arbitrary: vm s rule: less_induct)
  case (less n)
  from less.prems consider "\<not> good (code_stream cx) s" | r where "s = of_bytes (code_stream cx) r" "length r \<le> n"
    by (auto simp: at_most_def)
  then show ?case
  proof cases
    case 1
    then show ?thesis by (simp add: eval_loop_bad)
  next
    case 2
    show ?thesis
    proof (cases "r = [] \<or> errcode (env vm) \<noteq> 0")
      case True
      then show ?thesis using 2 by (auto simp: eval_loop_error)
    next
      case False
      then obtain x q where r: "r = x # q" by (cases r) auto
      then have "eval_loop cx vm' code' \<noteq> None"
        if "table_eval cx vm x (of_bytes (code_stream cx) q) = Some (vm', code')" for vm' code'
        using 2 at_most_eval [OF _ that, of "length q"] less.IH [of "length q" code'] by auto
      then show ?thesis using False 2 r by (auto simp: eval_loop_step split: option.split)
    qed
  qed
qed

end

section \<open>What the opcodes do\<close>

lemma table_push: "unat opcode < 76 \<Longrightarrow> table_eval cx vm opcode = script_push0 cx vm opcode"
  by (rule ext) (simp add: table_simps)

lemma table_pushdata:
  "table_eval cx vm OP_PUSHDATA1 = script_pushdata cx (rd8 (code_stream cx)) vm OP_PUSHDATA1"
  "table_eval cx vm OP_PUSHDATA2 = script_pushdata cx (rd16 (code_stream cx)) vm OP_PUSHDATA2"
  "table_eval cx vm OP_PUSHDATA4 = script_pushdata cx (rd32 (code_stream cx)) vm OP_PUSHDATA4"
  by (rule ext, simp add: table_simps)+

lemma table_integer:
  "unat OP_1 \<le> unat opcode \<Longrightarrow> unat opcode \<le> unat OP_16 \<Longrightarrow> table_eval cx vm opcode = no_code script_integer vm opcode"
  "table_eval cx vm OP_1NEGATE = no_code script_integer vm OP_1NEGATE"
  by (rule ext, simp add: table_simps)+

lemma table_others:
  "table_eval cx vm OP_DUP = no_code script_dup vm OP_DUP"
  "table_eval cx vm OP_2DUP = no_code script_dup2 vm OP_2DUP"
  "table_eval cx vm OP_HASH160 = no_code (script_hash cx) vm OP_HASH160"
  "table_eval cx vm OP_EQUALVERIFY = no_code script_equal vm OP_EQUALVERIFY"
  "table_eval cx vm OP_CHECKSIG = no_code (script_checkSig cx) vm OP_CHECKSIG"
  "table_eval cx vm OP_CHECKMULTISIG = no_code (script_checkMultiSig cx) vm OP_CHECKMULTISIG"
  "table_eval cx vm OP_RETURN = no_code script_return vm OP_RETURN"
  by (rule ext, simp add: table_simps)+

lemma as_int32_small: "n < 2 ^ 31 \<Longrightarrow> as_int32 n = int n"
  unfolding as_int32_def by (subst signed_of_nat) (simp add: signed_take_bit_int_eq_self order_trans [of _ 0])

lemma unat_word_of_int: "0 \<le> x \<Longrightarrow> x < 2 ^ LENGTH('w) \<Longrightarrow> unat (word_of_int x :: 'w::len word) = nat x"
  by (simp add: unat_eq_nat_uint uint_word_of_int)

context script_machine
begin

text \<open>What the script writers emit, the machine pushes.\<close>

lemma eval_push:
  assumes "errcode (env vm) = 0" "length v < 2 ^ 31"
  shows "eval_loop cx vm (of_bytes (code_stream cx) (writeScriptString os v @ r)) =
    eval_loop cx (on_stack (stack_push v) vm) (of_bytes (code_stream cx) r)"
proof -
  define n where "n = length v"
  have sz: "as_int32 (length v) = int n" using assms(2) by (simp add: n_def as_int32_small)
  have body: "(if int n > 0 then take (nat (int n)) v else []) = v" by (simp add: n_def)
  have w: "writeScriptString os v = push_header os (int n) @ v"
    unfolding writeScriptString_def Let_def sz body ..
  have str: "rd_str (code_stream cx) n (of_bytes (code_stream cx) (v @ r)) = (Some v, of_bytes (code_stream cx) r)"
    by (simp add: n_def)
  consider "n < 76" | "76 \<le> n" "n \<le> 0xff" | "0xff < n" "n \<le> 0xffff" | "0xffff < n" by linarith
  then show ?thesis
  proof cases
    case 1
    then have h: "push_header os (int n) = [word_of_int (int n)]" by (simp add: push_header_def)
    have u: "unat (word_of_int (int n) :: byte) = n" using 1 by (subst unat_word_of_int) simp_all
    have t: "table_eval cx vm (word_of_int (int n)) = script_push0 cx vm (word_of_int (int n))"
      using 1 u by (intro table_push) simp
    have "script_push0 cx vm (word_of_int (int n)) (of_bytes (code_stream cx) (v @ r)) =
        Some (on_stack (stack_push v) vm, of_bytes (code_stream cx) r)"
    proof (cases "n = 0")
      case True
      then show ?thesis using n_def by (simp add: script_push0_def)
    next
      case False
      then have "0 < (word_of_int (int n) :: byte)" "(word_of_int (int n) :: byte) < 76"
        using 1 u by (simp_all add: word_less_nat_alt)
      then show ?thesis using str u by (simp add: script_push0_def)
    qed
    then show ?thesis using assms(1) t by (simp add: w h eval_loop_step)
  next
    case 2
    then have h: "push_header os (int n) = [OP_PUSHDATA1, word_of_int (int n)]" by (simp add: push_header_def)
    have u: "unat (word_of_int (int n) :: byte) = n" using 2 by (subst unat_word_of_int) simp_all
    show ?thesis using assms(1) u str
      by (simp add: w h eval_loop_step table_pushdata script_pushdata_def into_def)
  next
    case 3
    then have h: "push_header os (int n) = OP_PUSHDATA2 # wr16 os (word_of_int (int n))" by (simp add: push_header_def)
    have u: "unat (word_of_int (int n) :: u16) = n" using 3 by (subst unat_word_of_int) simp_all
    show ?thesis using assms(1) u str
      by (simp add: w h eval_loop_step table_pushdata script_pushdata_def into_def)
  next
    case 4
    then have h: "push_header os (int n) = OP_PUSHDATA4 # wr32 os (word_of_int (int n))" by (simp add: push_header_def)
    have u: "unat (word_of_int (int n) :: u32) = n" using assms(2) by (subst unat_word_of_int) (simp_all add: n_def)
    show ?thesis using assms(1) u str
      by (simp add: w h eval_loop_step table_pushdata script_pushdata_def into_def)
  qed
qed

lemma eval_push_integer:
  assumes "errcode (env vm) = 0" "in64 v" "writeScriptInteger os v = Some e"
  shows "\<exists>s. encodeScriptNumber v = Some s \<and>
    eval_loop cx vm (of_bytes (code_stream cx) (e @ r)) = eval_loop cx (on_stack (stack_push s) vm) (of_bytes (code_stream cx) r)"
proof -
  consider "v = - 1 \<or> (v \<ge> 1 \<and> v \<le> 16)" | "v = 0" | "\<not> (v = - 1 \<or> (v \<ge> 1 \<and> v \<le> 16))" "v \<noteq> 0" by blast
  then show ?thesis
  proof cases
    case 1
    define opcode :: byte where "opcode = word_of_int (v + 80)"
    have e: "e = [opcode]" using 1 assms(3) by (simp add: writeScriptInteger_def opcode_def)
    have "0 \<le> v + 80" "v + 80 < 2 ^ 8" using 1 by auto
    then have "uint opcode = v + 80" unfolding opcode_def uint_word_of_int by simp
    then have u: "uint opcode = v + 80" "unat opcode = nat (v + 80)" by (simp_all add: unat_eq_nat_uint)
    have t: "table_eval cx vm opcode = no_code script_integer vm opcode"
    proof (cases "v = - 1")
      case True
      then have "opcode = OP_1NEGATE" by (simp add: opcode_def)
      then show ?thesis by (simp add: table_integer)
    next
      case False
      then show ?thesis using 1 u by (intro table_integer) (simp_all add: le_nat_iff nat_le_iff)
    qed
    obtain s where s: "encodeScriptNumber v = Some s"
      using script_number_roundtrip_ex [of v] 1 by (auto simp: in64_def)
    have "(opcode \<ge> OP_1 \<and> opcode \<le> OP_16) \<or> opcode = OP_1NEGATE"
      using 1 u by (auto simp: word_le_def word_uint_eq_iff)
    then have "script_integer vm opcode = Some (on_stack (stack_push s) vm)"
      using s u by (simp add: script_integer_def)
    then show ?thesis using assms(1) s by (simp add: e eval_loop_step t no_code_def)
  next
    case 2
    then have "writeScriptInteger os v = Some (writeScriptString os [])"
      by (simp add: writeScriptInteger_def writeScriptString_def push_header_def as_int32_small)
    then show ?thesis using 2 assms eval_push [OF assms(1), of "[]" r] by (simp add: encodeScriptNumber_def)
  next
    case 3
    then obtain s where s: "encodeScriptNumber v = Some s" "e = writeScriptString os s"
      using assms(3) by (auto simp: writeScriptInteger_def writeScriptNumber_def split: bind_splits)
    then have "length s \<le> 8" using encode_in64 assms(2) by blast
    then show ?thesis using eval_push [OF assms(1), of s r] s by auto
  qed
qed

end

section \<open>Signatures\<close>

text \<open>The greedy match of \<open>checkMultiSig\<close> succeeds exactly when the signatures can be matched, in
  order, with some of the keys: the signatures embed into the keys.\<close>

lemma next_key_cases:
  assumes "\<forall>k \<in> set ks. check k = Some (ok k)" "used \<le> length ks"
  shows "\<exists>found used'. next_key check ks used = Some (found, used') \<and>
    (if found then \<exists>pre k. drop used ks = pre @ k # drop used' ks \<and> ok k \<and> (\<forall>x \<in> set pre. \<not> ok x) \<and> used' \<le> length ks
     else \<forall>x \<in> set (drop used ks). \<not> ok x)"
  using assms
proof (induction check ks used rule: next_key.induct)
  case (1 check ks used)
  show ?case
  proof (cases "used < length ks")
    case True
    then have d: "drop used ks = ks ! used # drop (Suc used) ks" by (rule drop_nth_Cons)
    have c: "check (ks ! used) = Some (ok (ks ! used))" using "1.prems"(1) True by simp
    show ?thesis
    proof (cases "ok (ks ! used)")
      case ok: True
      have "\<exists>pre k. drop used ks = pre @ k # drop (Suc used) ks \<and> ok k \<and> (\<forall>x \<in> set pre. \<not> ok x)"
        using d ok by (intro exI [of _ "[]"] exI [of _ "ks ! used"]) simp
      then show ?thesis using c ok True
        by (intro exI [of _ True] exI [of _ "Suc used"]) (simp add: next_key.simps [of check])
    next
      case bad: False
      have n: "next_key check ks used = next_key check ks (used + 1)" using c bad True by (simp add: next_key.simps [of check ks used])
      have "used + 1 \<le> length ks" using True by simp
      from "1.IH" [OF True c bad "1.prems"(1) this]
      obtain found used' where f: "next_key check ks (used + 1) = Some (found, used')"
        "if found then \<exists>pre k. drop (used + 1) ks = pre @ k # drop used' ks \<and> ok k \<and> (\<forall>x \<in> set pre. \<not> ok x) \<and> used' \<le> length ks
         else \<forall>x \<in> set (drop (used + 1) ks). \<not> ok x"
        using bad by auto
      show ?thesis
      proof (cases found)
        case True
        then obtain pre k where "drop (Suc used) ks = pre @ k # drop used' ks" "ok k" "\<forall>x \<in> set pre. \<not> ok x" "used' \<le> length ks"
          using f(2) by auto
        then show ?thesis using True bad d n f(1) by (auto intro!: exI [of _ "ks ! used # pre"] exI [of _ k])
      qed (use n f bad d in auto)
    qed
  qed (use 1 in \<open>simp add: next_key.simps ex_bool_eq\<close>)
qed

lemma next_key_some: "\<forall>k \<in> set ks. check k \<noteq> None \<Longrightarrow> next_key check ks used \<noteq> None"
proof (induction check ks used rule: next_key.induct)
  case (1 check ks used)
  show ?case
  proof (cases "used < length ks")
    case True
    then obtain b where "check (ks ! used) = Some b" using "1.prems" by fastforce
    then show ?thesis using 1 True by (simp add: next_key.simps [of check ks used] ex_bool_eq del: next_key.simps)
  qed (simp add: next_key.simps)
qed

lemma sig_loop_le:
  "\<forall>sig \<in> set sigs. \<forall>k \<in> set ks. chk sig k \<noteq> None \<Longrightarrow>
    \<exists>n. sig_loop chk ks sigs used passed = Some n \<and> n \<le> passed + length sigs"
proof (induction sigs arbitrary: used passed)
  case (Cons sig sigs)
  have "\<forall>k \<in> set ks. chk sig k \<noteq> None" using Cons.prems by simp
  then obtain found used' where "next_key (chk sig) ks used = Some (found, used')"
    using next_key_some [of ks "chk sig" used] by force
  then show ?case using Cons.IH [of used' passed] Cons.IH [of used' "passed + 1"] Cons.prems by auto
qed simp

lemma list_emb_first:
  assumes "\<forall>x \<in> set pre. \<not> P a x" "P a k"
  shows "list_emb P (a # xs) (pre @ k # r) \<longleftrightarrow> list_emb P xs r"
proof
  have skip: "list_emb P (a # xs) (pre @ ys) \<Longrightarrow> list_emb P (a # xs) ys" for ys
    using assms(1) by (induction pre) (auto elim: list_emb.cases)
  assume "list_emb P (a # xs) (pre @ k # r)"
  then have "list_emb P (a # xs) (k # r)" by (rule skip)
  then show "list_emb P xs r" by cases (auto dest: list_emb_ConsD)
next
  assume "list_emb P xs r"
  then have "list_emb P (a # xs) (k # r)" using assms(2) by simp
  then show "list_emb P (a # xs) (pre @ k # r)" by (rule list_emb_append2)
qed

lemma sig_loop_all:
  assumes "\<forall>sig \<in> set sigs. \<forall>k \<in> set ks. chk sig k = Some (ok sig k)" "used \<le> length ks"
  shows "\<exists>n. sig_loop chk ks sigs used passed = Some n \<and> n \<le> passed + length sigs \<and>
    (passed + length sigs \<le> n \<longleftrightarrow> list_emb ok sigs (drop used ks))"
  using assms
proof (induction sigs arbitrary: used passed)
  case (Cons sig sigs)
  have "\<forall>k \<in> set ks. chk sig k = Some (ok sig k)" using Cons.prems(1) by simp
  from next_key_cases [OF this Cons.prems(2)] obtain found used' where n: "next_key (chk sig) ks used = Some (found, used')"
    "if found then \<exists>pre k. drop used ks = pre @ k # drop used' ks \<and> ok sig k \<and> (\<forall>x \<in> set pre. \<not> ok sig x) \<and> used' \<le> length ks
     else \<forall>x \<in> set (drop used ks). \<not> ok sig x"
    by blast
  show ?case
  proof (cases found)
    case True
    then obtain pre k where k: "drop used ks = pre @ k # drop used' ks" "ok sig k"
      "\<forall>x \<in> set pre. \<not> ok sig x" "used' \<le> length ks"
      using n(2) by auto
    then show ?thesis using Cons.IH [OF _ k(4), of "passed + 1"] Cons.prems(1) True n(1) by (simp add: list_emb_first)
  next
    case False
    then have none: "\<forall>x \<in> set (drop used ks). \<not> ok sig x" using n(2) by simp
    then have "\<not> list_emb ok (sig # sigs) (drop used ks)" by (auto dest: list_emb_ConsD)
    moreover have "\<exists>n. sig_loop chk ks sigs used' passed = Some n \<and> n \<le> passed + length sigs"
      using sig_loop_le [of sigs ks chk used' passed] Cons.prems(1) by simp
    ultimately show ?thesis using False n(1) by fastforce
  qed
qed simp

lemma list_emb_rev: "list_emb P xs ys \<Longrightarrow> list_emb P (rev xs) (rev ys)"
  by (induction rule: list_emb.induct) (auto intro: list_emb_append_mono subseq_rev_drop_many list_emb_prefix)

lemma list_emb_rev_iff [simp]: "list_emb P (rev xs) (rev ys) \<longleftrightarrow> list_emb P xs ys"
  using list_emb_rev [of P xs ys] list_emb_rev [of P "rev xs" "rev ys"] by auto

lemma list_emb_ex: "list_emb P xs ys \<longleftrightarrow> (\<exists>zs. subseq zs ys \<and> list_all2 P xs zs)"
proof
  show "list_emb P xs ys \<Longrightarrow> \<exists>zs. subseq zs ys \<and> list_all2 P xs zs"
  proof (induction rule: list_emb.induct)
    case (list_emb_Cons2 x y xs ys)
    then obtain zs where "subseq zs ys" "list_all2 P xs zs" by blast
    then show ?case using list_emb_Cons2.hyps(1) by (intro exI [of _ "y # zs"]) simp
  qed auto
  have "list_all2 P xs zs \<Longrightarrow> subseq zs ys \<Longrightarrow> list_emb P xs ys" for zs
  proof (induction arbitrary: ys rule: list_all2_induct)
    case (Cons x xs z zs)
    then obtain us vs where "ys = us @ z # vs" "subseq zs vs" by (auto dest!: list_emb_ConsD)
    then show ?case using Cons by (auto intro!: list_emb_append2)
  qed simp
  then show "\<exists>zs. subseq zs ys \<and> list_all2 P xs zs \<Longrightarrow> list_emb P xs ys" by blast
qed

lemma checkMultiSig_emb:
  assumes "\<forall>sig \<in> set signatures. \<forall>key \<in> set pubkeys. checker cx sig key (env_code (env vm)) \<noteq> None"
  shows "checkMultiSig cx vm pubkeys signatures =
    Some (list_emb (\<lambda>sig pubkey. checker cx sig pubkey (env_code (env vm)) = Some True) signatures pubkeys)"
proof -
  have "\<forall>sig \<in> set signatures. \<forall>key \<in> set pubkeys. checker cx sig key (env_code (env vm)) =
      Some (checker cx sig key (env_code (env vm)) = Some True)"
    using assms by fastforce
  from sig_loop_all [OF this, of 0 0] show ?thesis by (auto simp: checkMultiSig_def)
qed

section \<open>Reading the stack from its top\<close>

lemma stack_get_top:
  assumes "i < length st"
  shows "stack_get st (- int i - 1) = Some (rev st ! i)"
proof -
  have "nat (int (length st) - (1 + int i)) = length st - Suc i" using assms by linarith
  moreover have "nat (- int i - 1 + int (length st)) = length st - Suc i" using assms by linarith
  ultimately show ?thesis unfolding stack_get_def using assms by (auto simp only: Let_def rev_nth split: if_splits)
qed

lemma get_from_top:
  "k + i + n \<le> length st \<Longrightarrow> get_from st (- int k - 1) i n = Some (take n (drop (k + i) (rev st)))"
proof (induction n arbitrary: i)
  case (Suc n)
  have idx: "(if - int k - 1 \<ge> 0 then - int k - 1 + int i else - int k - 1 - int i) = - int (k + i) - 1" by simp
  have "drop (k + i) (rev st) = rev st ! (k + i) # drop (Suc (k + i)) (rev st)" using Suc.prems by (intro drop_nth_Cons) simp
  then show ?case
    unfolding get_from.simps idx using Suc stack_get_top [of "k + i" st] by simp
qed simp

lemma check_integer_top:
  "i < length (vars vm) \<Longrightarrow> check_integer vm (- int i - 1) = decodeScriptNumber (rev (vars vm) ! i)"
  using stack_get_top [of i "vars vm"]
  by (cases "decodeScriptNumber (rev (vars vm) ! i)") (simp_all add: check_integer_def getIntegerValue_def getValue_def vm_size_def)

lemma check_values_top:
  "k + n < length (vars vm) \<Longrightarrow> check_values vm (- int k - 1) (int n) = Some (take n (drop k (rev (vars vm))))"
  using get_from_top [of k 0 n "vars vm"] by (simp add: check_values_def getValues_def vm_size_def)

lemma bool_of_bool [simp]: "bool_of vTrue" "\<not> bool_of vFalse"
  by (simp_all add: vTrue_def vFalse_def)

lemma getBoolValue_top: "vars vm = st @ [s] \<Longrightarrow> getBoolValue vm (- 1) = Some (bool_of s)"
  using stack_get_top [of 0 "vars vm"] by (simp add: getBoolValue_def getValue_def vm_size_def)

lemma pop_n_append [simp]: "length b = n \<Longrightarrow> stack_pop_n n (a @ b) = Some a"
proof -
  have "(butlast ^^ length b) (a @ b) = a"
    by (induction b rule: rev_induct) (simp_all add: funpow_swap1 butlast_append)
  then show "length b = n \<Longrightarrow> ?thesis" by (auto simp: stack_pop_n_def)
qed

lemma multisig_step:
  assumes st: "vars vm = base @ dummy # sigs @ m # keys @ [n]"
    and n: "decodeScriptNumber n = Some (int (length keys))" "length keys < 20"
    and m: "decodeScriptNumber m = Some (int (length sigs))" "length sigs \<le> length keys"
    and chk: "\<forall>sig \<in> set sigs. \<forall>key \<in> set keys. checker cx sig key (env_code (env vm)) \<noteq> None"
  shows "script_checkMultiSig cx vm OP_CHECKMULTISIG = Some (vm\<lparr>vars := base @
    [if list_emb (\<lambda>sig pubkey. checker cx sig pubkey (env_code (env vm)) = Some True) sigs keys then vTrue else vFalse]\<rparr>)"
proof -
  let ?k = "length keys" and ?s = "length sigs"
  have rev: "rev (vars vm) = n # rev keys @ m # rev sigs @ dummy # rev base" by (simp add: st)
  have len: "length (vars vm) = length base + ?s + ?k + 3" by (simp add: st)
  have 1: "check_integer vm (- 1) = Some (int ?k)" using check_integer_top [of 0 vm] n by (simp add: rev len)
  have 2: "check_integer vm (- 2 - int ?k) = Some (int ?s)"
    using check_integer_top [of "Suc ?k" vm] m by (simp add: rev len nth_append)
  have 3: "check_values vm (- 2) (int ?k) = Some (rev keys)"
    using check_values_top [of 1 ?k vm] by (simp add: rev len)
  have 4: "check_values vm (- 3 - int ?k) (int ?s) = Some (rev sigs)"
    using check_values_top [of "Suc (Suc ?k)" ?s vm] by (simp add: rev len)
  have 5: "stack_pop_n (nat (2 + int ?k + int ?s)) (vars vm) = Some (base @ [dummy])"
    using pop_n_append [of "sigs @ m # keys @ [n]" "nat (2 + int ?k + int ?s)" "base @ [dummy]"] by (simp add: st)
  have 6: "stack_pop_n 1 (base @ [dummy]) = Some base" by (simp del: One_nat_def)
  show ?thesis
    using n(2) m(2) 3 checkMultiSig_emb [of "rev sigs" "rev keys" cx vm] chk
    by (simp add: script_checkMultiSig_def 1 2 3 4 5 6 MAX_PUBKEYS_PER_MULTISIG_def vm_size_def
        try_stack_def on_stack_def stack_pushBool_def stack_push_def len del: One_nat_def)
qed

lemma pair_checks:
  assumes "vars vm = st @ [a, b]"
  shows "vm_size vm \<ge> 2" "stack_get (vars vm) (- 1) = Some b" "stack_get (vars vm) (- 2) = Some a"
    "stack_pop_n 2 (vars vm) = Some st"
  using assms stack_get_top [of 0 "vars vm"] stack_get_top [of 1 "vars vm"] pop_n_append [of "[a, b]" 2 st]
  by (simp_all add: vm_size_def)

lemma equalverify_step:
  assumes "vars vm = st @ [a, b]"
  shows "script_equal vm OP_EQUALVERIFY = Some (if a = b then vm\<lparr>vars := st\<rparr>
    else setError (error_code SCRIPT_ERR_EQUALVERIFY) (vm\<lparr>vars := st @ [vFalse]\<rparr>))"
  using pair_checks [OF assms] getBoolValue_top [of "vm\<lparr>vars := st @ [vFalse]\<rparr>"] getBoolValue_top [of "vm\<lparr>vars := st @ [vTrue]\<rparr>"]
  by (auto simp: script_equal_def try_stack_def on_stack_def stack_pushBool_def stack_push_def vm_verify_def stack_pop_def)

lemma checksig_step:
  assumes "vars vm = st @ [a, b]"
  shows "script_checkSig cx vm OP_CHECKSIG = (if checker cx a b (env_code (env vm)) = Some True then Some (vm\<lparr>vars := st @ [vTrue]\<rparr>) else None)"
  using pair_checks [OF assms]
  by (cases "checker cx a b (env_code (env vm))") (auto simp: script_checkSig_def try_stack_def on_stack_def stack_pushBool_def stack_push_def)

lemma dup_hash160_step:
  assumes "vars vm = st @ [a]"
  shows "script_dup vm OP_DUP = Some (vm\<lparr>vars := st @ [a, a]\<rparr>)"
    "script_hash cx vm OP_HASH160 = Some (vm\<lparr>vars := st @ [hash160 (digests.truncate (vm_digests cx)) a]\<rparr>)"
  using assms stack_get_top [of 0 "vars vm"]
  by (simp_all add: script_dup_def stack_dup_def stack_push_index_def vm_size_def try_stack_def stack_push_def
      script_hash_def Hashers_def on_stack_def stack_pop_def)

text \<open>The machine over concrete streams.\<close>

definition le_vm :: "script_digests \<Rightarrow> (bytes \<Rightarrow> bytes \<Rightarrow> bytes \<Rightarrow> bool option) \<Rightarrow> (bytes \<times> bool) vm_context" where
  "le_vm dg chk = \<lparr>code_stream = le_istream, vm_digests = dg, checker = chk\<rparr>"

interpretation lvm: script_machine "le_vm dg chk" le_ostream for dg chk
  by (rule script_machine.intro) (simp add: le_vm_def les.streams_axioms)

text \<open>A concrete machine: the digests are the identity, and a signature is the key itself.\<close>

definition plain_vm :: "(bytes \<times> bool) vm_context" where
  "plain_vm = le_vm \<lparr>sha256 = id, ripemd160 = id, sha1 = id\<rparr> (\<lambda>sig key code. Some (sig = key))"

lemma plain_vm_streams [simp]: "streams (code_stream plain_vm) le_ostream"
  by (simp add: plain_vm_def le_vm_def les.streams_axioms)

section \<open>Properties\<close>

text \<open>C25: evaluating a script always ends, whatever the script and the stack.\<close>

theorem script_eval_terminates:
  assumes "streams (code_stream cx) os"
  shows "vm_eval cx vm code \<noteq> None"
  using script_machine.eval_loop_returns [OF script_machine.intro [OF assms], of "length code" "of_bytes (code_stream cx) code"]
  by (auto simp: vm_eval_def)

theorem script_eval_terminates_witness:
  "vm_eval plain_vm ScriptVM_new [OP_1, OP_DUP, OP_PUSHDATA2] \<noteq> None"
  by (rule script_eval_terminates [of _ le_ostream]) simp

text \<open>C28: the script writers and the machine agree: the machine pushes exactly the string a script
  string writer wrote, whichever push opcode its length takes, and exactly the encoding of the number
  a script integer writer wrote, and goes on with the rest of the script.\<close>

theorem script_push_roundtrip:
  assumes "streams (code_stream cx) os" "errcode (env vm) = 0"
  shows "(length v < 2 ^ 31 \<longrightarrow>
      eval_loop cx vm (of_bytes (code_stream cx) (writeScriptString os v @ r)) =
      eval_loop cx (on_stack (stack_push v) vm) (of_bytes (code_stream cx) r)) \<and>
    (in64 k \<longrightarrow> writeScriptInteger os k = Some e \<longrightarrow>
      (\<exists>s. encodeScriptNumber k = Some s \<and> decodeScriptNumber s = Some k \<and>
        eval_loop cx vm (of_bytes (code_stream cx) (e @ r)) =
        eval_loop cx (on_stack (stack_push s) vm) (of_bytes (code_stream cx) r)))"
  using script_machine.eval_push [OF script_machine.intro [OF assms(1)] assms(2)]
    script_machine.eval_push_integer [OF script_machine.intro [OF assms(1)] assms(2)] encode_in64
  by (intro conjI impI) blast+

theorem script_push_roundtrip_witness:
  "eval_loop plain_vm ScriptVM_new (of_bytes (code_stream plain_vm) (writeScriptString le_ostream [7, 8] @ [OP_NOP])) =
   eval_loop plain_vm (on_stack (stack_push [7, 8]) ScriptVM_new) (of_bytes (code_stream plain_vm) [OP_NOP])"
proof -
  have "streams (code_stream plain_vm) le_ostream" by simp
  then show ?thesis by (rule script_push_roundtrip [THEN conjunct1, THEN mp]) (simp_all add: ScriptVM_new_def)
qed

text \<open>a signature script that pushes a signature and a key, followed by the standard script that
  pays to a key hash: a key with another hash ends with the error of \<open>OP_EQUALVERIFY\<close>, a signature
  that does not verify (or a checker that ends the process) fails an assertion, and otherwise the stack holds just \<open>true\<close>.\<close>

theorem pay_to_key_hash:
  assumes "streams (code_stream cx) os" "length sig < 2 ^ 31" "length pubkey < 2 ^ 31" "length h < 2 ^ 31"
    and lock: "lock = [OP_DUP, OP_HASH160] @ writeScriptString os h @ [OP_EQUALVERIFY, OP_CHECKSIG]"
  shows "Option.bind (Option.bind (vm_eval cx ScriptVM_new (writeScriptString os sig @ writeScriptString os pubkey)) id)
      (\<lambda>vm. Option.bind (vm_eval cx vm lock) id) =
    (if hash160 (digests.truncate (vm_digests cx)) pubkey \<noteq> h
     then Some \<lparr>env = \<lparr>errcode = error_code SCRIPT_ERR_EQUALVERIFY, env_code = lock\<rparr>, vars = [sig, pubkey, vFalse]\<rparr>
     else if checker cx sig pubkey lock = Some True then Some \<lparr>env = \<lparr>errcode = 0, env_code = lock\<rparr>, vars = [vTrue]\<rparr>
     else None)"
proof -
  note sm = script_machine.intro [OF assms(1)]
  note ev = script_machine.eval_push [OF sm] script_machine.eval_loop_step [OF sm] script_machine.eval_loop_error [OF sm]
    script_machine.eval_loop_end [OF sm] table_others no_code_def on_stack_def stack_push_def
  define unlock where "unlock = writeScriptString os sig @ writeScriptString os pubkey"
  let ?h = "hash160 (digests.truncate (vm_digests cx)) pubkey"
  have nonempty: "unlock \<noteq> []" "lock \<noteq> []"
    using assms(2) by (auto simp: unlock_def lock writeScriptString_def Let_def push_header_def)
  have 1: "vm_eval cx ScriptVM_new unlock = Some (Some \<lparr>env = \<lparr>errcode = 0, env_code = unlock\<rparr>, vars = [sig, pubkey]\<rparr>)"
    using nonempty assms(2,3) ev(1) [where r = "[]"]
    by (simp add: vm_eval_def ScriptVM_new_def unlock_def ev)
  define vm1 where "vm1 = \<lparr>env = \<lparr>errcode = 0, env_code = lock\<rparr>, vars = [sig] @ [pubkey]\<rparr>"
  define vm3 where "vm3 = \<lparr>env = \<lparr>errcode = 0, env_code = lock\<rparr>, vars = [sig, pubkey] @ [?h, h]\<rparr>"
  have 2: "vm_eval cx \<lparr>env = \<lparr>errcode = 0, env_code = unlock\<rparr>, vars = [sig, pubkey]\<rparr> lock =
      eval_loop cx vm3 (of_bytes (code_stream cx) [OP_EQUALVERIFY, OP_CHECKSIG])"
    using nonempty assms(4) dup_hash160_step(1) [of vm1 "[sig]" pubkey] dup_hash160_step(2) [of "vm1\<lparr>vars := [sig, pubkey, pubkey]\<rparr>" "[sig, pubkey]" pubkey cx]
    by (simp add: vm_eval_def lock ev vm1_def vm3_def)
  have 3: "eval_loop cx vm3 (of_bytes (code_stream cx) [OP_EQUALVERIFY, OP_CHECKSIG]) =
     (if ?h \<noteq> h
      then Some (Some \<lparr>env = \<lparr>errcode = error_code SCRIPT_ERR_EQUALVERIFY, env_code = lock\<rparr>, vars = [sig, pubkey, vFalse]\<rparr>)
      else if checker cx sig pubkey lock = Some True then Some (Some \<lparr>env = \<lparr>errcode = 0, env_code = lock\<rparr>, vars = [vTrue]\<rparr>)
      else Some None)"
    using equalverify_step [of vm3 "[sig, pubkey]" ?h h] checksig_step [of "vm3\<lparr>vars := [sig, pubkey]\<rparr>" "[]" sig pubkey cx]
    by (simp add: ev vm3_def setError_def)
  show ?thesis using 1 2 3 by (simp add: unlock_def)
qed

theorem pay_to_key_hash_witness:
  "\<exists>lock. Option.bind (Option.bind (vm_eval plain_vm ScriptVM_new (writeScriptString le_ostream [5] @ writeScriptString le_ostream [5])) id)
      (\<lambda>vm. Option.bind (vm_eval plain_vm vm lock) id) =
    Some \<lparr>env = \<lparr>errcode = 0, env_code = lock\<rparr>, vars = [vTrue]\<rparr>"
proof (rule exI)
  show "Option.bind (Option.bind (vm_eval plain_vm ScriptVM_new (writeScriptString le_ostream [5] @ writeScriptString le_ostream [5])) id)
      (\<lambda>vm. Option.bind (vm_eval plain_vm vm
        ([OP_DUP, OP_HASH160] @ writeScriptString le_ostream [5] @ [OP_EQUALVERIFY, OP_CHECKSIG])) id) =
    Some \<lparr>env = \<lparr>errcode = 0, env_code = [OP_DUP, OP_HASH160] @ writeScriptString le_ostream [5] @ [OP_EQUALVERIFY, OP_CHECKSIG]\<rparr>, vars = [vTrue]\<rparr>"
    by (subst pay_to_key_hash [OF plain_vm_streams _ _ _ refl]) (simp_all add: plain_vm_def le_vm_def hash160_def digests.defs)
qed

text \<open>C24: \<open>OP_CHECKMULTISIG\<close> on a dummy, the signatures, their number, the keys and their number
  replaces them all by whether the signatures can be matched, in their order, with some of the keys:
  the greedy pass of the code misses no match. The checker must not end
  the process on any of the pairs.\<close>

theorem multisig_exact:
  assumes "errcode (env vm) = 0" "streams (code_stream cx) os"
    and "vars vm = base @ dummy # sigs @ m # keys @ [n]"
    and "decodeScriptNumber n = Some (int (length keys))" "length keys < 20"
    and "decodeScriptNumber m = Some (int (length sigs))" "length sigs \<le> length keys"
    and "\<forall>sig \<in> set sigs. \<forall>key \<in> set keys. checker cx sig key (env_code (env vm)) \<noteq> None"
  shows "\<exists>b. eval_loop cx vm (of_bytes (code_stream cx) (OP_CHECKMULTISIG # r)) =
      eval_loop cx (vm\<lparr>vars := base @ [if b then vTrue else vFalse]\<rparr>) (of_bytes (code_stream cx) r) \<and>
    (b \<longleftrightarrow> (\<exists>ks. subseq ks keys \<and> list_all2 (\<lambda>sig key. checker cx sig key (env_code (env vm)) = Some True) sigs ks))"
proof -
  let ?chk = "\<lambda>sig key. checker cx sig key (env_code (env vm)) = Some True"
  have "eval_loop cx vm (of_bytes (code_stream cx) (OP_CHECKMULTISIG # r)) =
      eval_loop cx (vm\<lparr>vars := base @ [if list_emb ?chk sigs keys then vTrue else vFalse]\<rparr>) (of_bytes (code_stream cx) r)"
    using script_machine.eval_loop_step [OF script_machine.intro [OF assms(2)] assms(1), of OP_CHECKMULTISIG r]
      multisig_step [OF assms(3-8)] by (simp add: table_others no_code_def)
  then show ?thesis using list_emb_ex [of ?chk sigs keys] by blast
qed

theorem multisig_exact_witness:
  "\<exists>b. eval_loop plain_vm \<lparr>env = \<lparr>errcode = 0, env_code = [OP_CHECKMULTISIG]\<rparr>,
        vars = [[], [2], [3], [2], [1], [2], [3], [3]]\<rparr>
      (of_bytes (code_stream plain_vm) (OP_CHECKMULTISIG # [])) =
    eval_loop plain_vm \<lparr>env = \<lparr>errcode = 0, env_code = [OP_CHECKMULTISIG]\<rparr>,
        vars = [if b then vTrue else vFalse]\<rparr>
      (of_bytes (code_stream plain_vm) []) \<and>
    (b \<longleftrightarrow> (\<exists>ks. subseq ks [[1], [2], [3]] \<and> list_all2 (\<lambda>sig key. sig = key) [[2], [3 :: byte]] ks))"
  using multisig_exact [of "\<lparr>env = \<lparr>errcode = 0, env_code = [OP_CHECKMULTISIG]\<rparr>, vars = [[], [2], [3], [2], [1], [2], [3], [3]]\<rparr>"
      plain_vm le_ostream "[]" "[]" "[[2], [3]]" "[2]" "[[1], [2], [3]]" "[3]" "[]"]
    decode_positive [of "[]" 2] decode_positive [of "[]" 3]
  by (simp add: plain_vm_def le_vm_def les.streams_axioms)

text \<open>an opcode with no function of its own ends the process: the conditionals, \<open>OP_VERIFY\<close>, the
  lock time opcodes and the rest of the table's default entries fail the assertion of
  \<open>script_reserved\<close>.\<close>

theorem reserved_opcode_aborts:
  assumes "streams (code_stream cx) os" "errcode (env vm) = 0"
    and "unat opcode \<in> {80} \<union> {98..105} \<union> {107, 108} \<union> {112..115} \<union> {119..129} \<union> {131..134} \<union> {137, 138, 171} \<union> {176..255}"
  shows "eval_loop cx vm (of_bytes (code_stream cx) (opcode # r)) = Some None"
proof -
  have table: "function_table cx ! unat opcode = no_code script_reserved"
    using assms(3) unsigned_less [of opcode] by (intro reserved_entries) auto
  show ?thesis using script_machine.eval_loop_step [OF script_machine.intro [OF assms(1)] assms(2)]
    by (simp add: table table_eval_def no_code_def script_reserved_def)
qed

theorem reserved_opcode_aborts_witness:
  "eval_loop plain_vm ScriptVM_new (of_bytes (code_stream plain_vm) [OP_IF]) = Some None"
  by (rule reserved_opcode_aborts [of _ le_ostream]) (simp_all add: ScriptVM_new_def)

text \<open>\<open>OP_2DUP\<close> and \<open>OP_3DUP\<close> push the copies in the opposite order: a stack \<open>a b\<close> becomes
  \<open>a b b a\<close>, and \<open>a b c\<close> becomes \<open>a b c c b a\<close>.\<close>

theorem dup_reverses:
  "(vars vm = st @ [a, b] \<longrightarrow> script_dup2 vm OP_2DUP = Some (vm\<lparr>vars := st @ [a, b, b, a]\<rparr>)) \<and>
   (vars vm = st @ [a, b, c] \<longrightarrow> script_dup3 vm OP_3DUP = Some (vm\<lparr>vars := st @ [a, b, c, c, b, a]\<rparr>))"
proof -
  have top: "i < length s \<Longrightarrow> stack_push_index (- int i - 1) s = Some (s @ [rev s ! i])" for i s
    by (simp add: stack_push_index_def stack_get_top stack_push_def)
  have "dup_from 0 2 (st @ [a, b]) = Some (st @ [a, b, b, a])"
    using top [of 0 "st @ [a, b]"] top [of 2 "st @ [a, b, b]"] by (simp add: numeral_2_eq_2)
  moreover have "dup_from 0 3 (st @ [a, b, c]) = Some (st @ [a, b, c, c, b, a])"
    using top [of 0 "st @ [a, b, c]"] top [of 2 "st @ [a, b, c, c]"] top [of 4 "st @ [a, b, c, c, b]"]
    by (simp add: numeral_eq_Suc)
  ultimately show ?thesis
    by (simp add: script_dup2_def script_dup3_def stack_dup_n_def try_stack_def vm_size_def)
qed

theorem dup_reverses_witness:
  "script_dup2 (ScriptVM_new\<lparr>vars := [[1], [2]]\<rparr>) OP_2DUP = Some (ScriptVM_new\<lparr>vars := [[1], [2], [2], [1]]\<rparr>)"
  using dup_reverses [of "ScriptVM_new\<lparr>vars := [[1], [2]]\<rparr>" "[]" "[1]" "[2]"] by simp

text \<open>A script that pushes \<open>true\<close> and then returns leaves an error behind, and no later script is
  run on the machine.\<close>

lemma eval_after_return:
  assumes "streams (code_stream cx) os" "lock \<noteq> []"
  shows "Option.bind (Option.bind (vm_eval cx ScriptVM_new [OP_1, OP_RETURN]) id) (\<lambda>vm. Option.bind (vm_eval cx vm lock) id) =
    Some \<lparr>env = \<lparr>errcode = error_code SCRIPT_ERR_OP_RETURN, env_code = lock\<rparr>, vars = [[1]]\<rparr>"
proof -
  note sm = script_machine.intro [OF assms(1)]
  have "script_integer vm OP_1 = Some (on_stack (stack_push [1]) vm)" for vm
    using decode_positive [of "[]" 1]
    by (simp add: script_integer_def encodeScriptNumber_def int64_def in64_def number_loop.simps)
  then show ?thesis using assms(2)
    by (simp add: vm_eval_def ScriptVM_new_def script_machine.eval_loop_step [OF sm] table_integer table_others no_code_def
        script_return_def setError_def on_stack_def stack_push_def script_machine.eval_loop_error [OF sm])
qed

end
