(* ===== verification/TxData.thy ===== *)
theory TxData
  imports Serialization SipHash
begin

text \<open>
  \<open>data/Transaction.hpp\<close>, \<open>data/Transaction.cpp\<close>, \<open>data/Coin.hpp\<close> and \<open>data/Coin.cpp\<close>: transactions,
  coins and their wire formats. The hash of a transaction is a field of its own that the reader
  leaves alone and \<open>computeHash\<close> fills in.
\<close>

section \<open>Data\<close>

record TransactionOutPoint =
  op_hash :: uint256
  op_index :: u32

type_synonym TransactionWitness = "bytes list"

record TransactionInput =
  previousOutput :: TransactionOutPoint
  signatureScript :: bytes
  witness :: TransactionWitness
  sequence :: u32

record TransactionOutput =
  out_value :: u64
  scriptPublicKey :: bytes

record Transaction =
  tx_version :: u32
  inputs :: "TransactionInput list"
  outputs :: "TransactionOutput list"
  lockTime :: u32
  tx_hash :: uint256

record Coin =
  coin_output :: TransactionOutput
  coin_height :: int
  coin_isCoinBase :: bool

text \<open>\<open>value\<close> is an \<open>int64_t\<close>.\<close>

definition valueOf :: "TransactionOutput \<Rightarrow> int" where
  "valueOf o' = sint (out_value o')"

definition TransactionOutPoint_new :: TransactionOutPoint where
  "TransactionOutPoint_new = \<lparr>op_hash = uint256_null, op_index = -1\<rparr>"

definition TransactionInput_new :: TransactionInput where
  "TransactionInput_new = \<lparr>previousOutput = TransactionOutPoint_new, signatureScript = [], witness = [], sequence = -1\<rparr>"

definition TransactionOutput_new :: TransactionOutput where
  "TransactionOutput_new = \<lparr>out_value = 0, scriptPublicKey = []\<rparr>"

definition Transaction_new :: Transaction where
  "Transaction_new = \<lparr>tx_version = 0, inputs = [], outputs = [], lockTime = 0, tx_hash = uint256_null\<rparr>"

definition isNull_witness :: "TransactionWitness \<Rightarrow> bool" where
  "isNull_witness w \<longleftrightarrow> w = []"

definition hasWitness :: "Transaction \<Rightarrow> bool" where
  "hasWitness tx \<longleftrightarrow> list_ex (\<lambda>i. \<not> isNull_witness (witness i)) (inputs tx)"

definition isCoinBase :: "Transaction \<Rightarrow> bool" where
  "isCoinBase tx \<longleftrightarrow> length (inputs tx) = 1 \<and> op_hash (previousOutput (inputs tx ! 0)) = uint256_null"

definition getHash :: "Transaction \<Rightarrow> uint256 option" where
  "getHash tx = do { assert_that (tx_hash tx \<noteq> uint256_null); Some (tx_hash tx) }"

definition isWitnessAllowed :: "u32 \<Rightarrow> bool" where
  "isWitnessAllowed version \<longleftrightarrow> version AND 0x40000000 = 0"

section \<open>Wire formats\<close>

definition read_outpoint :: "'s istream \<Rightarrow> ('s, TransactionOutPoint) reader" where
  "read_outpoint ist o' s =
     (let (h, s) = into (rd_bn ist) (op_hash o') s;
          (i, s) = into (rd32 ist) (op_index o') s
      in (\<lparr>op_hash = h, op_index = i\<rparr>, s))"

definition write_outpoint :: "ostream \<Rightarrow> TransactionOutPoint \<Rightarrow> bytes" where
  "write_outpoint os o' = wr_bn os (op_hash o') @ wr32 os (op_index o')"

definition read_input :: "'s istream \<Rightarrow> ('s, TransactionInput) reader" where
  "read_input ist i s =
     (let (p, s) = read_outpoint ist (previousOutput i) s;
          (sg, s) = readString ist 50000 (signatureScript i) s;
          (q, s) = into (rd32 ist) (sequence i) s
      in (i\<lparr>previousOutput := p, signatureScript := sg, sequence := q\<rparr>, s))"

definition write_input :: "ostream \<Rightarrow> TransactionInput \<Rightarrow> bytes" where
  "write_input os i = write_outpoint os (previousOutput i) @ writeString os (signatureScript i) @ wr32 os (sequence i)"

definition read_output :: "'s istream \<Rightarrow> ('s, TransactionOutput) reader" where
  "read_output ist o' s =
     (let (v, s) = into (rd64 ist) (out_value o') s;
          (k, s) = readString ist 50000 (scriptPublicKey o') s
      in (\<lparr>out_value = v, scriptPublicKey = k\<rparr>, s))"

definition write_output :: "ostream \<Rightarrow> TransactionOutput \<Rightarrow> bytes" where
  "write_output os o' = wr64 os (out_value o') @ writeString os (scriptPublicKey o')"

text \<open>The reader of a witness resizes the stack and reads every element in place, whatever the state
  of the stream.\<close>

fun read_stack :: "'s istream \<Rightarrow> bytes list \<Rightarrow> 's \<Rightarrow> bytes list \<times> 's" where
  "read_stack ist [] s = ([], s)"
| "read_stack ist (v # vs) s =
     (let (v', s) = readVector ist (into (rd8 ist)) 0 10000 v s; (vs', s) = read_stack ist vs s in (v' # vs', s))"

definition read_witness :: "'s istream \<Rightarrow> ('s, TransactionWitness) reader" where
  "read_witness ist w s =
     (case readCompactSize ist s of
        (None, s) \<Rightarrow> (w, s)
      | (Some count, s) \<Rightarrow>
          if count > 10000 then (w, set_bad ist s)
          else read_stack ist (take (unat count) w @ replicate (unat count - length w) []) s)"

definition write_witness :: "ostream \<Rightarrow> TransactionWitness \<Rightarrow> bytes" where
  "write_witness os w = writeCompactSize os (of_nat (length w)) @ concat (map (writeVector os (\<lambda>x. [x])) w)"

fun read_witnesses :: "'s istream \<Rightarrow> TransactionInput list \<Rightarrow> 's \<Rightarrow> TransactionInput list \<times> 's" where
  "read_witnesses ist [] s = ([], s)"
| "read_witnesses ist (i # is') s =
     (let (w, s) = read_witness ist (witness i) s; (is'', s) = read_witnesses ist is' s
      in (i\<lparr>witness := w\<rparr> # is'', s))"

definition read_tx :: "'s istream \<Rightarrow> ('s, Transaction) reader" where
  "read_tx ist tx s =
     (let allowWitness = isWitnessAllowed (tx_version tx);
          (v, s) = into (rd32 ist) (tx_version tx) s;
          needWitness = False;
          (ins, s) = readVector ist (read_input ist) TransactionInput_new 10000 [] s;
          tx = tx\<lparr>tx_version := v, inputs := ins\<rparr>;
          (flag, s) = (if allowWitness \<and> ins = [] then rd8 ist s else (Some 0, s))
      in case flag of
           None \<Rightarrow> (tx, s)
         | Some f \<Rightarrow>
             (let (ins, s) = (if f \<noteq> 0 then readVector ist (read_input ist) TransactionInput_new 10000 ins s else (ins, s));
                  (outs, s) = readVector ist (read_output ist) TransactionOutput_new 10000 (outputs tx) s;
                  (ins, s) = (if needWitness then read_witnesses ist ins s else (ins, s));
                  (l, s) = into (rd32 ist) (lockTime tx) s
              in (tx\<lparr>inputs := ins, outputs := outs, lockTime := l\<rparr>, s)))"

definition write_tx :: "ostream \<Rightarrow> Transaction \<Rightarrow> bytes" where
  "write_tx os tx =
     (let needWitness = isWitnessAllowed (tx_version tx) \<and> hasWitness tx
      in wr32 os (tx_version tx) @ (if needWitness then wr16 os 0x0100 else []) @
         writeVector os (write_input os) (inputs tx) @ writeVector os (write_output os) (outputs tx) @
         (if needWitness then concat (map (\<lambda>i. write_witness os (witness i)) (inputs tx)) else []) @
         wr32 os (lockTime tx))"

definition computeHash_tx :: "digests \<Rightarrow> ostream \<Rightarrow> Transaction \<Rightarrow> Transaction" where
  "computeHash_tx dg os tx = tx\<lparr>tx_hash := hash256 dg (write_tx os tx)\<rparr>"

definition read_coin :: "'s istream \<Rightarrow> ('s, Coin) reader" where
  "read_coin ist c s =
     (let (o', s) = read_output ist (coin_output c) s;
          (val, s) = into (rd32 ist) 0 s
      in if good ist s
         then (c\<lparr>coin_output := o', coin_height := uint (drop_bit 1 val), coin_isCoinBase := bit val 0\<rparr>, s)
         else (c\<lparr>coin_output := o'\<rparr>, s))"

definition write_coin :: "ostream \<Rightarrow> Coin \<Rightarrow> bytes option" where
  "write_coin os c = do {
     assert_that (coin_height c \<ge> 0);
     let val = push_bit 1 (word_of_int (coin_height c)) + (if coin_isCoinBase c then 1 else 0);
     Some (write_output os (coin_output c) @ wr32 os val)
   }"

section \<open>Well-formed data\<close>

text \<open>What the types of the code and the limits of the readers allow.\<close>

definition wf_input :: "TransactionInput \<Rightarrow> bool" where
  "wf_input i \<longleftrightarrow> length (op_hash (previousOutput i)) = 32 \<and> length (signatureScript i) \<le> 50000"

definition wf_output :: "TransactionOutput \<Rightarrow> bool" where
  "wf_output o' \<longleftrightarrow> length (scriptPublicKey o') \<le> 50000"

definition wf_tx :: "Transaction \<Rightarrow> bool" where
  "wf_tx tx \<longleftrightarrow> list_all wf_input (inputs tx) \<and> list_all wf_output (outputs tx) \<and>
     length (inputs tx) \<le> 10000 \<and> length (outputs tx) \<le> 10000 \<and> inputs tx \<noteq> []"

definition wf_coin :: "Coin \<Rightarrow> bool" where
  "wf_coin c \<longleftrightarrow> wf_output (coin_output c) \<and> 0 \<le> coin_height c \<and> coin_height c < 2 ^ 31"

definition strip_witness :: "TransactionInput \<Rightarrow> TransactionInput" where
  "strip_witness i = i\<lparr>witness := []\<rparr>"

section \<open>Reading back\<close>

context streams
begin

lemma read_outpoint_write [wire_simps]:
  "length (op_hash p) = 32 \<Longrightarrow> read_outpoint ist o' (of_bytes ist (write_outpoint os p @ r)) = (p, of_bytes ist r)"
  by (simp add: read_outpoint_def write_outpoint_def wire_simps)

lemma read_input_write:
  assumes "wf_input i"
  shows "read_input ist j (of_bytes ist (write_input os i @ r)) = (i\<lparr>witness := witness j\<rparr>, of_bytes ist r)"
  using assms by (simp add: wf_input_def read_input_def write_input_def wire_simps)

lemma read_output_write [wire_simps]:
  assumes "wf_output p"
  shows "read_output ist q (of_bytes ist (write_output os p @ r)) = (p, of_bytes ist r)"
  using assms by (simp add: wf_output_def read_output_def write_output_def wire_simps)

lemma read_inputs_write:
  assumes "list_all wf_input is'" "length is' \<le> 10000"
  shows "readVector ist (read_input ist) TransactionInput_new 10000 []
     (of_bytes ist (writeVector os (write_input os) is' @ r)) = (map strip_witness is', of_bytes ist r)"
proof (rule readVector_write)
  show "\<forall>x \<in> set is'. reads ist (read_input ist) TransactionInput_new (write_input os x) (strip_witness x)"
    using assms(1) by (auto simp: reads_def read_input_write list_all_iff strip_witness_def TransactionInput_new_def)
qed (use assms in simp_all)

lemma read_outputs_write:
  assumes "list_all wf_output os'" "length os' \<le> 10000"
  shows "readVector ist (read_output ist) TransactionOutput_new 10000 []
     (of_bytes ist (writeVector os (write_output os) os' @ r)) = (os', of_bytes ist r)"
proof -
  have "\<forall>x \<in> set os'. reads ist (read_output ist) TransactionOutput_new (write_output os x) (id x)"
    using assms(1) by (auto simp: reads_def read_output_write list_all_iff)
  from readVector_write [OF this] show ?thesis using assms(2) by simp
qed

lemma read_tx_write_plain:
  assumes "wf_tx tx" "\<not> hasWitness tx \<or> \<not> isWitnessAllowed (tx_version tx)"
  shows "read_tx ist Transaction_new (of_bytes ist (write_tx os tx @ r)) =
     (tx\<lparr>inputs := map strip_witness (inputs tx), tx_hash := uint256_null\<rparr>, of_bytes ist r)"
proof -
  have "isWitnessAllowed 0" by (simp add: isWitnessAllowed_def)
  then show ?thesis using assms
    by (auto simp: read_tx_def write_tx_def Let_def Transaction_new_def wf_tx_def read_inputs_write
        read_outputs_write wire_simps)
qed

lemma read_tx_write_witness:
  assumes "wf_tx tx" "hasWitness tx" "isWitnessAllowed (tx_version tx)"
  defines "left \<equiv> concat (map (\<lambda>i. write_witness os (witness i)) (inputs tx)) @ wr32 os (lockTime tx)"
  shows "read_tx ist Transaction_new (of_bytes ist (write_tx os tx @ r)) =
     (case into (rd32 ist) 0 (of_bytes ist (left @ r)) of (l, s) \<Rightarrow>
       (tx\<lparr>inputs := map strip_witness (inputs tx), lockTime := l, tx_hash := uint256_null\<rparr>, s))"
proof -
  have "isWitnessAllowed 0" by (simp add: isWitnessAllowed_def)
  moreover have "readVector ist (read_input ist) TransactionInput_new 10000 [] (of_bytes ist (0 # q)) = ([], of_bytes ist q)" for q
    by (simp add: readVector_def readCompactSize_def)
  moreover have "wr16 os 0x0100 = [0, 1]" by (simp add: wr16_le)
  ultimately show ?thesis using assms
    by (auto simp: read_tx_def write_tx_def Let_def Transaction_new_def wf_tx_def read_inputs_write
        read_outputs_write wire_simps left_def split: prod.splits)
qed

lemma coin_word:
  fixes h :: int and b :: bool
  assumes "0 \<le> h" "h < 2 ^ 31"
  defines "val \<equiv> push_bit 1 (word_of_int h) + (if b then 1 else 0) :: u32"
  shows "uint (drop_bit 1 val) = h" "bit val 0 = b"
proof -
  have u: "uint val = 2 * h + (if b then 1 else 0)"
    using assms by (simp add: push_bit_eq_mult uint_word_ariths uint_word_of_int mod_pos_pos_trivial)
  then show "uint (drop_bit 1 val) = h" by (simp only: uint_drop_bit) simp
  have "bit (uint val) 0 = b" unfolding u by (simp add: bit_0)
  then show "bit val 0 = b" by (simp add: bit_uint_iff)
qed

lemma read_coin_write:
  assumes "wf_coin c" "write_coin os c = Some e"
  shows "read_coin ist d (of_bytes ist (e @ r)) = (c, of_bytes ist r)"
  using assms coin_word [of "coin_height c" "coin_isCoinBase c"]
  by (auto simp: read_coin_def write_coin_def wf_coin_def wire_simps Let_def split: if_splits)

end

section \<open>Properties\<close>

text \<open>The transaction the witnesses use: one input, one output.\<close>

definition sample_tx :: Transaction where
  "sample_tx = \<lparr>tx_version = 1, inputs = [TransactionInput_new\<lparr>signatureScript := [0x51], witness := [[1, 2]]\<rparr>],
     outputs = [\<lparr>out_value = 50, scriptPublicKey = [0x51]\<rparr>], lockTime = 7, tx_hash = uint256_null\<rparr>"

lemma wf_sample_tx: "wf_tx sample_tx" "wf_tx (sample_tx\<lparr>inputs := map strip_witness (inputs sample_tx)\<rparr>)"
  by (simp_all add: sample_tx_def wf_tx_def wf_input_def wf_output_def TransactionInput_new_def
      TransactionOutPoint_new_def uint256_null_def strip_witness_def)

text \<open>a transaction without witness data that keeps the limits of the format reads back exactly as
  it was written, apart from its hash, which is not part of the encoding; and a coin reads back
  exactly, its height and coinbase flag sharing one word.\<close>

theorem transaction_roundtrip:
  assumes "streams ist os"
  shows "(wf_tx tx \<longrightarrow> \<not> hasWitness tx \<longrightarrow>
      read_tx ist Transaction_new (of_bytes ist (write_tx os tx @ r)) = (tx\<lparr>tx_hash := uint256_null\<rparr>, of_bytes ist r)) \<and>
    (wf_coin c \<longrightarrow> (\<exists>e. write_coin os c = Some e \<and> read_coin ist d (of_bytes ist (e @ r)) = (c, of_bytes ist r)))"
proof (intro conjI impI)
  assume tx: "wf_tx tx" "\<not> hasWitness tx"
  have "map strip_witness (inputs tx) = inputs tx"
    using tx(2) by (auto simp: hasWitness_def list_ex_iff isNull_witness_def strip_witness_def intro!: map_idI)
  then show "read_tx ist Transaction_new (of_bytes ist (write_tx os tx @ r)) = (tx\<lparr>tx_hash := uint256_null\<rparr>, of_bytes ist r)"
    using streams.read_tx_write_plain [OF assms tx(1)] tx(2) by simp
next
  assume c: "wf_coin c"
  then obtain e where "write_coin os c = Some e" by (simp add: write_coin_def wf_coin_def)
  then show "\<exists>e. write_coin os c = Some e \<and> read_coin ist d (of_bytes ist (e @ r)) = (c, of_bytes ist r)"
    using streams.read_coin_write [OF assms c] by auto
qed

theorem transaction_roundtrip_witness:
  "read_tx le_istream Transaction_new (of_bytes le_istream (write_tx le_ostream
      (sample_tx\<lparr>inputs := map strip_witness (inputs sample_tx)\<rparr>) @ [])) =
     (sample_tx\<lparr>inputs := map strip_witness (inputs sample_tx)\<rparr>, of_bytes le_istream [])"
proof -
  have "\<not> hasWitness (sample_tx\<lparr>inputs := map strip_witness (inputs sample_tx)\<rparr>)"
    by (simp add: hasWitness_def isNull_witness_def strip_witness_def list_ex_iff)
  from transaction_roundtrip [OF les.streams_axioms, THEN conjunct1, rule_format, OF wf_sample_tx(2) this, of "[]"]
  show ?thesis by (simp add: sample_tx_def)
qed

text \<open>C32: the reader never reads witnesses. A transaction written with witness data comes back with
  every witness empty, so it differs from the one written, and its lock time is whatever the first
  bytes of the witness data decode to.\<close>

theorem witness_not_read_back:
  assumes "streams ist os" "wf_tx tx" "hasWitness tx" "isWitnessAllowed (tx_version tx)"
  shows "\<exists>tx' s. read_tx ist Transaction_new (of_bytes ist (write_tx os tx @ r)) = (tx', s) \<and>
     inputs tx' = map strip_witness (inputs tx) \<and> inputs tx' \<noteq> inputs tx \<and> outputs tx' = outputs tx \<and>
     (lockTime tx', s) = into (rd32 ist) 0 (of_bytes ist
       (concat (map (\<lambda>i. write_witness os (witness i)) (inputs tx)) @ wr32 os (lockTime tx) @ r))"
proof -
  have "map strip_witness (inputs tx) \<noteq> inputs tx"
  proof
    assume eq: "map strip_witness (inputs tx) = inputs tx"
    have "\<forall>i \<in> set (map strip_witness (inputs tx)). witness i = []" by (auto simp: strip_witness_def)
    then show False using assms(3) unfolding eq by (auto simp: hasWitness_def list_ex_iff isNull_witness_def)
  qed
  then show ?thesis
    using streams.read_tx_write_witness [OF assms, of r] by (auto split: prod.splits)
qed

theorem witness_not_read_back_witness:
  "\<exists>tx' s. read_tx le_istream Transaction_new (of_bytes le_istream (write_tx le_ostream sample_tx @ [])) = (tx', s) \<and>
     inputs tx' \<noteq> inputs sample_tx"
proof -
  have "hasWitness sample_tx" "isWitnessAllowed (tx_version sample_tx)"
    by (simp_all add: sample_tx_def hasWitness_def isNull_witness_def isWitnessAllowed_def)
  from witness_not_read_back [OF les.streams_axioms wf_sample_tx(1) this]
  show ?thesis by fast
qed

end
