(* ===== verification/ObjectDB.thy ===== *)
theory ObjectDB
  imports Serialization "HOL-Library.AList"
begin

text \<open>
  \<open>util/LevelDB.cpp\<close> and \<open>storage/ObjectDB.cpp\<close>: the key-value store and the layer above it that
  encodes objects and hides the stored bytes under a repeated exclusive-or with a key. LevelDB
  itself is a parameter; its operations answer whether their status is ok.
\<close>

section \<open>The key-value store\<close>

datatype batch_op = Put bytes bytes | Delete bytes

text \<open>\<open>ldb_entries\<close> is what an iterator sees from the first entry to the last.\<close>

record 'd leveldb =
  ldb_get :: "'d \<Rightarrow> bytes \<Rightarrow> bytes option"
  ldb_put :: "'d \<Rightarrow> bytes \<Rightarrow> bytes \<Rightarrow> bool \<times> 'd"
  ldb_delete :: "'d \<Rightarrow> bytes \<Rightarrow> bool \<times> 'd"
  ldb_write :: "'d \<Rightarrow> batch_op list \<Rightarrow> bool \<times> 'd"
  ldb_entries :: "'d \<Rightarrow> (bytes \<times> bytes) list"

fun apply_op :: "(bytes \<Rightarrow> bytes option) \<Rightarrow> batch_op \<Rightarrow> bytes \<Rightarrow> bytes option" where
  "apply_op m (Put k v) = m(k \<mapsto> v)"
| "apply_op m (Delete k) = m(k := None)"

definition apply_batch :: "(bytes \<Rightarrow> bytes option) \<Rightarrow> batch_op list \<Rightarrow> bytes \<Rightarrow> bytes option" where
  "apply_batch m ops = foldl apply_op m ops"

locale key_value_store =
  fixes ldb :: "'d leveldb"
  assumes put: "ldb_put ldb d k v = (True, d') \<Longrightarrow> ldb_get ldb d' = (ldb_get ldb d)(k \<mapsto> v)"
    and delete: "ldb_delete ldb d k = (True, d') \<Longrightarrow> ldb_get ldb d' = (ldb_get ldb d)(k := None)"
    and batch: "ldb_write ldb d ops = (True, d') \<Longrightarrow> ldb_get ldb d' = apply_batch (ldb_get ldb d) ops"
    and entries: "map_of (ldb_entries ldb d) = ldb_get ldb d" "distinct (map fst (ldb_entries ldb d))"

text \<open>A store kept as an association list.\<close>

fun alist_op :: "(bytes \<times> bytes) list \<Rightarrow> batch_op \<Rightarrow> (bytes \<times> bytes) list" where
  "alist_op d (Put k v) = AList.update k v d"
| "alist_op d (Delete k) = AList.delete k d"

definition alist_leveldb :: "(bytes \<times> bytes) list leveldb" where
  "alist_leveldb = \<lparr>ldb_get = map_of, ldb_put = \<lambda>d k v. (True, AList.update k v d),
     ldb_delete = \<lambda>d k. (True, AList.delete k d), ldb_write = \<lambda>d ops. (True, foldl alist_op d ops),
     ldb_entries = AList.clearjunk\<rparr>"

lemma map_of_alist_ops: "map_of (foldl alist_op d ops) = apply_batch (map_of d) ops"
proof -
  have "map_of (alist_op d op) = apply_op (map_of d) op" for d :: "(bytes \<times> bytes) list" and op
    by (cases op) (simp_all add: update_conv' delete_conv')
  then show ?thesis by (induction ops arbitrary: d) (simp_all add: apply_batch_def)
qed

interpretation als: key_value_store alist_leveldb
  by unfold_locales (auto simp: alist_leveldb_def update_conv' delete_conv' map_of_alist_ops map_of_clearjunk distinct_clearjunk)

section \<open>LevelDB\<close>

definition LevelDB_read :: "'d leveldb \<Rightarrow> 'd \<Rightarrow> bytes \<Rightarrow> bytes option" where
  "LevelDB_read ldb d key = ldb_get ldb d key"

definition LevelDB_write :: "'d leveldb \<Rightarrow> 'd \<Rightarrow> bytes \<Rightarrow> bytes \<Rightarrow> bool \<times> 'd" where
  "LevelDB_write ldb d key val = ldb_put ldb d key val"

definition LevelDB_erase :: "'d leveldb \<Rightarrow> 'd \<Rightarrow> bytes \<Rightarrow> bool \<times> 'd" where
  "LevelDB_erase ldb d key = ldb_delete ldb d key"

definition LevelDB_execute :: "'d leveldb \<Rightarrow> 'd \<Rightarrow> batch_op list \<Rightarrow> bool \<times> 'd" where
  "LevelDB_execute ldb d batch = ldb_write ldb d batch"

definition LevelDB_sync :: "'d leveldb \<Rightarrow> 'd \<Rightarrow> bool \<times> 'd" where
  "LevelDB_sync ldb d = LevelDB_execute ldb d []"

text \<open>A write batch is the operations recorded so far.\<close>

type_synonym write_batch = "batch_op list"

definition batch_clear :: "write_batch \<Rightarrow> write_batch" where
  "batch_clear b = []"

definition batch_write :: "bytes \<Rightarrow> bytes \<Rightarrow> write_batch \<Rightarrow> write_batch" where
  "batch_write key val b = b @ [Put key val]"

definition batch_erase :: "bytes \<Rightarrow> write_batch \<Rightarrow> write_batch" where
  "batch_erase key b = b @ [Delete key]"

text \<open>An iterator is the entries from its position to the end.\<close>

type_synonym cursor = "(bytes \<times> bytes) list"

definition seekToFirst :: "'d leveldb \<Rightarrow> 'd \<Rightarrow> cursor" where
  "seekToFirst ldb d = ldb_entries ldb d"

definition cursor_valid :: "cursor \<Rightarrow> bool" where
  "cursor_valid c \<longleftrightarrow> c \<noteq> []"

definition cursor_getKey :: "cursor \<Rightarrow> bytes" where
  "cursor_getKey c = fst (hd c)"

definition cursor_getValue :: "cursor \<Rightarrow> bytes" where
  "cursor_getValue c = snd (hd c)"

definition cursor_next :: "cursor \<Rightarrow> cursor" where
  "cursor_next c = tl c"

section \<open>Object databases\<close>

text \<open>The obfuscator is its key; the empty key is the dummy coding the database starts with.\<close>

record 'd ObjectDB =
  m_db :: 'd
  obfuscator :: bytes
  needObfuscation :: bool

definition OBFUSCATE_KEY_KEY :: bytes where
  "OBFUSCATE_KEY_KEY = [0x0E, 0x00, 0x6F, 0x62, 0x66, 0x75, 0x73, 0x63, 0x61, 0x74, 0x65, 0x5F, 0x6B, 0x65, 0x79]"

definition obfuscate :: "bytes \<Rightarrow> bytes \<Rightarrow> bytes" where
  "obfuscate key buf =
     (if key = [] then buf else map (\<lambda>i. (buf ! i) XOR (key ! (i mod length key))) [0..<length buf])"

definition ObjectDB_new :: "bool \<Rightarrow> 'd \<Rightarrow> 'd ObjectDB" where
  "ObjectDB_new need d = \<lparr>m_db = d, obfuscator = [], needObfuscation = need\<rparr>"

definition odb_readString :: "'d leveldb \<Rightarrow> 'd ObjectDB \<Rightarrow> bytes \<Rightarrow> bytes option" where
  "odb_readString ldb odb key = map_option (obfuscate (obfuscator odb)) (LevelDB_read ldb (m_db odb) key)"

text \<open>\<open>read(key, obj)\<close>: whether it succeeds, and the object after it.\<close>

definition odb_read :: "'d leveldb \<Rightarrow> 's istream \<Rightarrow> ('s, 'a) reader \<Rightarrow> 'd ObjectDB \<Rightarrow> bytes \<Rightarrow> 'a \<Rightarrow> bool \<times> 'a" where
  "odb_read ldb ist rd odb key obj =
     (case odb_readString ldb odb key of
        None \<Rightarrow> (False, obj)
      | Some s \<Rightarrow> (case rd obj (of_bytes ist s) of (obj', s') \<Rightarrow> (good ist s', obj')))"

definition odb_writeString :: "'d leveldb \<Rightarrow> bytes \<Rightarrow> bytes \<Rightarrow> 'd ObjectDB \<Rightarrow> bool \<times> 'd ObjectDB" where
  "odb_writeString ldb key val odb =
     (let s = (if needObfuscation odb then obfuscate (obfuscator odb) val else val)
      in case LevelDB_write ldb (m_db odb) key s of (ok, d) \<Rightarrow> (ok, odb\<lparr>m_db := d\<rparr>))"

definition odb_erase :: "'d leveldb \<Rightarrow> bytes \<Rightarrow> 'd ObjectDB \<Rightarrow> bool \<times> 'd ObjectDB" where
  "odb_erase ldb key odb = (case LevelDB_erase ldb (m_db odb) key of (ok, d) \<Rightarrow> (ok, odb\<lparr>m_db := d\<rparr>))"

definition odb_sync :: "'d leveldb \<Rightarrow> 'd ObjectDB \<Rightarrow> bool \<times> 'd ObjectDB" where
  "odb_sync ldb odb = (case LevelDB_sync ldb (m_db odb) of (ok, d) \<Rightarrow> (ok, odb\<lparr>m_db := d\<rparr>))"

text \<open>\<open>open\<close>, once the store itself is open: the stored key is read through the dummy coding.\<close>

definition odb_open :: "'d leveldb \<Rightarrow> 's istream \<Rightarrow> 'd ObjectDB \<Rightarrow> 'd ObjectDB" where
  "odb_open ldb ist odb =
     (if needObfuscation odb
      then (case odb_read ldb ist (readString ist 1024) odb OBFUSCATE_KEY_KEY [] of
              (True, key) \<Rightarrow> odb\<lparr>obfuscator := key\<rparr>
            | (False, _) \<Rightarrow> odb)
      else odb)"

definition batch_writeString :: "'d ObjectDB \<Rightarrow> bytes \<Rightarrow> bytes \<Rightarrow> write_batch \<Rightarrow> write_batch" where
  "batch_writeString odb key val b =
     (if needObfuscation odb then batch_write key (obfuscate (obfuscator odb) val) b
      else batch_write key val b)"

definition batch_execute :: "'d leveldb \<Rightarrow> write_batch \<Rightarrow> 'd ObjectDB \<Rightarrow> bool \<times> 'd ObjectDB" where
  "batch_execute ldb b odb = (case LevelDB_execute ldb (m_db odb) b of (ok, d) \<Rightarrow> (ok, odb\<lparr>m_db := d\<rparr>))"

section \<open>What a database holds\<close>

lemma length_obfuscate [simp]: "length (obfuscate key buf) = length buf"
  by (simp add: obfuscate_def)

lemma nth_obfuscate: "key \<noteq> [] \<Longrightarrow> i < length buf \<Longrightarrow> obfuscate key buf ! i = (buf ! i) XOR (key ! (i mod length key))"
  by (simp add: obfuscate_def)

lemma obfuscate_twice [simp]: "obfuscate key (obfuscate key buf) = buf"
  by (cases "key = []", simp add: obfuscate_def) (rule nth_equalityI, simp_all add: nth_obfuscate xor.assoc)

text \<open>The plain contents: a map from keys to the values written.\<close>

definition odb_map :: "'d leveldb \<Rightarrow> 'd ObjectDB \<Rightarrow> bytes \<Rightarrow> bytes option" where
  "odb_map ldb odb = odb_readString ldb odb"

text \<open>An obfuscator is in use only where obfuscation is asked for.\<close>

definition wf_odb :: "'d ObjectDB \<Rightarrow> bool" where
  "wf_odb odb \<longleftrightarrow> needObfuscation odb \<or> obfuscator odb = []"

definition hide :: "'d ObjectDB \<Rightarrow> bytes \<Rightarrow> bytes" where
  "hide odb val = (if needObfuscation odb then obfuscate (obfuscator odb) val else val)"

lemma hide_twice: "wf_odb odb \<Longrightarrow> obfuscate (obfuscator odb) (hide odb val) = val"
  by (auto simp: wf_odb_def hide_def obfuscate_def [of "[]"])

lemma wf_odb_open: "wf_odb odb \<Longrightarrow> wf_odb (odb_open ldb ist odb)"
  by (auto simp: odb_open_def wf_odb_def split: prod.split bool.split)

text \<open>A batch whose values are hidden.\<close>

fun hide_op :: "'d ObjectDB \<Rightarrow> batch_op \<Rightarrow> batch_op" where
  "hide_op odb (Put k v) = Put k (hide odb v)"
| "hide_op odb (Delete k) = Delete k"

lemma apply_batch_hide:
  assumes "wf_odb odb"
  shows "(\<lambda>k. map_option (obfuscate (obfuscator odb)) (apply_batch m (map (hide_op odb) ops) k)) =
    apply_batch (\<lambda>k. map_option (obfuscate (obfuscator odb)) (m k)) ops"
proof (induction ops arbitrary: m)
  case (Cons op ops)
  have "(\<lambda>k. map_option (obfuscate (obfuscator odb)) (apply_op m (hide_op odb op) k)) =
      apply_op (\<lambda>k. map_option (obfuscate (obfuscator odb)) (m k)) op"
    by (cases op) (auto simp: hide_twice [OF assms])
  then show ?case using Cons.IH [of "apply_op m (hide_op odb op)"] by (simp add: apply_batch_def)
qed (simp add: apply_batch_def)

context key_value_store
begin

lemma odb_map_write:
  assumes "wf_odb odb" "odb_writeString ldb key val odb = (True, odb')"
  shows "odb_map ldb odb' = (odb_map ldb odb)(key \<mapsto> val) \<and> obfuscator odb' = obfuscator odb \<and> needObfuscation odb' = needObfuscation odb"
proof -
  obtain d where d: "ldb_put ldb (m_db odb) key (hide odb val) = (True, d)" "odb' = odb\<lparr>m_db := d\<rparr>"
    using assms(2) by (auto simp: odb_writeString_def LevelDB_write_def hide_def Let_def split: prod.splits)
  show ?thesis using put [OF d(1)] hide_twice [OF assms(1), of val] d(2)
    by (auto simp: odb_map_def odb_readString_def LevelDB_read_def fun_eq_iff)
qed

lemma odb_map_erase:
  assumes "odb_erase ldb key odb = (True, odb')"
  shows "odb_map ldb odb' = (odb_map ldb odb)(key := None) \<and> obfuscator odb' = obfuscator odb \<and> needObfuscation odb' = needObfuscation odb"
proof -
  obtain d where d: "ldb_delete ldb (m_db odb) key = (True, d)" "odb' = odb\<lparr>m_db := d\<rparr>"
    using assms by (auto simp: odb_erase_def LevelDB_erase_def split: prod.splits)
  show ?thesis using delete [OF d(1)] d(2) by (auto simp: odb_map_def odb_readString_def LevelDB_read_def fun_eq_iff)
qed

lemma odb_map_batch:
  assumes "wf_odb odb" "batch_execute ldb (map (hide_op odb) ops) odb = (True, odb')"
  shows "odb_map ldb odb' = apply_batch (odb_map ldb odb) ops \<and> obfuscator odb' = obfuscator odb \<and> needObfuscation odb' = needObfuscation odb"
proof -
  obtain d where d: "ldb_write ldb (m_db odb) (map (hide_op odb) ops) = (True, d)" "odb' = odb\<lparr>m_db := d\<rparr>"
    using assms(2) by (auto simp: batch_execute_def LevelDB_execute_def split: prod.splits)
  show ?thesis using batch [OF d(1)] apply_batch_hide [OF assms(1), of "ldb_get ldb (m_db odb)" ops] d(2)
    by (auto simp: odb_map_def odb_readString_def [abs_def] LevelDB_read_def)
qed

end

lemma batch_ops_hide:
  "batch_writeString odb key val (map (hide_op odb) ops) = map (hide_op odb) (ops @ [Put key val])"
  "batch_erase key (map (hide_op odb) ops) = map (hide_op odb) (ops @ [Delete key])"
  by (simp_all add: batch_writeString_def batch_write_def batch_erase_def hide_def)

section \<open>Properties\<close>

text \<open>behind its obfuscation the database is a plain map: a successful write, erase or batch does to
  the values the program reads exactly what the same operations do to a map, in the order given, and
  the key survives. This holds with and without a key, and through \<open>open\<close>.\<close>

theorem object_db_is_a_map:
  assumes "key_value_store ldb" "wf_odb odb"
  shows "(odb_writeString ldb key val odb = (True, odb1) \<longrightarrow> odb_map ldb odb1 = (odb_map ldb odb)(key \<mapsto> val) \<and> wf_odb odb1) \<and>
    (odb_erase ldb key odb = (True, odb2) \<longrightarrow> odb_map ldb odb2 = (odb_map ldb odb)(key := None) \<and> wf_odb odb2) \<and>
    (batch_execute ldb (map (hide_op odb) ops) odb = (True, odb3) \<longrightarrow>
      odb_map ldb odb3 = apply_batch (odb_map ldb odb) ops \<and> wf_odb odb3) \<and>
    wf_odb (odb_open ldb ist odb)"
proof -
  have keep: "obfuscator odb' = obfuscator odb \<and> needObfuscation odb' = needObfuscation odb \<Longrightarrow> wf_odb odb'" for odb'
    using assms(2) by (simp add: wf_odb_def)
  show ?thesis
    using key_value_store.odb_map_write [OF assms(1,2)] key_value_store.odb_map_erase [OF assms(1)]
      key_value_store.odb_map_batch [OF assms(1,2)] wf_odb_open [OF assms(2)] keep by blast
qed

theorem object_db_is_a_map_witness:
  "odb_map alist_leveldb (snd (odb_writeString alist_leveldb [1] [2, 3] \<lparr>m_db = [], obfuscator = [5], needObfuscation = True\<rparr>)) [1] = Some [2, 3]"
proof -
  let ?odb = "\<lparr>m_db = [], obfuscator = [5], needObfuscation = True\<rparr>"
  have "odb_writeString alist_leveldb [1] [2, 3] ?odb = (True, snd (odb_writeString alist_leveldb [1] [2, 3] ?odb))"
    by (simp add: odb_writeString_def LevelDB_write_def alist_leveldb_def)
  moreover have "wf_odb ?odb" by (simp add: wf_odb_def)
  ultimately show ?thesis
    using object_db_is_a_map [OF als.key_value_store_axioms, of ?odb "[1]" "[2, 3]"] by fastforce
qed

end
