(* ===== verification/CoinView.thy ===== *)
theory CoinView
  imports TxData ObjectDB
begin

text \<open>
  \<open>storage/CoinDB.cpp\<close> and \<open>storage/CoinView.cpp\<close>: the database of unspent coins and the cache in
  front of it. In any run the cache and the database are shown to be a ledger (\<open>ledger\<close>): the coins on disk, the
  unspent coins and the outpoints spent since the last flush. Where a transfer creates only outpoints that are neither unspent
  nor spent since the last flush, at a height the view has reached (\<open>tx_ready\<close>), this is one map from outpoints
  to unspent coins: looking a coin up and flushing leave it alone, and a transfer fails or removes the coins spent and adds the new ones.

  The unordered containers are an association list and a list without repetition; the lemmas do not
  depend on their order. The pointer \<open>fetchCoin\<close> returns is the coin it points to. \<open>None\<close> is a failed
  assertion or an undefined sum.
\<close>

section \<open>Data\<close>

record CoinEntry =
  entry_coin :: Coin
  dirty :: bool

record CoinsData =
  bestBlockHash :: uint256
  bestBlockHeight :: int
  addedCoins :: "(TransactionOutPoint \<times> CoinEntry) list"
  removedCoins :: "TransactionOutPoint list"

definition Coin_new :: Coin where
  "Coin_new = \<lparr>coin_output = TransactionOutput_new, coin_height = 0, coin_isCoinBase = False\<rparr>"

definition CoinEntry_new :: CoinEntry where
  "CoinEntry_new = \<lparr>entry_coin = Coin_new, dirty = False\<rparr>"

definition CoinsData_new :: CoinsData where
  "CoinsData_new = \<lparr>bestBlockHash = uint256_null, bestBlockHeight = 0, addedCoins = [], removedCoins = []\<rparr>"

text \<open>The value of a coin.\<close>

definition coin_value :: "Coin \<Rightarrow> int" where
  "coin_value c = valueOf (coin_output c)"

section \<open>The coin database\<close>

text \<open>What a database works with: the store and the streams of the encodings.\<close>

record ('d, 's) db_context =
  store :: "'d leveldb"
  db_in :: "'s istream"
  db_out :: ostream

definition DB_COIN :: byte where "DB_COIN = 0x43"
definition DB_BEST_BLOCK :: bytes where "DB_BEST_BLOCK = [0x42]"

definition coin_key :: "ostream \<Rightarrow> TransactionOutPoint \<Rightarrow> bytes" where
  "coin_key os out = DB_COIN # wr_bn os (op_hash out) @ wr32 os (op_index out)"

definition readCoin :: "('d, 's) db_context \<Rightarrow> 'd ObjectDB \<Rightarrow> TransactionOutPoint \<Rightarrow> Coin \<Rightarrow> bool \<times> Coin" where
  "readCoin cx odb out coin = odb_read (store cx) (db_in cx) (read_coin (db_in cx)) odb (coin_key (db_out cx) out) coin"

fun write_added :: "ostream \<Rightarrow> 'd ObjectDB \<Rightarrow> (TransactionOutPoint \<times> CoinEntry) list \<Rightarrow> write_batch \<Rightarrow> write_batch option" where
  "write_added os odb [] b = Some b"
| "write_added os odb ((out, e) # items) b =
     (if coin_value (entry_coin e) > 0 \<and> dirty e
      then do { val \<leftarrow> write_coin os (entry_coin e); write_added os odb items (batch_writeString odb (coin_key os out) val b) }
      else write_added os odb items b)"

definition writeCoins :: "('d, 's) db_context \<Rightarrow> CoinsData \<Rightarrow> 'd ObjectDB \<Rightarrow> (bool \<times> 'd ObjectDB) option" where
  "writeCoins cx data odb = do {
     b \<leftarrow> write_added (db_out cx) odb (addedCoins data) [];
     let b = fold (\<lambda>out. batch_erase (coin_key (db_out cx) out)) (removedCoins data) b;
     let b = batch_writeString odb DB_BEST_BLOCK (wr_bn (db_out cx) (bestBlockHash data)) b;
     Some (batch_execute (store cx) b odb)
   }"

text \<open>The scan of \<open>loadAll\<close> when the database names no best block; \<open>key[0]\<close> needs a key that is not
  empty.\<close>

function load_scan :: "'s istream \<Rightarrow> cursor \<Rightarrow> unit option" where
  "load_scan ist cursor =
     (if \<not> cursor_valid cursor then Some ()
      else let key = cursor_getKey cursor; value = cursor_getValue cursor
           in if key = [] then None
              else if key ! 0 = DB_COIN
              then (case read_coin ist Coin_new (of_bytes ist value) of (coin, s) \<Rightarrow>
                      if good ist s \<and> coin_height coin \<le> 0 then load_scan ist (cursor_next cursor) else None)
              else load_scan ist (cursor_next cursor))"
  by pat_completeness auto
termination
  by (relation "measure (\<lambda>(ist, c). length c)") (auto simp: cursor_valid_def cursor_next_def)

definition coins_loadAll :: "('d, 's) db_context \<Rightarrow> 'd ObjectDB \<Rightarrow> CoinsData \<Rightarrow> CoinsData option" where
  "coins_loadAll cx odb data =
     (case odb_read (store cx) (db_in cx) (into (rd_bn (db_in cx))) odb DB_BEST_BLOCK uint256_null of (ok, h) \<Rightarrow>
        let data = (if ok then data\<lparr>bestBlockHash := h\<rparr> else data)
        in if h = uint256_null
           then do { load_scan (db_in cx) (seekToFirst (store cx) (m_db odb)); Some data }
           else Some data)"

section \<open>The coin view\<close>

record 'd CoinView =
  cv_db :: "'d ObjectDB"
  coins :: CoinsData

definition view_load :: "('d, 's) db_context \<Rightarrow> 'd CoinView \<Rightarrow> 'd CoinView option" where
  "view_load cx cv = do {
     let odb = odb_open (store cx) (db_in cx) (cv_db cv);
     data \<leftarrow> coins_loadAll cx odb (coins cv);
     Some (cv\<lparr>cv_db := odb, coins := data\<rparr>)
   }"

definition setBestBlockHash :: "uint256 \<Rightarrow> int \<Rightarrow> 'd CoinView \<Rightarrow> 'd CoinView" where
  "setBestBlockHash h ht cv = cv\<lparr>coins := (coins cv)\<lparr>bestBlockHash := h, bestBlockHeight := ht\<rparr>\<rparr>"

definition put_entry :: "TransactionOutPoint \<Rightarrow> CoinEntry \<Rightarrow> 'd CoinView \<Rightarrow> 'd CoinView" where
  "put_entry out e cv = cv\<lparr>coins := (coins cv)\<lparr>addedCoins := AList.update out e (addedCoins (coins cv))\<rparr>\<rparr>"

definition fetchCoin :: "('d, 's) db_context \<Rightarrow> TransactionOutPoint \<Rightarrow> 'd CoinView \<Rightarrow> (Coin option \<times> 'd CoinView) option" where
  "fetchCoin cx out cv =
     (if out \<in> set (removedCoins (coins cv)) then Some (None, cv)
      else case map_of (addedCoins (coins cv)) out of
        Some e \<Rightarrow> Some (Some (entry_coin e), cv)
      | None \<Rightarrow>
          (case readCoin cx (cv_db cv) out Coin_new of
             (False, _) \<Rightarrow> Some (Some Coin_new, put_entry out CoinEntry_new cv)
           | (True, tempcoin) \<Rightarrow> do {
               assert_that (coin_value tempcoin > 0);
               assert_that (coin_height tempcoin \<le> bestBlockHeight (coins cv) \<or> bestBlockHeight (coins cv) = 0);
               Some (Some tempcoin, put_entry out (CoinEntry_new\<lparr>entry_coin := tempcoin\<rparr>) cv)
             }))"

definition hasCoin :: "('d, 's) db_context \<Rightarrow> TransactionOutPoint \<Rightarrow> 'd CoinView \<Rightarrow> (bool \<times> 'd CoinView) option" where
  "hasCoin cx out cv = do {
     (coin, cv) \<leftarrow> fetchCoin cx out cv;
     Some (case coin of None \<Rightarrow> False | Some c \<Rightarrow> coin_value c > 0, cv)
   }"

definition addCoin :: "TransactionOutPoint \<Rightarrow> Coin \<Rightarrow> 'd CoinView \<Rightarrow> 'd CoinView option" where
  "addCoin out coin cv = do {
     assert_that (coin_height coin \<le> bestBlockHeight (coins cv));
     Some (put_entry out \<lparr>entry_coin = coin, dirty = True\<rparr> cv)
   }"

definition removeCoin :: "TransactionOutPoint \<Rightarrow> 'd CoinView \<Rightarrow> 'd CoinView" where
  "removeCoin out cv = cv\<lparr>coins := (coins cv)\<lparr>addedCoins := AList.delete out (addedCoins (coins cv)),
     removedCoins := List.insert out (removedCoins (coins cv))\<rparr>\<rparr>"

fun spend_inputs :: "('d, 's) db_context \<Rightarrow> TransactionInput list \<Rightarrow> int \<Rightarrow> 'd CoinView \<Rightarrow> (int \<times> 'd CoinView) option" where
  "spend_inputs cx [] inputval cv = Some (inputval, cv)"
| "spend_inputs cx (i # is') inputval cv = do {
     (coin, cv) \<leftarrow> fetchCoin cx (previousOutput i) cv;
     c \<leftarrow> coin;
     assert_that (coin_value c > 0);
     inputval \<leftarrow> int64 (inputval + coin_value c);
     spend_inputs cx is' inputval (removeCoin (previousOutput i) cv)
   }"

fun add_outputs :: "uint256 \<Rightarrow> int \<Rightarrow> bool \<Rightarrow> nat \<Rightarrow> TransactionOutput list \<Rightarrow> int \<Rightarrow> 'd CoinView \<Rightarrow> (int \<times> 'd CoinView) option" where
  "add_outputs h ht cb i [] outputval cv = Some (outputval, cv)"
| "add_outputs h ht cb i (o' # os') outputval cv = do {
     outputval \<leftarrow> int64 (outputval + valueOf o');
     cv \<leftarrow> addCoin \<lparr>op_hash = h, op_index = of_nat i\<rparr> \<lparr>coin_output = o', coin_height = ht, coin_isCoinBase = cb\<rparr> cv;
     add_outputs h ht cb (Suc i) os' outputval cv
   }"

definition transfer :: "('d, 's) db_context \<Rightarrow> Transaction \<Rightarrow> int \<Rightarrow> 'd CoinView \<Rightarrow> 'd CoinView option" where
  "transfer cx tx ht cv = do {
     h \<leftarrow> getHash tx;
     (inputval, cv) \<leftarrow> (if isCoinBase tx then Some (0, cv) else spend_inputs cx (inputs tx) 0 cv);
     (outputval, cv) \<leftarrow> add_outputs h ht (isCoinBase tx) 0 (outputs tx) 0 cv;
     assert_that (isCoinBase tx \<or> inputval \<ge> outputval);
     Some cv
   }"

text \<open>\<open>flush\<close> asserts that the write succeeds.\<close>

definition view_flush :: "('d, 's) db_context \<Rightarrow> 'd CoinView \<Rightarrow> (bool \<times> 'd CoinView) option" where
  "view_flush cx cv = do {
     assert_that (\<forall>(out, e) \<in> set (addedCoins (coins cv)). coin_height (entry_coin e) \<le> bestBlockHeight (coins cv) \<or>
       coin_height (entry_coin e) = bestBlockHeight (coins cv) + 1);
     (success, odb) \<leftarrow> writeCoins cx (coins cv) (cv_db cv);
     assert_that success;
     Some (True, cv\<lparr>cv_db := odb, coins := (coins cv)\<lparr>addedCoins := [], removedCoins := []\<rparr>\<rparr>)
   }"

section \<open>The map of unspent coins\<close>

definition db_coin :: "('d, 's) db_context \<Rightarrow> 'd ObjectDB \<Rightarrow> TransactionOutPoint \<Rightarrow> Coin option" where
  "db_coin cx odb out = (case readCoin cx odb out Coin_new of (ok, c) \<Rightarrow> if ok then Some c else None)"

definition live :: "CoinEntry \<Rightarrow> Coin option" where
  "live e = (if coin_value (entry_coin e) > 0 then Some (entry_coin e) else None)"

text \<open>A hash is a \<open>uint256\<close>.\<close>

definition wf_point :: "TransactionOutPoint \<Rightarrow> bool" where
  "wf_point out \<longleftrightarrow> length (op_hash out) = 32"

definition utxo :: "('d, 's) db_context \<Rightarrow> 'd CoinView \<Rightarrow> TransactionOutPoint \<Rightarrow> Coin option" where
  "utxo cx cv out =
     (if \<not> wf_point out \<or> out \<in> set (removedCoins (coins cv)) then None
      else case map_of (addedCoins (coins cv)) out of Some e \<Rightarrow> live e | None \<Rightarrow> db_coin cx (cv_db cv) out)"

text \<open>The invariant of the cache: an entry that is not dirty tells what the database holds, a dirty entry
  without value hides nothing in the database, and what would be written can be read back.\<close>

definition entry_ok :: "('d, 's) db_context \<Rightarrow> 'd CoinView \<Rightarrow> TransactionOutPoint \<Rightarrow> CoinEntry \<Rightarrow> bool" where
  "entry_ok cx cv out e \<longleftrightarrow> wf_point out \<and> coin_height (entry_coin e) \<le> bestBlockHeight (coins cv) \<and>
     (if dirty e then wf_coin (entry_coin e) \<and>
         (coin_value (entry_coin e) \<le> 0 \<and> out \<notin> set (removedCoins (coins cv)) \<longrightarrow> db_coin cx (cv_db cv) out = None)
      else out \<notin> set (removedCoins (coins cv)) \<longrightarrow> db_coin cx (cv_db cv) out = live e)"

definition view_ok :: "('d, 's) db_context \<Rightarrow> 'd CoinView \<Rightarrow> bool" where
  "view_ok cx cv \<longleftrightarrow> wf_odb (cv_db cv) \<and> distinct (map fst (addedCoins (coins cv))) \<and>
     0 \<le> bestBlockHeight (coins cv) \<and> length (bestBlockHash (coins cv)) = 32 \<and>
     (\<forall>out \<in> set (removedCoins (coins cv)). wf_point out) \<and>
     (\<forall>out c. wf_point out \<longrightarrow> db_coin cx (cv_db cv) out = Some c \<longrightarrow> coin_value c > 0 \<and> coin_height c \<le> bestBlockHeight (coins cv)) \<and>
     (\<forall>out e. map_of (addedCoins (coins cv)) out = Some e \<longrightarrow> entry_ok cx cv out e)"

section \<open>The cache\<close>

lemma put_entry_fields [simp]:
  "cv_db (put_entry out e cv) = cv_db cv"
  "removedCoins (coins (put_entry out e cv)) = removedCoins (coins cv)"
  "bestBlockHeight (coins (put_entry out e cv)) = bestBlockHeight (coins cv)"
  "bestBlockHash (coins (put_entry out e cv)) = bestBlockHash (coins cv)"
  "map_of (addedCoins (coins (put_entry out e cv))) = (map_of (addedCoins (coins cv)))(out \<mapsto> e)"
  "distinct (map fst (addedCoins (coins (put_entry out e cv)))) \<longleftrightarrow> distinct (map fst (AList.update out e (addedCoins (coins cv))))"
  by (simp_all add: put_entry_def update_conv')

lemma removeCoin_fields [simp]:
  "cv_db (removeCoin out cv) = cv_db cv"
  "set (removedCoins (coins (removeCoin out cv))) = insert out (set (removedCoins (coins cv)))"
  "bestBlockHeight (coins (removeCoin out cv)) = bestBlockHeight (coins cv)"
  "bestBlockHash (coins (removeCoin out cv)) = bestBlockHash (coins cv)"
  "map_of (addedCoins (coins (removeCoin out cv))) = (map_of (addedCoins (coins cv)))(out := None)"
  by (simp_all add: removeCoin_def delete_conv')

lemma view_okD:
  assumes "view_ok cx cv"
  shows "wf_point out \<Longrightarrow> db_coin cx (cv_db cv) out = Some c \<Longrightarrow> coin_value c > 0 \<and> coin_height c \<le> bestBlockHeight (coins cv)"
    and "map_of (addedCoins (coins cv)) out = Some e \<Longrightarrow> entry_ok cx cv out e"
    and "distinct (map fst (addedCoins (coins cv)))" "wf_odb (cv_db cv)" "0 \<le> bestBlockHeight (coins cv)"
    and "r \<in> set (removedCoins (coins cv)) \<Longrightarrow> wf_point r" "length (bestBlockHash (coins cv)) = 32"
  using assms by (auto simp: view_ok_def)

lemma put_entry_ok:
  assumes "view_ok cx cv" "entry_ok cx cv out e"
  shows "view_ok cx (put_entry out e cv)"
  using assms distinct_update [OF view_okD(3) [OF assms(1)], of out e]
  by (simp add: view_ok_def entry_ok_def)

lemma removeCoin_ok:
  assumes "view_ok cx cv" "wf_point out"
  shows "view_ok cx (removeCoin out cv)" "utxo cx (removeCoin out cv) = (utxo cx cv)(out := None)"
proof -
  have "distinct (map fst (addedCoins (coins (removeCoin out cv))))"
    using distinct_delete [OF view_okD(3) [OF assms(1)], of out] by (simp add: removeCoin_def)
  then show "view_ok cx (removeCoin out cv)" using assms by (auto simp: view_ok_def entry_ok_def)
  show "utxo cx (removeCoin out cv) = (utxo cx cv)(out := None)" by (auto simp: utxo_def fun_eq_iff split: option.split)
qed

lemma live_Some [simp]: "live e = Some c \<longleftrightarrow> c = entry_coin e \<and> coin_value c > 0"
  by (auto simp: live_def)

text \<open>Looking a coin up answers the map and leaves it alone.\<close>

lemma fetchCoin_ok:
  assumes ok: "view_ok cx cv" and out: "wf_point out"
  obtains r cv' where "fetchCoin cx out cv = Some (r, cv')" "view_ok cx cv'" "utxo cx cv' = utxo cx cv"
    "removedCoins (coins cv') = removedCoins (coins cv)" "bestBlockHeight (coins cv') = bestBlockHeight (coins cv)"
    "utxo cx cv out = (case r of None \<Rightarrow> None | Some c \<Rightarrow> if coin_value c > 0 then Some c else None)"
proof (cases "out \<in> set (removedCoins (coins cv))")
  case True
  then show thesis using that [of None cv] ok by (simp add: fetchCoin_def utxo_def)
next
  case fresh: False
  show thesis
  proof (cases "map_of (addedCoins (coins cv)) out")
    case (Some e)
    then show thesis using that [of "Some (entry_coin e)" cv] ok fresh out by (simp add: fetchCoin_def utxo_def live_def)
  next
    case None
    obtain b c where r: "readCoin cx (cv_db cv) out Coin_new = (b, c)" by fastforce
    define e where "e = CoinEntry_new\<lparr>entry_coin := (if b then c else Coin_new)\<rparr>"
    have e0: "\<not> b \<Longrightarrow> e = CoinEntry_new" by (simp add: e_def CoinEntry_new_def)
    have new: "coin_value Coin_new = 0" by (simp add: coin_value_def Coin_new_def TransactionOutput_new_def valueOf_def)
    have db: "db_coin cx (cv_db cv) out = (if b then Some c else None)" using r by (simp add: db_coin_def)
    have c: "b \<Longrightarrow> coin_value c > 0 \<and> coin_height c \<le> bestBlockHeight (coins cv)"
      using view_okD(1) [OF ok out, of c] db by simp
    have live: "live e = db_coin cx (cv_db cv) out" using c by (auto simp: live_def db e_def new CoinEntry_new_def)
    have f: "fetchCoin cx out cv = Some (Some (entry_coin e), put_entry out e cv)"
      using fresh None r c e0 by (cases b) (auto simp: fetchCoin_def e_def CoinEntry_new_def)
    have "entry_ok cx cv out e" using out c live view_okD(5) [OF ok]
      by (auto simp: entry_ok_def e_def CoinEntry_new_def Coin_new_def)
    then have "view_ok cx (put_entry out e cv)" using ok by (intro put_entry_ok)
    moreover have "utxo cx (put_entry out e cv) = utxo cx cv" using None live out by (auto simp: utxo_def fun_eq_iff split: option.split)
    moreover have "utxo cx cv out = live e" using fresh None live out by (simp add: utxo_def)
    ultimately show thesis using that [OF f] by (simp add: live_def)
  qed
qed

lemma utxo_none_db:
  assumes "view_ok cx cv" "utxo cx cv out = None" "out \<notin> set (removedCoins (coins cv))" "wf_point out"
  shows "db_coin cx (cv_db cv) out = None"
proof (cases "map_of (addedCoins (coins cv)) out")
  case (Some e)
  then have "entry_ok cx cv out e" by (rule view_okD(2) [OF assms(1)])
  then show ?thesis using assms Some by (auto simp: entry_ok_def utxo_def live_def split: if_splits)
qed (use assms in \<open>simp add: utxo_def\<close>)

lemma addCoin_ok:
  assumes "view_ok cx cv" "wf_point out" "wf_coin c" "coin_height c \<le> bestBlockHeight (coins cv)"
    and "utxo cx cv out = None" "out \<notin> set (removedCoins (coins cv))"
  obtains cv' where "addCoin out c cv = Some cv'" "view_ok cx cv'"
    "utxo cx cv' = (utxo cx cv)(out := (if coin_value c > 0 then Some c else None))"
    "removedCoins (coins cv') = removedCoins (coins cv)" "bestBlockHeight (coins cv') = bestBlockHeight (coins cv)"
proof
  let ?e = "\<lparr>entry_coin = c, dirty = True\<rparr>"
  show "addCoin out c cv = Some (put_entry out ?e cv)" using assms(4) by (simp add: addCoin_def)
  have "entry_ok cx cv out ?e" using assms utxo_none_db [OF assms(1,5,6,2)] by (simp add: entry_ok_def)
  then show "view_ok cx (put_entry out ?e cv)" using assms(1) by (intro put_entry_ok)
  show "utxo cx (put_entry out ?e cv) = (utxo cx cv)(out := (if coin_value c > 0 then Some c else None))"
    using assms(2,6) by (auto simp: utxo_def live_def fun_eq_iff split: option.split)
qed simp_all

section \<open>Transfers\<close>

text \<open>The specification of a transfer on the map of unspent coins.\<close>

type_synonym coin_map = "TransactionOutPoint \<Rightarrow> Coin option"

fun spend_spec :: "TransactionInput list \<Rightarrow> int \<Rightarrow> coin_map \<Rightarrow> (int \<times> coin_map) option" where
  "spend_spec [] amount u = Some (amount, u)"
| "spend_spec (i # is') amount u = do {
     c \<leftarrow> u (previousOutput i);
     amount \<leftarrow> int64 (amount + coin_value c);
     spend_spec is' amount (u(previousOutput i := None))
   }"

fun create_spec :: "uint256 \<Rightarrow> int \<Rightarrow> bool \<Rightarrow> nat \<Rightarrow> TransactionOutput list \<Rightarrow> int \<Rightarrow> coin_map \<Rightarrow> (int \<times> coin_map) option" where
  "create_spec h ht cb i [] amount u = Some (amount, u)"
| "create_spec h ht cb i (o' # os') amount u = do {
     amount \<leftarrow> int64 (amount + valueOf o');
     create_spec h ht cb (Suc i) os' amount (u(\<lparr>op_hash = h, op_index = of_nat i\<rparr> :=
       (if valueOf o' > 0 then Some \<lparr>coin_output = o', coin_height = ht, coin_isCoinBase = cb\<rparr> else None)))
   }"

definition transfer_spec :: "Transaction \<Rightarrow> int \<Rightarrow> coin_map \<Rightarrow> coin_map option" where
  "transfer_spec tx ht u = do {
     h \<leftarrow> getHash tx;
     (spent, u) \<leftarrow> (if isCoinBase tx then Some (0, u) else spend_spec (inputs tx) 0 u);
     (created, u) \<leftarrow> create_spec h ht (isCoinBase tx) 0 (outputs tx) 0 u;
     assert_that (isCoinBase tx \<or> created \<le> spent);
     Some u
   }"

text \<open>A view and a map agree.\<close>

definition shows_map :: "('d, 's) db_context \<Rightarrow> int \<Rightarrow> (TransactionOutPoint \<Rightarrow> bool) \<Rightarrow> coin_map \<Rightarrow> 'd CoinView \<Rightarrow> bool" where
  "shows_map cx best gone u cv \<longleftrightarrow> view_ok cx cv \<and> utxo cx cv = u \<and> bestBlockHeight (coins cv) = best \<and>
     (\<forall>out \<in> set (removedCoins (coins cv)). gone out)"

lemma shows_mapI: "view_ok cx cv \<Longrightarrow> (\<And>out. out \<in> set (removedCoins (coins cv)) \<Longrightarrow> gone out) \<Longrightarrow>
    shows_map cx (bestBlockHeight (coins cv)) gone (utxo cx cv) cv"
  by (simp add: shows_map_def)

lemma spend_inputs_refines:
  "shows_map cx best gone u cv \<Longrightarrow> list_all (\<lambda>i. wf_point (previousOutput i)) is' \<Longrightarrow>
   (\<And>i. i \<in> set is' \<Longrightarrow> u (previousOutput i) \<noteq> None \<Longrightarrow> gone (previousOutput i)) \<Longrightarrow>
   rel_option (rel_prod (=) (shows_map cx best gone)) (spend_spec is' amount u) (spend_inputs cx is' amount cv)"
proof (induction is' arbitrary: amount u cv)
  case (Cons i is' amount u cv)
  let ?p = "previousOutput i"
  have ok: "view_ok cx cv" "wf_point ?p" "utxo cx cv = u" using Cons.prems by (simp_all add: shows_map_def)
  obtain r cv1 where "fetchCoin cx ?p cv = Some (r, cv1)" "view_ok cx cv1" "utxo cx cv1 = utxo cx cv"
    "removedCoins (coins cv1) = removedCoins (coins cv)" "bestBlockHeight (coins cv1) = bestBlockHeight (coins cv)"
    "utxo cx cv ?p = (case r of None \<Rightarrow> None | Some c \<Rightarrow> if coin_value c > 0 then Some c else None)"
    by (rule fetchCoin_ok [OF ok(1,2)])
  note f = this [unfolded ok(3)]
  show ?case
  proof (cases "u ?p")
    case None
    then show ?thesis using f(1,6) by (auto split: option.splits if_splits)
  next
    case (Some c)
    then have r: "r = Some c" "coin_value c > 0" using f(6) by (auto split: option.splits if_splits)
    have "gone ?p" using Cons.prems(3) [of i] Some by simp
    then have "shows_map cx best gone (u(?p := None)) (removeCoin ?p cv1)"
      using Cons.prems(1) removeCoin_ok [OF f(2) ok(2)] f(3-5) by (auto simp: shows_map_def)
    then have rest: "rel_option (rel_prod (=) (shows_map cx best gone)) (spend_spec is' t (u(?p := None))) (spend_inputs cx is' t (removeCoin ?p cv1))" for t
    proof (rule Cons.IH)
      show "gone (previousOutput j)" if "j \<in> set is'" "(u(?p := None)) (previousOutput j) \<noteq> None" for j
        using Cons.prems(3) [of j] that by (auto split: if_splits)
    qed (use Cons.prems(2) in simp_all)
    show ?thesis using f(1) r Some rest by (cases "int64 (amount + coin_value c)") simp_all
  qed
qed simp

lemma create_refines:
  "shows_map cx best gone u cv \<Longrightarrow> list_all wf_output os' \<Longrightarrow> length h = 32 \<Longrightarrow> 0 \<le> ht \<Longrightarrow> ht < 2 ^ 31 \<Longrightarrow> ht \<le> best \<Longrightarrow>
   i + length os' \<le> 2 ^ 32 \<Longrightarrow>
   (\<And>j. i \<le> j \<Longrightarrow> j < i + length os' \<Longrightarrow> u \<lparr>op_hash = h, op_index = of_nat j\<rparr> = None \<and> \<not> gone \<lparr>op_hash = h, op_index = of_nat j\<rparr>) \<Longrightarrow>
   rel_option (rel_prod (=) (shows_map cx best gone)) (create_spec h ht cb i os' amount u) (add_outputs h ht cb i os' amount cv)"
proof (induction os' arbitrary: i amount u cv)
  case (Cons o' os' i amount u cv)
  let ?p = "\<lparr>op_hash = h, op_index = of_nat i :: u32\<rparr>" and ?c = "\<lparr>coin_output = o', coin_height = ht, coin_isCoinBase = cb\<rparr>"
  let ?u = "u(?p := (if valueOf o' > 0 then Some ?c else None))"
  have s: "view_ok cx cv" "utxo cx cv = u" "bestBlockHeight (coins cv) = best"
    "\<And>out. out \<in> set (removedCoins (coins cv)) \<Longrightarrow> gone out" using Cons.prems(1) by (simp_all add: shows_map_def)
  have fresh: "u ?p = None" "\<not> gone ?p" using Cons.prems(8) [of i] by simp_all
  have wf: "wf_coin ?c" "wf_point ?p" "coin_height ?c \<le> bestBlockHeight (coins cv)"
    using Cons.prems s(3) by (simp_all add: wf_coin_def wf_point_def)
  have "utxo cx cv ?p = None" "?p \<notin> set (removedCoins (coins cv))" using s(2,4) fresh by auto
  then obtain cv1 where c1: "addCoin ?p ?c cv = Some cv1" "view_ok cx cv1"
    "utxo cx cv1 = (utxo cx cv)(?p := (if coin_value ?c > 0 then Some ?c else None))"
    "removedCoins (coins cv1) = removedCoins (coins cv)" "bestBlockHeight (coins cv1) = bestBlockHeight (coins cv)"
    by (rule addCoin_ok [OF s(1) wf(2,1,3)])
  have a: "addCoin ?p ?c cv = Some cv1" "shows_map cx best gone ?u cv1"
    using c1 s by (simp_all add: shows_map_def coin_value_def)
  have "rel_option (rel_prod (=) (shows_map cx best gone)) (create_spec h ht cb (Suc i) os' t ?u) (add_outputs h ht cb (Suc i) os' t cv1)" for t
  proof (rule Cons.IH [OF a(2)])
    fix j assume j: "Suc i \<le> j" "j < Suc i + length os'"
    have "(of_nat j :: u32) \<noteq> of_nat i"
      using j Cons.prems(7) by (simp add: word_of_nat_eq_iff take_bit_nat_eq_self)
    then show "?u \<lparr>op_hash = h, op_index = of_nat j\<rparr> = None \<and> \<not> gone \<lparr>op_hash = h, op_index = of_nat j\<rparr>"
      using Cons.prems(8) [of j] j by simp
  qed (use Cons.prems in simp_all)
  then show ?case using a(1) by (cases "int64 (amount + valueOf o')") simp_all
qed simp

lemma spend_spec_sub: "spend_spec is' amount u = Some (t, u') \<Longrightarrow> u out = None \<Longrightarrow> u' out = None"
proof (induction is' arbitrary: amount u)
  case (Cons i is')
  then show ?case by (fastforce split: bind_splits if_splits)
qed simp

text \<open>What the caller of a transfer guarantees: well-formed data, a height the view has reached, and
  outpoints that name no unspent coin and were not spent since the last flush.\<close>

definition tx_ready :: "('d, 's) db_context \<Rightarrow> 'd CoinView \<Rightarrow> Transaction \<Rightarrow> int \<Rightarrow> bool" where
  "tx_ready cx cv tx ht \<longleftrightarrow> list_all (\<lambda>i. wf_point (previousOutput i)) (inputs tx) \<and> list_all wf_output (outputs tx) \<and>
     length (tx_hash tx) = 32 \<and> 0 \<le> ht \<and> ht < 2 ^ 31 \<and> ht \<le> bestBlockHeight (coins cv) \<and> length (outputs tx) \<le> 2 ^ 32 \<and>
     (\<forall>j < length (outputs tx). utxo cx cv \<lparr>op_hash = tx_hash tx, op_index = of_nat j\<rparr> = None \<and>
        \<lparr>op_hash = tx_hash tx, op_index = of_nat j\<rparr> \<notin> set (removedCoins (coins cv)))"

lemma transfer_shows:
  assumes ok: "view_ok cx cv" and ready: "tx_ready cx cv tx ht"
  shows "case transfer_spec tx ht (utxo cx cv) of
      None \<Rightarrow> transfer cx tx ht cv = None
    | Some u \<Rightarrow> \<exists>cv'. transfer cx tx ht cv = Some cv' \<and>
        shows_map cx (bestBlockHeight (coins cv)) (\<lambda>out. out \<in> set (removedCoins (coins cv)) \<or> utxo cx cv out \<noteq> None) u cv'"
proof -
  define best where "best = bestBlockHeight (coins cv)"
  define gone where "gone out \<longleftrightarrow> out \<in> set (removedCoins (coins cv)) \<or> utxo cx cv out \<noteq> None" for out
  let ?R = "rel_option (rel_prod (=) (shows_map cx best gone))"
  have start: "shows_map cx best gone (utxo cx cv) cv" using ok by (simp add: shows_map_def best_def gone_def)
  let ?spec = "if isCoinBase tx then Some (0, utxo cx cv) else spend_spec (inputs tx) 0 (utxo cx cv)"
    and ?impl = "if isCoinBase tx then Some (0, cv) else spend_inputs cx (inputs tx) 0 cv"
  have spend: "?R ?spec ?impl"
    using start ready spend_inputs_refines [OF start, of "inputs tx" 0] by (simp add: tx_ready_def gone_def)
  show ?thesis
  proof (cases "tx_hash tx = uint256_null \<or> ?spec = None")
    case True
    then show ?thesis using spend by (auto simp: transfer_spec_def transfer_def getHash_def option_rel_Some1 option_rel_Some2)
  next
    case False
    then obtain t u where spec: "?spec = Some (t, u)" by (metis not_Some_eq prod.exhaust)
    then obtain cv1 where impl: "?impl = Some (t, cv1)" "shows_map cx best gone u cv1"
      using spend by (auto simp: option_rel_Some1)
    have none: "u \<lparr>op_hash = tx_hash tx, op_index = of_nat j\<rparr> = None \<and> \<not> gone \<lparr>op_hash = tx_hash tx, op_index = of_nat j\<rparr>"
      if "j < length (outputs tx)" for j
      using that ready spec spend_spec_sub by (fastforce simp: tx_ready_def gone_def split: if_splits)
    have create: "?R (create_spec (tx_hash tx) ht (isCoinBase tx) 0 (outputs tx) 0 u) (add_outputs (tx_hash tx) ht (isCoinBase tx) 0 (outputs tx) 0 cv1)"
      using ready none by (intro create_refines [OF impl(2)]) (simp_all add: tx_ready_def best_def)
    have eqs: "transfer_spec tx ht (utxo cx cv) = Option.bind (create_spec (tx_hash tx) ht (isCoinBase tx) 0 (outputs tx) 0 u)
        (\<lambda>(created, u). do { assert_that (isCoinBase tx \<or> created \<le> t); Some u })"
      "transfer cx tx ht cv = Option.bind (add_outputs (tx_hash tx) ht (isCoinBase tx) 0 (outputs tx) 0 cv1)
        (\<lambda>(outputval, cv). do { assert_that (isCoinBase tx \<or> t \<ge> outputval); Some cv })"
      using False unfolding transfer_spec_def transfer_def spec impl(1) by (simp_all add: getHash_def)
    show ?thesis
      using create unfolding eqs gone_def best_def by (cases rule: option.rel_cases) auto
  qed
qed

lemma transfer_ok:
  assumes "view_ok cx cv" "tx_ready cx cv tx ht"
  shows "case transfer_spec tx ht (utxo cx cv) of
      None \<Rightarrow> transfer cx tx ht cv = None
    | Some u \<Rightarrow> \<exists>cv'. transfer cx tx ht cv = Some cv' \<and> view_ok cx cv' \<and> utxo cx cv' = u"
  using transfer_shows [OF assms] by (auto simp: shows_map_def split: option.splits)

section \<open>Flushing\<close>

lemma apply_batch_append: "apply_batch m (a @ b) = apply_batch (apply_batch m a) b"
  by (simp add: apply_batch_def)

lemma apply_batch_erase: "apply_batch m (map (Delete \<circ> f) ks) k = (if k \<in> f ` set ks then None else m k)"
  by (induction ks arbitrary: m) (auto simp: apply_batch_def)

lemma apply_batch_put: "apply_batch m [Put a v] = m(a \<mapsto> v)"
  by (simp add: apply_batch_def)

text \<open>The entries a flush writes.\<close>

definition puts :: "ostream \<Rightarrow> (TransactionOutPoint \<times> CoinEntry) list \<Rightarrow> batch_op list" where
  "puts os items = map (\<lambda>(out, e). Put (coin_key os out) (the (write_coin os (entry_coin e))))
     (filter (\<lambda>(out, e). coin_value (entry_coin e) > 0 \<and> dirty e) items)"

lemma write_added_puts:
  "\<forall>(out, e) \<in> set items. dirty e \<longrightarrow> wf_coin (entry_coin e) \<Longrightarrow>
    write_added os odb items (map (hide_op odb) ops) = Some (map (hide_op odb) (ops @ puts os items))"
proof (induction items arbitrary: ops)
  case (Cons item items)
  obtain out e where item: "item = (out, e)" by fastforce
  show ?case
  proof (cases "coin_value (entry_coin e) > 0 \<and> dirty e")
    case True
    then have "\<exists>v. write_coin os (entry_coin e) = Some v" using Cons.prems item by (auto simp: write_coin_def wf_coin_def)
    then show ?thesis using True Cons.IH [of "ops @ [Put (coin_key os out) (the (write_coin os (entry_coin e)))]"] Cons.prems
      by (auto simp: item puts_def batch_ops_hide)
  next
    case False
    then show ?thesis using Cons by (auto simp: item puts_def)
  qed
qed (simp add: puts_def)

lemma erase_removed:
  "fold (\<lambda>out. batch_erase (key out)) outs (map (hide_op odb) ops) = map (hide_op odb) (ops @ map Delete (map key outs))"
proof (induction outs arbitrary: ops)
  case (Cons out outs)
  show ?case by (simp only: fold.simps o_apply batch_ops_hide Cons) simp
qed simp

context streams
begin

lemma coin_key_inj:
  assumes "wf_point a" "wf_point b" "coin_key os a = coin_key os b"
  shows "a = b"
proof -
  have "rd_bn ist (of_bytes ist (wr_bn os (op_hash a) @ wr32 os (op_index a))) =
      rd_bn ist (of_bytes ist (wr_bn os (op_hash b) @ wr32 os (op_index b)))"
    using assms(3) by (simp add: coin_key_def)
  then have h: "op_hash a = op_hash b" using assms(1,2) by (simp add: wf_point_def)
  then have "rd32 ist (of_bytes ist (wr32 os (op_index a) @ [])) = rd32 ist (of_bytes ist (wr32 os (op_index b) @ []))"
    using assms(3) by (simp add: coin_key_def)
  then have "op_index a = op_index b" using rd32 [of "op_index a" "[]"] rd32 [of "op_index b" "[]"] by simp
  then show ?thesis using h by simp
qed

lemma apply_puts:
  assumes "wf_point out"
  shows "distinct (map fst items) \<Longrightarrow> \<forall>(o', e) \<in> set items. wf_point o' \<Longrightarrow>
    \<forall>(o', e) \<in> set items. dirty e \<longrightarrow> wf_coin (entry_coin e) \<Longrightarrow>
    apply_batch m (puts os items) (coin_key os out) =
      (case map_of items out of
         Some e \<Rightarrow> if coin_value (entry_coin e) > 0 \<and> dirty e then write_coin os (entry_coin e) else m (coin_key os out)
       | None \<Rightarrow> m (coin_key os out))"
proof (induction items arbitrary: m)
  case (Cons item items)
  obtain o' e where item: "item = (o', e)" by fastforce
  let ?w = "coin_value (entry_coin e) > 0 \<and> dirty e"
  define m' where "m' = (if ?w then m(coin_key os o' \<mapsto> the (write_coin os (entry_coin e))) else m)"
  have step: "apply_batch m (puts os (item # items)) = apply_batch m' (puts os items)"
    by (simp add: item puts_def m'_def apply_batch_def)
  have IH: "apply_batch m' (puts os items) (coin_key os out) =
      (case map_of items out of
         Some e \<Rightarrow> if coin_value (entry_coin e) > 0 \<and> dirty e then write_coin os (entry_coin e) else m' (coin_key os out)
       | None \<Rightarrow> m' (coin_key os out))"
    using Cons.prems by (intro Cons.IH) (auto simp: item)
  show ?case
  proof (cases "o' = out")
    case True
    have none: "map_of items out = None" using Cons.prems(1) True by (auto simp: item map_of_eq_None_iff)
    have w: "?w \<Longrightarrow> write_coin os (entry_coin e) = Some (the (write_coin os (entry_coin e)))"
      using Cons.prems(3) by (auto simp: item write_coin_def wf_coin_def)
    show ?thesis unfolding step IH none using True w by (auto simp: item m'_def)
  next
    case False
    then have "coin_key os o' \<noteq> coin_key os out" using coin_key_inj Cons.prems(2) assms by (auto simp: item)
    then show ?thesis unfolding step IH using False by (auto simp: item m'_def split: option.split)
  qed
qed (simp add: puts_def apply_batch_def)

lemma decode_coin: "wf_coin c \<Longrightarrow> write_coin os c = Some v \<Longrightarrow> read_coin ist d (of_bytes ist v) = (c, of_bytes ist [])"
  using read_coin_write [of c v d "[]"] by simp

end

text \<open>What is read for an outpoint depends on the database at its key only.\<close>

lemma db_coin_map:
  "db_coin cx odb out = (case odb_map (store cx) odb (coin_key (db_out cx) out) of
     None \<Rightarrow> None
   | Some v \<Rightarrow> (case read_coin (db_in cx) Coin_new (of_bytes (db_in cx) v) of (c, s) \<Rightarrow> if good (db_in cx) s then Some c else None))"
  by (auto simp: db_coin_def readCoin_def odb_read_def odb_map_def split: option.split prod.split)

text \<open>The invariant of the cache in any run: an entry that is not dirty tells what the database holds,
  and what would be written can be read back.\<close>

definition cached_ok :: "('d, 's) db_context \<Rightarrow> 'd CoinView \<Rightarrow> TransactionOutPoint \<Rightarrow> CoinEntry \<Rightarrow> bool" where
  "cached_ok cx cv out e \<longleftrightarrow> wf_point out \<and>
     (if dirty e then wf_coin (entry_coin e) else out \<notin> set (removedCoins (coins cv)) \<longrightarrow> db_coin cx (cv_db cv) out = live e)"

definition view_inv :: "('d, 's) db_context \<Rightarrow> 'd CoinView \<Rightarrow> bool" where
  "view_inv cx cv \<longleftrightarrow> wf_odb (cv_db cv) \<and> distinct (map fst (addedCoins (coins cv))) \<and>
     (\<forall>out \<in> set (removedCoins (coins cv)). wf_point out) \<and>
     (\<forall>out e. map_of (addedCoins (coins cv)) out = Some e \<longrightarrow> cached_ok cx cv out e)"

lemma view_invD:
  assumes "view_inv cx cv"
  shows "map_of (addedCoins (coins cv)) out = Some e \<Longrightarrow> cached_ok cx cv out e"
    and "distinct (map fst (addedCoins (coins cv)))" "wf_odb (cv_db cv)"
    and "r \<in> set (removedCoins (coins cv)) \<Longrightarrow> wf_point r"
  using assms by (auto simp: view_inv_def)

lemma view_ok_inv: "view_ok cx cv \<Longrightarrow> view_inv cx cv"
  by (auto simp: view_ok_def view_inv_def entry_ok_def cached_ok_def)

lemma flush_writes:
  assumes kv: "key_value_store (store cx)" and st: "streams (db_in cx) (db_out cx)"
    and ok: "view_inv cx cv" and run: "view_flush cx cv = Some (b, cv')"
  shows "wf_odb (cv_db cv') \<and> coins cv' = (coins cv)\<lparr>addedCoins := [], removedCoins := []\<rparr> \<and>
    (\<forall>out. wf_point out \<longrightarrow> db_coin cx (cv_db cv') out =
      (if out \<in> set (removedCoins (coins cv)) then None
       else case map_of (addedCoins (coins cv)) out of
         Some e \<Rightarrow> if coin_value (entry_coin e) > 0 \<and> dirty e then Some (entry_coin e) else db_coin cx (cv_db cv) out
       | None \<Rightarrow> db_coin cx (cv_db cv) out))"
proof -
  let ?os = "db_out cx" and ?added = "addedCoins (coins cv)" and ?removed = "removedCoins (coins cv)"
  have ent: "map_of ?added out = Some e \<Longrightarrow> cached_ok cx cv out e" for out e by (rule view_invD(1) [OF ok])
  have items: "(out, e) \<in> set ?added \<Longrightarrow> cached_ok cx cv out e" for out e
    using ent view_invD(2) [OF ok] by (simp add: map_of_eq_Some_iff)
  have wf: "\<forall>(out, e) \<in> set ?added. dirty e \<longrightarrow> wf_coin (entry_coin e)" "\<forall>(out, e) \<in> set ?added. wf_point out"
    using items by (auto simp: cached_ok_def)
  define ops where "ops = puts ?os ?added @ map Delete (map (coin_key ?os) ?removed) @ [Put DB_BEST_BLOCK (wr_bn ?os (bestBlockHash (coins cv)))]"
  have w: "writeCoins cx (coins cv) (cv_db cv) = Some (batch_execute (store cx) (map (hide_op (cv_db cv)) ops) (cv_db cv))"
  proof -
    have "write_added ?os (cv_db cv) ?added [] = Some (map (hide_op (cv_db cv)) (puts ?os ?added))"
      using write_added_puts [OF wf(1), of ?os "cv_db cv" "[]"] by simp
    then show ?thesis unfolding writeCoins_def ops_def append_assoc [symmetric]
      by (simp only: Option.bind.simps Let_def erase_removed batch_ops_hide)
  qed
  obtain odb where odb: "batch_execute (store cx) (map (hide_op (cv_db cv)) ops) (cv_db cv) = (True, odb)"
    "cv' = cv\<lparr>cv_db := odb, coins := (coins cv)\<lparr>addedCoins := [], removedCoins := []\<rparr>\<rparr>"
    using run w by (auto simp: view_flush_def split: bind_splits prod.splits if_splits)
  have db: "odb_map (store cx) odb = apply_batch (odb_map (store cx) (cv_db cv)) ops" "wf_odb odb"
    using key_value_store.odb_map_batch [OF kv view_invD(3) [OF ok] odb(1)] view_invD(3) [OF ok] by (simp_all add: wf_odb_def)
  have "db_coin cx odb out =
      (if out \<in> set ?removed then None
       else case map_of ?added out of
         Some e \<Rightarrow> if coin_value (entry_coin e) > 0 \<and> dirty e then Some (entry_coin e) else db_coin cx (cv_db cv) out
       | None \<Rightarrow> db_coin cx (cv_db cv) out)" if out: "wf_point out" for out
  proof -
    let ?k = "coin_key ?os out" and ?m = "odb_map (store cx) (cv_db cv)"
    have "?k \<noteq> DB_BEST_BLOCK" by (simp add: coin_key_def DB_BEST_BLOCK_def DB_COIN_def)
    moreover have "?k \<in> coin_key ?os ` set ?removed \<longleftrightarrow> out \<in> set ?removed"
      using streams.coin_key_inj [OF st out] view_invD(4) [OF ok] by blast
    ultimately have k: "odb_map (store cx) odb ?k = (if out \<in> set ?removed then None else apply_batch ?m (puts ?os ?added) ?k)"
      by (simp add: db(1) ops_def apply_batch_append apply_batch_erase apply_batch_put)
    note p = streams.apply_puts [OF st out view_invD(2) [OF ok] wf(2,1), of ?m]
    show ?thesis
    proof (cases "out \<notin> set ?removed \<and> (\<exists>e. map_of ?added out = Some e \<and> coin_value (entry_coin e) > 0 \<and> dirty e)")
      case True
      then obtain e where e: "map_of ?added out = Some e" "coin_value (entry_coin e) > 0" "dirty e" by blast
      then obtain v where v: "wf_coin (entry_coin e)" "write_coin ?os (entry_coin e) = Some v"
        using ent [OF e(1)] by (auto simp: cached_ok_def write_coin_def wf_coin_def)
      then show ?thesis using True e p k streams.decode_coin [OF st v] streams.good_of_bytes [OF st]
        by (simp add: db_coin_map)
    next
      case False
      then show ?thesis using p k by (auto simp: db_coin_map split: option.split)
    qed
  qed
  then show ?thesis using db(2) by (simp add: odb(2))
qed

lemma flush_ok:
  assumes kv: "key_value_store (store cx)" and st: "streams (db_in cx) (db_out cx)"
    and ok: "view_ok cx cv" and run: "view_flush cx cv = Some (b, cv')"
  shows "view_ok cx cv' \<and> utxo cx cv' = utxo cx cv \<and> addedCoins (coins cv') = [] \<and> removedCoins (coins cv') = []"
proof -
  note w = flush_writes [OF kv st view_ok_inv [OF ok] run]
  have ent: "map_of (addedCoins (coins cv)) out = Some e \<Longrightarrow> entry_ok cx cv out e" for out e by (rule view_okD(2) [OF ok])
  have new: "db_coin cx (cv_db cv') out = utxo cx cv out" if out: "wf_point out" for out
    using w out ent [of out] by (auto simp: utxo_def entry_ok_def live_def split: option.split if_splits)
  have bound: "coin_value c > 0 \<and> coin_height c \<le> bestBlockHeight (coins cv)" if "utxo cx cv out = Some c" for out c
    using that ent view_okD(1) [OF ok, of out c] by (auto simp: utxo_def entry_ok_def split: if_splits option.splits)
  have "view_ok cx cv'" using ok w new bound by (auto simp: view_ok_def)
  moreover have "utxo cx cv' = utxo cx cv" using w new by (auto simp: fun_eq_iff utxo_def [of cx cv']) (simp_all add: utxo_def)
  ultimately show ?thesis using w by simp
qed

lemma setBest_ok:
  assumes "view_ok cx cv" "bestBlockHeight (coins cv) \<le> ht" "length h = 32"
  shows "view_ok cx (setBestBlockHash h ht cv)" "utxo cx (setBestBlockHash h ht cv) = utxo cx cv"
proof -
  show "utxo cx (setBestBlockHash h ht cv) = utxo cx cv" by (simp add: fun_eq_iff utxo_def setBestBlockHash_def split: option.split)
  show "view_ok cx (setBestBlockHash h ht cv)"
    using assms by (fastforce simp: view_ok_def entry_ok_def setBestBlockHash_def)
qed

section \<open>Runs\<close>

text \<open>What a view does in any run, with no condition on the outpoints a transfer creates nor on its height:
  a coin created again after it was spent, before a flush, is not there, and one without value
  only hides what is on disk until the next flush.\<close>

text \<open>The specification: the coins on disk, the coins the view answers with, and the outpoints spent
  since the last flush.\<close>

record ledger =
  on_file :: coin_map
  unspent :: coin_map
  gone :: "TransactionOutPoint set"

definition disk_coins :: "('d, 's) db_context \<Rightarrow> 'd ObjectDB \<Rightarrow> coin_map" where
  "disk_coins cx odb out = (if wf_point out then db_coin cx odb out else None)"

definition ledger_of :: "('d, 's) db_context \<Rightarrow> 'd CoinView \<Rightarrow> ledger" where
  "ledger_of cx cv = \<lparr>on_file = disk_coins cx (cv_db cv), unspent = utxo cx cv,
     gone = set (removedCoins (coins cv))\<rparr>"

definition ledger_spend :: "TransactionOutPoint \<Rightarrow> ledger \<Rightarrow> ledger" where
  "ledger_spend out l = l\<lparr>unspent := (unspent l)(out := None), gone := insert out (gone l)\<rparr>"

definition ledger_create :: "TransactionOutPoint \<Rightarrow> Coin \<Rightarrow> ledger \<Rightarrow> ledger" where
  "ledger_create out c l =
     (if out \<in> gone l then l else l\<lparr>unspent := (unspent l)(out := if coin_value c > 0 then Some c else None)\<rparr>)"

definition ledger_flush :: "ledger \<Rightarrow> ledger" where
  "ledger_flush l = (let d = (\<lambda>out. if out \<in> gone l then None else case unspent l out of Some c \<Rightarrow> Some c | None \<Rightarrow> on_file l out)
     in \<lparr>on_file = d, unspent = d, gone = {}\<rparr>)"

fun spend_all :: "TransactionInput list \<Rightarrow> int \<Rightarrow> ledger \<Rightarrow> (int \<times> ledger) option" where
  "spend_all [] amount l = Some (amount, l)"
| "spend_all (i # is') amount l = do {
     c \<leftarrow> unspent l (previousOutput i);
     amount \<leftarrow> int64 (amount + coin_value c);
     spend_all is' amount (ledger_spend (previousOutput i) l)
   }"

fun create_all :: "uint256 \<Rightarrow> int \<Rightarrow> bool \<Rightarrow> nat \<Rightarrow> TransactionOutput list \<Rightarrow> int \<Rightarrow> ledger \<Rightarrow> (int \<times> ledger) option" where
  "create_all h ht cb i [] amount l = Some (amount, l)"
| "create_all h ht cb i (o' # os') amount l = do {
     amount \<leftarrow> int64 (amount + valueOf o');
     create_all h ht cb (Suc i) os' amount (ledger_create \<lparr>op_hash = h, op_index = of_nat i\<rparr>
       \<lparr>coin_output = o', coin_height = ht, coin_isCoinBase = cb\<rparr> l)
   }"

definition ledger_transfer :: "Transaction \<Rightarrow> int \<Rightarrow> ledger \<Rightarrow> ledger option" where
  "ledger_transfer tx ht l = do {
     h \<leftarrow> getHash tx;
     (spent, l) \<leftarrow> (if isCoinBase tx then Some (0, l) else spend_all (inputs tx) 0 l);
     (created, l) \<leftarrow> create_all h ht (isCoinBase tx) 0 (outputs tx) 0 l;
     assert_that (isCoinBase tx \<or> created \<le> spent);
     Some l
   }"

text \<open>What an answer of \<open>fetchCoin\<close> says of the coin.\<close>

definition told :: "Coin option \<Rightarrow> Coin option" where
  "told r = (case r of None \<Rightarrow> None | Some c \<Rightarrow> if coin_value c > 0 then Some c else None)"

datatype view_event = Fetch TransactionOutPoint "Coin option" | Has TransactionOutPoint bool |
  Transfer Transaction int | Best uint256 int | Flush

fun event_spec :: "view_event \<Rightarrow> ledger \<Rightarrow> ledger option" where
  "event_spec (Fetch out r) l = (if unspent l out = told r then Some l else None)"
| "event_spec (Has out b) l = (if b \<longleftrightarrow> unspent l out \<noteq> None then Some l else None)"
| "event_spec (Transfer tx ht) l = ledger_transfer tx ht l"
| "event_spec (Best h ht) l = Some l"
| "event_spec Flush l = Some (ledger_flush l)"

definition run_spec :: "view_event list \<Rightarrow> ledger \<Rightarrow> ledger option" where
  "run_spec evs l = foldl (\<lambda>l ev. Option.bind l (event_spec ev)) (Some l) evs"

text \<open>The events of a view. The conditions are those of the data types of the program: a hash has 32
  bytes, a script is short enough to be read back, a height is a natural number of 31 bits.\<close>

definition wf_transfer :: "Transaction \<Rightarrow> int \<Rightarrow> bool" where
  "wf_transfer tx ht \<longleftrightarrow> list_all (\<lambda>i. wf_point (previousOutput i)) (inputs tx) \<and> list_all wf_output (outputs tx) \<and>
     length (tx_hash tx) = 32 \<and> 0 \<le> ht \<and> ht < 2 ^ 31"

inductive view_step :: "('d, 's) db_context \<Rightarrow> 'd CoinView \<Rightarrow> view_event \<Rightarrow> 'd CoinView \<Rightarrow> bool" for cx where
  step_fetch: "fetchCoin cx out cv = Some (r, cv') \<Longrightarrow> wf_point out \<Longrightarrow> view_step cx cv (Fetch out r) cv'"
| step_has: "hasCoin cx out cv = Some (b, cv') \<Longrightarrow> wf_point out \<Longrightarrow> view_step cx cv (Has out b) cv'"
| step_transfer: "transfer cx tx ht cv = Some cv' \<Longrightarrow> wf_transfer tx ht \<Longrightarrow> view_step cx cv (Transfer tx ht) cv'"
| step_best: "view_step cx cv (Best h ht) (setBestBlockHash h ht cv)"
| step_flush: "view_flush cx cv = Some (b, cv') \<Longrightarrow> view_step cx cv Flush cv'"

inductive view_run :: "('d, 's) db_context \<Rightarrow> 'd CoinView \<Rightarrow> view_event list \<Rightarrow> 'd CoinView \<Rightarrow> bool" for cx cv where
  run_start: "view_run cx cv [] cv"
| run_step: "view_run cx cv evs cv1 \<Longrightarrow> view_step cx cv1 ev cv2 \<Longrightarrow> view_run cx cv (evs @ [ev]) cv2"

lemma put_entry_inv:
  assumes "view_inv cx cv" "cached_ok cx cv out e"
  shows "view_inv cx (put_entry out e cv)"
  using assms distinct_update [OF view_invD(2) [OF assms(1)], of out e]
  by (simp add: view_inv_def cached_ok_def)

lemma fetchCoin_inv:
  assumes ok: "view_inv cx cv" and out: "wf_point out" and run: "fetchCoin cx out cv = Some (r, cv')"
  shows "view_inv cx cv' \<and> ledger_of cx cv' = ledger_of cx cv \<and> utxo cx cv out = told r"
proof (cases "out \<in> set (removedCoins (coins cv)) \<or> map_of (addedCoins (coins cv)) out \<noteq> None")
  case True
  then show ?thesis using run ok out by (auto simp: fetchCoin_def utxo_def told_def live_def split: if_splits)
next
  case False
  then have fresh: "out \<notin> set (removedCoins (coins cv))" "map_of (addedCoins (coins cv)) out = None" by simp_all
  have new: "coin_value Coin_new = 0" by (simp add: coin_value_def Coin_new_def TransactionOutput_new_def valueOf_def)
  obtain b c where r: "readCoin cx (cv_db cv) out Coin_new = (b, c)" by fastforce
  define e where "e = CoinEntry_new\<lparr>entry_coin := (if b then c else Coin_new)\<rparr>"
  have f: "r = Some (entry_coin e)" "cv' = put_entry out e cv" "live e = db_coin cx (cv_db cv) out"
    using run r fresh new by (auto simp: fetchCoin_def e_def CoinEntry_new_def db_coin_def live_def split: if_splits bind_splits)
  have "cached_ok cx cv out e" using out f(3) by (simp add: cached_ok_def e_def CoinEntry_new_def)
  then have "view_inv cx cv'" unfolding f(2) by (rule put_entry_inv [OF ok])
  moreover have "utxo cx cv' = utxo cx cv" using fresh f(2,3) out by (auto simp: utxo_def fun_eq_iff split: option.split)
  moreover have "utxo cx cv out = told r" using fresh out f by (simp add: utxo_def told_def live_def)
  ultimately show ?thesis by (simp add: ledger_of_def f(2))
qed

lemma removeCoin_inv:
  assumes "view_inv cx cv" "wf_point out"
  shows "view_inv cx (removeCoin out cv) \<and> ledger_of cx (removeCoin out cv) = ledger_spend out (ledger_of cx cv)"
proof -
  have "distinct (map fst (addedCoins (coins (removeCoin out cv))))"
    using distinct_delete [OF view_invD(2) [OF assms(1)], of out] by (simp add: removeCoin_def)
  then have "view_inv cx (removeCoin out cv)" using assms by (auto simp: view_inv_def cached_ok_def)
  moreover have "utxo cx (removeCoin out cv) = (utxo cx cv)(out := None)" by (auto simp: utxo_def fun_eq_iff split: option.split)
  ultimately show ?thesis by (simp add: ledger_of_def ledger_spend_def)
qed

lemma addCoin_inv:
  assumes "view_inv cx cv" "wf_point out" "wf_coin c" "addCoin out c cv = Some cv'"
  shows "view_inv cx cv' \<and> ledger_of cx cv' = ledger_create out c (ledger_of cx cv)"
proof -
  let ?e = "\<lparr>entry_coin = c, dirty = True\<rparr>"
  have cv': "cv' = put_entry out ?e cv" using assms(4) by (auto simp: addCoin_def split: bind_splits if_splits)
  have "cached_ok cx cv out ?e" using assms by (simp add: cached_ok_def)
  then have "view_inv cx cv'" unfolding cv' by (rule put_entry_inv [OF assms(1)])
  moreover have "utxo cx cv' = (if out \<in> set (removedCoins (coins cv)) then utxo cx cv
      else (utxo cx cv)(out := if coin_value c > 0 then Some c else None))"
    using assms(2) by (auto simp: cv' utxo_def live_def fun_eq_iff split: option.split)
  ultimately show ?thesis by (simp add: ledger_of_def ledger_create_def cv')
qed

lemma spend_inputs_inv:
  "view_inv cx cv \<Longrightarrow> list_all (\<lambda>i. wf_point (previousOutput i)) is' \<Longrightarrow> spend_inputs cx is' amount cv = Some (t, cv') \<Longrightarrow>
   view_inv cx cv' \<and> spend_all is' amount (ledger_of cx cv) = Some (t, ledger_of cx cv')"
proof (induction is' arbitrary: amount cv)
  case (Cons i is')
  let ?p = "previousOutput i"
  obtain c cv1 s where c: "fetchCoin cx ?p cv = Some (Some c, cv1)" "coin_value c > 0" "int64 (amount + coin_value c) = Some s"
    and rest: "spend_inputs cx is' s (removeCoin ?p cv1) = Some (t, cv')"
    using Cons.prems(3) by (auto split: bind_splits if_splits)
  have p: "wf_point ?p" using Cons.prems(2) by simp
  note f = fetchCoin_inv [OF Cons.prems(1) p c(1)]
  then have cv1: "view_inv cx cv1" by simp
  note r = removeCoin_inv [OF cv1 p]
  have "unspent (ledger_of cx cv) ?p = Some c" using f c(2) by (simp add: ledger_of_def told_def)
  moreover have "view_inv cx cv' \<and> spend_all is' s (ledger_of cx (removeCoin ?p cv1)) = Some (t, ledger_of cx cv')"
    using r rest Cons.prems(2) by (intro Cons.IH) simp_all
  ultimately show ?case using c(3) r f by simp
qed simp

lemma add_outputs_inv:
  "view_inv cx cv \<Longrightarrow> list_all wf_output os' \<Longrightarrow> length h = 32 \<Longrightarrow> 0 \<le> ht \<Longrightarrow> ht < 2 ^ 31 \<Longrightarrow>
   add_outputs h ht cb i os' amount cv = Some (t, cv') \<Longrightarrow>
   view_inv cx cv' \<and> create_all h ht cb i os' amount (ledger_of cx cv) = Some (t, ledger_of cx cv')"
proof (induction os' arbitrary: i amount cv)
  case (Cons o' os')
  let ?p = "\<lparr>op_hash = h, op_index = of_nat i :: u32\<rparr>" and ?c = "\<lparr>coin_output = o', coin_height = ht, coin_isCoinBase = cb\<rparr>"
  obtain s cv1 where c: "int64 (amount + valueOf o') = Some s" "addCoin ?p ?c cv = Some cv1"
    and rest: "add_outputs h ht cb (Suc i) os' s cv1 = Some (t, cv')"
    using Cons.prems(6) by (auto split: bind_splits)
  have "wf_point ?p" "wf_coin ?c" using Cons.prems by (simp_all add: wf_point_def wf_coin_def)
  note a = addCoin_inv [OF Cons.prems(1) this c(2)]
  have "view_inv cx cv' \<and> create_all h ht cb (Suc i) os' s (ledger_of cx cv1) = Some (t, ledger_of cx cv')"
    using a rest Cons.prems by (intro Cons.IH) simp_all
  then show ?case using c(1) a by simp
qed simp

lemma transfer_inv:
  assumes "view_inv cx cv" "wf_transfer tx ht" "transfer cx tx ht cv = Some cv'"
  shows "view_inv cx cv' \<and> ledger_transfer tx ht (ledger_of cx cv) = Some (ledger_of cx cv')"
proof -
  let ?cb = "isCoinBase tx"
  obtain h s cv1 t where h: "getHash tx = Some h"
    and s: "(if ?cb then Some (0, cv) else spend_inputs cx (inputs tx) 0 cv) = Some (s, cv1)"
    and t: "add_outputs h ht ?cb 0 (outputs tx) 0 cv1 = Some (t, cv')" "?cb \<or> t \<le> s"
    using assms(3) unfolding transfer_def by (auto split: bind_splits prod.splits if_splits)
  have wf: "list_all (\<lambda>i. wf_point (previousOutput i)) (inputs tx)" "list_all wf_output (outputs tx)"
    "length h = 32" "0 \<le> ht" "ht < 2 ^ 31"
    using assms(2) h by (auto simp: wf_transfer_def getHash_def split: if_splits)
  have sp: "view_inv cx cv1 \<and> (if ?cb then Some (0, ledger_of cx cv) else spend_all (inputs tx) 0 (ledger_of cx cv)) = Some (s, ledger_of cx cv1)"
    using s spend_inputs_inv [OF assms(1) wf(1), of 0 s cv1] assms(1) by (cases ?cb) simp_all
  then have cr: "view_inv cx cv' \<and> create_all h ht ?cb 0 (outputs tx) 0 (ledger_of cx cv1) = Some (t, ledger_of cx cv')"
    using t(1) wf by (intro add_outputs_inv) simp_all
  show ?thesis using sp cr t(2) unfolding ledger_transfer_def h by simp
qed


lemma flush_inv:
  assumes kv: "key_value_store (store cx)" and st: "streams (db_in cx) (db_out cx)"
    and ok: "view_inv cx cv" and run: "view_flush cx cv = Some (b, cv')"
  shows "view_inv cx cv' \<and> ledger_of cx cv' = ledger_flush (ledger_of cx cv)"
proof -
  note w = flush_writes [OF kv st ok run]
  have ent: "map_of (addedCoins (coins cv)) out = Some e \<Longrightarrow> cached_ok cx cv out e" for out e by (rule view_invD(1) [OF ok])
  define d where "d = (\<lambda>out. if out \<in> set (removedCoins (coins cv)) then None
    else case utxo cx cv out of Some c \<Rightarrow> Some c | None \<Rightarrow> disk_coins cx (cv_db cv) out)"
  have d: "disk_coins cx (cv_db cv') out = d out" for out
  proof (cases "wf_point out")
    case True
    then show ?thesis using w ent [of out] by (auto simp: d_def disk_coins_def utxo_def cached_ok_def live_def split: option.split if_splits)
  next
    case False
    then show ?thesis by (simp add: d_def disk_coins_def utxo_def)
  qed
  have "utxo cx cv' out = disk_coins cx (cv_db cv') out" for out using w by (simp add: utxo_def disk_coins_def)
  then have "utxo cx cv' = d" "disk_coins cx (cv_db cv') = d" using d by (simp_all add: fun_eq_iff)
  then have "ledger_of cx cv' = ledger_flush (ledger_of cx cv)" using w by (simp add: ledger_of_def ledger_flush_def d_def Let_def cong: if_cong option.case_cong)
  then show ?thesis using w by (simp add: view_inv_def)
qed

lemma setBest_inv:
  assumes "view_inv cx cv"
  shows "view_inv cx (setBestBlockHash h ht cv)" "ledger_of cx (setBestBlockHash h ht cv) = ledger_of cx cv"
  using assms by (simp_all add: view_inv_def cached_ok_def ledger_of_def utxo_def fun_eq_iff setBestBlockHash_def split: option.split)

lemma view_step_inv:
  assumes "key_value_store (store cx)" "streams (db_in cx) (db_out cx)" "view_step cx cv ev cv'" "view_inv cx cv"
  shows "view_inv cx cv' \<and> event_spec ev (ledger_of cx cv) = Some (ledger_of cx cv')"
  using assms(3)
proof cases
  case (step_fetch out r)
  then show ?thesis using fetchCoin_inv [OF assms(4) step_fetch(3,2)] by (simp add: ledger_of_def)
next
  case (step_has out b)
  then obtain r where r: "fetchCoin cx out cv = Some (r, cv')" "b \<longleftrightarrow> told r \<noteq> None"
    by (auto simp: hasCoin_def told_def split: bind_splits option.splits)
  then show ?thesis using fetchCoin_inv [OF assms(4) step_has(3) r(1)] step_has(1) by (simp add: ledger_of_def)
next
  case (step_transfer tx ht)
  then show ?thesis using transfer_inv [OF assms(4)] by simp
next
  case (step_best h ht)
  then show ?thesis using setBest_inv [OF assms(4)] by simp
next
  case (step_flush b)
  then show ?thesis using flush_inv [OF assms(1,2,4)] by simp
qed

section \<open>Properties\<close>

text \<open>The concrete databases of the witnesses.\<close>

definition le_db :: "((bytes \<times> bytes) list, bytes \<times> bool) db_context" where
  "le_db = \<lparr>store = alist_leveldb, db_in = le_istream, db_out = le_ostream\<rparr>"

definition view0 :: "(bytes \<times> bytes) list CoinView" where
  "view0 = \<lparr>cv_db = ObjectDB_new True [], coins = CoinsData_new\<rparr>"

lemma le_db_simps [simp]: "store le_db = alist_leveldb" "db_in le_db = le_istream" "db_out le_db = le_ostream"
  by (simp_all add: le_db_def)

lemma empty_db_coin: "db_coin le_db (ObjectDB_new True []) out = None"
  by (simp add: db_coin_map odb_map_def odb_readString_def LevelDB_read_def ObjectDB_new_def alist_leveldb_def)

lemma view0_ok: "view_ok le_db view0"
  by (simp add: view_ok_def view0_def empty_db_coin CoinsData_new_def uint256_null_def) (simp add: wf_odb_def ObjectDB_new_def)

lemma utxo_view0: "utxo le_db view0 out = None"
  by (simp add: utxo_def view0_def empty_db_coin CoinsData_new_def)

lemma not_null [simp]: "replicate 32 x = uint256_null \<longleftrightarrow> x = 0"
  by (simp add: uint256_null_def)

definition coinbase_tx :: "u64 \<Rightarrow> Transaction" where
  "coinbase_tx v = \<lparr>tx_version = 1, inputs = [\<lparr>previousOutput = TransactionOutPoint_new, signatureScript = [], witness = [], sequence = 0\<rparr>],
     outputs = [\<lparr>out_value = v, scriptPublicKey = [0x51]\<rparr>], lockTime = 0, tx_hash = replicate 32 7\<rparr>"

lemma coinbase_ready: "tx_ready le_db view0 (coinbase_tx v) 0"
  by (simp add: tx_ready_def coinbase_tx_def TransactionOutPoint_new_def uint256_null_def wf_point_def wf_output_def utxo_view0)
    (simp add: view0_def CoinsData_new_def)

text \<open>a transfer either fails an assertion, exactly when the specification refuses it (a missing or
  doubly spent input, more created than spent, an overflow), or leaves exactly the map the
  specification gives.\<close>

theorem transfer_exact:
  assumes "view_ok cx cv" "tx_ready cx cv tx ht"
  shows "map_option (utxo cx) (transfer cx tx ht cv) = transfer_spec tx ht (utxo cx cv)"
  using transfer_ok [OF assms] by (auto split: option.splits)

theorem transfer_exact_witness:
  "map_option (utxo le_db) (transfer le_db (coinbase_tx 50) 0 view0) = transfer_spec (coinbase_tx 50) 0 (utxo le_db view0)"
  by (rule transfer_exact [OF view0_ok coinbase_ready])

lemma spend_spec_distinct:
  "spend_spec is' amount u = Some (t, u') \<Longrightarrow> distinct (map previousOutput is') \<and>
    (\<forall>i \<in> set is'. u (previousOutput i) \<noteq> None \<and> u' (previousOutput i) = None) \<and>
    t = amount + (\<Sum>i \<leftarrow> is'. coin_value (the (u (previousOutput i))))"
proof (induction is' arbitrary: amount u)
  case (Cons i is')
  let ?p = "previousOutput i" and ?u = "u(previousOutput i := None)"
  obtain c where c: "u ?p = Some c" "spend_spec is' (amount + coin_value c) ?u = Some (t, u')"
    using Cons.prems by (auto simp: int64_def split: bind_splits if_splits)
  note IH = Cons.IH [OF c(2)]
  then have fresh: "?p \<notin> previousOutput ` set is'" by auto
  then have "(\<Sum>i \<leftarrow> is'. coin_value (the (?u (previousOutput i)))) = (\<Sum>i \<leftarrow> is'. coin_value (the (u (previousOutput i))))"
    by (intro arg_cong [of _ _ sum_list] map_cong) (metis fun_upd_other imageI | simp)+
  moreover have "u' ?p = None" using spend_spec_sub [OF c(2)] by simp
  ultimately show ?case using IH fresh c(1) by (auto split: if_splits)
qed simp

lemma create_spec_sum: "create_spec h ht cb i os' amount u = Some (t, u') \<Longrightarrow> t = amount + (\<Sum>o' \<leftarrow> os'. valueOf o')"
proof (induction os' arbitrary: i amount u)
  case (Cons o' os')
  then show ?case by (fastforce simp: int64_def split: bind_splits if_splits)
qed simp

text \<open>C5: a transfer that succeeds spends each of its inputs once, spends only coins that were unspent,
  and the values of its outputs add up to no more than the coins it spends.\<close>

theorem transfer_conserves:
  assumes "view_ok cx cv" "tx_ready cx cv tx ht" "\<not> isCoinBase tx" "transfer cx tx ht cv = Some cv'"
  shows "distinct (map previousOutput (inputs tx)) \<and> (\<forall>i \<in> set (inputs tx). utxo cx cv (previousOutput i) \<noteq> None) \<and>
    (\<Sum>o' \<leftarrow> outputs tx. valueOf o') \<le> (\<Sum>i \<leftarrow> inputs tx. coin_value (the (utxo cx cv (previousOutput i))))"
proof -
  obtain t u t' u' where "spend_spec (inputs tx) 0 (utxo cx cv) = Some (t, u)"
    "create_spec (tx_hash tx) ht False 0 (outputs tx) 0 u = Some (t', u')" "t' \<le> t"
    using transfer_ok [OF assms(1,2)] assms(3,4)
    by (auto simp: transfer_spec_def getHash_def split: option.splits bind_splits if_splits)
  then show ?thesis using spend_spec_distinct [of "inputs tx" 0 "utxo cx cv" t u] create_spec_sum [of "tx_hash tx" ht False 0 "outputs tx" 0 u t' u']
    by simp
qed

text \<open>A view with one coin, worth 50, and the transactions that spend it.\<close>

definition point1 :: TransactionOutPoint where
  "point1 = \<lparr>op_hash = replicate 32 7, op_index = 0\<rparr>"

definition view1 :: "(bytes \<times> bytes) list CoinView" where
  "view1 = put_entry point1 \<lparr>entry_coin = \<lparr>coin_output = \<lparr>out_value = 50, scriptPublicKey = [0x51]\<rparr>, coin_height = 0, coin_isCoinBase = True\<rparr>, dirty = True\<rparr> view0"

definition spend_tx :: "u64 list \<Rightarrow> Transaction" where
  "spend_tx vs = \<lparr>tx_version = 1, inputs = [\<lparr>previousOutput = point1, signatureScript = [], witness = [], sequence = 0\<rparr>],
     outputs = map (\<lambda>v. \<lparr>out_value = v, scriptPublicKey = [0x51]\<rparr>) vs, lockTime = 0, tx_hash = replicate 32 8\<rparr>"

lemma view1_ok: "view_ok le_db view1"
  unfolding view1_def
  by (rule put_entry_ok [OF view0_ok])
    (simp add: entry_ok_def wf_point_def point1_def wf_coin_def wf_output_def coin_value_def valueOf_def, simp add: view0_def CoinsData_new_def)

lemma utxo_view1:
  "utxo le_db view1 = (\<lambda>_. None)(point1 \<mapsto> \<lparr>coin_output = \<lparr>out_value = 50, scriptPublicKey = [0x51]\<rparr>, coin_height = 0, coin_isCoinBase = True\<rparr>)"
  unfolding view1_def
  by (simp add: fun_eq_iff utxo_def point1_def wf_point_def live_def coin_value_def valueOf_def)
    (simp add: view0_def CoinsData_new_def empty_db_coin)

lemma spend_ready: "length vs \<le> 2 ^ 32 \<Longrightarrow> tx_ready le_db view1 (spend_tx vs) 0"
  by (simp add: tx_ready_def spend_tx_def utxo_view1 point1_def wf_point_def wf_output_def list_all_iff)
    (simp add: view1_def view0_def CoinsData_new_def)

lemma spend_not_coinbase: "\<not> isCoinBase (spend_tx vs)"
  by (simp add: isCoinBase_def spend_tx_def point1_def)

theorem transfer_conserves_witness:
  "\<exists>cv'. transfer le_db (spend_tx [30, 20]) 0 view1 = Some cv' \<and>
    (\<Sum>o' \<leftarrow> outputs (spend_tx [30, 20]). valueOf o') \<le> (\<Sum>i \<leftarrow> inputs (spend_tx [30, 20]). coin_value (the (utxo le_db view1 (previousOutput i))))"
proof -
  have "transfer_spec (spend_tx [30, 20]) 0 (utxo le_db view1) \<noteq> None"
    using spend_not_coinbase [of "[30, 20]"] unfolding transfer_spec_def utxo_view1
    by (simp add: getHash_def) (simp add: spend_tx_def int64_def in64_def valueOf_def coin_value_def)
  then obtain cv' where cv': "transfer le_db (spend_tx [30, 20]) 0 view1 = Some cv'"
    using transfer_ok [OF view1_ok spend_ready, of "[30, 20]"] by (auto split: option.splits)
  then show ?thesis using transfer_conserves [OF view1_ok spend_ready spend_not_coinbase cv'] by simp
qed

text \<open>C39: nothing bounds the value of a single output from below: a transaction that spends one coin may
  create an output of any larger value as long as a negative second output makes up the difference.\<close>

theorem negative_output_inflates:
  assumes "view_ok cx cv" "tx_ready cx cv tx ht" "\<not> isCoinBase tx" "tx_hash tx \<noteq> uint256_null"
    and "inputs tx = [i]" "utxo cx cv (previousOutput i) = Some c" "in64 (coin_value c)"
    and "outputs tx = [a, b]" "0 < valueOf a" "in64 (valueOf a)" "valueOf b < 0" "in64 (valueOf a + valueOf b)"
    and "valueOf a + valueOf b \<le> coin_value c"
  shows "\<exists>cv'. transfer cx tx ht cv = Some cv' \<and>
    utxo cx cv' \<lparr>op_hash = tx_hash tx, op_index = 0\<rparr> =
      Some \<lparr>coin_output = a, coin_height = ht, coin_isCoinBase = False\<rparr>"
proof -
  have "transfer_spec tx ht (utxo cx cv) = Some ((utxo cx cv)(previousOutput i := None,
      \<lparr>op_hash = tx_hash tx, op_index = 0\<rparr> \<mapsto> \<lparr>coin_output = a, coin_height = ht, coin_isCoinBase = False\<rparr>,
      \<lparr>op_hash = tx_hash tx, op_index = 1\<rparr> := None))"
    using assms(3-13) by (simp add: transfer_spec_def getHash_def int64_def)
  then show ?thesis using transfer_ok [OF assms(1,2)] by auto
qed

theorem negative_output_inflates_witness:
  "\<exists>cv'. transfer le_db (spend_tx [1000, - 950]) 0 view1 = Some cv' \<and>
    utxo le_db cv' \<lparr>op_hash = replicate 32 8, op_index = 0\<rparr> =
      Some \<lparr>coin_output = \<lparr>out_value = 1000, scriptPublicKey = [0x51]\<rparr>, coin_height = 0, coin_isCoinBase = False\<rparr>"
  using negative_output_inflates [OF view1_ok spend_ready spend_not_coinbase, of "[1000, - 950]"]
  by (simp add: spend_tx_def utxo_view1 coin_value_def valueOf_def in64_def)

lemma ledger_view0: "ledger_of le_db view0 = \<lparr>on_file = (\<lambda>_. None), unspent = (\<lambda>_. None), gone = {}\<rparr>"
  by (simp add: ledger_of_def fun_eq_iff utxo_view0 disk_coins_def) (simp add: view0_def CoinsData_new_def empty_db_coin)

text \<open>C1: through any run of lookups, transfers, changes of the best block and flushes in which no
  assertion fails, the cache and the database behave as a ledger with three parts: the coins on disk, the
  unspent coins, and the outpoints spent since the last flush. A lookup answers from the unspent coins and
  changes nothing. A transfer spends its inputs, which have to be unspent, and creates its outputs, except that an outpoint spent
  since the last flush is not created again: its new coin is lost. A flush puts the unspent coins on disk and takes the
  spent ones off it; a coin on disk hidden by an output without value shows again. The run may create any
  outpoints, at any height and over any best block; hashes are 32 bytes, scripts at most 50000 bytes and heights in
  [0, 2^31).\<close>

theorem coin_view_refines:
  assumes "key_value_store (store cx)" "streams (db_in cx) (db_out cx)" "view_run cx cv evs cv'" "view_inv cx cv"
  shows "view_inv cx cv' \<and> run_spec evs (ledger_of cx cv) = Some (ledger_of cx cv')"
  using assms(3)
proof (induction rule: view_run.induct)
  case run_start
  then show ?case using assms(4) by (simp add: run_spec_def)
next
  case (run_step evs cv1 ev cv2)
  then show ?case using view_step_inv [OF assms(1,2) run_step.hyps(2)] by (simp add: run_spec_def)
qed

text \<open>A run that creates a coin, spends it and creates it again: the coin is lost.\<close>

definition recreate :: "view_event list" where
  "recreate = [Transfer (coinbase_tx 50) 0, Transfer (spend_tx [50]) 0, Transfer (coinbase_tx 50) 0]"

lemma recreate_runs: "\<exists>cv. view_run le_db view0 recreate cv"
proof -
  have wf: "wf_transfer (coinbase_tx 50) 0" "wf_transfer (spend_tx [50]) 0"
    by (simp_all add: wf_transfer_def coinbase_tx_def spend_tx_def point1_def TransactionOutPoint_new_def uint256_null_def wf_point_def wf_output_def)
  have again: "\<exists>cv'. transfer le_db (coinbase_tx 50) 0 cv = Some cv'" if "0 \<le> bestBlockHeight (coins cv)" for cv :: "(bytes \<times> bytes) list CoinView"
    using that by (simp add: transfer_def coinbase_tx_def getHash_def isCoinBase_def TransactionOutPoint_new_def
        int64_def in64_def valueOf_def addCoin_def)
  have one: "transfer le_db (coinbase_tx 50) 0 view0 = Some view1"
    by (simp add: transfer_def coinbase_tx_def getHash_def isCoinBase_def TransactionOutPoint_new_def
        int64_def in64_def valueOf_def addCoin_def view1_def point1_def) (simp add: view0_def CoinsData_new_def)
  have "transfer_spec (spend_tx [50]) 0 (utxo le_db view1) \<noteq> None"
    using spend_not_coinbase [of "[50]"] unfolding transfer_spec_def utxo_view1
    by (simp add: getHash_def) (simp add: spend_tx_def int64_def in64_def valueOf_def coin_value_def)
  then obtain cv2 where two: "transfer le_db (spend_tx [50]) 0 view1 = Some cv2" "bestBlockHeight (coins cv2) = bestBlockHeight (coins view1)"
    using transfer_shows [OF view1_ok spend_ready, of "[50]"] by (auto simp: shows_map_def split: option.splits)
  then have "0 \<le> bestBlockHeight (coins cv2)" by (simp add: view1_def) (simp add: view0_def CoinsData_new_def)
  then obtain cv3 where three: "transfer le_db (coinbase_tx 50) 0 cv2 = Some cv3" using again by blast
  have "view_run le_db view0 ((([] @ [Transfer (coinbase_tx 50) 0]) @ [Transfer (spend_tx [50]) 0]) @ [Transfer (coinbase_tx 50) 0]) cv3"
    using view_run.run_start view_step.step_transfer [OF one wf(1)] view_step.step_transfer [OF two(1) wf(2)]
      view_step.step_transfer [OF three wf(1)] by (blast intro: view_run.run_step)
  then show ?thesis by (auto simp: recreate_def)
qed

theorem coin_view_refines_witness:
  "\<exists>cv'. view_run le_db view0 recreate cv' \<and> run_spec recreate (ledger_of le_db view0) = Some (ledger_of le_db cv') \<and>
    utxo le_db cv' point1 = None"
proof -
  obtain cv' where run: "view_run le_db view0 recreate cv'" using recreate_runs by blast
  then have spec: "run_spec recreate (ledger_of le_db view0) = Some (ledger_of le_db cv')"
    using coin_view_refines [OF _ _ run view_ok_inv [OF view0_ok]] by (simp add: als.key_value_store_axioms les.streams_axioms)
  have "map_option (\<lambda>l. unspent l point1) (run_spec recreate (ledger_of le_db view0)) = Some None"
    by (simp add: ledger_view0 run_spec_def recreate_def ledger_transfer_def coinbase_tx_def spend_tx_def point1_def getHash_def isCoinBase_def
        TransactionOutPoint_new_def int64_def in64_def valueOf_def coin_value_def ledger_spend_def ledger_create_def)
  then show ?thesis using run spec by (auto simp: ledger_of_def)
qed

text \<open>a coin that is created again after it was spent, before a flush, is lost: it stays invisible,
  and the flush erases it.\<close>

theorem recreated_coin_lost:
  assumes "key_value_store (store cx)" "streams (db_in cx) (db_out cx)" "view_ok cx cv" "out \<in> set (removedCoins (coins cv))"
    and "addCoin out c cv = Some cv1" "wf_coin c"
  shows "utxo cx cv1 out = None \<and>
    (\<forall>b cv2. view_flush cx cv1 = Some (b, cv2) \<longrightarrow> utxo cx cv2 out = None)"
proof -
  have cv1: "cv1 = put_entry out \<lparr>entry_coin = c, dirty = True\<rparr> cv" "coin_height c \<le> bestBlockHeight (coins cv)"
    using assms(5) by (auto simp: addCoin_def split: if_splits)
  have "entry_ok cx cv out \<lparr>entry_coin = c, dirty = True\<rparr>"
    using assms(4,6) cv1(2) view_okD(6) [OF assms(3)] by (simp add: entry_ok_def)
  then have "view_ok cx cv1" using put_entry_ok [OF assms(3)] cv1(1) by simp
  moreover have "utxo cx cv1 out = None" using assms(4) cv1(1) by (simp add: utxo_def)
  ultimately show ?thesis using flush_ok [OF assms(1,2), of cv1] by auto
qed

theorem recreated_coin_lost_witness:
  "\<exists>cv1. addCoin point1 Coin_new (removeCoin point1 view0) = Some cv1 \<and> utxo le_db cv1 point1 = None"
proof -
  have wf: "wf_point point1" by (simp add: wf_point_def point1_def)
  obtain cv1 where cv1: "addCoin point1 Coin_new (removeCoin point1 view0) = Some cv1"
    by (simp add: addCoin_def Coin_new_def) (simp add: view0_def CoinsData_new_def)
  have "wf_coin Coin_new" by (simp add: wf_coin_def Coin_new_def wf_output_def TransactionOutput_new_def)
  then have "utxo le_db cv1 point1 = None"
    using recreated_coin_lost [OF _ _ removeCoin_ok(1) [OF view0_ok wf] _ cv1] by (simp add: als.key_value_store_axioms les.streams_axioms)
  then show ?thesis using cv1 by blast
qed

end
