(* ===== verification/BlockData.thy ===== *)
theory BlockData
  imports TxData
begin

text \<open>
  \<open>data/Block.hpp\<close> and \<open>data/Block.cpp\<close>: block headers, blocks, the entries of the block index with
  their status flags, the block file records, their wire and disk formats, and the walk to an
  ancestor through skip pointers. The entries of the index live in a heap of objects, and a pointer
  is a reference into it, with \<open>None\<close> for the null pointer.
\<close>

section \<open>Data\<close>

definition BLOCK_VALID_UNKNOWN :: u32 where "BLOCK_VALID_UNKNOWN = 0"
definition BLOCK_VALID_HEADER :: u32 where "BLOCK_VALID_HEADER = 1"
definition BLOCK_VALID_TREE :: u32 where "BLOCK_VALID_TREE = 2"
definition BLOCK_VALID_TRANSACTIONS :: u32 where "BLOCK_VALID_TRANSACTIONS = 3"
definition BLOCK_VALID_CHAIN :: u32 where "BLOCK_VALID_CHAIN = 4"
definition BLOCK_VALID_SCRIPTS :: u32 where "BLOCK_VALID_SCRIPTS = 5"
definition BLOCK_HAVE_DATA :: u32 where "BLOCK_HAVE_DATA = 8"
definition BLOCK_HAVE_UNDO :: u32 where "BLOCK_HAVE_UNDO = 16"
definition BLOCK_FAILED_VALID :: u32 where "BLOCK_FAILED_VALID = 32"
definition BLOCK_FAILED_CHILD :: u32 where "BLOCK_FAILED_CHILD = 64"

definition BLOCK_VALID_MASK :: u32 where
  "BLOCK_VALID_MASK = BLOCK_VALID_HEADER OR BLOCK_VALID_TREE OR BLOCK_VALID_TRANSACTIONS OR
     BLOCK_VALID_CHAIN OR BLOCK_VALID_SCRIPTS"

definition BLOCK_FAILED_MASK :: u32 where
  "BLOCK_FAILED_MASK = BLOCK_FAILED_VALID OR BLOCK_FAILED_CHILD"

record DiskBlockPos =
  pos_fileIndex :: int
  position :: u32

record BlockHeader =
  version :: u32
  previousBlockHash :: uint256
  merkleRootHash :: uint256
  timestamp :: u32
  bits :: u32
  nonce :: u32
  hash :: uint256

record BlockFileInfo =
  info_fileIndex :: int
  blocks :: u32
  info_size :: u32
  undoSize :: u32
  minHeight :: u32
  maxHeight :: u32
  minTime :: u64
  maxTime :: u64

type_synonym bref = nat

record BlockIndex =
  header :: BlockHeader
  height :: int
  status :: u32
  transactionCount :: u32
  fileIndex :: int
  dataPosition :: u32
  undoPosition :: u32
  chainWork :: uint256
  chainTransactionCount :: u32
  sequenceId :: int
  bi_maxTime :: u32
  previous :: "bref option"
  skip :: "bref option"

record Block =
  blk_header :: BlockHeader
  transactions :: "Transaction list"

definition BlockHeader_new :: BlockHeader where
  "BlockHeader_new = \<lparr>version = 0, previousBlockHash = uint256_null, merkleRootHash = uint256_null,
     timestamp = 0, bits = 0, nonce = 0, hash = uint256_null\<rparr>"

definition BlockFileInfo_new :: BlockFileInfo where
  "BlockFileInfo_new = \<lparr>info_fileIndex = 0, blocks = 0, info_size = 0, undoSize = 0, minHeight = 0, maxHeight = 0,
     minTime = 0, maxTime = 0\<rparr>"

definition BlockIndex_new :: BlockIndex where
  "BlockIndex_new = \<lparr>header = BlockHeader_new, height = 0, status = 0, transactionCount = 0, fileIndex = 0,
     dataPosition = 0, undoPosition = 0, chainWork = uint256_null, chainTransactionCount = 0,
     sequenceId = 0, bi_maxTime = 0, previous = None, skip = None\<rparr>"

definition createBlockIndex :: "BlockHeader \<Rightarrow> BlockIndex" where
  "createBlockIndex h = BlockIndex_new\<lparr>header := h\<rparr>"

definition block_createBlockIndex :: "Block \<Rightarrow> BlockIndex" where
  "block_createBlockIndex b = BlockIndex_new\<lparr>header := blk_header b\<rparr>"

definition setDiskPosition :: "DiskBlockPos \<Rightarrow> BlockIndex \<Rightarrow> BlockIndex" where
  "setDiskPosition p b = b\<lparr>fileIndex := pos_fileIndex p, dataPosition := position p + 8, undoPosition := 0\<rparr>"

definition isNull_pos :: "DiskBlockPos \<Rightarrow> bool" where
  "isNull_pos p \<longleftrightarrow> pos_fileIndex p = -1"

definition index_getHash :: "BlockIndex \<Rightarrow> uint256 option" where
  "index_getHash b = do { assert_that (hash (header b) \<noteq> uint256_null); Some (hash (header b)) }"

text \<open>\<open>BlockFileInfo::addBlock\<close>; \<open>XUL_LIMIT_MAX\<close> and \<open>XUL_LIMIT_MIN\<close> lower and raise a variable to a bound.\<close>

definition info_addBlock :: "u32 \<Rightarrow> u64 \<Rightarrow> BlockFileInfo \<Rightarrow> BlockFileInfo option" where
  "info_addBlock h t i =
     (if blocks i = 0
      then do {
        assert_that (minHeight i = 0 \<and> maxHeight i = 0 \<and> minTime i = 0 \<and> maxTime i = 0);
        Some (i\<lparr>minHeight := h, maxHeight := h, minTime := t, maxTime := t, blocks := blocks i + 1\<rparr>)
      }
      else Some (i\<lparr>minHeight := min (minHeight i) h, maxHeight := max (maxHeight i) h,
                  minTime := min (minTime i) t, maxTime := max (maxTime i) t, blocks := blocks i + 1\<rparr>))"

section \<open>Status flags\<close>

definition isValid :: "u32 \<Rightarrow> BlockIndex \<Rightarrow> bool option" where
  "isValid upTo b = do {
     assert_that (upTo AND NOT BLOCK_VALID_MASK = 0);
     Some (if status b AND BLOCK_FAILED_MASK \<noteq> 0 then False
           else status b AND BLOCK_VALID_MASK \<ge> upTo)
   }"

definition raiseValidity :: "u32 \<Rightarrow> BlockIndex \<Rightarrow> (bool \<times> BlockIndex) option" where
  "raiseValidity upTo b = do {
     assert_that (upTo AND NOT BLOCK_VALID_MASK = 0);
     Some (if status b AND BLOCK_FAILED_MASK \<noteq> 0 then (False, b)
           else if status b AND BLOCK_VALID_MASK < upTo
           then (True, b\<lparr>status := (status b AND NOT BLOCK_VALID_MASK) OR upTo\<rparr>)
           else (False, b))
   }"

section \<open>Formats\<close>

definition read_header :: "'s istream \<Rightarrow> ('s, BlockHeader) reader" where
  "read_header ist h s =
     (let (v, s) = into (rd32 ist) (version h) s;
          (p, s) = into (rd_bn ist) (previousBlockHash h) s;
          (m, s) = into (rd_bn ist) (merkleRootHash h) s;
          (t, s) = into (rd32 ist) (timestamp h) s;
          (b, s) = into (rd32 ist) (bits h) s;
          (n, s) = into (rd32 ist) (nonce h) s
      in (h\<lparr>version := v, previousBlockHash := p, merkleRootHash := m, timestamp := t, bits := b, nonce := n\<rparr>, s))"

definition write_header :: "ostream \<Rightarrow> BlockHeader \<Rightarrow> bytes" where
  "write_header os h = wr32 os (version h) @ wr_bn os (previousBlockHash h) @ wr_bn os (merkleRootHash h) @
     wr32 os (timestamp h) @ wr32 os (bits h) @ wr32 os (nonce h)"

definition computeHash :: "digests \<Rightarrow> ostream \<Rightarrow> BlockHeader \<Rightarrow> BlockHeader" where
  "computeHash dg os h = h\<lparr>hash := hash256 dg (write_header os h)\<rparr>"

definition read_block :: "'s istream \<Rightarrow> ('s, Block) reader" where
  "read_block ist b s =
     (let (h, s) = read_header ist (blk_header b) s;
          (t, s) = readVector ist (read_tx ist) Transaction_new 50000 (transactions b) s
      in (\<lparr>blk_header = h, transactions = t\<rparr>, s))"

definition write_block :: "ostream \<Rightarrow> Block \<Rightarrow> bytes" where
  "write_block os b = write_header os (blk_header b) @ writeVector os (write_tx os) (transactions b)"

text \<open>\<open>makeVarReader\<close> and \<open>makeVarWriter\<close> at the integer types the records use.\<close>

definition INT_MAX :: nat where "INT_MAX = 2 ^ 31 - 1"
definition UINT32_MAX :: nat where "UINT32_MAX = 2 ^ 32 - 1"
definition UINT64_MAX :: nat where "UINT64_MAX = 2 ^ 64 - 1"

definition read_var_int :: "'s istream \<Rightarrow> ('s, int) reader" where
  "read_var_int ist old s = (case readInteger INT_MAX ist s of (Some v, s) \<Rightarrow> (int v, s) | (None, s) \<Rightarrow> (old, s))"

definition read_var32 :: "'s istream \<Rightarrow> ('s, u32) reader" where
  "read_var32 ist old s = (case readInteger UINT32_MAX ist s of (Some v, s) \<Rightarrow> (of_nat v, s) | (None, s) \<Rightarrow> (old, s))"

definition read_var64 :: "'s istream \<Rightarrow> ('s, u64) reader" where
  "read_var64 ist old s = (case readInteger UINT64_MAX ist s of (Some v, s) \<Rightarrow> (of_nat v, s) | (None, s) \<Rightarrow> (old, s))"

definition CLIENT_VERSION :: int where "CLIENT_VERSION = 169900"

definition read_index :: "'s istream \<Rightarrow> ('s, BlockIndex) reader" where
  "read_index ist b s =
     (let (_, s) = read_var_int ist CLIENT_VERSION s;
          (h, s) = read_var_int ist (height b) s;
          (st, s) = read_var32 ist (status b) s;
          (tc, s) = read_var32 ist (transactionCount b) s;
          (f, s) = (if st AND (BLOCK_HAVE_DATA OR BLOCK_HAVE_UNDO) \<noteq> 0 then read_var_int ist (fileIndex b) s
                    else (fileIndex b, s));
          (d, s) = (if st AND BLOCK_HAVE_DATA \<noteq> 0 then read_var32 ist (dataPosition b) s else (dataPosition b, s));
          (u, s) = (if st AND BLOCK_HAVE_UNDO \<noteq> 0 then read_var32 ist (undoPosition b) s else (undoPosition b, s));
          (hd, s) = read_header ist (header b) s
      in (b\<lparr>height := h, status := st, transactionCount := tc, fileIndex := f, dataPosition := d,
            undoPosition := u, header := hd\<rparr>, s))"

definition write_index :: "ostream \<Rightarrow> BlockIndex \<Rightarrow> bytes option" where
  "write_index os b = do {
     v \<leftarrow> writeInteger 4 CLIENT_VERSION;
     h \<leftarrow> writeInteger 4 (height b);
     st \<leftarrow> writeInteger 4 (uint (status b));
     tc \<leftarrow> writeInteger 4 (uint (transactionCount b));
     f \<leftarrow> (if status b AND (BLOCK_HAVE_DATA OR BLOCK_HAVE_UNDO) \<noteq> 0 then writeInteger 4 (fileIndex b) else Some []);
     d \<leftarrow> (if status b AND BLOCK_HAVE_DATA \<noteq> 0 then writeInteger 4 (uint (dataPosition b)) else Some []);
     u \<leftarrow> (if status b AND BLOCK_HAVE_UNDO \<noteq> 0 then writeInteger 4 (uint (undoPosition b)) else Some []);
     Some (v @ h @ st @ tc @ f @ d @ u @ write_header os (header b))
   }"

definition read_file_info :: "'s istream \<Rightarrow> ('s, BlockFileInfo) reader" where
  "read_file_info ist i s =
     (let (b, s) = read_var32 ist (blocks i) s;
          (z, s) = read_var32 ist (info_size i) s;
          (u, s) = read_var32 ist (undoSize i) s;
          (h0, s) = read_var32 ist (minHeight i) s;
          (h1, s) = read_var32 ist (maxHeight i) s;
          (t0, s) = read_var64 ist (minTime i) s;
          (t1, s) = read_var64 ist (maxTime i) s
      in (i\<lparr>blocks := b, info_size := z, undoSize := u, minHeight := h0, maxHeight := h1, minTime := t0, maxTime := t1\<rparr>, s))"

definition write_file_info :: "BlockFileInfo \<Rightarrow> bytes option" where
  "write_file_info i = do {
     b \<leftarrow> writeInteger 4 (uint (blocks i));
     z \<leftarrow> writeInteger 4 (uint (info_size i));
     u \<leftarrow> writeInteger 4 (uint (undoSize i));
     h0 \<leftarrow> writeInteger 4 (uint (minHeight i));
     h1 \<leftarrow> writeInteger 4 (uint (maxHeight i));
     t0 \<leftarrow> writeInteger 8 (uint (minTime i));
     t1 \<leftarrow> writeInteger 8 (uint (maxTime i));
     Some (b @ z @ u @ h0 @ h1 @ t0 @ t1)
   }"

section \<open>Ancestors\<close>

definition invertLowestOne :: "int \<Rightarrow> int" where
  "invertLowestOne n = n AND (n - 1)"

definition getSkipHeight :: "int \<Rightarrow> int" where
  "getSkipHeight h =
     (if h < 2 then 0
      else if h AND 1 \<noteq> 0 then invertLowestOne (invertLowestOne (h - 1)) + 1 else invertLowestOne h)"

lemma invertLowestOne_bounds: "0 < n \<Longrightarrow> 0 \<le> invertLowestOne n \<and> invertLowestOne n < n"
  using AND_upper2 [of "n - 1" n] by (simp add: invertLowestOne_def AND_lower)

lemma getSkipHeight_bounds: "0 < h \<Longrightarrow> 0 \<le> getSkipHeight h \<and> getSkipHeight h < h"
proof -
  assume h: "0 < h"
  consider "h < 2" | "2 \<le> h" "h AND 1 = 0" | "2 \<le> h" "h AND 1 \<noteq> 0" by linarith
  then show ?thesis
  proof cases
    case 3
    have i: "0 \<le> invertLowestOne (h - 1)" "invertLowestOne (h - 1) < h - 1"
      using invertLowestOne_bounds [of "h - 1"] 3 by simp_all
    then show ?thesis using 3 invertLowestOne_bounds [of "invertLowestOne (h - 1)"]
      by (cases "invertLowestOne (h - 1) = 0") (auto simp: getSkipHeight_def invertLowestOne_def [of 0])
  qed (use h invertLowestOne_bounds [of h] in \<open>simp_all add: getSkipHeight_def\<close>)
qed

type_synonym index_heap = "bref \<Rightarrow> BlockIndex"

text \<open>The loop of \<open>getAncestor\<close>, with \<open>heightWalk\<close> and \<open>pindexWalk\<close>; its caller has returned for a
  negative \<open>destHeight\<close>. \<open>None\<close> is the failed assertion on \<open>previous\<close>.\<close>

function ancestor_loop :: "index_heap \<Rightarrow> int \<Rightarrow> int \<Rightarrow> bref \<Rightarrow> bref option" where
  "ancestor_loop H destHeight heightWalk p =
     (if 0 \<le> destHeight \<and> heightWalk > destHeight then
        (let heightSkip = getSkipHeight heightWalk;
             heightSkipPrev = getSkipHeight (heightWalk - 1)
         in case skip (H p) of
              Some k \<Rightarrow>
                if heightSkip = destHeight \<or>
                   (heightSkip > destHeight \<and> \<not> (heightSkipPrev < heightSkip - 2 \<and> heightSkipPrev \<ge> destHeight))
                then ancestor_loop H destHeight heightSkip k
                else (case previous (H p) of None \<Rightarrow> None | Some q \<Rightarrow> ancestor_loop H destHeight (heightWalk - 1) q)
            | None \<Rightarrow> (case previous (H p) of None \<Rightarrow> None | Some q \<Rightarrow> ancestor_loop H destHeight (heightWalk - 1) q))
      else Some p)"
  by pat_completeness auto
termination
  by (relation "measure (\<lambda>(H, d, h, p). nat h)") (use getSkipHeight_bounds in \<open>force+\<close>)

declare ancestor_loop.simps [simp del]

text \<open>The outer \<open>None\<close> is a failed assertion, the inner one the null pointer.\<close>

definition getAncestor :: "index_heap \<Rightarrow> bref \<Rightarrow> int \<Rightarrow> bref option option" where
  "getAncestor H p destHeight =
     (if destHeight > height (H p) \<or> destHeight < 0 then Some None
      else map_option Some (ancestor_loop H destHeight (height (H p)) p))"

definition buildSkip :: "index_heap \<Rightarrow> bref \<Rightarrow> index_heap option" where
  "buildSkip H p =
     (case previous (H p) of
        None \<Rightarrow> Some H
      | Some q \<Rightarrow> (case getAncestor H q (getSkipHeight (height (H p))) of
                   None \<Rightarrow> None | Some a \<Rightarrow> Some (H(p := H p\<lparr>skip := a\<rparr>))))"

section \<open>The tree of entries\<close>

text \<open>The specification of an ancestor: \<open>n\<close> steps along \<open>previous\<close>.\<close>

primrec parent_walk :: "index_heap \<Rightarrow> nat \<Rightarrow> bref \<Rightarrow> bref option" where
  "parent_walk H 0 p = Some p"
| "parent_walk H (Suc n) p = (case previous (H p) of None \<Rightarrow> None | Some q \<Rightarrow> parent_walk H n q)"

text \<open>Heights count the steps to a root, and a skip pointer is the ancestor at the skip height.\<close>

definition tree_ok :: "index_heap \<Rightarrow> bref set \<Rightarrow> bool" where
  "tree_ok H R \<longleftrightarrow> (\<forall>p \<in> R. 0 \<le> height (H p) \<and> (height (H p) = 0 \<longrightarrow> previous (H p) = None) \<and>
     (0 < height (H p) \<longrightarrow> (\<exists>q \<in> R. previous (H p) = Some q \<and> height (H q) = height (H p) - 1)) \<and>
     (\<forall>k. skip (H p) = Some k \<longrightarrow>
        0 < height (H p) \<and> parent_walk H (nat (height (H p) - getSkipHeight (height (H p)))) p = Some k))"

lemma tree_okD:
  assumes "tree_ok H R" "p \<in> R"
  shows "0 \<le> height (H p)" "height (H p) = 0 \<Longrightarrow> previous (H p) = None"
    and "0 < height (H p) \<Longrightarrow> \<exists>q \<in> R. previous (H p) = Some q \<and> height (H q) = height (H p) - 1"
    and "skip (H p) = Some k \<Longrightarrow>
      0 < height (H p) \<and> parent_walk H (nat (height (H p) - getSkipHeight (height (H p)))) p = Some k"
  using assms by (auto simp: tree_ok_def)

lemma parent_walk_add: "parent_walk H (m + n) p = Option.bind (parent_walk H m p) (parent_walk H n)"
  by (induction m arbitrary: p) (simp_all split: option.split)

lemma parent_walk_ok:
  assumes "tree_ok H R"
  shows "p \<in> R \<Longrightarrow> int n \<le> height (H p) \<Longrightarrow> \<exists>q \<in> R. parent_walk H n p = Some q \<and> height (H q) = height (H p) - int n"
proof (induction n arbitrary: p)
  case (Suc n)
  then obtain q where q: "q \<in> R" "previous (H p) = Some q" "height (H q) = height (H p) - 1"
    using tree_okD(3) [OF assms Suc.prems(1)] by auto
  then show ?case using Suc.IH [of q] Suc.prems by auto
qed simp

lemma ancestor_loop_walk:
  assumes "tree_ok H R"
  shows "p \<in> R \<Longrightarrow> h = height (H p) \<Longrightarrow> 0 \<le> d \<Longrightarrow> d \<le> h \<Longrightarrow> ancestor_loop H d h p = parent_walk H (nat (h - d)) p"
proof (induction "nat h" arbitrary: h p rule: less_induct)
  case less
  show ?case
  proof (cases "h = d")
    case True
    then show ?thesis using less.prems by (subst ancestor_loop.simps) simp
  next
    case False
    then have h: "d < h" "0 < h" using less.prems by simp_all
    note sk = getSkipHeight_bounds [OF h(2)]
    obtain q where q: "q \<in> R" "previous (H p) = Some q" "height (H q) = h - 1"
      using tree_okD(3) [OF assms less.prems(1)] h(2) less.prems(2) by auto
    have "parent_walk H (nat (h - d)) p = parent_walk H (Suc (nat (h - 1 - d))) p"
      using h by (simp add: nat_diff_distrib Suc_nat_eq_nat_zadd1)
    then have step: "ancestor_loop H d (h - 1) q = parent_walk H (nat (h - d)) p"
      using less.hyps [of "h - 1" q] q h less.prems by simp
    show ?thesis
    proof (cases "skip (H p)")
      case None
      then show ?thesis using step q h less.prems by (subst ancestor_loop.simps) simp
    next
      case (Some k)
      let ?s = "getSkipHeight h"
      have k: "parent_walk H (nat (h - ?s)) p = Some k"
        using tree_okD(4) [OF assms less.prems(1) Some] less.prems(2) by simp
      have "ancestor_loop H d ?s k = parent_walk H (nat (h - d)) p" if "d \<le> ?s"
      proof -
        have kR: "k \<in> R" "height (H k) = ?s"
          using parent_walk_ok [OF assms less.prems(1), of "nat (h - ?s)"] k sk less.prems(2) by auto
        have "nat (h - d) = nat (h - ?s) + nat (?s - d)" using that sk nat_add_distrib [of "h - ?s" "?s - d"] by (simp only: diff_add_cancel diff_ge_0_iff_ge less_imp_le add_diff_eq)
        then have "parent_walk H (nat (h - d)) p = parent_walk H (nat (?s - d)) k"
          by (simp add: parent_walk_add k)
        then show ?thesis
          using less.hyps [OF _ kR(1) kR(2) [symmetric] less.prems(3) that] sk by simp
      qed
      then show ?thesis using step q h less.prems Some by (subst ancestor_loop.simps) (auto simp: Let_def)
    qed
  qed
qed

lemma getAncestor_walk:
  assumes "tree_ok H R" "p \<in> R"
  shows "getAncestor H p d = (if d < 0 \<or> height (H p) < d then Some None
     else Some (parent_walk H (nat (height (H p) - d)) p))"
  using ancestor_loop_walk [OF assms(1) assms(2) refl, of d] parent_walk_ok [OF assms, of "nat (height (H p) - d)"]
  by (auto simp: getAncestor_def)

lemma skip_update_fields [simp]:
  "height ((H(p := H p\<lparr>skip := a\<rparr>)) r) = height (H r)"
  "previous ((H(p := H p\<lparr>skip := a\<rparr>)) r) = previous (H r)"
  "skip ((H(p := H p\<lparr>skip := a\<rparr>)) r) = (if r = p then a else skip (H r))"
  by simp_all

lemma parent_walk_skip_update: "parent_walk (H(p := H p\<lparr>skip := a\<rparr>)) n q = parent_walk H n q"
  by (induction n arbitrary: q) (auto split: option.split simp del: fun_upd_apply)

lemma buildSkip_ok:
  assumes "tree_ok H R" "p \<in> R"
  shows "\<exists>H'. buildSkip H p = Some H' \<and> tree_ok H' R \<and>
     (0 < height (H p) \<longrightarrow> skip (H' p) = parent_walk H (nat (height (H p) - getSkipHeight (height (H p)))) p)"
proof (cases "0 < height (H p)")
  case True
  define s where "s = getSkipHeight (height (H p))"
  have s: "0 \<le> s" "s < height (H p)" using getSkipHeight_bounds [OF True] by (simp_all add: s_def)
  obtain q where q: "q \<in> R" "previous (H p) = Some q" "height (H q) = height (H p) - 1"
    using tree_okD(3) [OF assms True] by auto
  have "nat (height (H p) - s) = Suc (nat (height (H q) - s))" using s q by simp
  then have w: "parent_walk H (nat (height (H q) - s)) q = parent_walk H (nat (height (H p) - s)) p"
    using q by simp
  define a where "a = parent_walk H (nat (height (H p) - s)) p"
  have "buildSkip H p = Some (H(p := H p\<lparr>skip := a\<rparr>))"
    using getAncestor_walk [OF assms(1) q(1), of s] s q w by (simp add: buildSkip_def a_def s_def)
  moreover have "tree_ok (H(p := H p\<lparr>skip := a\<rparr>)) R"
    using assms(1) True unfolding tree_ok_def skip_update_fields parent_walk_skip_update
    by (auto simp: a_def s_def split: if_splits)
  ultimately show ?thesis by (auto simp: a_def s_def)
next
  case False
  then have "height (H p) = 0" using tree_okD(1) [OF assms] by simp
  then have "previous (H p) = None" using tree_okD(2) [OF assms] by simp
  then show ?thesis using assms False by (simp add: buildSkip_def)
qed

section \<open>Reading back\<close>

lemma varint_cases:
  assumes "v < 2 ^ (8 * nbytes)" "0 < nbytes" "writeInteger nbytes (int v) = Some e" "streams ist os" "v \<le> tmax"
  shows "readInteger tmax ist (of_bytes ist (e @ r)) = (Some v, of_bytes ist r)"
proof -
  have "e = enc_int v" using writeInteger_enc [OF assms(1,2)] assms(3) by simp
  then show ?thesis using readInteger_enc [OF assms(4,5)] by simp
qed

lemma read_var_write:
  assumes "streams ist os"
  shows "0 \<le> v \<Longrightarrow> v < 2 ^ 31 \<Longrightarrow> writeInteger 4 v = Some e \<Longrightarrow>
      read_var_int ist old (of_bytes ist (e @ r)) = (v, of_bytes ist r)"
    and "writeInteger 4 (uint w) = Some e \<Longrightarrow> read_var32 ist old32 (of_bytes ist (e @ r)) = (w, of_bytes ist r)"
    and "writeInteger 8 (uint q) = Some e \<Longrightarrow> read_var64 ist old64 (of_bytes ist (e @ r)) = (q, of_bytes ist r)"
proof -
  assume v: "0 \<le> v" "v < 2 ^ 31" "writeInteger 4 v = Some e"
  then obtain n where n: "v = int n" using nonneg_int_cases by blast
  have "readInteger INT_MAX ist (of_bytes ist (e @ r)) = (Some n, of_bytes ist r)"
    using v by (intro varint_cases [of n 4 e ist os]) (simp_all add: n assms INT_MAX_def)
  then show "read_var_int ist old (of_bytes ist (e @ r)) = (v, of_bytes ist r)"
    by (simp add: read_var_int_def n)
next
  assume w: "writeInteger 4 (uint w) = Some e"
  have u: "uint w = int (unat w)" "unat w < 2 ^ 32"
    using unsigned_less [of w, where ?'a = nat] by simp_all
  have "readInteger UINT32_MAX ist (of_bytes ist (e @ r)) = (Some (unat w), of_bytes ist r)"
    using w u(2) by (intro varint_cases [of "unat w" 4 e ist os]) (simp_all add: assms UINT32_MAX_def)
  then show "read_var32 ist old32 (of_bytes ist (e @ r)) = (w, of_bytes ist r)"
    by (simp add: read_var32_def)
next
  assume q: "writeInteger 8 (uint q) = Some e"
  have u: "uint q = int (unat q)" "unat q < 2 ^ 64"
    using unsigned_less [of q, where ?'a = nat] by simp_all
  have "readInteger UINT64_MAX ist (of_bytes ist (e @ r)) = (Some (unat q), of_bytes ist r)"
    using q u(2) by (intro varint_cases [of "unat q" 8 e ist os]) (simp_all add: assms UINT64_MAX_def)
  then show "read_var64 ist old64 (of_bytes ist (e @ r)) = (q, of_bytes ist r)"
    by (simp add: read_var64_def)
qed

lemma write_var_some:
  "0 \<le> v \<Longrightarrow> v < 2 ^ 31 \<Longrightarrow> \<exists>e. writeInteger 4 v = Some e"
  "\<exists>e. writeInteger 4 (uint (w :: u32)) = Some e"
  "\<exists>e. writeInteger 8 (uint (q :: u64)) = Some e"
proof -
  assume "0 \<le> v" "v < 2 ^ 31"
  moreover from this obtain n where "v = int n" using nonneg_int_cases by blast
  ultimately show "\<exists>e. writeInteger 4 v = Some e" using writeInteger_enc [of n 4] by simp
next
  show "\<exists>e. writeInteger 4 (uint (w :: u32)) = Some e"
    using writeInteger_enc [of "unat w" 4] unsigned_less [of w, where ?'a = nat] by simp
  show "\<exists>e. writeInteger 8 (uint (q :: u64)) = Some e"
    using writeInteger_enc [of "unat q" 8] unsigned_less [of q, where ?'a = nat] by simp
qed

definition wf_header :: "BlockHeader \<Rightarrow> bool" where
  "wf_header h \<longleftrightarrow> length (previousBlockHash h) = 32 \<and> length (merkleRootHash h) = 32"

definition wf_index :: "BlockIndex \<Rightarrow> bool" where
  "wf_index b \<longleftrightarrow> wf_header (header b) \<and> 0 \<le> height b \<and> height b < 2 ^ 31 \<and> 0 \<le> fileIndex b \<and> fileIndex b < 2 ^ 31"

definition wf_block :: "Block \<Rightarrow> bool" where
  "wf_block b \<longleftrightarrow> wf_header (blk_header b) \<and> list_all (\<lambda>t. wf_tx t \<and> \<not> hasWitness t) (transactions b) \<and>
     length (transactions b) \<le> 50000"

text \<open>What of an index entry is on disk: the positions only under their flags, never the memory-only fields.\<close>

definition disk_index :: "BlockIndex \<Rightarrow> BlockIndex" where
  "disk_index b = BlockIndex_new\<lparr>header := (header b)\<lparr>hash := uint256_null\<rparr>, height := height b,
     status := status b, transactionCount := transactionCount b,
     fileIndex := (if status b AND (BLOCK_HAVE_DATA OR BLOCK_HAVE_UNDO) \<noteq> 0 then fileIndex b else 0),
     dataPosition := (if status b AND BLOCK_HAVE_DATA \<noteq> 0 then dataPosition b else 0),
     undoPosition := (if status b AND BLOCK_HAVE_UNDO \<noteq> 0 then undoPosition b else 0)\<rparr>"

context streams
begin

lemma read_header_write [wire_simps]:
  "wf_header h \<Longrightarrow> read_header ist g (of_bytes ist (write_header os h @ r)) = (h\<lparr>hash := hash g\<rparr>, of_bytes ist r)"
  by (simp add: wf_header_def read_header_def write_header_def wire_simps)

lemma read_index_write:
  assumes "wf_index b"
  shows "\<exists>e. write_index os b = Some e \<and>
    read_index ist BlockIndex_new (of_bytes ist (e @ r)) = (disk_index b, of_bytes ist r)"
proof -
  note rw = read_var_write [OF streams_axioms]
  have cv: "(0 :: int) \<le> CLIENT_VERSION" "CLIENT_VERSION < 2 ^ 31" by (simp_all add: CLIENT_VERSION_def)
  have wf: "0 \<le> height b" "height b < 2 ^ 31" "0 \<le> fileIndex b" "fileIndex b < 2 ^ 31" "wf_header (header b)"
    using assms by (simp_all add: wf_index_def)
  obtain v h st tc f d u where e: "writeInteger 4 CLIENT_VERSION = Some v" "writeInteger 4 (height b) = Some h"
    "writeInteger 4 (uint (status b)) = Some st" "writeInteger 4 (uint (transactionCount b)) = Some tc"
    "writeInteger 4 (fileIndex b) = Some f" "writeInteger 4 (uint (dataPosition b)) = Some d"
    "writeInteger 4 (uint (undoPosition b)) = Some u"
    using write_var_some(1) [OF cv] write_var_some(1) [OF wf(1,2)] write_var_some(1) [OF wf(3,4)]
      write_var_some(2) by metis
  note r = rw(1) [OF cv e(1)] rw(1) [OF wf(1,2) e(2)] rw(2) [OF e(3)] rw(2) [OF e(4)]
    rw(1) [OF wf(3,4) e(5)] rw(2) [OF e(6)] rw(2) [OF e(7)]
  show ?thesis
    by (simp add: write_index_def e read_index_def r disk_index_def read_header_write [OF wf(5)] BlockIndex_new_def
        BlockHeader_new_def)
qed

lemma read_file_info_write:
  "\<exists>e. write_file_info i = Some e \<and>
    read_file_info ist j (of_bytes ist (e @ r)) = (i\<lparr>info_fileIndex := info_fileIndex j\<rparr>, of_bytes ist r)"
proof -
  note rw = read_var_write [OF streams_axioms]
  obtain b z u h0 h1 t0 t1 where e: "writeInteger 4 (uint (blocks i)) = Some b" "writeInteger 4 (uint (info_size i)) = Some z"
    "writeInteger 4 (uint (undoSize i)) = Some u" "writeInteger 4 (uint (minHeight i)) = Some h0"
    "writeInteger 4 (uint (maxHeight i)) = Some h1" "writeInteger 8 (uint (minTime i)) = Some t0"
    "writeInteger 8 (uint (maxTime i)) = Some t1"
    using write_var_some(2,3) by metis
  note r = rw(2) [OF e(1)] rw(2) [OF e(2)] rw(2) [OF e(3)] rw(2) [OF e(4)] rw(2) [OF e(5)] rw(3) [OF e(6)] rw(3) [OF e(7)]
  show ?thesis by (simp add: write_file_info_def e read_file_info_def r)
qed

lemma read_block_write:
  assumes "wf_block b"
  shows "read_block ist \<lparr>blk_header = BlockHeader_new, transactions = []\<rparr> (of_bytes ist (write_block os b @ r)) =
    (\<lparr>blk_header = (blk_header b)\<lparr>hash := uint256_null\<rparr>,
      transactions = map (\<lambda>t. t\<lparr>tx_hash := uint256_null\<rparr>) (transactions b)\<rparr>, of_bytes ist r)"
proof -
  have strip: "map strip_witness (inputs t) = inputs t" if "\<not> hasWitness t" for t
    using that by (auto simp: hasWitness_def list_ex_iff isNull_witness_def strip_witness_def intro!: map_idI)
  have "\<forall>t \<in> set (transactions b). reads ist (read_tx ist) Transaction_new (write_tx os t) (t\<lparr>tx_hash := uint256_null\<rparr>)"
    using assms by (auto simp: wf_block_def list_all_iff reads_def read_tx_write_plain strip)
  from readVector_write [OF this] show ?thesis using assms
    by (simp add: wf_block_def read_block_def write_block_def wire_simps BlockHeader_new_def)
qed

end

section \<open>Properties\<close>

text \<open>C34: in a tree of index entries whose heights count the steps to the root and whose skip pointers
  are ancestors, \<open>getAncestor\<close> follows skip pointers to exactly the entry that stepping along
  \<open>previous\<close> would reach, which has the height asked for; it never runs into the assertion on a
  missing parent, and it is the null pointer exactly for a height out of range.\<close>

theorem ancestor_correct:
  assumes "tree_ok H R" "p \<in> R"
  shows "if 0 \<le> d \<and> d \<le> height (H p)
    then \<exists>q \<in> R. getAncestor H p d = Some (Some q) \<and> height (H q) = d \<and>
           parent_walk H (nat (height (H p) - d)) p = Some q
    else getAncestor H p d = Some None"
  using getAncestor_walk [OF assms, of d] parent_walk_ok [OF assms, of "nat (height (H p) - d)"] by auto

definition line_heap :: index_heap where
  "line_heap p = BlockIndex_new\<lparr>height := int p, previous := (if p = 0 then None else Some (p - 1))\<rparr>"

lemma line_heap_ok: "tree_ok line_heap UNIV"
  by (auto simp: tree_ok_def line_heap_def BlockIndex_new_def)

theorem ancestor_correct_witness: "getAncestor line_heap 5 2 = Some (Some 2)"
  using ancestor_correct [OF line_heap_ok UNIV_I, of 2 5]
  by (auto simp: line_heap_def BlockIndex_new_def)

text \<open>\<open>buildSkip\<close> sets the skip pointer of an entry to its ancestor at the skip height and keeps
  the tree a tree, without failing an assertion.\<close>

theorem build_skip_keeps_tree:
  assumes "tree_ok H R" "p \<in> R"
  shows "\<exists>H'. buildSkip H p = Some H' \<and> tree_ok H' R \<and> (\<forall>q. q \<noteq> p \<longrightarrow> H' q = H q) \<and>
     (0 < height (H p) \<longrightarrow> skip (H' p) = parent_walk H (nat (height (H p) - getSkipHeight (height (H p)))) p)"
proof -
  obtain H' where H': "buildSkip H p = Some H'" "tree_ok H' R"
     "0 < height (H p) \<longrightarrow> skip (H' p) = parent_walk H (nat (height (H p) - getSkipHeight (height (H p)))) p"
    using buildSkip_ok [OF assms] by auto
  moreover have "\<forall>q. q \<noteq> p \<longrightarrow> H' q = H q"
    using H'(1) by (auto simp: buildSkip_def split: option.splits)
  ultimately show ?thesis by blast
qed

theorem build_skip_keeps_tree_witness:
  "\<exists>H'. buildSkip line_heap 4 = Some H' \<and> skip (H' 4) = Some 0 \<and> tree_ok H' UNIV"
proof -
  have "getSkipHeight (height (line_heap 4)) = 0"
    by (simp add: line_heap_def BlockIndex_new_def getSkipHeight_def invertLowestOne_def)
  moreover have "height (line_heap 4) = 4" "parent_walk line_heap 4 4 = Some 0"
    by (simp_all add: line_heap_def BlockIndex_new_def numeral_eq_Suc)
  ultimately show ?thesis using build_skip_keeps_tree [OF line_heap_ok UNIV_I, of 4] by auto
qed

text \<open>headers, blocks without witness data, index entries and block file records read back from
  their encodings; what is lost is exactly what the formats do not hold: hashes, the memory-only
  fields of an index entry, positions whose status flag is not set, and the file's own number.\<close>

theorem block_formats_roundtrip:
  assumes "streams ist os"
  shows "(wf_header h \<longrightarrow> read_header ist g (of_bytes ist (write_header os h @ r)) = (h\<lparr>hash := hash g\<rparr>, of_bytes ist r)) \<and>
    (wf_block b \<longrightarrow>
      read_block ist \<lparr>blk_header = BlockHeader_new, transactions = []\<rparr> (of_bytes ist (write_block os b @ r)) =
      (\<lparr>blk_header = (blk_header b)\<lparr>hash := uint256_null\<rparr>,
        transactions = map (\<lambda>t. t\<lparr>tx_hash := uint256_null\<rparr>) (transactions b)\<rparr>, of_bytes ist r)) \<and>
    (wf_index x \<longrightarrow> (\<exists>e. write_index os x = Some e \<and>
      read_index ist BlockIndex_new (of_bytes ist (e @ r)) = (disk_index x, of_bytes ist r))) \<and>
    (\<exists>e. write_file_info i = Some e \<and>
      read_file_info ist j (of_bytes ist (e @ r)) = (i\<lparr>info_fileIndex := info_fileIndex j\<rparr>, of_bytes ist r))"
  by (intro conjI impI, rule streams.read_header_write [OF assms], assumption, rule streams.read_block_write [OF assms], assumption,
      rule streams.read_index_write [OF assms], assumption, rule streams.read_file_info_write [OF assms])

theorem block_formats_roundtrip_witness:
  "\<exists>e. write_index le_ostream (BlockIndex_new\<lparr>height := 300, status := 13, dataPosition := 70000\<rparr>) = Some e \<and>
     read_index le_istream BlockIndex_new (of_bytes le_istream (e @ [])) =
       (BlockIndex_new\<lparr>height := 300, status := 13, dataPosition := 70000\<rparr>, of_bytes le_istream [])"
proof -
  define x where "x = BlockIndex_new\<lparr>height := 300, status := 13, dataPosition := 70000\<rparr>"
  have "wf_index x" by (simp add: x_def wf_index_def wf_header_def BlockIndex_new_def BlockHeader_new_def uint256_null_def)
  moreover have "disk_index x = x"
    by (simp add: x_def disk_index_def BlockIndex_new_def BlockHeader_new_def BLOCK_HAVE_DATA_def BLOCK_HAVE_UNDO_def)
  ultimately show ?thesis
    using block_formats_roundtrip [OF les.streams_axioms, THEN conjunct2, THEN conjunct2, THEN conjunct1, rule_format, of x "[]"]
    by (simp add: x_def)
qed

lemma BLOCK_VALID_MASK_eq: "BLOCK_VALID_MASK = mask 3"
  by (simp add: BLOCK_VALID_MASK_def BLOCK_VALID_HEADER_def BLOCK_VALID_TREE_def BLOCK_VALID_TRANSACTIONS_def
      BLOCK_VALID_CHAIN_def BLOCK_VALID_SCRIPTS_def mask_eq_exp_minus_1)

lemma BLOCK_FAILED_MASK_eq: "BLOCK_FAILED_MASK = push_bit 5 3"
  by (simp add: BLOCK_FAILED_MASK_def BLOCK_FAILED_VALID_def BLOCK_FAILED_CHILD_def push_bit_eq_mult)

lemma raised_status:
  fixes st up :: u32
  assumes "up AND NOT BLOCK_VALID_MASK = 0"
  defines "n \<equiv> (st AND NOT BLOCK_VALID_MASK) OR up"
  shows "n AND BLOCK_VALID_MASK = up" "n AND BLOCK_FAILED_MASK = st AND BLOCK_FAILED_MASK"
    and "n AND NOT BLOCK_VALID_MASK = st AND NOT BLOCK_VALID_MASK"
proof -
  have up: "bit up i \<Longrightarrow> i < 3" for i
    using assms(1) unfolding BLOCK_VALID_MASK_eq bit_eq_iff by (metis bit_0_eq bit_and_iff bit_imp_le_length
        bit_mask_iff bit_not_iff bot_apply bot_bool_def possible_bit_word)
  have nb: "bit n i \<longleftrightarrow> bit st i \<and> 3 \<le> i \<or> bit up i" for i
    unfolding n_def BLOCK_VALID_MASK_eq
    by (auto simp: bit_and_iff bit_or_iff bit_not_iff bit_mask_iff possible_bit_word dest: bit_imp_le_length)
  show "n AND BLOCK_VALID_MASK = up"
    by (rule bit_word_eqI) (auto simp: bit_and_iff nb BLOCK_VALID_MASK_eq bit_mask_iff possible_bit_word dest: up)
  show "n AND BLOCK_FAILED_MASK = st AND BLOCK_FAILED_MASK"
    unfolding BLOCK_FAILED_MASK_eq
    by (rule bit_word_eqI) (auto simp only: bit_and_iff nb bit_push_bit_iff dest: up)
  show "n AND NOT BLOCK_VALID_MASK = st AND NOT BLOCK_VALID_MASK"
    by (rule bit_word_eqI) (auto simp: bit_and_iff bit_not_iff nb BLOCK_VALID_MASK_eq bit_mask_iff possible_bit_word dest: up)
qed

text \<open>raising the validity of an entry never lowers it and touches no other flag: a failed entry
  is left alone, otherwise the level becomes the maximum of the old and the new one and the entry is
  valid up to the new level.\<close>

theorem raise_validity:
  assumes "upTo AND NOT BLOCK_VALID_MASK = 0"
  shows "\<exists>r b'. raiseValidity upTo b = Some (r, b') \<and> b'\<lparr>status := status b\<rparr> = b \<and>
    status b' AND NOT BLOCK_VALID_MASK = status b AND NOT BLOCK_VALID_MASK \<and>
    (if status b AND BLOCK_FAILED_MASK \<noteq> 0 then \<not> r \<and> b' = b \<and> isValid upTo b' = Some False
     else (r \<longleftrightarrow> status b AND BLOCK_VALID_MASK < upTo) \<and>
          status b' AND BLOCK_VALID_MASK = max (status b AND BLOCK_VALID_MASK) upTo \<and> isValid upTo b' = Some True)"
  using raised_status [OF assms, of "status b"] assms by (auto simp: raiseValidity_def isValid_def max_def)

theorem raise_validity_witness:
  "\<exists>b'. raiseValidity BLOCK_VALID_CHAIN (BlockIndex_new\<lparr>status := 10\<rparr>) = Some (True, b') \<and>
     isValid BLOCK_VALID_CHAIN b' = Some True"
proof -
  have m: "BLOCK_VALID_MASK = 7" "BLOCK_FAILED_MASK = 96"
    by (simp_all add: BLOCK_VALID_MASK_eq BLOCK_FAILED_MASK_eq mask_eq_exp_minus_1 push_bit_eq_mult)
  have "BLOCK_VALID_CHAIN AND NOT BLOCK_VALID_MASK = 0" by (simp add: BLOCK_VALID_CHAIN_def m)
  from raise_validity [OF this, of "BlockIndex_new\<lparr>status := 10\<rparr>"]
  show ?thesis by (auto simp: m BLOCK_VALID_CHAIN_def)
qed

end
