(* ===== verification/ArithUint256.thy ===== *)
theory ArithUint256
  imports Prelude
begin

text \<open>
  \<open>util/arith_uint256.hpp\<close> and \<open>util/arith_uint256.cpp\<close>: the template \<open>base_uint\<close>, an unsigned
  integer of \<open>WIDTH\<close> 32-bit limbs with the least significant limb first, and \<open>arith_uint256\<close>,
  its 256-bit instance. A number is the list of its limbs; the limb loops of the code are
  recursions over the list, or folds over the index where the code writes through indices.
  \<open>limbs_val\<close> reads a limb list as an integer, and the lemmas show that every operation is the
  arithmetic operation modulo \<open>2 ^ (32 * WIDTH)\<close>.
\<close>

section \<open>The type and its value\<close>

type_synonym limbs = "u32 list"

definition WIDTH :: nat where
  "WIDTH = 256 div 32"

definition limbs_val :: "limbs \<Rightarrow> int" where
  "limbs_val = horner_sum uint (2 ^ 32)"

definition wf_limbs :: "limbs \<Rightarrow> bool" where
  "wf_limbs a \<longleftrightarrow> length a = WIDTH"

section \<open>Construction and bitwise operations\<close>

definition base_uint_zero :: limbs where
  "base_uint_zero = replicate WIDTH 0"

definition base_uint_of_u64 :: "u64 \<Rightarrow> limbs" where
  "base_uint_of_u64 b = [ucast b, ucast (drop_bit 32 b)] @ replicate (WIDTH - 2) 0"

definition op_is_zero :: "limbs \<Rightarrow> bool" where
  "op_is_zero a = list_all (\<lambda>x. x = 0) a"

definition op_not :: "limbs \<Rightarrow> limbs" where
  "op_not a = map (\<lambda>x. NOT x) a"

definition op_xor :: "limbs \<Rightarrow> limbs \<Rightarrow> limbs" where
  "op_xor a b = map2 (\<lambda>x y. x XOR y) a b"

definition op_and :: "limbs \<Rightarrow> limbs \<Rightarrow> limbs" where
  "op_and a b = map2 (\<lambda>x y. x AND y) a b"

definition op_or :: "limbs \<Rightarrow> limbs \<Rightarrow> limbs" where
  "op_or a b = map2 (\<lambda>x y. x OR y) a b"

definition op_xor_u64 :: "limbs \<Rightarrow> u64 \<Rightarrow> limbs" where
  "op_xor_u64 a b = a[0 := a ! 0 XOR ucast b, 1 := a ! 1 XOR ucast (drop_bit 32 b)]"

definition op_or_u64 :: "limbs \<Rightarrow> u64 \<Rightarrow> limbs" where
  "op_or_u64 a b = a[0 := a ! 0 OR ucast b, 1 := a ! 1 OR ucast (drop_bit 32 b)]"

section \<open>Addition, increment, negation, subtraction\<close>

fun add_carry :: "u64 \<Rightarrow> limbs \<Rightarrow> limbs \<Rightarrow> limbs" where
  "add_carry carry (x # xs) (y # ys) =
     (let n = carry + ucast x + ucast y
      in ucast (n AND 0xffffffff) # add_carry (drop_bit 32 n) xs ys)"
| "add_carry carry _ _ = []"

definition op_add :: "limbs \<Rightarrow> limbs \<Rightarrow> limbs" where
  "op_add a b = add_carry 0 a b"

fun op_inc :: "limbs \<Rightarrow> limbs" where
  "op_inc [] = []"
| "op_inc (x # xs) = (if x + 1 = 0 then (x + 1) # op_inc xs else (x + 1) # xs)"

fun op_dec :: "limbs \<Rightarrow> limbs" where
  "op_dec [] = []"
| "op_dec (x # xs) = (if x - 1 = - 1 then (x - 1) # op_dec xs else (x - 1) # xs)"

definition op_neg :: "limbs \<Rightarrow> limbs" where
  "op_neg a = op_inc (op_not a)"

definition op_sub :: "limbs \<Rightarrow> limbs \<Rightarrow> limbs" where
  "op_sub a b = op_add a (op_neg b)"

definition op_add_u64 :: "limbs \<Rightarrow> u64 \<Rightarrow> limbs" where
  "op_add_u64 a b64 = op_add a (base_uint_of_u64 b64)"

definition op_sub_u64 :: "limbs \<Rightarrow> u64 \<Rightarrow> limbs" where
  "op_sub_u64 a b64 = op_add a (op_neg (base_uint_of_u64 b64))"

section \<open>Shifts\<close>

definition shl_step :: "limbs \<Rightarrow> nat \<Rightarrow> nat \<Rightarrow> limbs \<Rightarrow> nat \<Rightarrow> limbs" where
  "shl_step a k shift pn i =
     (let pn = (if i + k + 1 < length a \<and> shift \<noteq> 0
                then pn[i + k + 1 := pn ! (i + k + 1) OR drop_bit (32 - shift) (a ! i)] else pn)
      in if i + k < length a then pn[i + k := pn ! (i + k) OR push_bit shift (a ! i)] else pn)"

definition op_shl :: "limbs \<Rightarrow> nat \<Rightarrow> limbs" where
  "op_shl a shift =
     foldl (shl_step a (shift div 32) (shift mod 32)) (replicate (length a) 0) [0..<length a]"

definition shr_step :: "limbs \<Rightarrow> nat \<Rightarrow> nat \<Rightarrow> limbs \<Rightarrow> nat \<Rightarrow> limbs" where
  "shr_step a k shift pn i =
     (let pn = (if int i - int k - 1 \<ge> 0 \<and> shift \<noteq> 0
                then pn[i - k - 1 := pn ! (i - k - 1) OR push_bit (32 - shift) (a ! i)] else pn)
      in if int i - int k \<ge> 0 then pn[i - k := pn ! (i - k) OR drop_bit shift (a ! i)] else pn)"

definition op_shr :: "limbs \<Rightarrow> nat \<Rightarrow> limbs" where
  "op_shr a shift =
     foldl (shr_step a (shift div 32) (shift mod 32)) (replicate (length a) 0) [0..<length a]"

section \<open>Multiplication\<close>

fun mul_u32_carry :: "u64 \<Rightarrow> u32 \<Rightarrow> limbs \<Rightarrow> limbs" where
  "mul_u32_carry carry b32 [] = []"
| "mul_u32_carry carry b32 (x # xs) =
     (let n = carry + ucast b32 * ucast x
      in ucast (n AND 0xffffffff) # mul_u32_carry (drop_bit 32 n) b32 xs)"

definition op_mul_u32 :: "limbs \<Rightarrow> u32 \<Rightarrow> limbs" where
  "op_mul_u32 a b32 = mul_u32_carry 0 b32 a"

fun mul_row :: "u64 \<Rightarrow> u32 \<Rightarrow> limbs \<Rightarrow> limbs \<Rightarrow> limbs" where
  "mul_row carry aj (p # ps) (y # ys) =
     (let n = carry + ucast p + ucast aj * ucast y
      in ucast (n AND 0xffffffff) # mul_row (drop_bit 32 n) aj ps ys)"
| "mul_row carry aj ps _ = ps"

definition mul_step :: "limbs \<Rightarrow> limbs \<Rightarrow> limbs \<Rightarrow> nat \<Rightarrow> limbs" where
  "mul_step a b pn j = take j pn @ mul_row 0 (a ! j) (drop j pn) b"

definition op_mul :: "limbs \<Rightarrow> limbs \<Rightarrow> limbs" where
  "op_mul a b = foldl (mul_step a b) (replicate (length a) 0) [0..<length a]"

section \<open>Comparison\<close>

text \<open>\<open>compare_from a b n\<close> is the loop of \<open>compare\<close> with \<open>i = n - 1\<close>.\<close>

fun compare_from :: "limbs \<Rightarrow> limbs \<Rightarrow> nat \<Rightarrow> int" where
  "compare_from a b 0 = 0"
| "compare_from a b (Suc i) =
     (if a ! i < b ! i then - 1 else if a ! i > b ! i then 1 else compare_from a b i)"

definition op_compare :: "limbs \<Rightarrow> limbs \<Rightarrow> int" where
  "op_compare a b = compare_from a b (length a)"

definition op_less :: "limbs \<Rightarrow> limbs \<Rightarrow> bool" where
  "op_less a b = (op_compare a b < 0)"

definition op_greater :: "limbs \<Rightarrow> limbs \<Rightarrow> bool" where
  "op_greater a b = (op_compare a b > 0)"

definition op_ge :: "limbs \<Rightarrow> limbs \<Rightarrow> bool" where
  "op_ge a b = (op_compare a b \<ge> 0)"

definition op_le :: "limbs \<Rightarrow> limbs \<Rightarrow> bool" where
  "op_le a b = (op_compare a b \<le> 0)"

definition op_equals_u64 :: "limbs \<Rightarrow> u64 \<Rightarrow> bool" where
  "op_equals_u64 a b =
     (list_all (\<lambda>x. x = 0) (drop 2 a) \<and> ucast (a ! 1) = drop_bit 32 b \<and>
      ucast (a ! 0) = b AND 0xffffffff)"

section \<open>Bit length\<close>

text \<open>\<open>top_bit w n\<close> is the inner loop of \<open>bits\<close>, from \<open>nbits = n\<close> down to 1.\<close>

fun top_bit :: "u32 \<Rightarrow> nat \<Rightarrow> nat" where
  "top_bit w 0 = 1"
| "top_bit w (Suc n) = (if w AND push_bit (Suc n) 1 \<noteq> 0 then Suc n + 1 else top_bit w n)"

fun bits_from :: "limbs \<Rightarrow> nat \<Rightarrow> nat" where
  "bits_from a 0 = 0"
| "bits_from a (Suc pos) =
     (if a ! pos \<noteq> 0 then 32 * pos + top_bit (a ! pos) 31 else bits_from a pos)"

definition op_bits :: "limbs \<Rightarrow> nat" where
  "op_bits a = bits_from a (length a)"

section \<open>Division\<close>

datatype uint_error = Division_by_zero

text \<open>\<open>div_loop n num d q\<close> is the loop of \<open>operator/=\<close> entered with \<open>shift = n - 1\<close>; it returns
  the quotient and the remainder.\<close>

fun div_loop :: "nat \<Rightarrow> limbs \<Rightarrow> limbs \<Rightarrow> limbs \<Rightarrow> limbs \<times> limbs" where
  "div_loop 0 num d q = (q, num)"
| "div_loop (Suc shift) num d q =
     (if op_ge num d
      then div_loop shift (op_sub num d) (op_shr d 1)
             (q[shift div 32 := q ! (shift div 32) OR push_bit (shift mod 32) 1])
      else div_loop shift num (op_shr d 1) q)"

definition op_divmod :: "limbs \<Rightarrow> limbs \<Rightarrow> uint_error + limbs \<times> limbs" where
  "op_divmod a b =
     (let num_bits = op_bits a; div_bits = op_bits b
      in if div_bits = 0 then Inl Division_by_zero
         else if div_bits > num_bits then Inr (replicate (length a) 0, a)
         else Inr (div_loop (Suc (num_bits - div_bits)) a (op_shl b (num_bits - div_bits))
                     (replicate (length a) 0)))"

definition op_div :: "limbs \<Rightarrow> limbs \<Rightarrow> uint_error + limbs" where
  "op_div a b = map_sum id fst (op_divmod a b)"

section \<open>The value of a limb list\<close>

lemma limbs_val_Nil [simp, limb_simps]: "limbs_val [] = 0"
  by (simp add: limbs_val_def)

lemma limbs_val_Cons [simp, limb_simps]:
  "limbs_val (x # xs) = uint x + 2 ^ 32 * limbs_val xs"
  by (simp add: limbs_val_def)

lemma limbs_val_append [limb_simps]:
  "limbs_val (xs @ ys) = limbs_val xs + 2 ^ (32 * length xs) * limbs_val ys"
  by (simp add: limbs_val_def horner_sum_append power_mult)

lemma limbs_val_replicate_0 [simp, limb_simps]: "limbs_val (replicate n 0) = 0"
  by (induction n) simp_all

lemma limbs_val_nonneg [simp]: "0 \<le> limbs_val a"
  by (induction a) simp_all

lemma limb_step:
  fixes n X M :: int
  assumes "0 \<le> M"
  shows "(n + 2 ^ 32 * X) mod (2 ^ 32 * M) = n mod 2 ^ 32 + 2 ^ 32 * ((n div 2 ^ 32 + X) mod M)"
  using zmod_zmult2_eq [OF assms, of "n + 2 ^ 32 * X" "2 ^ 32"] by (simp add: add.commute)

lemma limbs_val_less: "limbs_val a < 2 ^ (32 * length a)"
proof (induction a)
  case (Cons x xs)
  have "uint x < 2 ^ 32" using uint_less_exp [of x] by simp
  moreover have "limbs_val xs \<le> 2 ^ (32 * length xs) - 1" using Cons by simp
  then have "2 ^ 32 * limbs_val xs \<le> 2 ^ 32 * (2 ^ (32 * length xs) - 1)"
    by (intro mult_left_mono) simp_all
  ultimately show ?case by (simp add: power_add algebra_simps)
qed simp

lemma limbs_val_mod [simp]: "limbs_val a mod 2 ^ (32 * length a) = limbs_val a"
  by (simp add: limbs_val_less)

lemma bit_limbs_val:
  "bit (limbs_val a) n \<longleftrightarrow> n div 32 < length a \<and> bit (a ! (n div 32)) (n mod 32)"
  using bit_horner_sum_uint_exp_iff [of a n] by (simp add: limbs_val_def)

lemma limbs_eqI: "length a = length b \<Longrightarrow> limbs_val a = limbs_val b \<Longrightarrow> a = b"
proof (induction a b rule: list_induct2)
  case (Cons x xs y ys)
  have "uint x < 2 ^ 32" "uint y < 2 ^ 32" using uint_less_exp [of x] uint_less_exp [of y] by simp_all
  then have "uint x = limbs_val (x # xs) mod 2 ^ 32" "uint y = limbs_val (y # ys) mod 2 ^ 32" by simp_all
  then have "uint x = uint y" using Cons.prems by metis
  then have "x = y" by (simp add: word_uint_eq_iff)
  then show ?case using Cons by simp
qed simp

section \<open>Addition and subtraction are modular arithmetic\<close>

lemma length_add_carry [simp]: "length (add_carry c a b) = min (length a) (length b)"
  by (induction c a b rule: add_carry.induct) (simp_all add: Let_def)

lemma uint_ucast_dword [simp]: "uint (ucast (x :: u32) :: u64) = uint x"
  by (simp add: unsigned_ucast_eq take_bit_int_eq_self_iff) (use uint_less_exp [of x] in simp)

lemma uint_u32_le: "uint (x :: u32) \<le> 2 ^ 32 - 1"
  using uint_less_exp [of x] by simp

lemma uint_add_no_wrap: "uint a + uint b < 2 ^ 64 \<Longrightarrow> uint (a + b :: u64) = uint a + uint b"
  by (simp add: uint_word_ariths)

lemma uint_mul_no_wrap: "uint a * uint b < 2 ^ 64 \<Longrightarrow> uint (a * b :: u64) = uint a * uint b"
  by (simp add: uint_word_ariths)

lemma uint_acc:
  assumes "uint c < 2 ^ 32"
  shows "uint (c + ucast x + ucast y :: u64) = uint c + uint (x :: u32) + uint (y :: u32)"
proof -
  have 1: "uint (c + ucast x :: u64) = uint c + uint x"
    using assms uint_u32_le [of x] by (subst uint_add_no_wrap) simp_all
  show ?thesis
    using 1 assms uint_u32_le [of x] uint_u32_le [of y] by (subst uint_add_no_wrap) simp_all
qed

lemma limbs_val_add_carry:
  "length a = length b \<Longrightarrow> uint carry < 2 ^ 32 \<Longrightarrow>
   limbs_val (add_carry carry a b) = (uint carry + limbs_val a + limbs_val b) mod 2 ^ (32 * length a)"
proof (induction a b arbitrary: carry rule: list_induct2)
  case (Cons x xs y ys)
  define n where "n = carry + ucast x + ucast y"
  have n: "uint n = uint carry + uint x + uint y"
    unfolding n_def using Cons.prems by (rule uint_acc)
  have "uint (drop_bit 32 n) < 2 ^ 32"
    using n Cons.prems uint_u32_le [of x] uint_u32_le [of y] by (simp add: uint_high_dword)
  then have IH: "limbs_val (add_carry (drop_bit 32 n) xs ys) =
      (uint n div 2 ^ 32 + (limbs_val xs + limbs_val ys)) mod 2 ^ (32 * length xs)"
    by (simp only: Cons.IH uint_high_dword add.assoc)
  have "(uint carry + limbs_val (x # xs) + limbs_val (y # ys)) mod 2 ^ (32 * length (x # xs)) =
     (uint n + 2 ^ 32 * (limbs_val xs + limbs_val ys)) mod (2 ^ 32 * 2 ^ (32 * length xs))"
    by (subst n) (simp add: power_add algebra_simps)
  also have "\<dots> = uint n mod 2 ^ 32 +
      2 ^ 32 * ((uint n div 2 ^ 32 + (limbs_val xs + limbs_val ys)) mod 2 ^ (32 * length xs))"
    by (rule limb_step) simp
  also have "\<dots> = limbs_val (add_carry carry (x # xs) (y # ys))"
    by (simp only: add_carry.simps Let_def limbs_val_Cons IH low_dword_and uint_low_dword
        flip: n_def)
  finally show ?case by simp
qed simp

lemma limbs_val_add:
  "length a = length b \<Longrightarrow> limbs_val (op_add a b) = (limbs_val a + limbs_val b) mod 2 ^ (32 * length a)"
  by (simp add: op_add_def limbs_val_add_carry)

lemma length_op_inc [simp]: "length (op_inc a) = length a"
  by (induction a) simp_all

lemma length_op_dec [simp]: "length (op_dec a) = length a"
  by (induction a) simp_all


lemma uint_inc_wraps: "x + 1 = 0 \<longleftrightarrow> uint (x :: u32) = 2 ^ 32 - 1"
proof -
  have "x + 1 = 0 \<longleftrightarrow> x = - 1" by (simp add: eq_neg_iff_add_eq_0)
  also have "\<dots> \<longleftrightarrow> uint x = 2 ^ 32 - 1" by (simp add: word_uint_eq_iff unsigned_minus_1_eq_mask mask_eq_exp_minus_1)
  finally show ?thesis .
qed

lemma uint_inc: "uint (x + 1 :: u32) = (uint x + 1) mod 2 ^ 32"
  by (simp add: uint_word_ariths)

lemma limbs_val_inc: "limbs_val (op_inc a) = (limbs_val a + 1) mod 2 ^ (32 * length a)"
proof (induction a)
  case (Cons x xs)
  have "(limbs_val (x # xs) + 1) mod 2 ^ (32 * length (x # xs)) =
     ((uint x + 1) + 2 ^ 32 * limbs_val xs) mod (2 ^ 32 * 2 ^ (32 * length xs))"
    by (simp add: power_add algebra_simps)
  also have "\<dots> = uint (x + 1) + 2 ^ 32 * (((uint x + 1) div 2 ^ 32 + limbs_val xs) mod 2 ^ (32 * length xs))"
    by (subst limb_step) (simp_all add: uint_inc)
  also have "\<dots> = limbs_val (op_inc (x # xs))"
  proof (cases "x + 1 = 0")
    case True
    then have "(uint x + 1) div 2 ^ 32 = 1" by (simp add: uint_inc_wraps)
    with True show ?thesis by (simp add: Cons add.commute)
  next
    case False
    then have "(uint x + 1) div 2 ^ 32 = 0" using uint_u32_le [of x] by (simp add: uint_inc_wraps)
    with False show ?thesis by simp
  qed
  finally show ?case by simp
qed simp

lemma uint_not_u32: "uint (NOT x :: u32) = 2 ^ 32 - 1 - uint x"
proof -
  have "uint (NOT x) = (- uint x - 1) mod 2 ^ 32"
    by (simp add: not_eq_complement uint_word_ariths mod_diff_left_eq)
  also have "\<dots> = (2 ^ 32 - 1 - uint x) mod 2 ^ 32"
    using mod_add_self2 [of "- uint x - 1" "2 ^ 32"] by (simp add: algebra_simps)
  also have "\<dots> = 2 ^ 32 - 1 - uint x"
    using uint_u32_le [of x] uint_ge_0 [of x] by (intro mod_pos_pos_trivial) linarith+
  finally show ?thesis .
qed

lemma limbs_val_not: "limbs_val (op_not a) = 2 ^ (32 * length a) - 1 - limbs_val a"
  by (induction a) (simp_all add: op_not_def uint_not_u32 algebra_simps power_add)

lemma length_op_not [simp]: "length (op_not a) = length a" by (simp add: op_not_def)

lemma length_op_neg [simp]: "length (op_neg a) = length a" by (simp add: op_neg_def)

lemma limbs_val_neg: "limbs_val (op_neg a) = (- limbs_val a) mod 2 ^ (32 * length a)"
  by (simp add: op_neg_def limbs_val_inc limbs_val_not mod_diff_left_eq)

lemma limbs_val_sub:
  "length a = length b \<Longrightarrow> limbs_val (op_sub a b) = (limbs_val a - limbs_val b) mod 2 ^ (32 * length a)"
  by (simp add: op_sub_def limbs_val_add limbs_val_neg mod_add_right_eq)

lemma length_op_add [simp]: "length (op_add a b) = min (length a) (length b)" by (simp add: op_add_def)
lemma length_op_sub [simp]: "length (op_sub a b) = min (length a) (length b)" by (simp add: op_sub_def)

lemma uint_dec_wraps: "x - 1 = - 1 \<longleftrightarrow> x = (0 :: u32)"
  by simp

lemma limbs_val_dec: "limbs_val (op_dec a) = (limbs_val a - 1) mod 2 ^ (32 * length a)"
proof (induction a)
  case (Cons x xs)
  have "(limbs_val (x # xs) - 1) mod 2 ^ (32 * length (x # xs)) =
     ((uint x - 1) + 2 ^ 32 * limbs_val xs) mod (2 ^ 32 * 2 ^ (32 * length xs))"
    by (simp add: power_add algebra_simps)
  also have "\<dots> = uint (x - 1) + 2 ^ 32 * (((uint x - 1) div 2 ^ 32 + limbs_val xs) mod 2 ^ (32 * length xs))"
    by (subst limb_step) (simp_all add: uint_word_ariths)
  also have "\<dots> = limbs_val (op_dec (x # xs))"
  proof (cases "x = 0")
    case True
    then show ?thesis by (simp add: Cons)
  next
    case False
    then have "0 < uint x" by (simp add: word_uint_eq_iff order.strict_iff_order)
    then have "(uint x - 1) div 2 ^ 32 = 0" using uint_u32_le [of x] by simp
    with False show ?thesis by simp
  qed
  finally show ?case by simp
qed simp

section \<open>Shifts are multiplication and division by powers of two\<close>

lemma length_shl_step [simp]: "length (shl_step a k s pn i) = length pn"
  by (simp add: shl_step_def Let_def)

lemma length_shr_step [simp]: "length (shr_step a k s pn i) = length pn"
  by (simp add: shr_step_def Let_def)

lemma nth_shl_step:
  assumes "length pn = length a" "j < length a"
  shows "shl_step a k s pn i ! j =
    pn ! j OR (if j = i + k + 1 \<and> s \<noteq> 0 then drop_bit (32 - s) (a ! i) else 0)
           OR (if j = i + k then push_bit s (a ! i) else 0)"
  using assms by (auto simp: shl_step_def Let_def nth_list_update)

lemma nth_shr_step:
  assumes "length pn = length a" "j < length a"
  shows "shr_step a k s pn i ! j =
    pn ! j OR (if i = j + k + 1 \<and> s \<noteq> 0 then push_bit (32 - s) (a ! i) else 0)
           OR (if i = j + k then drop_bit s (a ! i) else 0)"
proof -
  consider "i < k" | "i = k" | "k < i" by linarith
  then show ?thesis
  proof cases
    case 3
    then have "int i - int k - 1 \<ge> 0" "int i - int k \<ge> 0" by simp_all
    moreover from 3 have "j = i - k - 1 \<longleftrightarrow> i = j + k + 1" "j = i - k \<longleftrightarrow> i = j + k" by auto
    moreover from 3 have "i - k - 1 \<noteq> i - k" by simp
    ultimately show ?thesis using assms by (auto simp: shr_step_def Let_def nth_list_update)
  qed (use assms in \<open>auto simp: shr_step_def Let_def nth_list_update\<close>)
qed

lemma shl_fold:
  assumes "j < length a"
  shows "length (foldl (shl_step a k s) (replicate (length a) 0) [0..<m]) = length a \<and>
    foldl (shl_step a k s) (replicate (length a) 0) [0..<m] ! j =
      (if k + 1 \<le> j \<and> j - k - 1 < m \<and> s \<noteq> 0 then drop_bit (32 - s) (a ! (j - k - 1)) else 0) OR
      (if k \<le> j \<and> j - k < m then push_bit s (a ! (j - k)) else 0)"
proof (induction m)
  case (Suc m)
  then show ?case using assms
    by (auto simp: nth_shl_step less_Suc_eq or.assoc or.commute or.left_commute)
qed (use assms in simp)

lemma shr_fold:
  assumes "j < length a"
  shows "length (foldl (shr_step a k s) (replicate (length a) 0) [0..<m]) = length a \<and>
    foldl (shr_step a k s) (replicate (length a) 0) [0..<m] ! j =
      (if j + k + 1 < m \<and> s \<noteq> 0 then push_bit (32 - s) (a ! (j + k + 1)) else 0) OR
      (if j + k < m then drop_bit s (a ! (j + k)) else 0)"
proof (induction m)
  case (Suc m)
  consider "m < j + k" | "m = j + k" | "m = Suc (j + k)" | "Suc (j + k) < m" by linarith
  then show ?case
    by cases (use Suc assms in \<open>auto simp: nth_shr_step or.assoc or.commute or.left_commute\<close>)
qed (use assms in simp)

lemma length_op_shl [simp]: "length (op_shl a n) = length a"
  by (cases a) (use shl_fold [of 0 a] in \<open>auto simp: op_shl_def\<close>)

lemma length_op_shr [simp]: "length (op_shr a n) = length a"
  by (cases a) (use shr_fold [of 0 a] in \<open>auto simp: op_shr_def\<close>)

lemma nth_op_shl:
  assumes "j < length a"
  shows "op_shl a n ! j =
    (if n div 32 + 1 \<le> j \<and> n mod 32 \<noteq> 0 then drop_bit (32 - n mod 32) (a ! (j - n div 32 - 1)) else 0) OR
    (if n div 32 \<le> j then push_bit (n mod 32) (a ! (j - n div 32)) else 0)"
  using shl_fold [OF assms, of "n div 32" "n mod 32" "length a"] assms by (auto simp: op_shl_def)

lemma nth_op_shr:
  assumes "j < length a"
  shows "op_shr a n ! j =
    (if j + n div 32 + 1 < length a \<and> n mod 32 \<noteq> 0 then push_bit (32 - n mod 32) (a ! (j + n div 32 + 1)) else 0) OR
    (if j + n div 32 < length a then drop_bit (n mod 32) (a ! (j + n div 32)) else 0)"
  using shr_fold [OF assms, of "n div 32" "n mod 32" "length a"] assms by (auto simp: op_shr_def)

lemma sub_div_mod_ge:
  fixes n s :: nat
  assumes "s \<le> n"
  shows "(n - s) div 32 = (if s mod 32 \<le> n mod 32 then n div 32 - s div 32 else n div 32 - s div 32 - 1)"
    and "(n - s) mod 32 = (if s mod 32 \<le> n mod 32 then n mod 32 - s mod 32 else 32 + n mod 32 - s mod 32)"
proof -
  define q r q' r' where "q = n div 32" "r = n mod 32" "q' = s div 32" "r' = s mod 32"
  have n: "n = 32 * q + r" "r < 32" and s: "s = 32 * q' + r'" "r' < 32"
    by (simp_all add: q_r_q'_r'_def)
  have "q' \<le> q" unfolding q_r_q'_r'_def using assms by (rule div_le_mono)
  then obtain d where d: "q = q' + d" using le_Suc_ex by blast
  have "(n - s) div 32 = (if r' \<le> r then d else d - 1) \<and>
        (n - s) mod 32 = (if r' \<le> r then r - r' else 32 + r - r')"
  proof (cases "r' \<le> r")
    case True
    then obtain t where t: "r = r' + t" using le_Suc_ex by blast
    then have "n - s = 32 * d + t" using n s d by simp
    then show ?thesis using t n by simp
  next
    case False
    then obtain e where e: "d = Suc e" using assms n s d by (cases d) simp_all
    obtain t where t: "32 + r = r' + t" "t < 32" using False n s le_Suc_ex [of r' "32 + r"] by auto
    then have "n - s = 32 * e + t" using n s d e by simp
    then show ?thesis using False t e by simp
  qed
  then show "(n - s) div 32 = (if s mod 32 \<le> n mod 32 then n div 32 - s div 32 else n div 32 - s div 32 - 1)"
    and "(n - s) mod 32 = (if s mod 32 \<le> n mod 32 then n mod 32 - s mod 32 else 32 + n mod 32 - s mod 32)"
    using d by (simp_all flip: q_r_q'_r'_def)
qed

lemma le_div_mod_iff:
  "(s :: nat) \<le> n \<longleftrightarrow> s div 32 < n div 32 \<or> (s div 32 = n div 32 \<and> s mod 32 \<le> n mod 32)"
proof -
  have n: "n = 32 * (n div 32) + n mod 32" "n mod 32 < 32" by simp_all
  have s: "s = 32 * (s div 32) + s mod 32" "s mod 32 < 32" by simp_all
  show ?thesis using n s by linarith
qed

lemma limbs_val_shl:
  "limbs_val (op_shl a s) = (limbs_val a * 2 ^ s) mod 2 ^ (32 * length a)"
proof -
  have "limbs_val (op_shl a s) = take_bit (32 * length a) (push_bit s (limbs_val a))"
  proof (rule bit_eqI)
    fix n
    show "bit (limbs_val (op_shl a s)) n = bit (take_bit (32 * length a) (push_bit s (limbs_val a))) n"
    proof (cases "n < 32 * length a")
      case True
      then have j: "n div 32 < length a" by (simp add: less_mult_imp_div_less mult.commute)
      show ?thesis
      proof (cases "s \<le> n")
        case le: True
        then have "s div 32 \<le> n div 32" by (rule div_le_mono)
        moreover have "n mod 32 < s mod 32 \<Longrightarrow> s div 32 < n div 32"
          using le le_div_mod_iff [of s n] by auto
        moreover have "s mod 32 \<le> n mod 32 \<Longrightarrow> \<not> bit (w :: u32) (32 + n mod 32 - s mod 32)" for w
          using bit_imp_le_length [of w "32 + n mod 32 - s mod 32"] by auto
        ultimately show ?thesis using True j le
          by (cases "s mod 32 \<le> n mod 32")
            (auto simp: bit_limbs_val bit_take_bit_iff bit_push_bit_iff nth_op_shl bit_or_iff
              bit_drop_bit_eq sub_div_mod_ge)
      next
        case False
        then have "n div 32 < s div 32 \<or> n div 32 = s div 32 \<and> n mod 32 < s mod 32"
          using le_div_mod_iff [of s n] by auto
        then show ?thesis using True False j
          by (auto simp: bit_limbs_val bit_take_bit_iff bit_push_bit_iff nth_op_shl bit_or_iff)
      qed
    next
      case False
      then show ?thesis by (simp add: bit_limbs_val bit_take_bit_iff div_less_iff_less_mult mult.commute)
    qed
  qed
  then show ?thesis by (simp add: take_bit_eq_mod push_bit_eq_mult)
qed

lemma add_div_mod_32:
  fixes n s :: nat
  shows "n mod 32 + s mod 32 < 32 \<Longrightarrow> (n + s) div 32 = n div 32 + s div 32 \<and> (n + s) mod 32 = n mod 32 + s mod 32"
    and "\<not> n mod 32 + s mod 32 < 32 \<Longrightarrow>
      (n + s) div 32 = n div 32 + s div 32 + 1 \<and> (n + s) mod 32 = n mod 32 - (32 - s mod 32)"
proof -
  define q r q' r' where qr: "q = n div 32" "r = n mod 32" "q' = s div 32" "r' = s mod 32"
  have n: "n = 32 * q + r" "r < 32" and s: "s = 32 * q' + r'" "r' < 32" by (simp_all add: qr)
  show "n mod 32 + s mod 32 < 32 \<Longrightarrow> (n + s) div 32 = n div 32 + s div 32 \<and> (n + s) mod 32 = n mod 32 + s mod 32"
    unfolding qr [symmetric]
  proof -
    assume "r + r' < 32"
    then obtain t where t: "r + r' = t" "t < 32" by blast
    obtain u where u: "u = q + q'" by blast
    then have "n + s = 32 * u + t" using n s t by simp
    then show "(n + s) div 32 = q + q' \<and> (n + s) mod 32 = r + r'" using t by (simp flip: u)
  qed
  show "\<not> n mod 32 + s mod 32 < 32 \<Longrightarrow>
      (n + s) div 32 = n div 32 + s div 32 + 1 \<and> (n + s) mod 32 = n mod 32 - (32 - s mod 32)"
    unfolding qr [symmetric]
  proof -
    assume "\<not> r + r' < 32"
    then obtain t where t: "r + r' = 32 + t" using le_Suc_ex [of 32 "r + r'"] by auto
    then have "t < 32" using n s by linarith
    obtain u where u: "u = q + q' + 1" by blast
    then have "n + s = 32 * u + t" using n s t by simp
    then have "(n + s) div 32 = u \<and> (n + s) mod 32 = t" using \<open>t < 32\<close> by simp
    moreover have "r - (32 - r') = t" using t s by linarith
    ultimately show "(n + s) div 32 = q + q' + 1 \<and> (n + s) mod 32 = r - (32 - r')"
      by (simp add: u)
  qed
qed

lemma bit_shr_limb:
  fixes x y :: u32
  assumes "p < 32" "t < 32"
  shows "bit (push_bit (32 - t) y) p \<and> t \<noteq> 0 \<or> bit (drop_bit t x) p \<longleftrightarrow>
    (if p + t < 32 then bit x (p + t) else bit y (p - (32 - t)))"
  using assms bit_imp_le_length [of x "p + t"] by (auto simp: bit_push_bit_iff bit_drop_bit_eq add.commute)

lemma limbs_val_shr: "limbs_val (op_shr a s) = limbs_val a div 2 ^ s"
proof -
  have "limbs_val (op_shr a s) = drop_bit s (limbs_val a)"
  proof (rule bit_eqI)
    fix n
    have rhs: "bit (drop_bit s (limbs_val a)) n \<longleftrightarrow>
        (n + s) div 32 < length a \<and> bit (a ! ((n + s) div 32)) ((n + s) mod 32)"
      by (simp only: bit_drop_bit_eq comp_def add.commute [of s n] bit_limbs_val)
    have pt: "n mod 32 < 32" "s mod 32 < 32" by simp_all
    show "bit (limbs_val (op_shr a s)) n = bit (drop_bit s (limbs_val a)) n"
    proof (cases "n div 32 < length a")
      case False
      then have "\<not> (n + s) div 32 < length a"
        using div_le_mono [of n "n + s" 32] by simp
      with False show ?thesis by (simp only: rhs bit_limbs_val length_op_shr simp_thms)
    next
      case True
      have lhs: "bit (limbs_val (op_shr a s)) n \<longleftrightarrow>
          (n div 32 + s div 32 + 1 < length a \<and>
            bit (push_bit (32 - s mod 32) (a ! (n div 32 + s div 32 + 1))) (n mod 32) \<and> s mod 32 \<noteq> 0) \<or>
          (n div 32 + s div 32 < length a \<and> bit (drop_bit (s mod 32) (a ! (n div 32 + s div 32))) (n mod 32))"
        by (simp only: bit_limbs_val length_op_shr True nth_op_shr [OF True] bit_or_iff if_distrib [of "\<lambda>w. bit w (n mod 32)"] bit_0_eq bot_apply) auto
      show ?thesis
      proof (cases "n mod 32 + s mod 32 < 32")
        case lt: True
        show ?thesis
          unfolding lhs rhs add_div_mod_32(1) [OF lt, THEN conjunct1] add_div_mod_32(1) [OF lt, THEN conjunct2]
          using bit_shr_limb [OF pt, of "a ! (n div 32 + s div 32 + 1)" "a ! (n div 32 + s div 32)"] lt
            bit_shr_limb [OF pt, of "a ! (n div 32 + s div 32 + 1)" 0]
          by auto
      next
        case ge: False
        show ?thesis
          unfolding lhs rhs add_div_mod_32(2) [OF ge, THEN conjunct1] add_div_mod_32(2) [OF ge, THEN conjunct2]
          using bit_shr_limb [OF pt, of "a ! (n div 32 + s div 32 + 1)" "a ! (n div 32 + s div 32)"] ge
            bit_shr_limb [OF pt, of 0 "a ! (n div 32 + s div 32)"]
          by auto
      qed
    qed
  qed
  then show ?thesis by (simp add: drop_bit_eq_div)
qed

section \<open>Multiplication\<close>

lemma base_step:
  fixes n X M B :: int
  assumes "0 \<le> M" "0 < B"
  shows "(n + B * X) mod (B * M) = n mod B + B * ((n div B + X) mod M)"
  using zmod_zmult2_eq [OF assms(1), of "n + B * X" B] assms(2) by (simp add: add.commute)

lemma uint_prod_le: "uint (x :: u32) * uint (y :: u32) \<le> (2 ^ 32 - 1) * (2 ^ 32 - 1)"
  by (rule mult_mono) (use uint_u32_le [of x] uint_u32_le [of y] in simp_all)

lemma uint_mul_dword: "uint (ucast (x :: u32) * ucast (y :: u32) :: u64) = uint x * uint y"
  using uint_prod_le [of x y] by (subst uint_mul_no_wrap) simp_all

lemma uint_mac:
  assumes "uint c < 2 ^ 32"
  shows "uint (c + ucast p + ucast x * ucast y :: u64) = uint c + uint (p :: u32) + uint (x :: u32) * uint (y :: u32)"
proof -
  have 1: "uint (c + ucast p :: u64) = uint c + uint p"
    using assms uint_u32_le [of p] by (subst uint_add_no_wrap) simp_all
  show ?thesis
    using 1 assms uint_u32_le [of p] uint_prod_le [of x y]
    by (subst uint_add_no_wrap) (simp_all add: uint_mul_dword)
qed

lemma uint_mac2:
  assumes "uint c < 2 ^ 32"
  shows "uint (c + ucast x * ucast y :: u64) = uint c + uint (x :: u32) * uint (y :: u32)"
  using uint_mac [OF assms, of 0 x y] by simp

lemma length_mul_u32_carry [simp]: "length (mul_u32_carry c b a) = length a"
  by (induction c b a rule: mul_u32_carry.induct) (simp_all add: Let_def)

lemma limbs_val_mul_u32_carry:
  "uint carry < 2 ^ 32 \<Longrightarrow>
   limbs_val (mul_u32_carry carry b a) = (uint carry + uint b * limbs_val a) mod 2 ^ (32 * length a)"
proof (induction a arbitrary: carry)
  case (Cons x xs)
  define n where "n = carry + ucast b * ucast x"
  have n: "uint n = uint carry + uint b * uint x"
    unfolding n_def using Cons.prems by (rule uint_mac2)
  have "uint (drop_bit 32 n) < 2 ^ 32"
    using n Cons.prems uint_prod_le [of b x] by (simp add: uint_high_dword)
  then have IH: "limbs_val (mul_u32_carry (drop_bit 32 n) b xs) =
      (uint n div 2 ^ 32 + uint b * limbs_val xs) mod 2 ^ (32 * length xs)"
    by (simp only: Cons.IH uint_high_dword)
  have "(uint carry + uint b * limbs_val (x # xs)) mod 2 ^ (32 * length (x # xs)) =
     (uint n + 2 ^ 32 * (uint b * limbs_val xs)) mod (2 ^ 32 * 2 ^ (32 * length xs))"
    by (subst n) (simp add: power_add algebra_simps)
  also have "\<dots> = uint n mod 2 ^ 32 +
      2 ^ 32 * ((uint n div 2 ^ 32 + uint b * limbs_val xs) mod 2 ^ (32 * length xs))"
    by (rule limb_step) simp
  also have "\<dots> = limbs_val (mul_u32_carry carry b (x # xs))"
    by (simp only: mul_u32_carry.simps Let_def limbs_val_Cons IH low_dword_and uint_low_dword
        flip: n_def)
  finally show ?case by simp
qed simp

lemma limbs_val_mul_u32:
  "limbs_val (op_mul_u32 a b) = (limbs_val a * uint b) mod 2 ^ (32 * length a)"
  by (simp add: op_mul_u32_def limbs_val_mul_u32_carry mult.commute)

lemma length_mul_row [simp]: "length (mul_row c x ps ys) = length ps"
  by (induction c x ps ys rule: mul_row.induct) (simp_all add: Let_def)

lemma limbs_val_mul_row:
  "length ps \<le> length ys \<Longrightarrow> uint carry < 2 ^ 32 \<Longrightarrow>
   limbs_val (mul_row carry x ps ys) =
     (uint carry + limbs_val ps + uint x * limbs_val ys) mod 2 ^ (32 * length ps)"
proof (induction ps arbitrary: carry ys)
  case (Cons p ps)
  then obtain y zs where ys: "ys = y # zs" "length ps \<le> length zs" by (cases ys) simp_all
  define n where "n = carry + ucast p + ucast x * ucast y"
  have n: "uint n = uint carry + uint p + uint x * uint y"
    unfolding n_def using Cons.prems(2) by (rule uint_mac)
  have "uint (drop_bit 32 n) < 2 ^ 32"
    using n Cons.prems uint_prod_le [of x y] uint_u32_le [of p] by (simp add: uint_high_dword)
  then have IH: "limbs_val (mul_row (drop_bit 32 n) x ps zs) =
      (uint n div 2 ^ 32 + (limbs_val ps + uint x * limbs_val zs)) mod 2 ^ (32 * length ps)"
    by (simp only: Cons.IH ys uint_high_dword add.assoc)
  have "(uint carry + limbs_val (p # ps) + uint x * limbs_val ys) mod 2 ^ (32 * length (p # ps)) =
     (uint n + 2 ^ 32 * (limbs_val ps + uint x * limbs_val zs)) mod (2 ^ 32 * 2 ^ (32 * length ps))"
    by (subst n) (simp add: ys power_add algebra_simps)
  also have "\<dots> = uint n mod 2 ^ 32 +
      2 ^ 32 * ((uint n div 2 ^ 32 + (limbs_val ps + uint x * limbs_val zs)) mod 2 ^ (32 * length ps))"
    by (rule limb_step) simp
  also have "\<dots> = limbs_val (mul_row carry x (p # ps) ys)"
    by (simp only: ys mul_row.simps Let_def limbs_val_Cons IH low_dword_and uint_low_dword
        flip: n_def)
  finally show ?case by simp
qed simp

lemma limbs_val_split:
  "j \<le> length a \<Longrightarrow> limbs_val a = limbs_val (take j a) + 2 ^ (32 * j) * limbs_val (drop j a)"
  using limbs_val_append [of "take j a" "drop j a"] by (simp add: min_absorb2)

lemma limbs_val_take_Suc:
  "j < length a \<Longrightarrow> limbs_val (take (Suc j) a) = limbs_val (take j a) + 2 ^ (32 * j) * uint (a ! j)"
  by (simp add: take_Suc_conv_app_nth limbs_val_append min_absorb2)

lemma limbs_val_take_less: "limbs_val (take j a) < 2 ^ (32 * j)"
proof -
  have "limbs_val (take j a) < 2 ^ (32 * length (take j a))" by (rule limbs_val_less)
  also have "\<dots> \<le> (2 :: int) ^ (32 * j)" by (rule power_increasing) simp_all
  finally show ?thesis .
qed

lemma length_mul_step [simp]: "j \<le> length pn \<Longrightarrow> length (mul_step a b pn j) = length pn"
  by (simp add: mul_step_def)

lemma limbs_val_mul_step:
  assumes "j < length pn" "length b = length pn"
  shows "limbs_val (mul_step a b pn j) =
    (limbs_val pn + 2 ^ (32 * j) * (uint (a ! j) * limbs_val b)) mod 2 ^ (32 * length pn)"
proof -
  let ?B = "2 ^ (32 * j) :: int"
  have M: "(2 :: int) ^ (32 * length pn) = ?B * 2 ^ (32 * (length pn - j))"
    using assms by (simp flip: power_add add: algebra_simps)
  have row: "limbs_val (mul_row 0 (a ! j) (drop j pn) b) =
      (limbs_val (drop j pn) + uint (a ! j) * limbs_val b) mod 2 ^ (32 * (length pn - j))"
    using assms by (simp add: limbs_val_mul_row)
  have "limbs_val (mul_step a b pn j) = limbs_val (take j pn) +
     ?B * ((limbs_val (drop j pn) + uint (a ! j) * limbs_val b) mod 2 ^ (32 * (length pn - j)))"
    using assms by (simp add: mul_step_def limbs_val_append row)
  also have "\<dots> = (limbs_val (take j pn) + ?B * (limbs_val (drop j pn) + uint (a ! j) * limbs_val b))
      mod (?B * 2 ^ (32 * (length pn - j)))"
    using limbs_val_take_less [of j pn] by (subst base_step) simp_all
  also have "\<dots> = (limbs_val pn + ?B * (uint (a ! j) * limbs_val b)) mod 2 ^ (32 * length pn)"
    using assms by (simp only: M limbs_val_split [of j pn] less_imp_le) (simp add: algebra_simps)
  finally show ?thesis .
qed

lemma mul_fold:
  assumes "m \<le> length a" "length b = length a"
  shows "length (foldl (mul_step a b) (replicate (length a) 0) [0..<m]) = length a \<and>
    limbs_val (foldl (mul_step a b) (replicate (length a) 0) [0..<m]) =
      (limbs_val (take m a) * limbs_val b) mod 2 ^ (32 * length a)"
  using assms(1)
proof (induction m)
  case (Suc m)
  then show ?case using assms(2)
    by (simp add: limbs_val_mul_step mod_add_left_eq) (simp add: limbs_val_take_Suc algebra_simps)
qed simp

lemma limbs_val_mul:
  "length b = length a \<Longrightarrow> limbs_val (op_mul a b) = (limbs_val a * limbs_val b) mod 2 ^ (32 * length a)"
  using mul_fold [of "length a" a b] by (simp add: op_mul_def)

lemma length_op_mul [simp]: "length b = length a \<Longrightarrow> length (op_mul a b) = length a"
  using mul_fold [of "length a" a b] by (simp add: op_mul_def)

lemma length_op_mul_u32 [simp]: "length (op_mul_u32 a w) = length a"
  by (simp add: op_mul_u32_def)

section \<open>Comparison is the order of the values\<close>

lemma compare_from_sgn:
  "n \<le> length a \<Longrightarrow> length b = length a \<Longrightarrow>
   compare_from a b n = sgn (limbs_val (take n a) - limbs_val (take n b))"
proof (induction n)
  case (Suc i)
  have lt: "limbs_val (take i a) + 2 ^ (32 * i) * uint x < limbs_val (take i b) + 2 ^ (32 * i) * uint y"
    if "x < y" for x y :: u32 and a b
  proof -
    have "uint x + 1 \<le> uint y" using that by (simp add: word_less_def)
    then have "2 ^ (32 * i) * (uint x + 1) \<le> 2 ^ (32 * i) * uint y" by (intro mult_left_mono) simp_all
    then show ?thesis using limbs_val_take_less [of i a] limbs_val_nonneg [of "take i b"]
      unfolding distrib_left by linarith
  qed
  show ?case
    using Suc lt [of "a ! i" "b ! i" a b] lt [of "b ! i" "a ! i" b a]
    by (cases "a ! i" "b ! i" rule: linorder_cases) (simp_all add: limbs_val_take_Suc)
qed simp

lemma op_compare_sgn:
  "length b = length a \<Longrightarrow> op_compare a b = sgn (limbs_val a - limbs_val b)"
  by (simp add: op_compare_def compare_from_sgn)

section \<open>The bit length\<close>

definition bit_length_of :: "nat \<Rightarrow> int \<Rightarrow> bool" where
  "bit_length_of n v \<longleftrightarrow> (if v = 0 then n = 0 else 0 < n \<and> 2 ^ (n - 1) \<le> v \<and> v < 2 ^ n)"

lemma bit_top_iff:
  fixes v :: int
  assumes "0 \<le> v" "v < 2 ^ Suc n"
  shows "bit v n \<longleftrightarrow> 2 ^ n \<le> v"
proof (cases "2 ^ n \<le> v")
  case True
  define r where "r = v - 2 ^ n"
  have "0 \<le> r" "r < 2 ^ n" and v: "v = r + 2 ^ n" using True assms by (simp_all add: r_def)
  then have "v div 2 ^ n = 1" using div_add_self2 [of "2 ^ n" r] by simp
  then show ?thesis using True by (simp add: bit_iff_odd)
qed (use assms in \<open>simp add: bit_iff_odd\<close>)

lemma top_bit_length:
  "n < 32 \<Longrightarrow> 0 < uint w \<Longrightarrow> uint w < 2 ^ Suc n \<Longrightarrow> bit_length_of (top_bit w n) (uint w)"
proof (induction n)
  case (Suc n)
  have b: "w AND push_bit (Suc n) 1 \<noteq> 0 \<longleftrightarrow> 2 ^ Suc n \<le> uint w"
    using Suc.prems bit_top_iff [of "uint w" "Suc n"]
    by (simp add: push_bit_of_1 and_exp_eq_0_iff_not_bit bit_uint_iff del: power_Suc)
  then show ?case using Suc by (simp add: bit_length_of_def del: power_Suc)
qed (simp add: bit_length_of_def)

lemma bit_length_of_shift:
  assumes "bit_length_of n v" "0 < v" "0 \<le> r" "r < 2 ^ k"
  shows "bit_length_of (k + n) (r + 2 ^ k * v)"
proof -
  have n: "0 < n" "2 ^ (n - 1) \<le> v" "v + 1 \<le> 2 ^ n" using assms by (auto simp: bit_length_of_def)
  have "2 ^ k * 2 ^ (n - 1) \<le> 2 ^ k * v" "2 ^ k * (v + 1) \<le> 2 ^ k * 2 ^ n"
    using n by (intro mult_left_mono; simp)+
  then have "2 ^ (k + (n - 1)) \<le> r + 2 ^ k * v" "r + 2 ^ k * v < 2 ^ (k + n)"
    using assms unfolding power_add distrib_left by linarith+
  moreover have "0 < r + 2 ^ k * v" using assms by (simp add: add_nonneg_pos)
  moreover have "k + n - 1 = k + (n - 1)" using n by simp
  ultimately show ?thesis using n by (simp add: bit_length_of_def)
qed

lemma bits_from_length: "n \<le> length a \<Longrightarrow> bit_length_of (bits_from a n) (limbs_val (take n a))"
proof (induction n)
  case (Suc pos)
  show ?case
  proof (cases "a ! pos = 0")
    case False
    then have "0 < uint (a ! pos)" by (simp add: word_neq_0_conv word_less_def)
    moreover have "uint (a ! pos) < 2 ^ Suc 31" using uint_u32_le [of "a ! pos"] by simp
    ultimately have "bit_length_of (32 * pos + top_bit (a ! pos) 31)
        (limbs_val (take pos a) + 2 ^ (32 * pos) * uint (a ! pos))"
      by (intro bit_length_of_shift top_bit_length limbs_val_take_less) simp_all
    then show ?thesis using False Suc.prems by (simp add: limbs_val_take_Suc)
  qed (use Suc in \<open>simp add: limbs_val_take_Suc\<close>)
qed (simp add: bit_length_of_def)

lemma op_bits_length: "bit_length_of (op_bits a) (limbs_val a)"
  using bits_from_length [of "length a" a] by (simp add: op_bits_def)

lemma op_bits_le: "op_bits a \<le> 32 * length a"
proof (rule ccontr)
  assume "\<not> ?thesis"
  then have "32 * length a \<le> op_bits a - 1" "op_bits a \<noteq> 0" by simp_all
  then have "(2 :: int) ^ (32 * length a) \<le> 2 ^ (op_bits a - 1)" by (intro power_increasing) simp_all
  also have "\<dots> \<le> limbs_val a"
    using op_bits_length [of a] \<open>op_bits a \<noteq> 0\<close> by (auto simp: bit_length_of_def split: if_splits)
  finally show False using limbs_val_less [of a] by simp
qed

section \<open>Division\<close>

lemma bit_length_of_less_iff:
  assumes "bit_length_of m u" "bit_length_of n v" "0 \<le> u" "0 \<le> v" "m < n"
  shows "u < v"
proof -
  have "u < 2 ^ m" using assms by (auto simp: bit_length_of_def split: if_splits)
  also have "(2 :: int) ^ m \<le> 2 ^ (n - 1)" using assms by (intro power_increasing) simp_all
  also have "\<dots> \<le> v" using assms by (auto simp: bit_length_of_def split: if_splits)
  finally show ?thesis .
qed

lemma limbs_val_set_limb_bit:
  assumes "i < 32 * length q" "\<not> bit (limbs_val q) i"
  shows "limbs_val (q[i div 32 := q ! (i div 32) OR push_bit (i mod 32) 1]) = limbs_val q + 2 ^ i"
proof -
  let ?q' = "q[i div 32 := q ! (i div 32) OR push_bit (i mod 32) 1]"
  have i: "i div 32 < length q" using assms(1) by (simp add: div_less_iff_less_mult mult.commute)
  have "limbs_val ?q' = limbs_val q OR 2 ^ i"
  proof (rule bit_eqI)
    fix n
    have eq: "n = i \<longleftrightarrow> n div 32 = i div 32 \<and> n mod 32 = i mod 32"
      by (metis mult_div_mod_eq)
    show "bit (limbs_val ?q') n = bit (limbs_val q OR 2 ^ i) n"
    proof (cases "n div 32 = i div 32")
      case True
      then show ?thesis using i eq
        by (auto simp: bit_limbs_val bit_or_iff bit_push_bit_iff bit_1_iff bit_exp_iff)
    next
      case False
      then show ?thesis using i eq by (auto simp: bit_limbs_val bit_or_iff bit_exp_iff)
    qed
  qed
  also have "\<dots> = limbs_val q + 2 ^ i"
    using assms(2) by (subst disjunctive_add) (auto simp: bit_exp_iff)
  finally show ?thesis .
qed

lemma div_loop_correct:
  assumes "n \<le> 32 * length num" "length d = length num" "length q = length num" "0 < D"
    and "n = 0 \<or> limbs_val d = D * 2 ^ (n - 1)" "limbs_val num < D * 2 ^ n" "limbs_val q mod 2 ^ n = 0"
    and "div_loop n num d q = (q', r)"
  shows "limbs_val q' = limbs_val q + limbs_val num div D \<and> limbs_val r = limbs_val num mod D \<and>
    length q' = length num \<and> length r = length num"
  using assms
proof (induction n arbitrary: num d q)
  case 0
  then show ?case by simp
next
  case (Suc shift)
  let ?v = "limbs_val num"
  have d: "limbs_val d = D * 2 ^ shift" using Suc.prems by simp
  have d1: "shift = 0 \<or> limbs_val (op_shr d 1) = D * 2 ^ (shift - 1)"
    by (cases shift) (simp_all add: limbs_val_shr d)
  have q0: "limbs_val q mod 2 ^ shift = 0"
    using Suc.prems(7) by (metis dvd_eq_mod_eq_0 le_imp_power_dvd dvd_trans le_SucI le_refl)
  show ?case
  proof (cases "op_ge num d")
    case True
    then have ge: "D * 2 ^ shift \<le> ?v"
      using Suc.prems by (simp add: op_ge_def op_compare_sgn d sgn_if split: if_splits)
    let ?q1 = "q[shift div 32 := q ! (shift div 32) OR push_bit (shift mod 32) 1]"
    have "\<not> bit (limbs_val q) shift"
      using Suc.prems(7) by (metis bit_take_bit_iff lessI take_bit_eq_mod bit_0_eq bot_apply bot_bool_def)
    then have q1: "limbs_val ?q1 = limbs_val q + 2 ^ shift"
      using Suc.prems by (intro limbs_val_set_limb_bit) simp_all
    have s: "limbs_val (op_sub num d) = ?v - D * 2 ^ shift"
      using Suc.prems ge limbs_val_less [of num] limbs_val_nonneg [of d]
      by (simp add: limbs_val_sub d)
    have v: "?v div D = 2 ^ shift + (?v - D * 2 ^ shift) div D" "?v mod D = (?v - D * 2 ^ shift) mod D"
      using \<open>0 < D\<close> div_mult_self4 [of D "2 ^ shift" "?v - D * 2 ^ shift"]
        mod_mult_self4 [of D "2 ^ shift" "?v - D * 2 ^ shift"] by simp_all
    have "limbs_val ?q1 mod 2 ^ shift = 0" unfolding q1 using q0 by simp
    then have "limbs_val q' = limbs_val ?q1 + limbs_val (op_sub num d) div D \<and>
        limbs_val r = limbs_val (op_sub num d) mod D \<and>
        length q' = length (op_sub num d) \<and> length r = length (op_sub num d)"
      using Suc.prems True d1 s by (intro Suc.IH [of "op_sub num d" "op_shr d 1" ?q1]) simp_all
    then show ?thesis using Suc.prems(2,3) q1 by (simp add: v s)
  next
    case False
    then have "?v < D * 2 ^ shift"
      using Suc.prems by (simp add: op_ge_def op_compare_sgn d sgn_if split: if_splits)
    then show ?thesis using Suc.prems False d1 q0
      by (intro Suc.IH [of num "op_shr d 1" q]) simp_all
  qed
qed


lemma op_bits_0_iff: "op_bits a = 0 \<longleftrightarrow> limbs_val a = 0"
  using op_bits_length [of a] by (auto simp: bit_length_of_def split: if_splits)

lemma div_start:
  assumes "limbs_val b \<noteq> 0" "op_bits b \<le> op_bits a" "length b = length a"
  defines "s \<equiv> op_bits a - op_bits b"
  shows "limbs_val (op_shl b s) = limbs_val b * 2 ^ s" and "limbs_val a < limbs_val b * 2 ^ Suc s"
proof -
  have b: "0 < op_bits b" "2 ^ (op_bits b - 1) \<le> limbs_val b" "limbs_val b < 2 ^ op_bits b"
    using op_bits_length [of b] assms(1) by (auto simp: bit_length_of_def)
  have a: "limbs_val a < 2 ^ op_bits a"
    using op_bits_length [of a] by (auto simp: bit_length_of_def split: if_splits)
  have "limbs_val b * 2 ^ s < 2 ^ op_bits b * 2 ^ s" using b by simp
  also have "\<dots> = 2 ^ op_bits a" using assms(2) by (simp add: s_def flip: power_add)
  also have "\<dots> \<le> (2 :: int) ^ (32 * length a)" using op_bits_le [of a] by (intro power_increasing) simp_all
  finally show "limbs_val (op_shl b s) = limbs_val b * 2 ^ s" using assms(3) by (simp add: limbs_val_shl)
  have "op_bits a = (op_bits b - 1) + Suc s" using b assms(2) by (simp add: s_def)
  then have "(2 :: int) ^ op_bits a = 2 ^ (op_bits b - 1) * 2 ^ Suc s" by (simp only: power_add)
  also have "\<dots> \<le> limbs_val b * 2 ^ Suc s" using b by (intro mult_right_mono) simp_all
  finally show "limbs_val a < limbs_val b * 2 ^ Suc s" using a by simp
qed

lemma op_divmod_correct:
  assumes "length b = length a"
  shows "if limbs_val b = 0 then op_divmod a b = Inl Division_by_zero
    else \<exists>q r. op_divmod a b = Inr (q, r) \<and> length q = length a \<and> length r = length a \<and>
      limbs_val q = limbs_val a div limbs_val b \<and> limbs_val r = limbs_val a mod limbs_val b"
proof (cases "limbs_val b = 0")
  case True
  then show ?thesis by (simp add: op_divmod_def Let_def op_bits_0_iff)
next
  case nz: False
  show ?thesis
  proof (cases "op_bits a < op_bits b")
    case True
    then have "limbs_val a < limbs_val b"
      using bit_length_of_less_iff [OF op_bits_length op_bits_length] by simp
    then show ?thesis using nz True by (simp add: op_divmod_def Let_def op_bits_0_iff)
  next
    case False
    define s where "s = op_bits a - op_bits b"
    obtain q r where qr: "div_loop (Suc s) a (op_shl b s) (replicate (length a) 0) = (q, r)" by force
    have "op_bits b \<noteq> 0" using nz by (simp add: op_bits_0_iff)
    have le: "op_bits b \<le> op_bits a" using False by simp
    have "limbs_val q = limbs_val (replicate (length a) 0) + limbs_val a div limbs_val b \<and>
        limbs_val r = limbs_val a mod limbs_val b \<and> length q = length a \<and> length r = length a"
    proof (rule div_loop_correct [OF _ _ _ _ _ _ _ qr])
      show "Suc s \<le> 32 * length a" using op_bits_le [of a] \<open>op_bits b \<noteq> 0\<close> le by (simp add: s_def)
      show "0 < limbs_val b" using nz by (simp add: order.strict_iff_order)
    qed (use assms div_start [OF nz le assms] in \<open>simp_all add: s_def\<close>)
    then show ?thesis using nz False \<open>op_bits b \<noteq> 0\<close> qr
      by (simp add: op_divmod_def Let_def s_def)
  qed
qed

section \<open>Properties\<close>

text \<open>the arithmetic operators of \<open>arith_uint256\<close> (addition, subtraction, multiplication by a
  number and by a word, negation, complement, increment, decrement and both shifts) are the integer
  operations modulo \<open>2 ^ 256\<close>, and every result has the full width.\<close>

theorem uint256_arithmetic:
  assumes "wf_limbs a" "wf_limbs b"
  shows "limbs_val (op_add a b) = (limbs_val a + limbs_val b) mod 2 ^ 256 \<and>
    limbs_val (op_sub a b) = (limbs_val a - limbs_val b) mod 2 ^ 256 \<and>
    limbs_val (op_mul a b) = limbs_val a * limbs_val b mod 2 ^ 256 \<and>
    limbs_val (op_mul_u32 a w) = limbs_val a * uint w mod 2 ^ 256 \<and>
    limbs_val (op_neg a) = (- limbs_val a) mod 2 ^ 256 \<and>
    limbs_val (op_not a) = 2 ^ 256 - 1 - limbs_val a \<and>
    limbs_val (op_inc a) = (limbs_val a + 1) mod 2 ^ 256 \<and>
    limbs_val (op_dec a) = (limbs_val a - 1) mod 2 ^ 256 \<and>
    limbs_val (op_shl a s) = limbs_val a * 2 ^ s mod 2 ^ 256 \<and>
    limbs_val (op_shr a s) = limbs_val a div 2 ^ s \<and>
    (\<forall>r \<in> {op_add a b, op_sub a b, op_mul a b, op_mul_u32 a w, op_neg a, op_not a, op_inc a,
          op_dec a, op_shl a s, op_shr a s}. wf_limbs r)"
  using assms
  by (simp_all add: wf_limbs_def WIDTH_def limbs_val_add limbs_val_sub limbs_val_mul limbs_val_mul_u32
      limbs_val_neg limbs_val_not limbs_val_inc limbs_val_dec limbs_val_shl limbs_val_shr)

theorem uint256_arithmetic_witness:
  "limbs_val (op_mul (7 # replicate 7 0) (op_not (replicate 8 0))) = 2 ^ 256 - 7"
proof -
  have wf: "wf_limbs (7 # replicate 7 0)" "wf_limbs (op_not (replicate 8 0))"
    by (simp_all add: wf_limbs_def WIDTH_def)
  show ?thesis
    using uint256_arithmetic [OF wf] limbs_val_not [of "replicate 8 0"] by simp
qed

text \<open>\<open>operator/=\<close> raises the division error exactly for a zero divisor; otherwise its shift and
  subtract loop yields the integer quotient and leaves the remainder in \<open>num\<close>.\<close>

theorem uint256_division:
  assumes "wf_limbs a" "wf_limbs b"
  shows "if limbs_val b = 0 then op_divmod a b = Inl Division_by_zero
    else \<exists>q r. op_divmod a b = Inr (q, r) \<and> op_div a b = Inr q \<and> wf_limbs q \<and> wf_limbs r \<and>
      limbs_val q = limbs_val a div limbs_val b \<and> limbs_val r = limbs_val a mod limbs_val b"
  using op_divmod_correct [of b a] assms by (auto simp: wf_limbs_def op_div_def)

theorem uint256_division_witness:
  "\<exists>q. op_div (100 # replicate 7 0) (7 # replicate 7 0) = Inr q \<and> limbs_val q = 14"
  using uint256_division [of "100 # replicate 7 0" "7 # replicate 7 0"]
  by (auto simp: wf_limbs_def WIDTH_def)

text \<open>the comparison operators order numbers by their values, and \<open>bits\<close> is one more than the
  index of the highest bit set, zero for zero.\<close>

theorem uint256_order_bits:
  assumes "wf_limbs a" "wf_limbs b"
  shows "(op_less a b \<longleftrightarrow> limbs_val a < limbs_val b) \<and> (op_le a b \<longleftrightarrow> limbs_val a \<le> limbs_val b) \<and>
    (op_greater a b \<longleftrightarrow> limbs_val a > limbs_val b) \<and> (op_ge a b \<longleftrightarrow> limbs_val a \<ge> limbs_val b) \<and>
    (if limbs_val a = 0 then op_bits a = 0
     else 0 < op_bits a \<and> 2 ^ (op_bits a - 1) \<le> limbs_val a \<and> limbs_val a < 2 ^ op_bits a)"
proof -
  have "length b = length a" using assms by (simp add: wf_limbs_def)
  then have "(op_less a b \<longleftrightarrow> limbs_val a < limbs_val b) \<and> (op_le a b \<longleftrightarrow> limbs_val a \<le> limbs_val b) \<and>
    (op_greater a b \<longleftrightarrow> limbs_val a > limbs_val b) \<and> (op_ge a b \<longleftrightarrow> limbs_val a \<ge> limbs_val b)"
    by (auto simp: op_less_def op_le_def op_greater_def op_ge_def op_compare_sgn sgn_if)
  moreover have "if limbs_val a = 0 then op_bits a = 0
         else 0 < op_bits a \<and> 2 ^ (op_bits a - 1) \<le> limbs_val a \<and> limbs_val a < 2 ^ op_bits a"
    using op_bits_length [of a] by (simp add: bit_length_of_def)
  ultimately show ?thesis by blast
qed

theorem uint256_order_bits_witness:
  "op_less [1, 0, 0, 0, 0, 0, 0, 0] [0, 1, 0, 0, 0, 0, 0, 0]"
  using uint256_order_bits [of "[1, 0, 0, 0, 0, 0, 0, 0]" "[0, 1, 0, 0, 0, 0, 0, 0]"]
  by (simp add: wf_limbs_def WIDTH_def)

end
