(* ===== verification/CompactTarget.thy ===== *)
theory CompactTarget
  imports ArithUint256
begin

text \<open>
  The compact encoding of difficulty targets: \<open>set_compact\<close> and \<open>get_compact\<close> of
  \<open>util/arith_uint256.cpp\<close> and \<open>GetBlockProof\<close> of \<open>storage/Consensus.cpp\<close>. \<open>compact_val\<close> is the
  documented meaning of a compact number, and the lemmas show that the routines compute it.
\<close>

section \<open>The routines\<close>

definition low_qword :: "limbs \<Rightarrow> u64" where
  "low_qword a = ucast (a ! 0) OR push_bit 32 (ucast (a ! 1))"

text \<open>The results are the number, \<open>pfNegative\<close> and \<open>pfOverflow\<close>.\<close>

definition set_compact :: "u32 \<Rightarrow> limbs \<times> bool \<times> bool" where
  "set_compact nCompact =
     (let nSize = unat (drop_bit 24 nCompact);
          nWord0 = nCompact AND 0x007fffff;
          nWord = (if nSize \<le> 3 then drop_bit (8 * (3 - nSize)) nWord0 else nWord0);
          n = (if nSize \<le> 3 then base_uint_of_u64 (ucast nWord)
               else op_shl (base_uint_of_u64 (ucast nWord)) (8 * (nSize - 3)))
      in (n,
          nWord \<noteq> 0 \<and> nCompact AND 0x00800000 \<noteq> 0,
          nWord \<noteq> 0 \<and> (nSize > 34 \<or> (nWord > 0xff \<and> nSize > 33) \<or> (nWord > 0xffff \<and> nSize > 32))))"

definition get_compact :: "limbs \<Rightarrow> bool \<Rightarrow> u32 option" where
  "get_compact a fNegative =
     (let nSize0 = (op_bits a + 7) div 8;
          nCompact0 = (if nSize0 \<le> 3 then ucast (push_bit (8 * (3 - nSize0)) (low_qword a)) :: u32
                       else ucast (low_qword (op_shr a (8 * (nSize0 - 3)))));
          (nCompact, nSize) = (if nCompact0 AND 0x00800000 \<noteq> 0 then (drop_bit 8 nCompact0, nSize0 + 1)
                               else (nCompact0, nSize0))
      in do {
        assert_that (nCompact AND NOT 0x007fffff = 0);
        assert_that (nSize < 256);
        let c = nCompact OR push_bit 24 (of_nat nSize);
        Some (c OR (if fNegative \<and> c AND 0x007fffff \<noteq> 0 then 0x00800000 else 0))
      })"

definition GetBlockProof :: "u32 \<Rightarrow> uint_error + limbs" where
  "GetBlockProof bits =
     (case set_compact bits of (bnTarget, fNegative, fOverflow) \<Rightarrow>
       if fNegative \<or> fOverflow \<or> op_equals_u64 bnTarget 0 then Inr base_uint_zero
       else (case op_div (op_not bnTarget) (op_add_u64 bnTarget 1) of
               Inl e \<Rightarrow> Inl e | Inr q \<Rightarrow> Inr (op_add_u64 q 1)))"

section \<open>Decoding\<close>

definition compact_exponent :: "u32 \<Rightarrow> nat" where
  "compact_exponent c = unat c div 2 ^ 24"

definition compact_mantissa :: "u32 \<Rightarrow> int" where
  "compact_mantissa c = uint c mod 2 ^ 23"

definition compact_val :: "u32 \<Rightarrow> int" where
  "compact_val c = (let e = compact_exponent c; m = compact_mantissa c
                    in if e \<le> 3 then m div 256 ^ (3 - e) else m * 256 ^ (e - 3))"

lemma compact_exponent_eq: "unat (drop_bit 24 c) = compact_exponent c"
  by (simp only: compact_exponent_def unsigned_drop_bit_eq drop_bit_eq_div) (simp add: unat_div)

lemma and_mask23: "c AND 0x007fffff = take_bit 23 (c :: u32)"
proof -
  have "(0x007fffff :: u32) = mask 23" by (simp add: mask_eq_exp_minus_1)
  then show ?thesis by (simp add: take_bit_eq_mask)
qed

lemma uint_mantissa: "uint (c AND 0x007fffff) = compact_mantissa c"
  by (simp add: and_mask23 compact_mantissa_def unsigned_take_bit_eq take_bit_eq_mod uint_mod)

lemma compact_exponent_less: "compact_exponent c < 256"
  using unsigned_less [of c, where ?'a = nat] by (simp add: compact_exponent_def less_mult_imp_div_less)

lemma compact_mantissa_bounds: "0 \<le> compact_mantissa c" "compact_mantissa c < 2 ^ 23"
  by (simp_all add: compact_mantissa_def)

lemma sign_bit: "c AND 0x00800000 \<noteq> 0 \<longleftrightarrow> bit (c :: u32) 23"
proof -
  have "(0x00800000 :: u32) = 2 ^ 23" by simp
  then show ?thesis by (simp only: and_exp_eq_0_iff_not_bit) simp
qed

lemma wf_base_uint_of_u64 [simp]: "length (base_uint_of_u64 b) = 8"
  by (simp add: base_uint_of_u64_def WIDTH_def)

lemma limbs_val_of_u64: "limbs_val (base_uint_of_u64 b) = uint b"
proof -
  have "uint (ucast (drop_bit 32 b) :: u32) = uint (drop_bit 32 b)"
    unfolding uint_low_dword uint_high_dword using uint_less_exp [of b]
    by (intro mod_pos_pos_trivial) (simp_all add: int_div_less_iff pos_imp_zdiv_nonneg_iff)
  then show ?thesis using dword_split [of b] by (simp add: base_uint_of_u64_def WIDTH_def)
qed


lemma uint_mantissa_shift:
  "uint (drop_bit k (c AND 0x007fffff)) = compact_mantissa c div 2 ^ k"
  by (simp only: uint_drop_bit uint_mantissa)

text \<open>The word the code keeps after its shift, and the number it stands for.\<close>

definition compact_word :: "u32 \<Rightarrow> int" where
  "compact_word c = compact_mantissa c div 256 ^ (3 - compact_exponent c)"

lemma compact_word_bounds: "0 \<le> compact_word c" "compact_word c \<le> compact_mantissa c"
proof -
  show "0 \<le> compact_word c" using compact_mantissa_bounds [of c] 
    by (simp add: compact_word_def pos_imp_zdiv_nonneg_iff)
  show "compact_word c \<le> compact_mantissa c"
    using compact_mantissa_bounds [of c]
    by (cases "compact_mantissa c = 0") (auto simp: compact_word_def intro!: int_div_le_self)
qed

lemma compact_val_word: "compact_val c = compact_word c * 256 ^ (compact_exponent c - 3)"
  by (auto simp: compact_val_def compact_word_def Let_def)

lemma uint_compact_word:
  "uint (if compact_exponent c \<le> 3 then drop_bit (8 * (3 - compact_exponent c)) (c AND 0x007fffff)
         else c AND 0x007fffff) = compact_word c"
  by (auto simp only: uint_mantissa_shift uint_mantissa compact_word_def power_mult split: if_split) 
     simp_all

lemma set_compact_word:
  "set_compact c = (n, neg, ovf) \<Longrightarrow>
   limbs_val n = compact_word c * 256 ^ (compact_exponent c - 3) mod 2 ^ 256 \<and> length n = 8 \<and>
   (neg \<longleftrightarrow> compact_word c \<noteq> 0 \<and> bit c 23) \<and>
   (ovf \<longleftrightarrow> compact_word c \<noteq> 0 \<and> (34 < compact_exponent c \<or> 0xff < compact_word c \<and> 33 < compact_exponent c
        \<or> 0xffff < compact_word c \<and> 32 < compact_exponent c))"
proof -
  define w where "w = (if compact_exponent c \<le> 3 then drop_bit (8 * (3 - compact_exponent c)) (c AND 0x007fffff)
         else c AND 0x007fffff)"
  have w: "uint w = compact_word c" unfolding w_def by (rule uint_compact_word)
  have w0: "w \<noteq> 0 \<longleftrightarrow> compact_word c \<noteq> 0" "0xff < w \<longleftrightarrow> 0xff < compact_word c" "0xffff < w \<longleftrightarrow> 0xffff < compact_word c"
    by (simp_all add: word_less_def w unsigned_eq_0_iff flip: w)
  assume "set_compact c = (n, neg, ovf)"
  then have "n = (if compact_exponent c \<le> 3 then base_uint_of_u64 (ucast w)
               else op_shl (base_uint_of_u64 (ucast w)) (8 * (compact_exponent c - 3)))"
   and "neg \<longleftrightarrow> w \<noteq> 0 \<and> c AND 0x00800000 \<noteq> 0"
   and "ovf \<longleftrightarrow> w \<noteq> 0 \<and> (compact_exponent c > 34 \<or> (w > 0xff \<and> compact_exponent c > 33) \<or> (w > 0xffff \<and> compact_exponent c > 32))"
    unfolding set_compact_def Let_def compact_exponent_eq w_def [symmetric] by simp_all
  moreover have "compact_word c mod 2 ^ 256 = compact_word c"
    using compact_word_bounds [of c] compact_mantissa_bounds [of c] by (intro mod_pos_pos_trivial) simp_all
  ultimately show ?thesis
    by (auto simp only: w0 sign_bit limbs_val_of_u64 limbs_val_shl uint_ucast_dword w length_op_shl wf_base_uint_of_u64 power_mult split: if_split)
      (simp_all)
qed

lemma compact_overflow_iff:
  "compact_word c \<noteq> 0 \<and> (34 < compact_exponent c \<or> 0xff < compact_word c \<and> 33 < compact_exponent c
        \<or> 0xffff < compact_word c \<and> 32 < compact_exponent c) \<longleftrightarrow> 2 ^ 256 \<le> compact_val c"
  (is "?ovf \<longleftrightarrow> _")
proof -
  define w e where "w = compact_word c" and "e = compact_exponent c"
  have w: "0 \<le> w" "w < 2 ^ 23" using compact_word_bounds [of c] compact_mantissa_bounds [of c] by (simp_all add: w_def)
  have mono: "w * 256 ^ (a - 3) \<le> w * 256 ^ (b - 3)" if "a \<le> b" for a b
    using w that by (intro mult_left_mono power_increasing) simp_all
  have big: "2 ^ 256 \<le> w * 256 ^ (e - 3)" if "2 ^ 256 \<le> w * 256 ^ (k - 3)" "k \<le> e" for k
    using mono [of k e] that by linarith
  have small: "w * 256 ^ (e - 3) < 2 ^ 256" if "w * 256 ^ (k - 3) < 2 ^ 256" "e \<le> k" for k
    using mono [of e k] that by linarith
  consider "w = 0" | "1 \<le> w" "w \<le> 0xff" | "0xff < w" "w \<le> 0xffff" | "0xffff < w" using w by linarith
  then show ?thesis unfolding compact_val_word w_def [symmetric] e_def [symmetric]
  proof cases
    case 2
    then show "(w \<noteq> 0 \<and> (34 < e \<or> 255 < w \<and> 33 < e \<or> 65535 < w \<and> 32 < e)) = (2 ^ 256 \<le> w * 256 ^ (e - 3))"
      using big [of 35] small [of 34] by (cases "34 < e") auto
  next
    case 3
    then show "(w \<noteq> 0 \<and> (34 < e \<or> 255 < w \<and> 33 < e \<or> 65535 < w \<and> 32 < e)) = (2 ^ 256 \<le> w * 256 ^ (e - 3))"
      using big [of 34] small [of 33] by (cases "33 < e") auto
  next
    case 4
    then show "(w \<noteq> 0 \<and> (34 < e \<or> 255 < w \<and> 33 < e \<or> 65535 < w \<and> 32 < e)) = (2 ^ 256 \<le> w * 256 ^ (e - 3))"
      using big [of 33] small [of 32] w by (cases "32 < e") auto
  qed simp
qed

section \<open>Encoding\<close>

lemma sign_word: "(0x00800000 :: u32) = push_bit 23 1"
  by (simp add: push_bit_eq_mult)

lemma bit_sign_word: "bit (0x00800000 :: u32) i \<longleftrightarrow> i = 23"
  unfolding sign_word by (auto simp only: bit_push_bit_iff bit_1_iff) simp_all

lemma clear_high_iff: "m AND NOT 0x007fffff = 0 \<longleftrightarrow> uint (m :: u32) < 2 ^ 23"
proof -
  have "(0x007fffff :: u32) = mask 23" by (simp add: mask_eq_exp_minus_1)
  then have "m AND NOT 0x007fffff = 0 \<longleftrightarrow> take_bit 23 m = m"
    by (auto simp: bit_eq_iff bit_simps)
  also have "\<dots> \<longleftrightarrow> uint m mod 2 ^ 23 = uint m"
    by (simp add: word_uint_eq_iff unsigned_take_bit_eq take_bit_eq_mod uint_mod)
  also have "\<dots> \<longleftrightarrow> uint m < 2 ^ 23" by (metis mod_pos_pos_trivial pos_mod_bound uint_ge_0 zero_less_numeral zero_less_power)
  finally show ?thesis .
qed

lemma pack_compact:
  fixes m :: u32 and s :: bool
  assumes m: "uint m < 2 ^ 23" and e: "e < 256"
  defines "c \<equiv> m OR push_bit 24 (of_nat e) OR (if s then 0x00800000 else 0)"
  shows "compact_exponent c = e" "compact_mantissa c = uint m" "bit c 23 = s"
proof -
  have m_bits: "i < 23" if "bit m i" for i
    using le_less_trans [OF bit_le_uint [OF that] m] power_strict_increasing_iff [of "2 :: int" i 23] by simp
  have "uint (of_nat e :: u32) < 2 ^ 8" using e by (simp add: uint_nat unat_of_nat)
  then have e_bits: "i < 8" if "bit (of_nat e :: u32) i" for i
    using le_less_trans [OF bit_le_uint [OF that]] power_strict_increasing_iff [of "2 :: int" i 8] by simp
  have c_bits: "bit c i \<longleftrightarrow> bit m i \<or> (24 \<le> i \<and> i < 32 \<and> bit (of_nat e :: u32) (i - 24)) \<or> s \<and> i = 23" for i
    using bit_sign_word [of i] by (cases s) (auto simp: c_def bit_or_iff bit_push_bit_iff)
  have "drop_bit 24 c = of_nat e"
    by (rule bit_word_eqI) (auto simp: bit_drop_bit_eq c_bits dest: m_bits e_bits)
  then have "compact_exponent c = unat (of_nat e :: u32)" by (simp only: compact_exponent_eq [symmetric])
  then show "compact_exponent c = e" using e by (simp add: unat_of_nat)
  have "take_bit 23 c = m"
    by (rule bit_word_eqI) (auto simp only: bit_take_bit_iff c_bits dest: m_bits)
  then show "compact_mantissa c = uint m" by (simp only: and_mask23 flip: uint_mantissa)
  show "bit c 23 = s" using m_bits [of 23] by (auto simp: c_bits)
qed

text \<open>\<open>compact_bytes v\<close> is the number of bytes of \<open>v\<close>; \<open>compact_lead v\<close> is what the code has in
  \<open>nCompact\<close> before it looks at the sign bit: the leading three bytes.\<close>

definition compact_bytes :: "limbs \<Rightarrow> nat" where
  "compact_bytes a = (op_bits a + 7) div 8"

definition compact_lead :: "limbs \<Rightarrow> int" where
  "compact_lead a = (if compact_bytes a \<le> 3 then limbs_val a * 256 ^ (3 - compact_bytes a)
                     else limbs_val a div 256 ^ (compact_bytes a - 3))"

lemma compact_bytes_bounds:
  assumes "limbs_val a \<noteq> 0"
  shows "0 < compact_bytes a" "256 ^ (compact_bytes a - 1) \<le> limbs_val a" "limbs_val a < 256 ^ compact_bytes a"
proof -
  have b: "0 < op_bits a" "2 ^ (op_bits a - 1) \<le> limbs_val a" "limbs_val a < 2 ^ op_bits a"
    using op_bits_length [of a] assms by (auto simp: bit_length_of_def)
  show "0 < compact_bytes a" using b by (simp add: compact_bytes_def)
  have p: "(256 :: int) ^ k = 2 ^ (8 * k)" for k by (simp add: power_mult)
  have "(2 :: int) ^ (8 * (compact_bytes a - 1)) \<le> 2 ^ (op_bits a - 1)"
    using b by (intro power_increasing) (simp_all add: compact_bytes_def)
  then show "256 ^ (compact_bytes a - 1) \<le> limbs_val a" using b unfolding p by linarith
  have "(2 :: int) ^ op_bits a \<le> 2 ^ (8 * compact_bytes a)"
    by (intro power_increasing) (simp_all add: compact_bytes_def)
  then show "limbs_val a < 256 ^ compact_bytes a" using b unfolding p by linarith
qed

lemma compact_bytes_0: "limbs_val a = 0 \<Longrightarrow> compact_bytes a = 0"
  using op_bits_0_iff [of a] by (simp add: compact_bytes_def)

lemma compact_bytes_le: "length a = 8 \<Longrightarrow> compact_bytes a \<le> 32"
  using op_bits_le [of a] by (simp add: compact_bytes_def)

lemma compact_lead_bounds: "0 \<le> compact_lead a" "compact_lead a < 2 ^ 24"
  and compact_lead_ge: "limbs_val a \<noteq> 0 \<Longrightarrow> 2 ^ 16 \<le> compact_lead a"
proof -
  show "0 \<le> compact_lead a" by (simp add: compact_lead_def pos_imp_zdiv_nonneg_iff)
  have "compact_lead a < 2 ^ 24 \<and> (limbs_val a \<noteq> 0 \<longrightarrow> 2 ^ 16 \<le> compact_lead a)"
  proof (cases "limbs_val a = 0")
    case True then show ?thesis by (simp add: compact_lead_def compact_bytes_0)
  next
    case False
    note b = compact_bytes_bounds [OF False]
    show ?thesis
    proof (cases "compact_bytes a \<le> 3")
      case True
      have "limbs_val a * 256 ^ (3 - compact_bytes a) < 256 ^ compact_bytes a * 256 ^ (3 - compact_bytes a)"
        using b by (intro mult_strict_right_mono) simp_all
      moreover have "256 ^ (compact_bytes a - 1) * 256 ^ (3 - compact_bytes a) \<le> limbs_val a * 256 ^ (3 - compact_bytes a)"
        using b by (intro mult_right_mono) simp_all
      ultimately show ?thesis using True b(1) by (simp add: compact_lead_def flip: power_add)
    next
      case False
      define k where "k = compact_bytes a - 3"
      have k: "compact_bytes a = 3 + k" "compact_bytes a - 1 = 2 + k" using False by (simp_all add: k_def)
      then have "limbs_val a < 2 ^ 24 * 256 ^ k" "2 ^ 16 * 256 ^ k \<le> limbs_val a" using b by (simp_all add: power_add)
      then have "limbs_val a div 256 ^ k < 2 ^ 24" "2 ^ 16 \<le> limbs_val a div 256 ^ k"
        by (simp_all add: int_div_less_iff int_le_div_iff)
      then show ?thesis using False by (simp add: compact_lead_def k_def)
    qed
  qed
  then show "compact_lead a < 2 ^ 24" "limbs_val a \<noteq> 0 \<Longrightarrow> 2 ^ 16 \<le> compact_lead a" by simp_all
qed

lemma limbs_val_low_qword:
  assumes "2 \<le> length a"
  shows "uint (low_qword a) = limbs_val a mod 2 ^ 64"
proof -
  obtain x y r where a: "a = x # y # r" using assms by (auto simp: numeral_2_eq_2 Suc_le_length_iff)
  have "uint (low_qword a) = uint x + 2 ^ 32 * uint y"
  proof -
    have "low_qword a = ucast x + push_bit 32 (ucast y)" unfolding low_qword_def a
      by (simp only: nth_Cons_0 nth_Cons_Suc One_nat_def)
         (rule disjunctive_add_eq_or [symmetric], rule bit_word_eqI, auto simp: bit_simps dest: bit_imp_le_length)
    moreover have "uint (push_bit 32 (ucast y :: u64)) = 2 ^ 32 * uint y"
      using uint_u32_le [of y] by (simp add: push_bit_eq_mult uint_mul_no_wrap)
    ultimately show ?thesis using uint_u32_le [of x] uint_u32_le [of y] by (simp add: uint_add_no_wrap)
  qed
  moreover have "limbs_val a = (uint x + 2 ^ 32 * uint y) + limbs_val r * 2 ^ 64"
    by (simp add: a)
  then have "limbs_val a mod 2 ^ 64 = (uint x + 2 ^ 32 * uint y) mod 2 ^ 64"
    by (simp only: mod_mult_self1)
  moreover have "\<dots> = uint x + 2 ^ 32 * uint y"
    using uint_u32_le [of x] uint_u32_le [of y] by (intro mod_pos_pos_trivial) simp_all
  ultimately show ?thesis by simp
qed

lemma get_compact_eq:
  assumes len: "length a = 8"
  defines "flip \<equiv> 2 ^ 23 \<le> compact_lead a"
  shows "\<exists>c. get_compact a neg = Some c \<and>
     compact_exponent c = compact_bytes a + (if flip then 1 else 0) \<and>
     compact_mantissa c = (if flip then compact_lead a div 256 else compact_lead a) \<and>
     (bit c 23 \<longleftrightarrow> neg \<and> compact_mantissa c \<noteq> 0)"
proof -
  define n0 :: u32 where "n0 = (if compact_bytes a \<le> 3 then ucast (push_bit (8 * (3 - compact_bytes a)) (low_qword a))
                       else ucast (low_qword (op_shr a (8 * (compact_bytes a - 3)))))"
  note lead = compact_lead_bounds [of a]
  have p: "(256 :: int) ^ k = 2 ^ (8 * k)" for k by (simp add: power_mult)
  have small: "limbs_val a mod 2 ^ 64 = limbs_val a" if "compact_bytes a \<le> 3"
  proof (cases "limbs_val a = 0")
    case False
    have "(256 :: int) ^ compact_bytes a \<le> 256 ^ 3" using that by (intro power_increasing) simp_all
    then show ?thesis using compact_bytes_bounds (3) [OF False] by (intro mod_pos_pos_trivial) simp_all
  qed simp
  have n0: "uint n0 = compact_lead a"
  proof (cases "compact_bytes a \<le> 3")
    case True
    have "uint (push_bit (8 * (3 - compact_bytes a)) (low_qword a)) = compact_lead a mod 2 ^ 64"
      using True len small by (simp add: unsigned_push_bit_eq push_bit_eq_mult [where ?'a = int]
          take_bit_eq_mod [where ?'a = int] limbs_val_low_qword compact_lead_def p)
    then have "uint n0 = compact_lead a mod 2 ^ 64 mod 2 ^ 32"
      using True by (simp add: n0_def uint_low_dword)
    then show ?thesis using lead by simp
  next
    case False
    then have "uint n0 = compact_lead a mod 2 ^ 64 mod 2 ^ 32"
      using len by (simp add: n0_def uint_low_dword limbs_val_low_qword limbs_val_shr compact_lead_def p)
    then show ?thesis using lead by simp
  qed
  have sign: "n0 AND 0x00800000 \<noteq> 0 \<longleftrightarrow> flip"
  proof -
    have "bit n0 23 \<longleftrightarrow> bit (uint n0) 23" by (simp add: bit_uint_iff)
    also have "\<dots> \<longleftrightarrow> flip" unfolding n0 flip_def using lead by (intro bit_top_iff) simp_all
    finally show ?thesis by (simp only: sign_bit)
  qed
  define m :: u32 where "m = (if flip then drop_bit 8 n0 else n0)"
  define e where "e = compact_bytes a + (if flip then 1 else 0)"
  have um: "uint m = (if flip then compact_lead a div 256 else compact_lead a)"
    by (simp only: m_def if_distrib [of uint] uint_drop_bit n0) simp
  have m_less: "uint m < 2 ^ 23" using lead by (auto simp: um flip_def int_div_less_iff)
  have e_less: "e < 256" using compact_bytes_le [OF len] by (simp add: e_def)
  define c where "c = m OR push_bit 24 (of_nat e)"
  have c0: "c = m OR push_bit 24 (of_nat e) OR (if False then 0x00800000 else 0)" by (simp add: c_def)
  note pc = pack_compact [OF m_less e_less, where s = False, folded c0]
  have mant: "c AND 0x007fffff \<noteq> 0 \<longleftrightarrow> uint m \<noteq> 0"
    unfolding pc(2) [symmetric] uint_mantissa [symmetric] by (simp only: unsigned_eq_0_iff)
  have pair: "(if n0 AND 0x00800000 \<noteq> 0 then (drop_bit 8 n0, compact_bytes a + 1) else (n0, compact_bytes a)) = (m, e)"
    unfolding sign by (simp add: m_def e_def)
  have "get_compact a neg = Some (c OR (if neg \<and> c AND 0x007fffff \<noteq> 0 then 0x00800000 else 0))"
    unfolding get_compact_def compact_bytes_def [symmetric] Let_def n0_def [symmetric] pair prod.case
      bind_assert clear_high_iff
    by (simp only: m_less e_less if_True c_def)
  then have "get_compact a neg = Some (c OR (if neg \<and> uint m \<noteq> 0 then 0x00800000 else 0))"
    unfolding mant .
  then have "get_compact a neg = Some (m OR push_bit 24 (of_nat e) OR (if neg \<and> uint m \<noteq> 0 then 0x00800000 else 0))"
    unfolding c_def or.assoc .
  moreover note pk = pack_compact [OF m_less e_less, where s = "neg \<and> uint m \<noteq> 0"]
  ultimately show ?thesis
    unfolding um [symmetric] e_def [symmetric]
    by (intro exI conjI) (assumption, rule pk(1), rule pk(2), simp only: pk(2))
qed

text \<open>\<open>compact_drop v\<close> is the least number of trailing bytes to drop for \<open>v\<close> to fit the 23 bits of
  the mantissa.\<close>

definition compact_drop :: "int \<Rightarrow> nat" where
  "compact_drop v = (LEAST k. v div 256 ^ k < 2 ^ 23)"

lemma compact_drop_eqI:
  assumes "0 \<le> v" "v div 256 ^ k < 2 ^ 23" "k = 0 \<or> 2 ^ 23 \<le> v div 256 ^ (k - 1)"
  shows "compact_drop v = k"
  unfolding compact_drop_def
proof (rule Least_equality)
  fix j assume j: "v div 256 ^ j < 2 ^ 23"
  show "k \<le> j"
  proof (rule ccontr)
    assume "\<not> k \<le> j"
    then have "j \<le> k - 1" "k \<noteq> 0" by simp_all
    then have "v div 256 ^ (k - 1) \<le> v div 256 ^ j"
      using assms(1) by (intro zdiv_mono2 power_increasing) simp_all
    then show False using j assms(3) \<open>k \<noteq> 0\<close> by simp
  qed
qed (rule assms(2))

lemma compact_val_get_compact:
  assumes len: "length a = 8" and c: "get_compact a neg = Some c"
  shows "compact_val c = limbs_val a div 256 ^ compact_drop (limbs_val a) * 256 ^ compact_drop (limbs_val a)"
proof -
  define v s q where "v = limbs_val a" and "s = compact_bytes a" and "q = compact_lead a"
  have v0: "0 \<le> v" by (simp add: v_def)
  have q: "0 \<le> q" "q < 2 ^ 24" "v \<noteq> 0 \<Longrightarrow> 2 ^ 16 \<le> q"
    using compact_lead_bounds [of a] compact_lead_ge [of a] by (simp_all add: q_def v_def)
  have qdef: "q = (if s \<le> 3 then v * 256 ^ (3 - s) else v div 256 ^ (s - 3))"
    by (simp add: q_def v_def s_def compact_lead_def)
  have c: "compact_exponent c = s + (if 2 ^ 23 \<le> q then 1 else 0)"
     "compact_mantissa c = (if 2 ^ 23 \<le> q then q div 256 else q)"
    using get_compact_eq [OF len, of neg] c by (auto simp: q_def s_def)
  have div_add: "v div 256 ^ k div 256 = v div 256 ^ Suc k" for k
    by (simp only: power_Suc2 zdiv_zmult2_eq zero_le_numeral)
  consider (big) "3 < s" "2 ^ 23 \<le> q" | (mid) "s = 3" "2 ^ 23 \<le> q" | (exact) "3 < s" "q < 2 ^ 23"
    | (small) "s \<le> 3" "q < 2 ^ 23" | (tiny) "s < 3" "2 ^ 23 \<le> q" by linarith
  then have "compact_val c = v div 256 ^ compact_drop v * 256 ^ compact_drop v"
  proof cases
    case big
    define k where "k = s - 3"
    have k: "s = k + 3" using big by (simp add: k_def)
    have q': "q = v div 256 ^ k" using big by (simp add: qdef k_def)
    have "v div 256 ^ Suc k < 2 ^ 23" unfolding div_add [symmetric] q' [symmetric] using q by (simp add: int_div_less_iff)
    then have drop: "compact_drop v = Suc k" using big by (intro compact_drop_eqI v0) (simp_all add: q')
    have "compact_val c = v div 256 ^ k div 256 * 256 ^ Suc k" using big by (simp add: compact_val_def c k flip: q')
    then show ?thesis unfolding drop div_add .
  next
    case mid
    have "compact_drop v = 1" using mid q by (intro compact_drop_eqI v0) (simp_all add: qdef int_div_less_iff)
    then show ?thesis using mid by (simp add: compact_val_def c qdef)
  next
    case exact
    have "0 < v" using exact v0 compact_bytes_0 [of a] by (cases "v = 0") (simp_all add: v_def s_def order.strict_iff_order)
    then have "2 ^ 16 \<le> v div 256 ^ (s - 3)" using q exact by (simp add: qdef)
    then have "2 ^ 16 * 256 ^ (s - 3) \<le> v" by (simp add: int_le_div_iff)
    moreover have "(256 :: int) ^ (s - 3) = 256 ^ (s - 3 - 1) * 256"
      using exact by (subst power_minus_mult) simp_all
    ultimately have "2 ^ 24 * 256 ^ (s - 3 - 1) \<le> v" by simp
    moreover have "(2 :: int) ^ 23 * 256 ^ (s - 3 - 1) \<le> 2 ^ 24 * 256 ^ (s - 3 - 1)"
      by (intro mult_right_mono) simp_all
    ultimately have "2 ^ 23 * 256 ^ (s - 3 - 1) \<le> v" by (rule order_trans [rotated])
    then have "2 ^ 23 \<le> v div 256 ^ (s - 3 - 1)" by (simp add: int_le_div_iff)
    then have "compact_drop v = s - 3"
      using exact by (intro compact_drop_eqI v0) (simp_all add: qdef)
    then show ?thesis using exact by (simp add: compact_val_def c qdef)
  next
    case small
    have "v * 1 \<le> v * 256 ^ (3 - s)" using v0 by (intro mult_left_mono) simp_all
    then have "compact_drop v = 0" using small by (intro compact_drop_eqI v0) (simp_all add: qdef)
    then show ?thesis using small by (simp add: compact_val_def c qdef)
  next
    case tiny
    have "(256 :: int) ^ 1 \<le> 256 ^ (3 - s)" using tiny by (intro power_increasing) simp_all
    then have "v * 256 \<le> v * 256 ^ (3 - s)" using v0 by (intro mult_left_mono) simp_all
    then have "compact_drop v = 0" using tiny q by (intro compact_drop_eqI v0) (simp_all add: qdef)
    moreover have "q = v * 256 ^ (2 - s) * 256" using tiny by (simp add: qdef flip: power_Suc2) (simp add: Suc_diff_le numeral_3_eq_3 numeral_2_eq_2)
    then have "q div 256 = v * 256 ^ (2 - s)" by simp
    ultimately show ?thesis using tiny by (simp add: compact_val_def c)
  qed
  then show ?thesis by (simp add: v_def)
qed

lemma compact_kept_nonzero:
  assumes "0 < v"
  shows "v div 256 ^ compact_drop v \<noteq> 0"
proof (cases "compact_drop v")
  case (Suc k)
  then have "\<not> v div 256 ^ k < 2 ^ 23"
    unfolding compact_drop_def by (intro not_less_Least) simp
  then have "2 ^ 23 * 256 ^ k \<le> v" by (simp add: int_le_div_iff not_less)
  moreover have "(256 :: int) ^ Suc k \<le> 2 ^ 23 * 256 ^ k" by simp
  ultimately have "1 * 256 ^ Suc k \<le> v" by linarith
  then have "1 \<le> v div 256 ^ Suc k" by (subst int_le_div_iff) simp_all
  then show ?thesis using Suc by simp
qed (use assms in simp)

section \<open>Block proof\<close>

lemma limbs_val_eq_0: "limbs_val a = 0 \<longleftrightarrow> list_all (\<lambda>x. x = 0) a"
proof (induction a)
  case (Cons x a)
  have "uint x + 2 ^ 32 * limbs_val a = 0 \<longleftrightarrow> uint x = 0 \<and> limbs_val a = 0"
    using uint_ge_0 [of x] limbs_val_nonneg [of a] by (auto simp: add_nonneg_eq_0_iff)
  then show ?case using Cons by (simp add: unsigned_eq_0_iff)
qed simp

lemma equals_u64_0: "length a = 8 \<Longrightarrow> op_equals_u64 a 0 \<longleftrightarrow> limbs_val a = 0"
proof -
  assume "length a = 8"
  then obtain x y r where a: "a = x # y # r" by (auto simp: numeral_eq_Suc length_Suc_conv)
  have "(ucast z :: u64) = 0 \<longleftrightarrow> z = 0" for z :: u32
    by (simp add: word_uint_eq_iff)
  then show ?thesis by (auto simp: a op_equals_u64_def limbs_val_eq_0 simp del: limbs_val_Cons)
qed

lemma limbs_val_add_u64:
  "length a = 8 \<Longrightarrow> limbs_val (op_add_u64 a b) = (limbs_val a + uint b) mod 2 ^ 256"
  by (simp add: op_add_u64_def limbs_val_add limbs_val_of_u64)

lemma length_add_u64 [simp]: "length a = 8 \<Longrightarrow> length (op_add_u64 a b) = 8"
  by (simp add: op_add_u64_def)

text \<open>The expression \<open>~t / (t + 1) + 1\<close> is \<open>2^256 / (t + 1)\<close> for every \<open>t\<close> below \<open>2^256 - 1\<close>.\<close>

lemma proof_quotient:
  assumes "0 \<le> t" "t < 2 ^ 256 - (1 :: int)"
  shows "(2 ^ 256 - 1 - t) div (t + 1) + 1 = 2 ^ 256 div (t + 1)"
proof -
  have "(2 ^ 256 :: int) = (2 ^ 256 - 1 - t) + (t + 1)" by simp
  then have "(2 ^ 256 :: int) div (t + 1) = ((2 ^ 256 - 1 - t) + (t + 1)) div (t + 1)" by presburger
  also have "\<dots> = (2 ^ 256 - 1 - t) div (t + 1) + 1" using assms by (intro div_add_self2) simp
  finally show ?thesis by simp
qed

lemma compact_val_not_max:
  assumes "compact_val c < 2 ^ 256"
  shows "compact_val c < 2 ^ 256 - 1"
proof (cases "compact_exponent c \<le> 3")
  case True
  then show ?thesis using compact_word_bounds [of c] compact_mantissa_bounds [of c]
    by (simp add: compact_val_word)
next
  case False
  then obtain k where "compact_exponent c - 3 = Suc k" by (cases "compact_exponent c - 3") simp_all
  then have "256 dvd compact_val c" by (simp add: compact_val_word)
  then have "compact_val c \<noteq> 2 ^ 256 - 1" by auto
  then show ?thesis using assms by linarith
qed

lemma compact_val_nonneg: "0 \<le> compact_val c"
  using compact_word_bounds [of c] by (simp add: compact_val_word)

lemma set_compact_eq:
  "set_compact c = (n, neg, ovf) \<Longrightarrow>
   length n = 8 \<and> limbs_val n = compact_val c mod 2 ^ 256 \<and> (ovf \<longleftrightarrow> 2 ^ 256 \<le> compact_val c) \<and>
   (neg \<longleftrightarrow> bit c 23 \<and> compact_val c \<noteq> 0)"
  using set_compact_word [of c n neg ovf] compact_overflow_iff [of c] by (auto simp: compact_val_word)

lemma GetBlockProof_val:
  "\<exists>q. GetBlockProof c = Inr q \<and> length q = 8 \<and>
     limbs_val q = (if compact_val c = 0 \<or> bit c 23 \<or> 2 ^ 256 \<le> compact_val c then 0
                    else 2 ^ 256 div (compact_val c + 1))"
proof -
  obtain t neg ovf where sc: "set_compact c = (t, neg, ovf)" by (cases "set_compact c") auto
  note eq = set_compact_eq [OF sc]
  show ?thesis
  proof (cases "compact_val c = 0 \<or> bit c 23 \<or> 2 ^ 256 \<le> compact_val c")
    case True
    then have "GetBlockProof c = Inr base_uint_zero"
      using eq by (auto simp: GetBlockProof_def sc equals_u64_0)
    then show ?thesis using True by (auto simp: base_uint_zero_def WIDTH_def)
  next
    case False
    define v where "v = compact_val c"
    have v: "0 < v" "v < 2 ^ 256 - 1" "limbs_val t = v" "\<not> neg" "\<not> ovf" "length t = 8"
      using False eq compact_val_not_max [of c] compact_val_nonneg [of c] by (auto simp: v_def)
    define d where "d = op_add_u64 t 1"
    have d: "limbs_val d = v + 1" "length d = 8" using v by (simp_all add: d_def limbs_val_add_u64)
    have n: "limbs_val (op_not t) = 2 ^ 256 - 1 - v" using v by (simp add: limbs_val_not)
    obtain q r where q: "op_divmod (op_not t) d = Inr (q, r)" "length q = 8" "limbs_val q = (2 ^ 256 - 1 - v) div (v + 1)"
      using op_divmod_correct [of d "op_not t"] v d n by auto
    have "1 < v + 1" using v by simp
    have quot: "limbs_val q + 1 = 2 ^ 256 div (v + 1)" using v q proof_quotient [of v] by simp
    have "2 ^ 256 div (v + 1) < 2 ^ 256" using v by (intro int_div_less_self) simp_all
    then have "limbs_val (op_add_u64 q 1) = 2 ^ 256 div (v + 1)"
      using q v quot by (simp add: limbs_val_add_u64 pos_imp_zdiv_nonneg_iff)
    moreover have "GetBlockProof c = Inr (op_add_u64 q 1)"
      using v q d by (simp add: GetBlockProof_def sc equals_u64_0 op_div_def flip: d_def)
    ultimately show ?thesis using False q by (simp add: v_def)
  qed
qed

section \<open>Properties\<close>

text \<open>\<open>get_compact\<close> never fails its two assertions, and decoding its result with \<open>set_compact\<close>
  reports no overflow and gives the number cut to its leading bytes: the least number of trailing
  bytes is dropped that makes the rest fit the 23-bit mantissa.\<close>

theorem compact_roundtrip:
  assumes "wf_limbs a"
  shows "\<exists>c n neg'. get_compact a neg = Some c \<and> set_compact c = (n, neg', False) \<and>
     (neg' \<longleftrightarrow> neg \<and> limbs_val a \<noteq> 0) \<and>
     limbs_val n = limbs_val a div 256 ^ compact_drop (limbs_val a) * 256 ^ compact_drop (limbs_val a)"
proof -
  have len: "length a = 8" using assms by (simp add: wf_limbs_def WIDTH_def)
  obtain c where c: "get_compact a neg = Some c" "bit c 23 \<longleftrightarrow> neg \<and> compact_mantissa c \<noteq> 0"
    "compact_mantissa c = (if 2 ^ 23 \<le> compact_lead a then compact_lead a div 256 else compact_lead a)"
    using get_compact_eq [OF len, of neg] by auto
  note v = compact_val_get_compact [OF len c(1)]
  have m0: "limbs_val a = 0 \<Longrightarrow> compact_mantissa c = 0"
    using c(3) by (simp add: compact_lead_def)
  have v0: "compact_val c \<le> limbs_val a"
    unfolding v by (simp flip: int_le_div_iff)
  have drop: "limbs_val a \<noteq> 0 \<Longrightarrow> compact_val c \<noteq> 0"
  proof -
    assume "limbs_val a \<noteq> 0"
    then have "0 < limbs_val a" using limbs_val_nonneg [of a] by linarith
    then show "compact_val c \<noteq> 0" unfolding v using compact_kept_nonzero [of "limbs_val a"] by simp
  qed
  have m1: "limbs_val a \<noteq> 0 \<Longrightarrow> compact_mantissa c \<noteq> 0"
    using drop compact_word_bounds [of c] by (auto simp: compact_val_word)
  obtain n neg' ovf where sc: "set_compact c = (n, neg', ovf)" by (cases "set_compact c") auto
  have lt: "compact_val c < 2 ^ 256" using v0 limbs_val_less [of a] len by simp
  have "limbs_val n = compact_val c"
    using set_compact_eq [OF sc] lt compact_val_nonneg [of c] by (simp add: mod_pos_pos_trivial)
  moreover have "\<not> ovf" using set_compact_eq [OF sc] lt by simp
  moreover have "compact_val c = 0" if "limbs_val a = 0" using v0 that compact_val_nonneg [of c] by simp
  then have "neg' \<longleftrightarrow> neg \<and> limbs_val a \<noteq> 0" using set_compact_eq [OF sc] c(2) m0 m1 drop by blast
  ultimately show ?thesis using c(1) sc v by (intro exI [of _ c] exI [of _ n] exI [of _ neg']) simp
qed

theorem compact_roundtrip_witness:
  "\<exists>c n neg'. get_compact (base_uint_of_u64 0x12345678) False = Some c \<and>
     set_compact c = (n, neg', False) \<and> \<not> neg'"
  using compact_roundtrip [of "base_uint_of_u64 0x12345678" False] by (auto simp: wf_limbs_def WIDTH_def)

end
