(* ===== verification/Consensus.thy ===== *)
theory Consensus
  imports CompactTarget External
begin

text \<open>
  \<open>storage/Consensus.cpp\<close> over the library's \<open>uint256\<close>, and the conversions between \<open>arith_uint256\<close>
  and \<open>uint256\<close>. The header check of the block tree decodes targets with \<open>xul\<close> big numbers, the
  accumulated work with \<open>arith_uint256\<close>; the lemmas show that both read a compact number alike.
\<close>

section \<open>Conversions\<close>

definition to_big_number :: "bit_converter \<Rightarrow> limbs \<Rightarrow> uint256" where
  "to_big_number bc a = concat (map (from_dword bc) a)"

definition from_big_number :: "bit_converter \<Rightarrow> uint256 \<Rightarrow> limbs" where
  "from_big_number bc n = map (\<lambda>x. to_dword bc (drop (x * 4) n)) [0..<WIDTH]"

section \<open>The routines\<close>

definition decodeCompactUInt256 :: "big_number_ops \<Rightarrow> u32 \<Rightarrow> uint256 \<times> bool \<times> bool" where
  "decodeCompactUInt256 bn compact =
     (let size = unat (drop_bit 24 compact);
          word0 = compact AND 0x007fffff;
          word = (if size \<le> 3 then drop_bit (8 * (3 - size)) word0 else word0);
          ret = (if size \<le> 3 then bn_assign bn word else bn_shl bn (bn_assign bn word) (8 * (size - 3)))
      in (ret,
          word \<noteq> 0 \<and> compact AND 0x00800000 \<noteq> 0,
          word \<noteq> 0 \<and> (size > 34 \<or> (word > 0xff \<and> size > 33) \<or> (word > 0xffff \<and> size > 32))))"

definition decodeCompactNumber :: "big_number_ops \<Rightarrow> u32 \<Rightarrow> uint256 option" where
  "decodeCompactNumber bn compact =
     (case decodeCompactUInt256 bn compact of (target, negative, overflow) \<Rightarrow>
       if negative \<or> overflow \<or> bn_is_null bn target then None else Some target)"

definition calcBlockProof :: "bit_converter \<Rightarrow> u32 \<Rightarrow> uint_error + uint256" where
  "calcBlockProof bc bits = map_sum id (to_big_number bc) (GetBlockProof bits)"

section \<open>Laws of the conversions\<close>

context little_endian
begin

lemma length_to_big_number [simp]: "length (to_big_number bc a) = 4 * length a"
  by (induction a) (simp_all add: to_big_number_def)

lemma to_big_number_val: "bytes_val (to_big_number bc a) = limbs_val a"
  using from_dword_val by (induction a) (simp_all add: to_big_number_def bytes_val_append)

lemma from_to_dwords: "map (\<lambda>x. to_dword bc (drop (x * 4) (to_big_number bc a))) [0..<length a] = a"
proof (induction a)
  case (Cons w a)
  have "map (\<lambda>x. to_dword bc (drop (x * 4) (to_big_number bc (w # a)))) [0..<length (w # a)] =
    to_dword bc (to_big_number bc (w # a)) #
      map (\<lambda>x. to_dword bc (drop (Suc x * 4) (to_big_number bc (w # a)))) [0..<length a]"
    by (simp add: upt_rec [of 0 "Suc (length a)"] map_Suc_upt [symmetric] comp_def del: upt_Suc)
  moreover have "to_big_number bc (w # a) = from_dword bc w @ to_big_number bc a" by (simp add: to_big_number_def)
  ultimately show ?case using Cons to_from by simp
qed simp

lemma from_to_big_number: "length a = 8 \<Longrightarrow> from_big_number bc (to_big_number bc a) = a"
  using from_to_dwords [of a] by (simp add: from_big_number_def WIDTH_def)

lemma length_from_big_number [simp]: "length (from_big_number bc n) = 8"
  by (simp add: from_big_number_def WIDTH_def)

lemma from_dwords_val:
  "length n = 4 * k \<Longrightarrow> limbs_val (map (\<lambda>x. to_dword bc (drop (x * 4) n)) [0..<k]) = bytes_val n"
proof (induction k arbitrary: n)
  case (Suc k)
  have "map (\<lambda>x. to_dword bc (drop (x * 4) n)) [0..<Suc k] =
     to_dword bc n # map (\<lambda>x. to_dword bc (drop (x * 4) (drop 4 n))) [0..<k]"
    by (simp add: upt_rec [of 0 "Suc k"] map_Suc_upt [symmetric] comp_def add.commute del: upt_Suc)
  moreover have "bytes_val n = bytes_val (take 4 n @ drop 4 n)" by simp
  moreover have "\<dots> = bytes_val (take 4 n) + 2 ^ 32 * bytes_val (drop 4 n)"
    using Suc.prems by (simp only: bytes_val_append) simp
  moreover have "uint (to_dword bc n) = bytes_val (take 4 n)" using Suc.prems by (intro to_dword_val) simp
  ultimately show ?case using Suc.IH [of "drop 4 n"] Suc.prems by simp
qed simp

lemma from_big_number_val: "length n = 32 \<Longrightarrow> limbs_val (from_big_number bc n) = bytes_val n"
  using from_dwords_val [of n 8] by (simp add: from_big_number_def WIDTH_def)

lemma calcBlockProof_val:
  "\<exists>q. calcBlockProof bc c = Inr q \<and> length q = 32 \<and>
     bytes_val q = (if compact_val c = 0 \<or> bit c 23 \<or> 2 ^ 256 \<le> compact_val c then 0
                    else 2 ^ 256 div (compact_val c + 1))"
  using GetBlockProof_val [of c] by (auto simp: calcBlockProof_def to_big_number_val)

end

context big_number
begin

lemma decodeCompactUInt256_eq:
  "decodeCompactUInt256 bn c = (n, neg, ovf) \<Longrightarrow>
   \<exists>a. set_compact c = (a, neg, ovf) \<and> length n = 32 \<and> bytes_val n = limbs_val a"
proof -
  assume d: "decodeCompactUInt256 bn c = (n, neg, ovf)"
  have "bytes_val (fst (decodeCompactUInt256 bn c)) = limbs_val (fst (set_compact c)) \<and>
      length (fst (decodeCompactUInt256 bn c)) = 32"
    by (simp add: decodeCompactUInt256_def set_compact_def Let_def assign_val shl_val limbs_val_of_u64 limbs_val_shl)
  moreover have "snd (decodeCompactUInt256 bn c) = snd (set_compact c)"
    by (simp only: decodeCompactUInt256_def set_compact_def Let_def snd_conv)
  ultimately show ?thesis using d by (cases "set_compact c") auto
qed

lemma decodeCompactNumber_val:
  "decodeCompactNumber bn c =
     (if compact_val c = 0 \<or> bit c 23 \<or> 2 ^ 256 \<le> compact_val c then None
      else Some (fst (decodeCompactUInt256 bn c))) \<and>
   length (fst (decodeCompactUInt256 bn c)) = 32 \<and>
   (compact_val c < 2 ^ 256 \<longrightarrow> bytes_val (fst (decodeCompactUInt256 bn c)) = compact_val c)"
proof -
  obtain n neg ovf where d: "decodeCompactUInt256 bn c = (n, neg, ovf)" by (cases "decodeCompactUInt256 bn c") auto
  obtain a where a: "set_compact c = (a, neg, ovf)" "length n = 32" "bytes_val n = limbs_val a"
    using decodeCompactUInt256_eq [OF d] by auto
  have "compact_val c < 2 ^ 256 \<Longrightarrow> compact_val c mod 2 ^ 256 = compact_val c"
    using compact_val_nonneg by (intro mod_pos_pos_trivial) simp_all
  then show ?thesis using set_compact_eq [OF a(1)] a
    by (auto simp: decodeCompactNumber_def d is_null_val not_le)
qed

end

section \<open>A big number on the limbs of the program\<close>

definition limb_big_number :: big_number_ops where
  "limb_big_number =
     \<lparr>bn_assign = \<lambda>w. to_big_number le_converter (base_uint_of_u64 (ucast w)),
      bn_shl = \<lambda>a n. to_big_number le_converter (op_shl (from_big_number le_converter a) n),
      bn_add = \<lambda>a b. to_big_number le_converter
        (op_add (from_big_number le_converter a) (from_big_number le_converter b)),
      bn_is_null = list_all (\<lambda>x. x = 0),
      bn_greater = \<lambda>a b. op_greater (from_big_number le_converter a) (from_big_number le_converter b)\<rparr>"

lemma bytes_val_eq_0: "bytes_val a = 0 \<longleftrightarrow> list_all (\<lambda>x. x = 0) a"
proof (induction a)
  case (Cons x a)
  have "uint x + 2 ^ 8 * bytes_val a = 0 \<longleftrightarrow> uint x = 0 \<and> bytes_val a = 0"
    using uint_ge_0 [of x] bytes_val_nonneg [of a] by (auto simp: add_nonneg_eq_0_iff)
  then show ?case using Cons by (simp add: unsigned_eq_0_iff)
qed simp

interpretation lbn: big_number limb_big_number
  by unfold_locales
    (simp_all add: limb_big_number_def lec.to_big_number_val limbs_val_of_u64 limbs_val_shl limbs_val_add
       lec.from_big_number_val bytes_val_eq_0 op_greater_def op_compare_sgn)

section \<open>Properties\<close>

text \<open>decoding a compact target follows the documented format \<open>mantissa * 256 ^ (exponent - 3)\<close>:
  \<open>decodeCompactNumber\<close> refuses exactly the numbers that are zero, have the sign bit or do not fit
  256 bits, and otherwise yields the number; the \<open>arith_uint256\<close> decoder \<open>set_compact\<close> agrees.\<close>

theorem compact_decoding:
  assumes "big_number bn"
  shows "(decodeCompactNumber bn c = None \<longleftrightarrow> compact_val c = 0 \<or> bit c 23 \<or> 2 ^ 256 \<le> compact_val c) \<and>
    (\<forall>t. decodeCompactNumber bn c = Some t \<longrightarrow> bytes_val t = compact_val c \<and>
          (\<exists>a. set_compact c = (a, False, False) \<and> limbs_val a = compact_val c))"
proof (intro conjI)
  note d = big_number.decodeCompactNumber_val [OF assms, of c]
  show "decodeCompactNumber bn c = None \<longleftrightarrow> compact_val c = 0 \<or> bit c 23 \<or> 2 ^ 256 \<le> compact_val c"
    using d by auto
  obtain a neg ovf where sc: "set_compact c = (a, neg, ovf)" by (cases "set_compact c") auto
  have "compact_val c < 2 ^ 256 \<Longrightarrow> compact_val c mod 2 ^ 256 = compact_val c"
    using compact_val_nonneg by (intro mod_pos_pos_trivial) simp_all
  then show "\<forall>t. decodeCompactNumber bn c = Some t \<longrightarrow> bytes_val t = compact_val c \<and>
          (\<exists>a. set_compact c = (a, False, False) \<and> limbs_val a = compact_val c)"
    using d set_compact_eq [OF sc] sc by (auto split: if_splits)
qed

theorem compact_decoding_witness:
  "\<exists>t. decodeCompactNumber limb_big_number 0x1d00ffff = Some t \<and> bytes_val t = 0xffff * 256 ^ 26"
proof -
  have v: "compact_val 0x1d00ffff = 0xffff * 256 ^ 26"
    by (simp add: compact_val_def compact_exponent_def compact_mantissa_def)
  have "\<not> bit (0x1d00ffff :: u32) 23" by (simp only: sign_bit [symmetric]) simp
  then show ?thesis
    using compact_decoding [OF lbn.big_number_axioms, of "0x1d00ffff"] v by auto
qed

text \<open>C40: the work of a block is \<open>2 ^ 256 div (target + 1)\<close> for the target its compact number encodes,
  computed without a 257-bit number and without a division by zero, and zero when the compact number
  is not a valid target.\<close>

theorem block_proof_value:
  assumes "little_endian bc"
  shows "\<exists>q. calcBlockProof bc c = Inr q \<and> length q = 32 \<and>
     bytes_val q = (if compact_val c = 0 \<or> bit c 23 \<or> 2 ^ 256 \<le> compact_val c then 0
                    else 2 ^ 256 div (compact_val c + 1))"
  by (rule little_endian.calcBlockProof_val [OF assms])

theorem block_proof_value_witness:
  "\<exists>q. calcBlockProof le_converter 0x1d00ffff = Inr q \<and> bytes_val q = 0x100010001"
proof -
  have v: "compact_val 0x1d00ffff = 0xffff * 256 ^ 26"
    by (simp add: compact_val_def compact_exponent_def compact_mantissa_def)
  have "\<not> bit (0x1d00ffff :: u32) 23" by (simp only: sign_bit [symmetric]) simp
  then show ?thesis using block_proof_value [OF lec.little_endian_axioms, of "0x1d00ffff"] v by auto
qed

end
