(* ===== verification/Validator.thy ===== *)
theory Validator
  imports ScriptVM CoinView BlockData Consensus
begin

text \<open>
  \<open>util/Key.cpp\<close>, \<open>storage/Compatibility.cpp\<close> and \<open>storage/Validator.cpp\<close>: signatures of
  transaction inputs, the scripts of the inputs of a block, duplicate transactions and proof of work.
  What the code does with the scripts is composed from the script machine and the coin view, and
  shown to accept more than it means to.

  The text of log messages is not modelled. \<open>None\<close> is a failed assertion or an undefined access; the
  machine always ends (\<open>script_eval_terminates\<close>).
\<close>

section \<open>Keys\<close>

text \<open>The library's elliptic curve routines: parsing a public key, allocating and parsing a signature, and
  verifying one (1 is success).\<close>

record ('k, 'g) ec_library =
  o2i_ECPublicKey :: "bytes \<Rightarrow> 'k option"
  ECDSA_SIG_new :: bool
  d2i_ECDSA_SIG :: "bytes \<Rightarrow> 'g option"
  ECDSA_do_verify :: "uint256 \<Rightarrow> 'g \<Rightarrow> 'k \<Rightarrow> int"

definition key_assign :: "('k, 'g) ec_library \<Rightarrow> bytes \<Rightarrow> 'k option" where
  "key_assign ec keydata = o2i_ECPublicKey ec keydata"

text \<open>A signature that is not in its canonical form is only reported.\<close>

definition xbtc_ECDSA_verify :: "('k, 'g) ec_library \<Rightarrow> uint256 \<Rightarrow> bytes \<Rightarrow> 'k \<Rightarrow> int" where
  "xbtc_ECDSA_verify ec dgst sigbuf eckey =
     (if \<not> ECDSA_SIG_new ec then - 1
      else case d2i_ECDSA_SIG ec sigbuf of None \<Rightarrow> - 1 | Some s \<Rightarrow> ECDSA_do_verify ec dgst s eckey)"

definition key_verify :: "('k, 'g) ec_library \<Rightarrow> 'k \<Rightarrow> uint256 \<Rightarrow> bytes \<Rightarrow> bool" where
  "key_verify ec key h sig \<longleftrightarrow> xbtc_ECDSA_verify ec h sig key = 1"

definition PublicKey_verify :: "('k, 'g) ec_library \<Rightarrow> bytes \<Rightarrow> uint256 \<Rightarrow> bytes \<Rightarrow> bool" where
  "PublicKey_verify ec pubkey h sig =
     (case key_assign ec pubkey of None \<Rightarrow> False | Some key \<Rightarrow> key_verify ec key h sig)"

section \<open>What the validator is given\<close>

record ('d, 's, 'k, 'g) val_context =
  v_db :: "('d, 's) db_context"
  v_digests :: script_digests
  v_ec :: "('k, 'g) ec_library"
  v_bn :: big_number_ops
  v_parse :: "string \<Rightarrow> uint256"

section \<open>The signature checker\<close>

text \<open>The transaction that is signed: every signature script is empty but the one of the input, which is
  the script being run.\<close>

definition signed_tx :: "Transaction \<Rightarrow> nat \<Rightarrow> bytes \<Rightarrow> Transaction" where
  "signed_tx tx i code =
     (let ins = map (\<lambda>i. i\<lparr>signatureScript := []\<rparr>) (inputs tx)
      in tx\<lparr>inputs := ins[i := (ins ! i)\<lparr>signatureScript := code\<rparr>]\<rparr>)"

definition hashSignature :: "('d, 's, 'k, 'g) val_context \<Rightarrow> Transaction \<Rightarrow> int \<Rightarrow> bytes \<Rightarrow> int \<Rightarrow> uint256 option" where
  "hashSignature vc tx index code hashType = do {
     assert_that (index \<ge> 0 \<and> index < int (length (inputs tx)));
     let temptx = signed_tx tx (nat index) code;
     Some (hash256 (digests.truncate (v_digests vc))
       (write_tx (db_out (v_db vc)) temptx @ wr32 (db_out (v_db vc)) (word_of_int hashType)))
   }"

definition sig_check :: "('d, 's, 'k, 'g) val_context \<Rightarrow> Transaction \<Rightarrow> int \<Rightarrow> bytes \<Rightarrow> bytes \<Rightarrow> bytes \<Rightarrow> bool option" where
  "sig_check vc tx index sig pubkey code = do {
     assert_that (sig \<noteq> []);
     assert_that (pubkey \<noteq> []);
     key \<leftarrow> key_assign (v_ec vc) pubkey;
     let hashType = sint (last sig);
     assert_that (hashType = 1 \<or> hashType = 0);
     sighash \<leftarrow> hashSignature vc tx index code hashType;
     Some (key_verify (v_ec vc) key sighash (butlast sig))
   }"

text \<open>The machine that runs the scripts of an input.\<close>

definition input_vm :: "('d, 's, 'k, 'g) val_context \<Rightarrow> Transaction \<Rightarrow> int \<Rightarrow> 's vm_context" where
  "input_vm vc tx index = \<lparr>code_stream = db_in (v_db vc), vm_digests = v_digests vc, checker = sig_check vc tx index\<rparr>"

definition run_script :: "'s vm_context \<Rightarrow> ScriptVM \<Rightarrow> bytes \<Rightarrow> ScriptVM option" where
  "run_script cx vm code = Option.bind (vm_eval cx vm code) id"

section \<open>Headers\<close>

definition checkProofOfWork :: "big_number_ops \<Rightarrow> BlockHeader \<Rightarrow> bool" where
  "checkProofOfWork bn h =
     (case decodeCompactNumber bn (bits h) of None \<Rightarrow> False | Some target \<Rightarrow> \<not> bn_greater bn (hash h) target)"

definition validateBlockHeader :: "big_number_ops \<Rightarrow> BlockHeader \<Rightarrow> bool" where
  "validateBlockHeader bn h = checkProofOfWork bn h"

definition validateBlockIndex :: "big_number_ops \<Rightarrow> BlockIndex \<Rightarrow> bool" where
  "validateBlockIndex bn b = validateBlockHeader bn (header b)"

definition validateBlock :: "Block \<Rightarrow> BlockIndex \<Rightarrow> bool" where
  "validateBlock b bi = True"

section \<open>Duplicate transactions\<close>

definition BLOCK_HASH_91842 :: string where
  "BLOCK_HASH_91842 = ''00000000000a4d0a398161ffc163c503763b1f4360639393e0e4c8e300e0caec''"

definition BLOCK_HASH_91880 :: string where
  "BLOCK_HASH_91880 = ''00000000000743f190a18c5577a3c2d2a1f610ae9601ac046a38084ccb7cd721''"

text \<open>The hash is only asked for at the two heights.\<close>

definition not_block :: "(string \<Rightarrow> uint256) \<Rightarrow> int \<Rightarrow> string \<Rightarrow> BlockIndex \<Rightarrow> bool option" where
  "not_block parse ht s b = (if height b \<noteq> ht then Some True else do { h \<leftarrow> index_getHash b; Some (h \<noteq> parse s) })"

definition forbidDuplicateTransaction :: "(string \<Rightarrow> uint256) \<Rightarrow> BlockIndex \<Rightarrow> bool option" where
  "forbidDuplicateTransaction parse b = do {
     r \<leftarrow> not_block parse 91842 BLOCK_HASH_91842 b;
     if r then not_block parse 91880 BLOCK_HASH_91880 b else Some False
   }"

text \<open>The loop over the outputs of a transaction and the loop over the transactions; a coin that is there
  already fails an assertion.\<close>

fun duplicate_outputs :: "('d, 's) db_context \<Rightarrow> Transaction \<Rightarrow> nat \<Rightarrow> nat \<Rightarrow> 'd CoinView \<Rightarrow> 'd CoinView option" where
  "duplicate_outputs cx tx i 0 cv = Some cv"
| "duplicate_outputs cx tx i (Suc n) cv = do {
     h \<leftarrow> getHash tx;
     (found, cv) \<leftarrow> hasCoin cx \<lparr>op_hash = h, op_index = of_nat i\<rparr> cv;
     assert_that (\<not> found);
     duplicate_outputs cx tx (Suc i) n cv
   }"

fun duplicate_txs :: "('d, 's) db_context \<Rightarrow> Transaction list \<Rightarrow> 'd CoinView \<Rightarrow> 'd CoinView option" where
  "duplicate_txs cx [] cv = Some cv"
| "duplicate_txs cx (tx # txs) cv = do {
     cv \<leftarrow> duplicate_outputs cx tx 0 (length (outputs tx)) cv;
     duplicate_txs cx txs cv
   }"

definition checkDuplicateTransaction :: "('d, 's, 'k, 'g) val_context \<Rightarrow> Block \<Rightarrow> BlockIndex \<Rightarrow> 'd CoinView \<Rightarrow> (bool \<times> 'd CoinView) option" where
  "checkDuplicateTransaction vc block bi cv = do {
     forbid \<leftarrow> forbidDuplicateTransaction (v_parse vc) bi;
     if \<not> forbid then Some (True, cv)
     else do { cv \<leftarrow> duplicate_txs (v_db vc) (transactions block) cv; Some (True, cv) }
   }"

section \<open>Inputs\<close>

text \<open>A search of the block for the output: the first transaction, other than the one to but, with the
  hash of the outpoint; without one \<open>txout\<close> stays what it was.\<close>

fun prev_loop :: "TransactionOutPoint \<Rightarrow> nat option \<Rightarrow> nat \<Rightarrow> Transaction list \<Rightarrow> TransactionOutput option \<Rightarrow> TransactionOutput option option" where
  "prev_loop out but i [] txout = Some txout"
| "prev_loop out but i (prevtx # txs) txout =
     (if but = Some i then prev_loop out but (Suc i) txs txout
      else do {
        h \<leftarrow> getHash prevtx;
        if h = op_hash out
        then do {
          assert_that (unat (op_index out) < length (outputs prevtx));
          Some (Some (outputs prevtx ! unat (op_index out)))
        }
        else prev_loop out but (Suc i) txs txout
      })"

definition block_output :: "Transaction list \<Rightarrow> nat \<Rightarrow> TransactionOutPoint \<Rightarrow> TransactionOutput option option" where
  "block_output txs txindex out = do {
     txout \<leftarrow> prev_loop out None 0 (take txindex txs) None;
     prev_loop out (Some txindex) 0 txs txout
   }"

text \<open>The output an input refers to: of a coin with a value, or of a transaction of the block.\<close>

definition find_prevout :: "('d, 's) db_context \<Rightarrow> Transaction list \<Rightarrow> nat \<Rightarrow> TransactionOutPoint \<Rightarrow> 'd CoinView \<Rightarrow> (TransactionOutput \<times> 'd CoinView) option" where
  "find_prevout cx txs txindex out cv = do {
     (coin, cv) \<leftarrow> fetchCoin cx out cv;
     case coin of
       Some c \<Rightarrow>
         if coin_value c > 0 then Some (coin_output c, cv)
         else do { txout \<leftarrow> block_output txs txindex out; txout \<leftarrow> txout; Some (txout, cv) }
     | None \<Rightarrow> do { txout \<leftarrow> block_output txs txindex out; txout \<leftarrow> txout; Some (txout, cv) }
   }"

text \<open>The scripts of an input: what is on top of the stack after both must be true.\<close>

definition verify_scripts :: "'s vm_context \<Rightarrow> bytes \<Rightarrow> bytes \<Rightarrow> bool option" where
  "verify_scripts vmc unlock lock = do {
     vm \<leftarrow> run_script vmc ScriptVM_new unlock;
     vm \<leftarrow> run_script vmc vm lock;
     assert_that (getBoolValue vm (- 1) = Some True);
     Some True
   }"

definition verifyTransactionInput :: "('d, 's, 'k, 'g) val_context \<Rightarrow> Transaction list \<Rightarrow> nat \<Rightarrow> nat \<Rightarrow> 'd CoinView \<Rightarrow> (bool \<times> 'd CoinView) option" where
  "verifyTransactionInput vc txs txindex index cv = do {
     assert_that (txindex < length txs);
     let tx = txs ! txindex;
     if isCoinBase tx then Some (True, cv)
     else do {
       assert_that (index < length (inputs tx));
       let txin = inputs tx ! index;
       (txout, cv) \<leftarrow> find_prevout (v_db vc) txs txindex (previousOutput txin) cv;
       r \<leftarrow> verify_scripts (input_vm vc tx (int index)) (signatureScript txin) (scriptPublicKey txout);
       Some (r, cv)
     }
   }"

fun verify_inputs :: "('d, 's, 'k, 'g) val_context \<Rightarrow> Transaction list \<Rightarrow> nat \<Rightarrow> nat \<Rightarrow> nat \<Rightarrow> 'd CoinView \<Rightarrow> (bool \<times> 'd CoinView) option" where
  "verify_inputs vc txs i j 0 cv = Some (True, cv)"
| "verify_inputs vc txs i j (Suc n) cv = do {
     (r, cv) \<leftarrow> verifyTransactionInput vc txs i j cv;
     if r then verify_inputs vc txs i (Suc j) n cv else Some (False, cv)
   }"

fun verify_txs :: "('d, 's, 'k, 'g) val_context \<Rightarrow> Transaction list \<Rightarrow> nat \<Rightarrow> nat \<Rightarrow> 'd CoinView \<Rightarrow> (bool \<times> 'd CoinView) option" where
  "verify_txs vc txs i 0 cv = Some (True, cv)"
| "verify_txs vc txs i (Suc n) cv = do {
     (r, cv) \<leftarrow> verify_inputs vc txs i 0 (length (inputs (txs ! i))) cv;
     if r then verify_txs vc txs (Suc i) n cv else Some (False, cv)
   }"

definition verifyTransactionInputs :: "('d, 's, 'k, 'g) val_context \<Rightarrow> Block \<Rightarrow> BlockIndex \<Rightarrow> 'd CoinView \<Rightarrow> (bool \<times> 'd CoinView) option" where
  "verifyTransactionInputs vc block bi cv = verify_txs vc (transactions block) 0 (length (transactions block)) cv"

definition verifyTransactions :: "('d, 's, 'k, 'g) val_context \<Rightarrow> Block \<Rightarrow> BlockIndex \<Rightarrow> 'd CoinView \<Rightarrow> (bool \<times> 'd CoinView) option" where
  "verifyTransactions vc block bi cv = do {
     (ok, cv) \<leftarrow> checkDuplicateTransaction vc block bi cv;
     if \<not> ok then Some (False, cv)
     else do {
       (ok, cv) \<leftarrow> verifyTransactionInputs vc block bi cv;
       Some (ok, cv)
     }
   }"

section \<open>Proof of work\<close>

lemma checkProofOfWork_exact:
  assumes "big_number bn" "length (hash h) = 32"
  shows "checkProofOfWork bn h \<longleftrightarrow> compact_val (bits h) \<noteq> 0 \<and> \<not> bit (bits h) 23 \<and> compact_val (bits h) < 2 ^ 256 \<and>
    bytes_val (hash h) \<le> compact_val (bits h)"
  using big_number.decodeCompactNumber_val [OF assms(1), of "bits h"] assms(2)
  by (auto simp: checkProofOfWork_def big_number.greater_val [OF assms(1)] not_less split: option.splits if_splits)

section \<open>Duplicates\<close>

lemma hasCoin_ok:
  assumes "view_ok cx cv" "wf_point out"
  obtains cv' where "hasCoin cx out cv = Some (utxo cx cv out \<noteq> None, cv')" "view_ok cx cv'" "utxo cx cv' = utxo cx cv"
    "bestBlockHeight (coins cv') = bestBlockHeight (coins cv)" "removedCoins (coins cv') = removedCoins (coins cv)"
proof (rule fetchCoin_ok [OF assms], goal_cases)
  case (1 r cv')
  then have "hasCoin cx out cv = Some (utxo cx cv out \<noteq> None, cv')" by (auto simp: hasCoin_def split: option.split)
  then show ?thesis using that 1 by blast
qed

text \<open>Two views that show the same coins.\<close>

definition same_coins :: "('d, 's) db_context \<Rightarrow> 'd CoinView \<Rightarrow> 'd CoinView \<Rightarrow> bool" where
  "same_coins cx cv cv' \<longleftrightarrow> view_ok cx cv' \<and> utxo cx cv' = utxo cx cv \<and>
     bestBlockHeight (coins cv') = bestBlockHeight (coins cv) \<and> removedCoins (coins cv') = removedCoins (coins cv)"

lemma same_coins_refl: "view_ok cx cv \<Longrightarrow> same_coins cx cv cv"
  by (simp add: same_coins_def)

lemma same_coins_trans: "same_coins cx a b \<Longrightarrow> same_coins cx b c \<Longrightarrow> same_coins cx a c"
  by (simp add: same_coins_def)

lemma same_coins_view: "same_coins cx cv cv' \<Longrightarrow> view_ok cx cv'"
  by (simp add: same_coins_def)

definition no_output :: "('d, 's) db_context \<Rightarrow> 'd CoinView \<Rightarrow> Transaction \<Rightarrow> bool" where
  "no_output cx cv tx \<longleftrightarrow> list_all (\<lambda>j. utxo cx cv \<lparr>op_hash = tx_hash tx, op_index = of_nat j\<rparr> = None) [0..<length (outputs tx)]"

definition hashed :: "Transaction \<Rightarrow> bool" where
  "hashed tx \<longleftrightarrow> length (tx_hash tx) = 32 \<and> tx_hash tx \<noteq> uint256_null"

lemma getHash_hashed: "hashed tx \<Longrightarrow> getHash tx = Some (tx_hash tx)"
  by (simp add: hashed_def getHash_def)

lemma duplicate_outputs_ok:
  assumes "view_ok cx cv" "hashed tx"
  shows "if list_all (\<lambda>j. utxo cx cv \<lparr>op_hash = tx_hash tx, op_index = of_nat j\<rparr> = None) [i..<i + n]
    then \<exists>cv'. duplicate_outputs cx tx i n cv = Some cv' \<and> same_coins cx cv cv' else duplicate_outputs cx tx i n cv = None"
  using assms(1)
proof (induction n arbitrary: i cv)
  case (Suc n)
  let ?p = "\<lparr>op_hash = tx_hash tx, op_index = of_nat i :: u32\<rparr>"
  have "wf_point ?p" using assms(2) by (simp add: wf_point_def hashed_def)
  from hasCoin_ok [OF Suc.prems this] obtain cv1
    where c: "hasCoin cx ?p cv = Some (utxo cx cv ?p \<noteq> None, cv1)" "view_ok cx cv1" "same_coins cx cv cv1"
    unfolding same_coins_def by blast
  have range: "[i..<i + Suc n] = i # [Suc i..<Suc i + n]" by (simp add: upt_conv_Cons)
  show ?case unfolding range
    using Suc.IH [OF c(2), of "Suc i"] c same_coins_trans [OF c(3)] getHash_hashed [OF assms(2)]
    by (auto simp: same_coins_def split: if_splits)
qed (simp add: same_coins_refl)

lemma duplicate_txs_ok:
  assumes "view_ok cx cv" "list_all hashed txs"
  shows "if list_all (no_output cx cv) txs
    then \<exists>cv'. duplicate_txs cx txs cv = Some cv' \<and> same_coins cx cv cv' else duplicate_txs cx txs cv = None"
  using assms
proof (induction txs arbitrary: cv)
  case (Cons tx txs)
  have hashed: "hashed tx" "list_all hashed txs" using Cons.prems by simp_all
  have d: "if no_output cx cv tx then \<exists>cv'. duplicate_outputs cx tx 0 (length (outputs tx)) cv = Some cv' \<and> same_coins cx cv cv'
    else duplicate_outputs cx tx 0 (length (outputs tx)) cv = None"
    using duplicate_outputs_ok [OF Cons.prems(1) hashed(1), of 0 "length (outputs tx)"] by (simp add: no_output_def)
  show ?case
  proof (cases "no_output cx cv tx")
    case True
    then obtain cv1 where c: "duplicate_outputs cx tx 0 (length (outputs tx)) cv = Some cv1" "same_coins cx cv cv1"
      using d by auto
    then have "no_output cx cv1 = no_output cx cv" by (simp add: fun_eq_iff no_output_def same_coins_def)
    then show ?thesis
      using Cons.IH [OF same_coins_view [OF c(2)] hashed(2)] True c same_coins_trans [OF c(2)] by (auto split: if_splits)
  qed (use d in simp)
qed (simp add: same_coins_refl)

section \<open>The outputs of a block\<close>

definition nth_output :: "TransactionOutPoint \<Rightarrow> Transaction \<Rightarrow> TransactionOutput option option" where
  "nth_output out tx = (if unat (op_index out) < length (outputs tx) then Some (Some (outputs tx ! unat (op_index out))) else None)"

lemma prev_loop_find:
  assumes "list_all hashed txs" "but = None \<or> (\<exists>k < i. but = Some k)"
  shows "prev_loop out but i txs r = (case find (\<lambda>tx. tx_hash tx = op_hash out) txs of None \<Rightarrow> Some r | Some tx \<Rightarrow> nth_output out tx)"
  using assms by (induction txs arbitrary: i) (auto simp: getHash_hashed nth_output_def)

lemma prev_loop_skip:
  assumes "list_all hashed txs" "i \<le> k" "k - i < length txs"
  shows "prev_loop out (Some k) i txs r =
    (case find (\<lambda>tx. tx_hash tx = op_hash out) (take (k - i) txs @ drop (Suc (k - i)) txs) of None \<Rightarrow> Some r | Some tx \<Rightarrow> nth_output out tx)"
  using assms
proof (induction txs arbitrary: i)
  case (Cons tx txs)
  show ?case
  proof (cases "i = k")
    case False
    then have "k - i = Suc (k - Suc i)" using Cons.prems by simp
    moreover from this have "prev_loop out (Some k) (Suc i) txs r = (case find (\<lambda>tx. tx_hash tx = op_hash out)
        (take (k - Suc i) txs @ drop (Suc (k - Suc i)) txs) of None \<Rightarrow> Some r | Some tx \<Rightarrow> nth_output out tx)"
      using Cons.prems False by (intro Cons.IH) simp_all
    ultimately show ?thesis using Cons.prems False by (simp add: getHash_hashed nth_output_def)
  qed (use Cons.prems prev_loop_find [of txs "Some k" "Suc k" out r] in simp)
qed simp

lemma find_append: "find P (xs @ ys) = (case find P xs of None \<Rightarrow> find P ys | Some x \<Rightarrow> Some x)"
  by (induction xs) simp_all

text \<open>The output of the first transaction of the block, but for the one at hand, with the hash of the outpoint:
  transactions that come later in the block count.\<close>

definition other_output :: "Transaction list \<Rightarrow> nat \<Rightarrow> TransactionOutPoint \<Rightarrow> TransactionOutput option option" where
  "other_output txs i out =
     (case find (\<lambda>tx. tx_hash tx = op_hash out) (take i txs @ drop (Suc i) txs) of None \<Rightarrow> Some None | Some tx \<Rightarrow> nth_output out tx)"

lemma block_output_eq:
  assumes "list_all hashed txs" "i < length txs"
  shows "block_output txs i out = other_output txs i out"
proof -
  have "list_all hashed (take i txs)" using assms(1) by (auto simp: list_all_iff dest: in_set_takeD)
  note first = prev_loop_find [OF this, of None 0 out None]
  show ?thesis
    using prev_loop_skip [OF assms(1), of 0 i out] assms(2)
    by (auto simp: block_output_def first other_output_def find_append nth_output_def split: option.splits)
qed

definition prevout_spec :: "coin_map \<Rightarrow> Transaction list \<Rightarrow> nat \<Rightarrow> TransactionOutPoint \<Rightarrow> TransactionOutput option" where
  "prevout_spec u txs i out = (case u out of Some c \<Rightarrow> Some (coin_output c) | None \<Rightarrow> Option.bind (other_output txs i out) id)"

lemma find_prevout_ok:
  assumes "view_ok cx cv" "list_all hashed txs" "i < length txs" "wf_point out"
  shows "case prevout_spec (utxo cx cv) txs i out of None \<Rightarrow> find_prevout cx txs i out cv = None
    | Some txout \<Rightarrow> \<exists>cv'. find_prevout cx txs i out cv = Some (txout, cv') \<and> same_coins cx cv cv'"
proof (rule fetchCoin_ok [OF assms(1,4)], goal_cases)
  case (1 r cv')
  then have same: "same_coins cx cv cv'" by (simp add: same_coins_def)
  show ?case
    using 1(1,6) same block_output_eq [OF assms(2,3), of out]
    by (cases "other_output txs i out") (auto simp: find_prevout_def prevout_spec_def split: option.splits if_splits)
qed

section \<open>The inputs of a block\<close>

definition input_ok :: "('d, 's, 'k, 'g) val_context \<Rightarrow> coin_map \<Rightarrow> Transaction list \<Rightarrow> nat \<Rightarrow> nat \<Rightarrow> bool" where
  "input_ok vc u txs i j \<longleftrightarrow> isCoinBase (txs ! i) \<or>
     (\<exists>txout. prevout_spec u txs i (previousOutput (inputs (txs ! i) ! j)) = Some txout \<and>
        verify_scripts (input_vm vc (txs ! i) (int j)) (signatureScript (inputs (txs ! i) ! j)) (scriptPublicKey txout) = Some True)"

definition wf_block_txs :: "Transaction list \<Rightarrow> bool" where
  "wf_block_txs txs \<longleftrightarrow> list_all hashed txs \<and> list_all (\<lambda>tx. list_all (\<lambda>i. wf_point (previousOutput i)) (inputs tx)) txs"

lemma verify_scripts_cases: "verify_scripts cx a b = None \<or> verify_scripts cx a b = Some True"
  by (auto simp: verify_scripts_def split: bind_splits)

lemma verifyTransactionInput_ok:
  assumes ok: "view_ok (v_db vc) cv" and wf: "wf_block_txs txs" and i: "i < length txs" and j: "j < length (inputs (txs ! i))"
  shows "if input_ok vc (utxo (v_db vc) cv) txs i j
    then \<exists>cv'. verifyTransactionInput vc txs i j cv = Some (True, cv') \<and> same_coins (v_db vc) cv cv'
    else verifyTransactionInput vc txs i j cv = None"
proof (cases "isCoinBase (txs ! i)")
  case True
  then show ?thesis using i ok by (simp add: verifyTransactionInput_def input_ok_def same_coins_refl)
next
  case False
  let ?out = "previousOutput (inputs (txs ! i) ! j)"
  have "wf_point ?out" using wf i j by (auto simp: wf_block_txs_def list_all_length)
  then have p: "case prevout_spec (utxo (v_db vc) cv) txs i ?out of None \<Rightarrow> find_prevout (v_db vc) txs i ?out cv = None
    | Some txout \<Rightarrow> \<exists>cv'. find_prevout (v_db vc) txs i ?out cv = Some (txout, cv') \<and> same_coins (v_db vc) cv cv'"
    using wf i by (intro find_prevout_ok [OF ok]) (simp_all add: wf_block_txs_def)
  show ?thesis
  proof (cases "prevout_spec (utxo (v_db vc) cv) txs i ?out")
    case None
    then show ?thesis using p False i j by (simp add: verifyTransactionInput_def input_ok_def)
  next
    case (Some txout)
    then obtain cv' where "find_prevout (v_db vc) txs i ?out cv = Some (txout, cv')" "same_coins (v_db vc) cv cv'" using p by auto
    then show ?thesis
      using verify_scripts_cases [of "input_vm vc (txs ! i) (int j)" "signatureScript (inputs (txs ! i) ! j)" "scriptPublicKey txout"]
        Some False i j
      by (auto simp: verifyTransactionInput_def input_ok_def)
  qed
qed

lemma verify_inputs_ok:
  assumes "view_ok (v_db vc) cv" "wf_block_txs txs" "i < length txs" "j + n \<le> length (inputs (txs ! i))"
  shows "if list_all (input_ok vc (utxo (v_db vc) cv) txs i) [j..<j + n]
    then \<exists>cv'. verify_inputs vc txs i j n cv = Some (True, cv') \<and> same_coins (v_db vc) cv cv'
    else verify_inputs vc txs i j n cv = None"
  using assms(1,4)
proof (induction n arbitrary: j cv)
  case (Suc n)
  have range: "[j..<j + Suc n] = j # [Suc j..<Suc j + n]" by (simp add: upt_conv_Cons)
  have "j < length (inputs (txs ! i))" using Suc.prems(2) by simp
  note one = verifyTransactionInput_ok [OF Suc.prems(1) assms(2,3) this]
  show ?case unfolding range
  proof (cases "input_ok vc (utxo (v_db vc) cv) txs i j")
    case True
    then obtain cv1 where c: "verifyTransactionInput vc txs i j cv = Some (True, cv1)" "same_coins (v_db vc) cv cv1"
      using one by auto
    then have "view_ok (v_db vc) cv1" "utxo (v_db vc) cv1 = utxo (v_db vc) cv" by (simp_all add: same_coins_def)
    then show "if list_all (input_ok vc (utxo (v_db vc) cv) txs i) (j # [Suc j..<Suc j + n])
      then \<exists>cv'. verify_inputs vc txs i j (Suc n) cv = Some (True, cv') \<and> same_coins (v_db vc) cv cv'
      else verify_inputs vc txs i j (Suc n) cv = None"
      using Suc.IH [of cv1 "Suc j"] Suc.prems(2) c True same_coins_trans [OF c(2)] by (auto split: if_splits)
  qed (use one in simp)
qed (simp add: same_coins_refl)

lemma verify_txs_ok:
  assumes "view_ok (v_db vc) cv" "wf_block_txs txs" "i + n \<le> length txs"
  shows "if list_all (\<lambda>i. list_all (input_ok vc (utxo (v_db vc) cv) txs i) [0..<length (inputs (txs ! i))]) [i..<i + n]
    then \<exists>cv'. verify_txs vc txs i n cv = Some (True, cv') \<and> same_coins (v_db vc) cv cv'
    else verify_txs vc txs i n cv = None"
  using assms(1,3)
proof (induction n arbitrary: i cv)
  case (Suc n)
  have range: "[i..<i + Suc n] = i # [Suc i..<Suc i + n]" by (simp add: upt_conv_Cons)
  have "i < length txs" using Suc.prems(2) by simp
  note one = verify_inputs_ok [OF Suc.prems(1) assms(2) this, of 0 "length (inputs (txs ! i))", simplified]
  show ?case unfolding range
  proof (cases "list_all (input_ok vc (utxo (v_db vc) cv) txs i) [0..<length (inputs (txs ! i))]")
    case True
    then obtain cv1 where c: "verify_inputs vc txs i 0 (length (inputs (txs ! i))) cv = Some (True, cv1)" "same_coins (v_db vc) cv cv1"
      using one by auto
    then have "view_ok (v_db vc) cv1" "utxo (v_db vc) cv1 = utxo (v_db vc) cv" by (simp_all add: same_coins_def)
    then show "if list_all (\<lambda>i. list_all (input_ok vc (utxo (v_db vc) cv) txs i) [0..<length (inputs (txs ! i))]) (i # [Suc i..<Suc i + n])
      then \<exists>cv'. verify_txs vc txs i (Suc n) cv = Some (True, cv') \<and> same_coins (v_db vc) cv cv'
      else verify_txs vc txs i (Suc n) cv = None"
      using Suc.IH [of cv1 "Suc i"] Suc.prems(2) c True same_coins_trans [OF c(2)] by (auto split: if_splits)
  qed (use one in simp)
qed (simp add: same_coins_refl)

lemma verifyTransactions_ok:
  assumes ok: "view_ok (v_db vc) cv" and wf: "wf_block_txs (transactions block)"
    and forbid: "forbidDuplicateTransaction (v_parse vc) bi = Some f"
  shows "if (f \<longrightarrow> list_all (no_output (v_db vc) cv) (transactions block)) \<and>
      (\<forall>i < length (transactions block). \<forall>j < length (inputs (transactions block ! i)).
        input_ok vc (utxo (v_db vc) cv) (transactions block) i j)
    then \<exists>cv'. verifyTransactions vc block bi cv = Some (True, cv') \<and> same_coins (v_db vc) cv cv'
    else verifyTransactions vc block bi cv = None"
proof -
  let ?txs = "transactions block" and ?cx = "v_db vc"
  have hashed: "list_all hashed ?txs" using wf by (simp add: wf_block_txs_def)
  have inputs_iff: "list_all (\<lambda>i. list_all (input_ok vc u ?txs i) [0..<length (inputs (?txs ! i))]) [0..<0 + length ?txs] \<longleftrightarrow>
    (\<forall>i < length ?txs. \<forall>j < length (inputs (?txs ! i)). input_ok vc u ?txs i j)" for u by (auto simp: list_all_iff)
  have inputs: "view_ok ?cx cv1 \<Longrightarrow> utxo ?cx cv1 = utxo ?cx cv \<Longrightarrow>
    if \<forall>i < length ?txs. \<forall>j < length (inputs (?txs ! i)). input_ok vc (utxo ?cx cv) ?txs i j
    then \<exists>cv'. verifyTransactionInputs vc block bi cv1 = Some (True, cv') \<and> same_coins ?cx cv1 cv'
    else verifyTransactionInputs vc block bi cv1 = None" for cv1
    using verify_txs_ok [OF _ wf, of vc cv1 0 "length ?txs"] unfolding inputs_iff verifyTransactionInputs_def by simp
  have dup: "if f \<longrightarrow> list_all (no_output ?cx cv) ?txs
    then \<exists>cv'. checkDuplicateTransaction vc block bi cv = Some (True, cv') \<and> same_coins ?cx cv cv'
    else checkDuplicateTransaction vc block bi cv = None"
    using duplicate_txs_ok [OF ok hashed] same_coins_refl [OF ok] by (auto simp: checkDuplicateTransaction_def forbid split: if_splits)
  show ?thesis
  proof (cases "f \<longrightarrow> list_all (no_output ?cx cv) ?txs")
    case True
    from dup [unfolded if_P [OF True]]
    obtain cv1 where c: "checkDuplicateTransaction vc block bi cv = Some (True, cv1)" "same_coins ?cx cv cv1" by blast
    have "view_ok ?cx cv1" "utxo ?cx cv1 = utxo ?cx cv" using c(2) by (simp_all add: same_coins_def)
    note inp = inputs [OF this]
    show ?thesis
    proof (cases "\<forall>i < length ?txs. \<forall>j < length (inputs (?txs ! i)). input_ok vc (utxo ?cx cv) ?txs i j")
      case all: True
      from inp [unfolded if_P [OF all]]
      obtain cv2 where "verifyTransactionInputs vc block bi cv1 = Some (True, cv2)" "same_coins ?cx cv1 cv2" by blast
      then show ?thesis using True all c same_coins_trans [OF c(2)] by (simp add: verifyTransactions_def)
    next
      case none: False
      then have "verifyTransactionInputs vc block bi cv1 = None" using inp [unfolded if_not_P [OF none]] by simp
      then show ?thesis using none c by (auto simp: verifyTransactions_def)
    qed
  next
    case False
    then have "checkDuplicateTransaction vc block bi cv = None" using dup [unfolded if_not_P [OF False]] by simp
    then show ?thesis using False by (auto simp: verifyTransactions_def)
  qed
qed

section \<open>Verification under the weaker invariant\<close>

text \<open>The same, for a view of which only the invariant of any run is known: what succeeds has changed nothing of the ledger.\<close>

definition same_ledger :: "('d, 's) db_context \<Rightarrow> 'd CoinView \<Rightarrow> 'd CoinView \<Rightarrow> bool" where
  "same_ledger cx cv cv' \<longleftrightarrow> view_inv cx cv' \<and> ledger_of cx cv' = ledger_of cx cv"

lemma same_ledger_refl: "view_inv cx cv \<Longrightarrow> same_ledger cx cv cv"
  by (simp add: same_ledger_def)

lemma same_ledger_trans: "same_ledger cx a b \<Longrightarrow> same_ledger cx b c \<Longrightarrow> same_ledger cx a c"
  by (simp add: same_ledger_def)

lemma same_ledgerD: "same_ledger cx cv cv' \<Longrightarrow> view_inv cx cv'" "same_ledger cx cv cv' \<Longrightarrow> utxo cx cv' = utxo cx cv"
  by (simp_all add: same_ledger_def ledger_of_def)

lemma fetchCoin_same: "view_inv cx cv \<Longrightarrow> wf_point out \<Longrightarrow> fetchCoin cx out cv = Some (r, cv') \<Longrightarrow> same_ledger cx cv cv' \<and> utxo cx cv out = told r"
  using fetchCoin_inv [of cx cv out r cv'] by (simp add: same_ledger_def)

lemma hasCoin_same:
  assumes "view_inv cx cv" "wf_point out" "hasCoin cx out cv = Some (b, cv')"
  shows "same_ledger cx cv cv'"
  using assms(3) fetchCoin_same [OF assms(1,2)] by (auto simp: hasCoin_def split: bind_splits)

lemma duplicate_outputs_same:
  assumes "hashed tx"
  shows "view_inv cx cv \<Longrightarrow> duplicate_outputs cx tx i n cv = Some cv' \<Longrightarrow> same_ledger cx cv cv'"
proof (induction n arbitrary: i cv)
  case (Suc n)
  obtain b cv1 where c: "hasCoin cx \<lparr>op_hash = tx_hash tx, op_index = of_nat i\<rparr> cv = Some (b, cv1)" "duplicate_outputs cx tx (Suc i) n cv1 = Some cv'"
    using Suc.prems(2) getHash_hashed [OF assms] by (auto split: bind_splits if_splits)
  have "same_ledger cx cv cv1" using assms by (intro hasCoin_same [OF Suc.prems(1) _ c(1)]) (simp add: wf_point_def hashed_def)
  then show ?case using Suc.IH [OF same_ledgerD(1) c(2)] same_ledger_trans by blast
qed (simp add: same_ledger_refl)

lemma duplicate_txs_same: "list_all hashed txs \<Longrightarrow> view_inv cx cv \<Longrightarrow> duplicate_txs cx txs cv = Some cv' \<Longrightarrow> same_ledger cx cv cv'"
proof (induction txs arbitrary: cv)
  case (Cons tx txs)
  obtain cv1 where c: "duplicate_outputs cx tx 0 (length (outputs tx)) cv = Some cv1" "duplicate_txs cx txs cv1 = Some cv'"
    using Cons.prems(3) by (auto split: bind_splits)
  have "same_ledger cx cv cv1" using Cons.prems by (intro duplicate_outputs_same [OF _ Cons.prems(2) c(1)]) simp
  then show ?case using Cons.IH [OF _ same_ledgerD(1) c(2)] Cons.prems(1) same_ledger_trans by (metis list.pred_inject(2))
qed (simp add: same_ledger_refl)

lemma find_prevout_same:
  assumes "view_inv cx cv" "list_all hashed txs" "i < length txs" "wf_point out" "find_prevout cx txs i out cv = Some (txout, cv')"
  shows "same_ledger cx cv cv' \<and> prevout_spec (utxo cx cv) txs i out = Some txout"
proof -
  obtain r cv1 where r: "fetchCoin cx out cv = Some (r, cv1)" using assms(5) by (auto simp: find_prevout_def split: bind_splits)
  note f = fetchCoin_same [OF assms(1,4) r]
  show ?thesis
    using assms(5) f r block_output_eq [OF assms(2,3), of out]
    by (cases "other_output txs i out") (auto simp: find_prevout_def prevout_spec_def told_def split: option.splits if_splits bind_splits)
qed

lemma verifyTransactionInput_same:
  assumes ok: "view_inv (v_db vc) cv" and wf: "wf_block_txs txs" and i: "i < length txs" and j: "j < length (inputs (txs ! i))"
    and run: "verifyTransactionInput vc txs i j cv = Some (r, cv')"
  shows "r \<and> same_ledger (v_db vc) cv cv' \<and> input_ok vc (utxo (v_db vc) cv) txs i j"
proof (cases "isCoinBase (txs ! i)")
  case True
  then show ?thesis using run i ok by (simp add: verifyTransactionInput_def input_ok_def same_ledger_refl)
next
  case False
  let ?out = "previousOutput (inputs (txs ! i) ! j)"
  have out: "wf_point ?out" "list_all hashed txs" using wf i j by (auto simp: wf_block_txs_def list_all_length)
  obtain txout where t: "find_prevout (v_db vc) txs i ?out cv = Some (txout, cv')"
    "verify_scripts (input_vm vc (txs ! i) (int j)) (signatureScript (inputs (txs ! i) ! j)) (scriptPublicKey txout) = Some r"
    using run False i j by (auto simp: verifyTransactionInput_def Let_def split: bind_splits)
  then have "r" using verify_scripts_cases [of "input_vm vc (txs ! i) (int j)" "signatureScript (inputs (txs ! i) ! j)" "scriptPublicKey txout"] by auto
  then show ?thesis using find_prevout_same [OF ok out(2) i out(1) t(1)] t(2) by (auto simp: input_ok_def)
qed

lemma verify_inputs_same:
  assumes "wf_block_txs txs" "i < length txs"
  shows "view_inv (v_db vc) cv \<Longrightarrow> j + n \<le> length (inputs (txs ! i)) \<Longrightarrow> verify_inputs vc txs i j n cv = Some (r, cv') \<Longrightarrow>
    r \<and> same_ledger (v_db vc) cv cv' \<and> (\<forall>k. j \<le> k \<and> k < j + n \<longrightarrow> input_ok vc (utxo (v_db vc) cv) txs i k)"
proof (induction n arbitrary: j cv)
  case (Suc n)
  obtain q cv1 where v: "verifyTransactionInput vc txs i j cv = Some (q, cv1)"
    using Suc.prems(3) by (auto split: bind_splits)
  have "j < length (inputs (txs ! i))" using Suc.prems(2) by simp
  note o = verifyTransactionInput_same [OF Suc.prems(1) assms this v]
  then have "verify_inputs vc txs i (Suc j) n cv1 = Some (r, cv')" using Suc.prems(3) v by simp
  then have "r \<and> same_ledger (v_db vc) cv1 cv' \<and> (\<forall>k. Suc j \<le> k \<and> k < Suc j + n \<longrightarrow> input_ok vc (utxo (v_db vc) cv1) txs i k)"
    using o same_ledgerD(1) Suc.prems(2) by (intro Suc.IH) auto
  then show ?case using o same_ledger_trans same_ledgerD(2) by (metis Suc_leI add_Suc_shift le_neq_implies_less)
qed (auto simp: same_ledger_refl)

lemma verify_txs_same:
  assumes "wf_block_txs txs"
  shows "view_inv (v_db vc) cv \<Longrightarrow> i + n \<le> length txs \<Longrightarrow> verify_txs vc txs i n cv = Some (r, cv') \<Longrightarrow>
    r \<and> same_ledger (v_db vc) cv cv' \<and>
    (\<forall>k. i \<le> k \<and> k < i + n \<longrightarrow> (\<forall>j < length (inputs (txs ! k)). input_ok vc (utxo (v_db vc) cv) txs k j))"
proof (induction n arbitrary: i cv)
  case (Suc n)
  obtain q cv1 where v: "verify_inputs vc txs i 0 (length (inputs (txs ! i))) cv = Some (q, cv1)"
    using Suc.prems(3) by (auto split: bind_splits)
  have "i < length txs" using Suc.prems(2) by simp
  note o = verify_inputs_same [OF assms this Suc.prems(1) _ v, simplified]
  then have "verify_txs vc txs (Suc i) n cv1 = Some (r, cv')" using Suc.prems(3) v by simp
  then have "r \<and> same_ledger (v_db vc) cv1 cv' \<and>
      (\<forall>k. Suc i \<le> k \<and> k < Suc i + n \<longrightarrow> (\<forall>j < length (inputs (txs ! k)). input_ok vc (utxo (v_db vc) cv1) txs k j))"
    using o same_ledgerD(1) Suc.prems(2) by (intro Suc.IH) auto
  then show ?case using o same_ledger_trans same_ledgerD(2) by (metis Suc_leI add_Suc_shift le_neq_implies_less)
qed (auto simp: same_ledger_refl)

text \<open>Every input of the block refers to an output it can spend.\<close>

definition inputs_ok :: "('d, 's, 'k, 'g) val_context \<Rightarrow> coin_map \<Rightarrow> Transaction list \<Rightarrow> bool" where
  "inputs_ok vc u txs \<longleftrightarrow> (\<forall>i < length txs. \<forall>j < length (inputs (txs ! i)). input_ok vc u txs i j)"

lemma verifyTransactions_same:
  assumes ok: "view_inv (v_db vc) cv" and wf: "wf_block_txs (transactions block)"
    and run: "verifyTransactions vc block bi cv = Some (r, cv')"
  shows "r \<and> same_ledger (v_db vc) cv cv' \<and> inputs_ok vc (utxo (v_db vc) cv) (transactions block)"
proof -
  let ?cx = "v_db vc" and ?txs = "transactions block"
  have hashed: "list_all hashed ?txs" using wf by (simp add: wf_block_txs_def)
  obtain q cv1 where q: "checkDuplicateTransaction vc block bi cv = Some (q, cv1)"
    using run by (auto simp: verifyTransactions_def split: bind_splits)
  then have d: "q" "same_ledger ?cx cv cv1"
    using duplicate_txs_same [OF hashed ok] same_ledger_refl [OF ok]
    by (auto simp: checkDuplicateTransaction_def split: bind_splits if_splits)
  then have "verify_txs vc ?txs 0 (length ?txs) cv1 = Some (r, cv')"
    using run q by (auto simp: verifyTransactions_def verifyTransactionInputs_def split: bind_splits)
  from verify_txs_same [OF wf same_ledgerD(1) [OF d(2)] _ this]
  have "r \<and> same_ledger ?cx cv1 cv' \<and> (\<forall>k < length ?txs. \<forall>j < length (inputs (?txs ! k)). input_ok vc (utxo ?cx cv1) ?txs k j)" by simp
  then show ?thesis using d(2) same_ledger_trans same_ledgerD(2) [OF d(2)] unfolding inputs_ok_def by metis
qed

section \<open>Scripts of an input\<close>

lemma sint_byte_01: "sint (t :: byte) = 1 \<or> sint t = 0 \<longleftrightarrow> t \<in> {0, 1}"
  using signed_word_eqI [of t 1] signed_word_eqI [of t 0] by auto

text \<open>The signature of an input over its script: the bytes before the last are a valid signature of the
  transaction with that script, and the last is 0 or 1.\<close>

definition signs_input :: "('d, 's, 'k, 'g) val_context \<Rightarrow> Transaction \<Rightarrow> nat \<Rightarrow> bytes \<Rightarrow> bytes \<Rightarrow> bytes \<Rightarrow> bool" where
  "signs_input vc tx j sig pubkey code \<longleftrightarrow> pubkey \<noteq> [] \<and> (\<exists>key s t. o2i_ECPublicKey (v_ec vc) pubkey = Some key \<and>
     sig = s @ [t] \<and> t \<in> {0, 1} \<and>
     xbtc_ECDSA_verify (v_ec vc) (hash256 (digests.truncate (v_digests vc))
       (write_tx (db_out (v_db vc)) (signed_tx tx j code) @ wr32 (db_out (v_db vc)) (ucast t))) s key = 1)"

lemma sig_check_true:
  assumes "j < length (inputs tx)"
  shows "sig_check vc tx (int j) sig pubkey code = Some True \<longleftrightarrow> signs_input vc tx j sig pubkey code"
proof (cases sig rule: rev_cases)
  case (snoc s t)
  have "t \<in> {0, 1} \<Longrightarrow> word_of_int (sint t) = (ucast t :: u32)" by auto
  then show ?thesis using assms sint_byte_01 [of t]
    by (auto simp: snoc sig_check_def hashSignature_def signs_input_def key_assign_def key_verify_def split: bind_splits)
qed (simp add: sig_check_def signs_input_def)

lemma input_vm_simps [simp]:
  "code_stream (input_vm vc tx j) = db_in (v_db vc)" "vm_digests (input_vm vc tx j) = v_digests vc"
  "checker (input_vm vc tx j) = sig_check vc tx j"
  by (simp_all add: input_vm_def)

lemma verify_scripts_bind: "verify_scripts cx a b =
    Option.bind (Option.bind (Option.bind (vm_eval cx ScriptVM_new a) id) (\<lambda>vm. Option.bind (vm_eval cx vm b) id))
      (\<lambda>vm. if getBoolValue vm (- 1) = Some True then Some True else None)"
  by (simp add: verify_scripts_def run_script_def)

lemma getBoolValue_last: "vars vm = st @ [s] \<Longrightarrow> getBoolValue vm (- 1) = Some (bool_of s)"
  by (rule getBoolValue_top)

lemma verify_return_script:
  assumes "streams (db_in (v_db vc)) os" "lock \<noteq> []"
  shows "verify_scripts (input_vm vc tx j) [OP_1, OP_RETURN] lock = Some True"
  using eval_after_return [of "input_vm vc tx j" os lock] assms getBoolValue_top [of _ "[]" "[1]"]
  by (simp add: verify_scripts_bind del: bind_assoc)

lemma verify_key_hash:
  assumes "streams (db_in (v_db vc)) os" "length sig < 2 ^ 31" "length pubkey < 2 ^ 31" "length h < 2 ^ 31"
    and "lock = [OP_DUP, OP_HASH160] @ writeScriptString os h @ [OP_EQUALVERIFY, OP_CHECKSIG]" "j < length (inputs tx)"
  shows "verify_scripts (input_vm vc tx (int j)) (writeScriptString os sig @ writeScriptString os pubkey) lock = Some True \<longleftrightarrow>
    hash160 (digests.truncate (v_digests vc)) pubkey = h \<and> signs_input vc tx j sig pubkey lock"
  using pay_to_key_hash [of "input_vm vc tx (int j)" os sig pubkey h lock] assms
    getBoolValue_top [of _ "[]" vTrue] getBoolValue_top [of _ "[sig, pubkey]" vFalse] sig_check_true [OF assms(6), of vc sig pubkey lock]
  by (simp add: verify_scripts_bind del: bind_assoc)

section \<open>A concrete validator\<close>

definition plain_ec :: "(bytes, bytes) ec_library" where
  "plain_ec = \<lparr>o2i_ECPublicKey = Some, ECDSA_SIG_new = True, d2i_ECDSA_SIG = Some,
     ECDSA_do_verify = \<lambda>h s key. if s = key then 1 else 0\<rparr>"

definition plain_validator :: "((bytes \<times> bytes) list, bytes \<times> bool, bytes, bytes) val_context" where
  "plain_validator = \<lparr>v_db = le_db, v_digests = \<lparr>sha256 = id, ripemd160 = id, sha1 = id\<rparr>, v_ec = plain_ec,
     v_bn = limb_big_number, v_parse = \<lambda>s. uint256_null\<rparr>"

lemma plain_validator_simps [simp]:
  "v_db plain_validator = le_db" "v_digests plain_validator = \<lparr>sha256 = id, ripemd160 = id, sha1 = id\<rparr>"
  "v_ec plain_validator = plain_ec" "v_bn plain_validator = limb_big_number"
  by (simp_all add: plain_validator_def)

text \<open>A block whose second transaction spends, with a given signature script, the first output of its first.\<close>

definition lock_tx :: "bytes \<Rightarrow> Transaction" where
  "lock_tx lock = (coinbase_tx 50)\<lparr>outputs := [\<lparr>out_value = 50, scriptPublicKey = lock\<rparr>]\<rparr>"

definition unlock_tx :: "bytes \<Rightarrow> Transaction" where
  "unlock_tx unlock = (spend_tx [50])\<lparr>inputs := [\<lparr>previousOutput = point1, signatureScript = unlock, witness = [], sequence = 0\<rparr>]\<rparr>"

lemma unlock_tx_simps [simp]:
  "inputs (unlock_tx a) = [\<lparr>previousOutput = point1, signatureScript = a, witness = [], sequence = 0\<rparr>]"
  "tx_hash (unlock_tx a) = replicate 32 8" "tx_hash (lock_tx b) = replicate 32 7"
  "outputs (lock_tx b) = [\<lparr>out_value = 50, scriptPublicKey = b\<rparr>]"
  "isCoinBase (lock_tx b)" "\<not> isCoinBase (unlock_tx a)"
  by (simp_all add: unlock_tx_def lock_tx_def spend_tx_def coinbase_tx_def isCoinBase_def point1_def TransactionOutPoint_new_def)

lemma wf_two_txs: "wf_block_txs [lock_tx lock, unlock_tx unlock]"
  by (simp add: wf_block_txs_def hashed_def wf_point_def point1_def)
    (simp add: lock_tx_def coinbase_tx_def wf_point_def TransactionOutPoint_new_def uint256_null_def)

lemma two_txs_prevout:
  "prevout_spec (utxo le_db view0) [lock_tx lock, unlock_tx unlock] 1 point1 = Some \<lparr>out_value = 50, scriptPublicKey = lock\<rparr>"
  by (simp add: prevout_spec_def utxo_view0 other_output_def nth_output_def point1_def)

section \<open>Properties\<close>

text \<open>C7: the verification of a block's transactions is exact and changes no coin: it succeeds just when, where
  duplicates are forbidden, no output of the block exists as a coin, and every input of a transaction
  that is not a coinbase refers to a coin, or else to an output of another transaction of the block,
  whose script leaves true on the stack after the signature script. Otherwise the process ends at a
  failed assertion; \<open>false\<close> is never returned.\<close>

theorem block_verification_exact:
  assumes "view_ok (v_db vc) cv" "wf_block_txs (transactions block)"
    and "forbidDuplicateTransaction (v_parse vc) bi = Some forbid"
  shows "(case verifyTransactions vc block bi cv of
       None \<Rightarrow> False
     | Some (r, cv') \<Rightarrow> r \<and> view_ok (v_db vc) cv' \<and> utxo (v_db vc) cv' = utxo (v_db vc) cv) \<longleftrightarrow>
    (forbid \<longrightarrow> list_all (no_output (v_db vc) cv) (transactions block)) \<and>
    (\<forall>i < length (transactions block). \<forall>j < length (inputs (transactions block ! i)).
       input_ok vc (utxo (v_db vc) cv) (transactions block) i j)"
  using verifyTransactions_ok [OF assms] by (auto simp: same_coins_def split: if_splits)

theorem block_verification_exact_witness:
  "\<not> (case verifyTransactions plain_validator \<lparr>blk_header = BlockHeader_new, transactions = [lock_tx [OP_1]]\<rparr> BlockIndex_new view1 of
       None \<Rightarrow> False
     | Some (r, cv') \<Rightarrow> r \<and> view_ok (v_db plain_validator) cv' \<and> utxo (v_db plain_validator) cv' = utxo (v_db plain_validator) view1)"
proof -
  let ?b = "\<lparr>blk_header = BlockHeader_new, transactions = [lock_tx [OP_1]]\<rparr>"
  have "wf_block_txs (transactions ?b)" using wf_two_txs [of "[OP_1]" "[]"] by (simp add: wf_block_txs_def)
  moreover have "forbidDuplicateTransaction (v_parse plain_validator) BlockIndex_new = Some True"
    by (simp add: forbidDuplicateTransaction_def not_block_def BlockIndex_new_def)
  moreover have "\<not> no_output le_db view1 (lock_tx [OP_1])"
    by (simp add: no_output_def utxo_view1 point1_def)
  ultimately show ?thesis
    using block_verification_exact [of plain_validator view1 ?b BlockIndex_new True] view1_ok by simp
qed

text \<open>C9: any output can be spent without a signature: an input whose signature script is \<open>OP_1 OP_RETURN\<close> is
  accepted whatever script locks the output it refers to, since \<open>OP_RETURN\<close> leaves an error that keeps
  the locking script from running and the result is only the top of the stack.\<close>

theorem signature_bypass:
  assumes "streams (db_in (v_db vc)) (db_out (v_db vc))" "view_ok (v_db vc) cv" "wf_block_txs txs"
    and "i < length txs" "j < length (inputs (txs ! i))" "signatureScript (inputs (txs ! i) ! j) = [OP_1, OP_RETURN]"
    and "prevout_spec (utxo (v_db vc) cv) txs i (previousOutput (inputs (txs ! i) ! j)) = Some txout"
    and "scriptPublicKey txout \<noteq> []"
  shows "\<exists>cv'. verifyTransactionInput vc txs i j cv = Some (True, cv') \<and> utxo (v_db vc) cv' = utxo (v_db vc) cv"
proof -
  have "input_ok vc (utxo (v_db vc) cv) txs i j"
    using assms(6,7) verify_return_script [OF assms(1,8)] by (simp add: input_ok_def)
  then show ?thesis using verifyTransactionInput_ok [OF assms(2-5)] by (auto simp: same_coins_def)
qed

theorem signature_bypass_witness:
  "\<exists>cv'. verifyTransactionInput plain_validator
     [lock_tx ([OP_DUP, OP_HASH160] @ writeScriptString le_ostream [5] @ [OP_EQUALVERIFY, OP_CHECKSIG]), unlock_tx [OP_1, OP_RETURN]] 1 0 view0 =
       Some (True, cv')"
  using signature_bypass [of plain_validator view0 _ 1 0, OF _ _ wf_two_txs] two_txs_prevout view0_ok
  by (fastforce simp: les.streams_axioms)

text \<open>C13: an input whose signature script is the standard one, a push of a signature and a push of a public key, and
  that refers to an output that pays to a key hash, is accepted exactly when the key has the hash and the signature is valid,
  for that key, for the transaction with the locking script in place of the input's and every other script emptied. Only
  signature scripts of this form are meant: others, such as \<open>OP_1 OP_RETURN\<close>, are accepted without a signature.\<close>

theorem key_hash_input:
  assumes "streams (db_in (v_db vc)) (db_out (v_db vc))" "view_ok (v_db vc) cv" "wf_block_txs txs"
    and "i < length txs" "j < length (inputs (txs ! i))" "\<not> isCoinBase (txs ! i)"
    and "signatureScript (inputs (txs ! i) ! j) = writeScriptString (db_out (v_db vc)) sig @ writeScriptString (db_out (v_db vc)) pubkey"
    and "prevout_spec (utxo (v_db vc) cv) txs i (previousOutput (inputs (txs ! i) ! j)) = Some txout"
    and "scriptPublicKey txout = [OP_DUP, OP_HASH160] @ writeScriptString (db_out (v_db vc)) h @ [OP_EQUALVERIFY, OP_CHECKSIG]"
    and "length sig < 2 ^ 31" "length pubkey < 2 ^ 31" "length h < 2 ^ 31"
  shows "(\<exists>cv'. verifyTransactionInput vc txs i j cv = Some (True, cv')) \<longleftrightarrow>
    hash160 (digests.truncate (v_digests vc)) pubkey = h \<and> signs_input vc (txs ! i) j sig pubkey (scriptPublicKey txout)"
proof -
  have "input_ok vc (utxo (v_db vc) cv) txs i j \<longleftrightarrow>
      hash160 (digests.truncate (v_digests vc)) pubkey = h \<and> signs_input vc (txs ! i) j sig pubkey (scriptPublicKey txout)"
    using assms(6-8) verify_key_hash [OF assms(1,10-12,9,5)] by (simp add: input_ok_def)
  then show ?thesis using verifyTransactionInput_ok [OF assms(2-5)] by (auto split: if_splits)
qed

theorem key_hash_input_witness:
  "\<exists>cv'. verifyTransactionInput plain_validator
     [lock_tx ([OP_DUP, OP_HASH160] @ writeScriptString le_ostream [5] @ [OP_EQUALVERIFY, OP_CHECKSIG]),
      unlock_tx (writeScriptString le_ostream [5, 1] @ writeScriptString le_ostream [5])] 1 0 view0 = Some (True, cv')"
proof -
  let ?lock = "[OP_DUP, OP_HASH160] @ writeScriptString le_ostream [5] @ [OP_EQUALVERIFY, OP_CHECKSIG]"
    and ?unlock = "writeScriptString le_ostream [5, 1] @ writeScriptString le_ostream [5]"
  have "signs_input plain_validator (unlock_tx ?unlock) 0 [5, 1] [5] ?lock"
    by (simp add: signs_input_def plain_ec_def xbtc_ECDSA_verify_def)
  then show ?thesis
    using key_hash_input [of plain_validator view0 "[lock_tx ?lock, unlock_tx ?unlock]" 1 0 "[5, 1]" "[5]"
        "\<lparr>out_value = 50, scriptPublicKey = ?lock\<rparr>" "[5]"]
      view0_ok two_txs_prevout [of ?lock ?unlock] wf_two_txs [of ?lock ?unlock]
    by (simp add: les.streams_axioms hash160_def digests.defs)
qed

text \<open>C19: a header passes the check of its proof of work exactly when its compact number is a valid target
  and its hash, as a number, does not exceed it.\<close>

theorem proof_of_work_exact:
  assumes "big_number bn" "length (hash h) = 32"
  shows "validateBlockHeader bn h \<longleftrightarrow> compact_val (bits h) \<noteq> 0 \<and> \<not> bit (bits h) 23 \<and> compact_val (bits h) < 2 ^ 256 \<and>
    bytes_val (hash h) \<le> compact_val (bits h)"
  by (simp only: validateBlockHeader_def checkProofOfWork_exact [OF assms])

theorem proof_of_work_exact_witness:
  "\<not> validateBlockHeader limb_big_number (BlockHeader_new\<lparr>bits := 0x1d00ffff, hash := replicate 31 0 @ [1]\<rparr>)"
proof -
  have v: "compact_val 0x1d00ffff = 0xffff * 256 ^ 26"
    by (simp add: compact_val_def compact_exponent_def compact_mantissa_def)
  have "bytes_val (replicate 31 0 @ [1]) > 0xffff * 256 ^ 26"
    using bytes_val_eq_0 [of "replicate 31 0"] by (simp add: bytes_val_append list_all_iff)
  then show ?thesis
    using proof_of_work_exact [OF lbn.big_number_axioms, of "BlockHeader_new\<lparr>bits := 0x1d00ffff, hash := replicate 31 0 @ [1]\<rparr>"] v by simp
qed

end
