(* ===== verification/BlockChain.thy ===== *)
theory BlockChain
  imports BlockData
begin

text \<open>
  \<open>storage/BlockChain.cpp\<close>: the active chain as a vector of entries indexed by height, the block
  locator and the last common ancestor of two entries. The vector holds null pointers between a
  resize and the writes that follow it. \<open>None\<close> is a failed assertion, an index beyond the vector or
  a loop that does not end; the lemmas show that on a tree of entries none of these happens.
\<close>

type_synonym chain = "bref option list"

section \<open>Operations\<close>

definition chain_getHeight :: "chain \<Rightarrow> int option" where
  "chain_getHeight m = do { assert_that (length m \<ge> 1); Some (int (length m) - 1) }"

definition chain_getBlock :: "chain \<Rightarrow> int \<Rightarrow> bref option" where
  "chain_getBlock m h = (if h < 0 \<or> h \<ge> int (length m) then None else m ! nat h)"

definition chain_contains :: "index_heap \<Rightarrow> chain \<Rightarrow> bref \<Rightarrow> bool" where
  "chain_contains H m p \<longleftrightarrow> chain_getBlock m (height (H p)) = Some p"

definition chain_next :: "index_heap \<Rightarrow> chain \<Rightarrow> bref \<Rightarrow> bref option" where
  "chain_next H m p = chain_getBlock m (height (H p) + 1)"

definition chain_getTip :: "chain \<Rightarrow> bref option option" where
  "chain_getTip m = do { assert_that (m \<noteq> []); Some (m ! (length m - 1)) }"

definition chain_resize :: "nat \<Rightarrow> chain \<Rightarrow> chain" where
  "chain_resize n m = take n m @ replicate (n - length m) None"

partial_function (option) set_tip_loop :: "index_heap \<Rightarrow> chain \<Rightarrow> bref option \<Rightarrow> chain option" where
  "set_tip_loop H m block =
     (case block of
        None \<Rightarrow> Some m
      | Some p \<Rightarrow>
          if height (H p) < 0 \<or> height (H p) \<ge> int (length m) then None
          else if m ! nat (height (H p)) = Some p then Some m
          else set_tip_loop H (m[nat (height (H p)) := Some p]) (previous (H p)))"

definition chain_setTip :: "index_heap \<Rightarrow> chain \<Rightarrow> bref option \<Rightarrow> chain option" where
  "chain_setTip H m block =
     (case block of
        None \<Rightarrow> Some []
      | Some p \<Rightarrow> set_tip_loop H (chain_resize (nat (height (H p) + 1)) m) (Some p))"

text \<open>\<open>step\<close> is an \<open>int\<close>: doubling it must not overflow.\<close>

partial_function (option) locator_loop ::
    "index_heap \<Rightarrow> chain \<Rightarrow> uint256 list \<Rightarrow> int \<Rightarrow> bref option \<Rightarrow> uint256 list option" where
  "locator_loop H m have step block =
     (case block of
        None \<Rightarrow> Some have
      | Some p \<Rightarrow>
          Option.bind (index_getHash (H p)) (\<lambda>h.
            let have = have @ [h]
            in if height (H p) = 0 then Some have
               else let ht = max (height (H p) - step) 0
                    in Option.bind (if chain_contains H m p then Some (chain_getBlock m ht) else getAncestor H p ht) (\<lambda>block.
                       if length have > 10
                       then if step * 2 < 2 ^ 31 then locator_loop H m have (step * 2) block else None
                       else locator_loop H m have step block)))"

definition chain_getLocator :: "index_heap \<Rightarrow> chain \<Rightarrow> bref option \<Rightarrow> uint256 list option" where
  "chain_getLocator H m block =
     Option.bind (if block = None then chain_getTip m else Some block) (\<lambda>block. locator_loop H m [] 1 block)"

partial_function (option) common_loop :: "index_heap \<Rightarrow> bref option \<Rightarrow> bref option \<Rightarrow> (bref option \<times> bref option) option" where
  "common_loop H x y =
     (if x \<noteq> y
      then case x of
             None \<Rightarrow> Some (x, y)
           | Some p \<Rightarrow> (case y of None \<Rightarrow> Some (x, y) | Some q \<Rightarrow> common_loop H (previous (H p)) (previous (H q)))
      else Some (x, y))"

definition findLastCommonAncestor :: "index_heap \<Rightarrow> bref \<Rightarrow> bref \<Rightarrow> bref option option" where
  "findLastCommonAncestor H p q = do {
     x \<leftarrow> (if height (H p) > height (H q) then getAncestor H p (height (H q)) else Some (Some p));
     y \<leftarrow> (if height (H p) > height (H q) then Some (Some q)
          else if height (H q) > height (H p) then getAncestor H q (height (H p)) else Some (Some q));
     xy \<leftarrow> common_loop H x y;
     assert_that (fst xy = snd xy);
     Some (fst xy)
   }"

section \<open>The chain of a tip\<close>

text \<open>The specification: the ancestors of the tip, from the root upwards.\<close>

definition chain_of :: "index_heap \<Rightarrow> bref \<Rightarrow> chain" where
  "chain_of H p = map (\<lambda>i. parent_walk H (nat (height (H p)) - i) p) [0..<nat (height (H p)) + 1]"

definition ancestor :: "index_heap \<Rightarrow> bref \<Rightarrow> bref \<Rightarrow> bool" where
  "ancestor H q p \<longleftrightarrow> (\<exists>n. parent_walk H n p = Some q)"

text \<open>Every entry of the vector has its height as its index, and its parent just below it.\<close>

definition linked :: "index_heap \<Rightarrow> bref set \<Rightarrow> nat \<Rightarrow> chain \<Rightarrow> bool" where
  "linked H R n m \<longleftrightarrow> n \<le> length m \<and> (\<forall>i < n. \<forall>q. m ! i = Some q \<longrightarrow>
     q \<in> R \<and> height (H q) = int i \<and> (0 < i \<longrightarrow> m ! (i - 1) = previous (H q)))"

lemma parent_walk_height:
  assumes "tree_ok H R" "p \<in> R" "parent_walk H n p = Some q"
  shows "int n \<le> height (H p) \<and> q \<in> R \<and> height (H q) = height (H p) - int n"
  using assms(2,3)
proof (induction n arbitrary: p)
  case 0
  then show ?case using tree_okD(1) [OF assms(1)] by simp
next
  case (Suc n)
  then obtain r where r: "previous (H p) = Some r" "parent_walk H n r = Some q" by (auto split: option.splits)
  then have "0 < height (H p)" using tree_okD(1,2) [OF assms(1) Suc.prems(1)] by fastforce
  then have "r \<in> R" "height (H r) = height (H p) - 1" using tree_okD(3) [OF assms(1) Suc.prems(1)] r by auto
  then show ?case using Suc.IH [OF _ r(2)] by simp
qed

lemma parent_walk_Suc_last: "parent_walk H (Suc n) p = Option.bind (parent_walk H n p) (\<lambda>q. previous (H q))"
  using parent_walk_add [of H n 1 p] by (cases "parent_walk H n p") (auto split: option.split)

lemma linked_mono: "linked H R n m \<Longrightarrow> k \<le> n \<Longrightarrow> linked H R k m"
  unfolding linked_def by (blast intro: less_le_trans order_trans)

lemma linked_update: "linked H R n m \<Longrightarrow> n \<le> j \<Longrightarrow> linked H R n (m[j := x])"
  by (simp add: linked_def)

lemma linked_walk:
  assumes "tree_ok H R" "linked H R (Suc n) m" "m ! n = Some p" "i \<le> n"
  shows "m ! i = parent_walk H (n - i) p"
proof -
  have p: "p \<in> R" "height (H p) = int n" using assms(2,3) by (auto simp: linked_def)
  have "k \<le> n \<Longrightarrow> m ! (n - k) = parent_walk H k p" for k
  proof (induction k)
    case (Suc k)
    then obtain q where q: "parent_walk H k p = Some q" using parent_walk_ok [OF assms(1) p(1), of k] p(2) by auto
    then have "m ! (n - k) = Some q" using Suc by simp
    moreover have "n - k < Suc n" "0 < n - k" using Suc.prems by simp_all
    ultimately have "m ! (n - k - 1) = previous (H q)" using assms(2) unfolding linked_def by blast
    then show ?case using parent_walk_Suc_last [of H k p] q by simp
  qed (use assms in simp)
  from this [of "n - i"] show ?thesis using assms(4) by simp
qed

lemma set_tip_loop_linked:
  assumes tree: "tree_ok H R"
  shows "p \<in> R \<Longrightarrow> height (H p) = int n \<Longrightarrow> linked H R (Suc n) m \<Longrightarrow>
    \<exists>m'. set_tip_loop H m (Some p) = Some m' \<and> length m' = length m \<and>
      (\<forall>i \<le> n. m' ! i = parent_walk H (n - i) p) \<and> (\<forall>i < length m. n < i \<longrightarrow> m' ! i = m ! i)"
proof (induction n arbitrary: p m)
  case (0 p m)
  have prev: "previous (H p) = None" using tree_okD(2) [OF tree 0(1)] 0(2) by simp
  have len: "0 < length m" using 0(3) by (auto simp: linked_def)
  show ?case
  proof (cases "m ! 0 = Some p")
    case True
    then show ?thesis using 0(2) len by (subst set_tip_loop.simps) simp
  next
    case False
    then have "set_tip_loop H m (Some p) = Some (m[0 := Some p])"
      using 0(2) len prev by (subst set_tip_loop.simps) (simp add: set_tip_loop.simps)
    then show ?thesis using len by simp
  qed
next
  case (Suc n p m)
  obtain q where q: "q \<in> R" "previous (H p) = Some q" "height (H q) = int n"
    using tree_okD(3) [OF tree Suc.prems(1)] Suc.prems(2) by auto
  have len: "Suc n < length m" using Suc.prems(3) by (simp add: linked_def)
  show ?case
  proof (cases "m ! Suc n = Some p")
    case True
    then show ?thesis using Suc.prems(2) len linked_walk [OF tree Suc.prems(3) True]
      by (subst set_tip_loop.simps) (auto simp: nat_add_distrib)
  next
    case False
    let ?m = "m[Suc n := Some p]"
    have "linked H R (Suc n) ?m" using Suc.prems(3) by (intro linked_update linked_mono [OF Suc.prems(3)]) simp_all
    then obtain m' where m': "set_tip_loop H ?m (Some q) = Some m'" "length m' = length m"
      "\<forall>i \<le> n. m' ! i = parent_walk H (n - i) q" "\<forall>i < length m. n < i \<longrightarrow> m' ! i = ?m ! i"
      using Suc.IH [OF q(1,3), of ?m] by auto
    have "set_tip_loop H m (Some p) = Some m'"
      using False len Suc.prems(2) q(2) m'(1) by (subst set_tip_loop.simps) (simp add: nat_add_distrib)
    moreover have "m' ! i = parent_walk H (Suc n - i) p" if "i \<le> Suc n" for i
    proof (cases "i = Suc n")
      case False
      then show ?thesis using that m'(3) q(2) by (simp add: Suc_diff_le)
    qed (use m'(4) len in simp)
    ultimately show ?thesis using m'(2,4) by auto
  qed
qed

lemma linked_chain_of:
  assumes "tree_ok H R" "p \<in> R"
  shows "linked H R (length (chain_of H p)) (chain_of H p)"
  unfolding linked_def
proof (intro conjI allI impI)
  fix i q assume i: "i < length (chain_of H p)" and q: "chain_of H p ! i = Some q"
  let ?h = "nat (height (H p))"
  have h: "0 \<le> height (H p)" using tree_okD(1) [OF assms] .
  have w: "parent_walk H (?h - i) p = Some q" "i \<le> ?h" using i q by (simp_all add: chain_of_def del: upt_Suc)
  then show "q \<in> R" "height (H q) = int i" using parent_walk_height [OF assms w(1)] h by simp_all
  assume "0 < i"
  then have "?h - (i - 1) = Suc (?h - i)" using w(2) by simp
  then show "chain_of H p ! (i - 1) = previous (H q)"
    using i w parent_walk_Suc_last [of H "?h - i" p] by (simp add: chain_of_def del: upt_Suc parent_walk.simps)
qed simp

lemma linked_resize: "linked H R (length m) m \<Longrightarrow> linked H R n (chain_resize n m)"
  by (auto simp: linked_def chain_resize_def nth_append)

lemma setTip_chain_of:
  assumes "tree_ok H R" "p \<in> R" "linked H R (length m) m"
  shows "chain_setTip H m (Some p) = Some (chain_of H p)"
proof -
  define n where "n = nat (height (H p))"
  have h: "height (H p) = int n" using tree_okD(1) [OF assms(1,2)] by (simp add: n_def)
  have resize: "nat (height (H p) + 1) = Suc n" by (simp add: h nat_add_distrib)
  have len: "length (chain_resize (Suc n) m) = Suc n" by (simp add: chain_resize_def min_def)
  obtain m' where "set_tip_loop H (chain_resize (Suc n) m) (Some p) = Some m'" "length m' = Suc n"
    "\<forall>i \<le> n. m' ! i = parent_walk H (n - i) p"
    using set_tip_loop_linked [OF assms(1,2) h linked_resize [OF assms(3)]] len by auto
  moreover from this have "m' = chain_of H p"
    by (intro nth_equalityI) (auto simp: chain_of_def n_def [symmetric] simp del: upt_Suc)
  ultimately show ?thesis by (simp add: chain_setTip_def resize del: Suc_eq_plus1)
qed

section \<open>Reading the chain of a tip\<close>

lemma length_chain_of [simp]: "length (chain_of H p) = nat (height (H p)) + 1"
  by (simp add: chain_of_def)

lemma getBlock_chain_of:
  assumes "0 \<le> height (H p)"
  shows "chain_getBlock (chain_of H p) h = (if h < 0 \<or> h > height (H p) then None else parent_walk H (nat (height (H p) - h)) p)"
  using assms by (auto simp: chain_getBlock_def chain_of_def nat_less_iff nat_diff_distrib simp del: upt_Suc)

lemma contains_chain_of:
  assumes "tree_ok H R" "p \<in> R" "q \<in> R"
  shows "chain_contains H (chain_of H p) q \<longleftrightarrow> ancestor H q p"
proof
  have h: "0 \<le> height (H p)" "0 \<le> height (H q)" using tree_okD(1) [OF assms(1)] assms(2,3) by simp_all
  show "ancestor H q p" if "chain_contains H (chain_of H p) q"
    using that h by (auto simp: chain_contains_def getBlock_chain_of ancestor_def split: if_splits)
  assume "ancestor H q p"
  then obtain n where n: "parent_walk H n p = Some q" by (auto simp: ancestor_def)
  with parent_walk_height [OF assms(1,2)] have "int n \<le> height (H p)" "height (H q) = height (H p) - int n" by blast+
  then show "chain_contains H (chain_of H p) q" using n h by (simp add: chain_contains_def getBlock_chain_of)
qed

section \<open>The locator\<close>

text \<open>The heights a locator visits: one by one for the first ten entries, then at doubling distances.\<close>

function locator_heights :: "nat \<Rightarrow> nat \<Rightarrow> nat \<Rightarrow> nat list" where
  "locator_heights count step h =
     h # (if h = 0 \<or> step = 0 then []
          else locator_heights (count + 1) (if count + 1 > 10 then step * 2 else step) (h - step))"
  by pat_completeness auto
termination by (relation "measure (\<lambda>(c, s, h). h)") auto

declare locator_heights.simps [simp del]

lemma locator_heights_length_late:
  "10 \<le> count \<Longrightarrow> 0 < step \<Longrightarrow> h \<le> step * (2 ^ k - 1) \<Longrightarrow> length (locator_heights count step h) \<le> k + 1"
proof (induction k arbitrary: count step h)
  case 0
  then show ?case by (subst locator_heights.simps) simp
next
  case (Suc k)
  have "h - step \<le> step * 2 * (2 ^ k - 1)"
    using Suc.prems(3) by (simp add: algebra_simps diff_mult_distrib2)
  then have "length (locator_heights (count + 1) (step * 2) (h - step)) \<le> k + 1"
    using Suc.IH [of "count + 1" "step * 2" "h - step"] Suc.prems by simp
  then show ?case using Suc.prems by (subst locator_heights.simps) simp
qed

lemma locator_heights_length:
  "count \<le> 10 \<Longrightarrow> h < 2 ^ k \<Longrightarrow> length (locator_heights count 1 h) \<le> (10 - count) + k + 1"
proof (induction "10 - count" arbitrary: count h)
  case 0
  then show ?case using locator_heights_length_late [of count 1 h k] by simp
next
  case (Suc d)
  have "length (locator_heights (count + 1) 1 (h - 1)) \<le> (10 - (count + 1)) + k + 1"
    using Suc.hyps(1) [of "count + 1" "h - 1"] Suc.hyps(2) Suc.prems by simp
  moreover have "count < 10" using Suc.hyps(2) by simp
  ultimately show ?case by (subst locator_heights.simps) (simp, arith)
qed

lemma locator_heights_sorted:
  "0 < step \<Longrightarrow> sorted_wrt (>) (locator_heights count step h) \<and> hd (locator_heights count step h) = h \<and>
    last (locator_heights count step h) = 0 \<and> (\<forall>x \<in> set (locator_heights count step h). x \<le> h)"
proof (induction count step h rule: locator_heights.induct)
  case (1 count step h)
  show ?case
  proof (cases "h = 0")
    case True
    then show ?thesis by (simp add: locator_heights.simps)
  next
    case False
    define step' where "step' = (if count + 1 > 10 then step * 2 else step)"
    define r where "r = locator_heights (count + 1) step' (h - step)"
    have r: "locator_heights count step h = h # r" "r \<noteq> []"
      using False 1(2) unfolding r_def step'_def by (subst locator_heights.simps, simp) (subst locator_heights.simps, simp)
    have "h \<noteq> 0 \<and> step \<noteq> 0" "0 < step'" using False 1(2) by (simp_all add: step'_def)
    then have s: "sorted_wrt (>) r" "last r = 0" "\<forall>x \<in> set r. x \<le> h - step"
      using 1 unfolding r_def step'_def by blast+
    have "\<forall>x \<in> set r. x < h" using s(3) False 1(2) by fastforce
    then show ?thesis using r s(1,2) by (auto intro: less_imp_le)
  qed
qed

text \<open>The hash of the ancestor at a height.\<close>

definition hash_at :: "index_heap \<Rightarrow> bref \<Rightarrow> nat \<Rightarrow> uint256" where
  "hash_at H p h = hash (header (H (the (parent_walk H (nat (height (H p)) - h) p))))"

lemma locator_loop_heights:
  assumes tree: "tree_ok H R" and tip: "t \<in> R" and hashes: "\<forall>r \<in> R. hash (header (H r)) \<noteq> uint256_null"
  shows "p \<in> R \<Longrightarrow> height (H p) = int h \<Longrightarrow> 0 < step \<Longrightarrow> (h \<noteq> 0 \<longrightarrow> step + h < 2 ^ 30) \<Longrightarrow>
    locator_loop H (chain_of H t) have (int step) (Some p) =
      Some (have @ map (hash_at H p) (locator_heights (length have) step h))"
proof (induction h arbitrary: p step "have" rule: less_induct)
  case (less h p step "have")
  have ok: "index_getHash (H p) = Some (hash (header (H p)))" using hashes less.prems(1) by (simp add: index_getHash_def)
  have self: "hash_at H p h = hash (header (H p))" using less.prems(2) by (simp add: hash_at_def)
  show ?case
  proof (cases "h = 0")
    case True
    then show ?thesis using less.prems ok self
      by (subst locator_loop.simps) (simp add: locator_heights.simps)
  next
    case False
    define h' where "h' = h - step"
    have ht: "max (height (H p) - int step) 0 = int h'" using less.prems(2) by (simp add: h'_def)
    have h': "h' < h" using False less.prems(3) by (simp add: h'_def)
    obtain q where q: "q \<in> R" "parent_walk H (h - h') p = Some q" "height (H q) = int h'"
      using parent_walk_ok [OF tree less.prems(1), of "h - h'"] less.prems(2) h' by auto
    have jump: "(if chain_contains H (chain_of H t) p then Some (chain_getBlock (chain_of H t) (int h'))
        else getAncestor H p (int h')) = Some (Some q)"
    proof (cases "chain_contains H (chain_of H t) p")
      case True
      then obtain n where n: "parent_walk H n t = Some p"
        using contains_chain_of [OF tree tip less.prems(1)] by (auto simp: ancestor_def)
      then have ht': "height (H t) = int n + int h" using parent_walk_height [OF tree tip n] less.prems(2) by simp
      have "nat (height (H t) - int h') = n + (h - h')" using ht' h' by (simp add: nat_diff_distrib)
      then have "parent_walk H (nat (height (H t) - int h')) t = Some q" using parent_walk_add [of H n "h - h'" t] n q(2) by simp
      then show ?thesis using True ht' h' by (simp add: getBlock_chain_of)
    next
      case False
      have "nat (height (H p) - int h') = h - h'" using less.prems(2) h' by simp
      then show ?thesis using False q(2) h' less.prems(2) by (simp add: getAncestor_walk [OF tree less.prems(1)])
    qed
    define step' where "step' = (if length have + 1 > 10 then step * 2 else step)"
    have step': "0 < step'" "h' \<noteq> 0 \<longrightarrow> step' + h' < 2 ^ 30" "step * 2 < 2 ^ 31"
      using less.prems(3,4) False by (auto simp: step'_def h'_def)
    have s2: "int step * 2 < 2147483648" using step'(3) by simp
    have no_root: "(height (H p) = 0) = False" using False less.prems(2) by simp
    have same: "hash_at H q x = hash_at H p x" if "x \<le> h'" for x
    proof -
      have "h - x = (h - h') + (h' - x)" using that h' by simp
      then have "parent_walk H (h - x) p = parent_walk H (h' - x) q" using parent_walk_add [of H "h - h'" "h' - x" p] q(2) by simp
      then show ?thesis using less.prems(2) q(3) by (simp add: hash_at_def)
    qed
    have "locator_loop H (chain_of H t) (have @ [hash_at H p h]) (int step') (Some q) =
        Some ((have @ [hash_at H p h]) @ map (hash_at H q) (locator_heights (length (have @ [hash_at H p h])) step' h'))"
      using less.IH [OF h' q(1,3) step'(1,2)] .
    moreover have "map (hash_at H q) (locator_heights n step' h') = map (hash_at H p) (locator_heights n step' h')" for n
      using locator_heights_sorted [OF step'(1), of n h'] same by simp
    moreover have "locator_heights (length have) step h = h # locator_heights (length have + 1) step' h'"
      using False less.prems(3) by (subst locator_heights.simps) (simp add: step'_def h'_def)
    moreover have "locator_loop H (chain_of H t) have (int step) (Some p) =
        locator_loop H (chain_of H t) (have @ [hash_at H p h]) (int step') (Some q)"
      by (subst locator_loop.simps)
        (simp only: option.case ok self [symmetric] Option.bind.simps Let_def ht jump no_root if_False, simp add: step'_def s2)
    ultimately show ?thesis by simp
  qed
qed

section \<open>The last common ancestor\<close>

lemma ancestor_refl [simp]: "ancestor H p p"
  by (auto simp: ancestor_def intro: exI [of _ 0])

lemma ancestor_step: "previous (H p) = Some q \<Longrightarrow> ancestor H r p \<longleftrightarrow> r = p \<or> ancestor H r q"
proof
  assume prev: "previous (H p) = Some q"
  show "r = p \<or> ancestor H r q" if anc: "ancestor H r p"
  proof -
    obtain n where "parent_walk H n p = Some r" using anc by (auto simp: ancestor_def)
    then show ?thesis using prev by (cases n) (auto simp: ancestor_def)
  qed
  assume "r = p \<or> ancestor H r q"
  then show "ancestor H r p" using prev by (auto simp: ancestor_def intro: exI [of _ 0] exI [of _ "Suc n" for n])
qed

lemma ancestor_root: "previous (H p) = None \<Longrightarrow> ancestor H r p \<longleftrightarrow> r = p"
proof
  assume prev: "previous (H p) = None" and "ancestor H r p"
  from this(2) obtain n where "parent_walk H n p = Some r" unfolding ancestor_def by blast
  then show "r = p" using prev by (cases n) simp_all
qed simp

lemma common_loop_meets:
  assumes tree: "tree_ok H R"
  shows "p \<in> R \<Longrightarrow> q \<in> R \<Longrightarrow> height (H p) = int n \<Longrightarrow> height (H q) = int n \<Longrightarrow>
    \<exists>r. common_loop H (Some p) (Some q) = Some (r, r) \<and>
      (case r of None \<Rightarrow> \<forall>c. \<not> (ancestor H c p \<and> ancestor H c q)
       | Some a \<Rightarrow> a \<in> R \<and> (\<forall>c. ancestor H c p \<and> ancestor H c q \<longleftrightarrow> ancestor H c a))"
proof (induction n arbitrary: p q)
  case (0 p q)
  show ?case
  proof (cases "p = q")
    case True
    then show ?thesis using 0 by (subst common_loop.simps) auto
  next
    case False
    have root: "previous (H p) = None" "previous (H q) = None" using tree_okD(2) [OF tree] 0 by simp_all
    have "common_loop H (Some p) (Some q) = Some (None, None)"
      using False root by (subst common_loop.simps) (simp add: common_loop.simps)
    then show ?thesis using False ancestor_root [of H p, OF root(1)] ancestor_root [of H q, OF root(2)] by auto
  qed
next
  case (Suc n p q)
  show ?case
  proof (cases "p = q")
    case True
    then show ?thesis using Suc.prems by (subst common_loop.simps) auto
  next
    case False
    obtain p' q' where pq: "p' \<in> R" "previous (H p) = Some p'" "height (H p') = int n"
      "q' \<in> R" "previous (H q) = Some q'" "height (H q') = int n"
      using tree_okD(3) [OF tree Suc.prems(1)] tree_okD(3) [OF tree Suc.prems(2)] Suc.prems(3,4) by auto
    have eq: "common_loop H (Some p) (Some q) = common_loop H (Some p') (Some q')"
      using False pq by (subst common_loop.simps) simp
    have lower: "\<not> ancestor H p q'" "\<not> ancestor H q p'"
      using parent_walk_height [OF tree pq(4)] parent_walk_height [OF tree pq(1)] Suc.prems(3,4) pq(3,6)
      by (fastforce simp: ancestor_def)+
    have common: "ancestor H c p \<and> ancestor H c q \<longleftrightarrow> ancestor H c p' \<and> ancestor H c q'" for c
      using ancestor_step [of H p p' c, OF pq(2)] ancestor_step [of H q q' c, OF pq(5)] lower False by blast
    show ?thesis unfolding eq common by (rule Suc.IH [OF pq(1,4,3,6)])
  qed
qed

lemma ancestor_lower:
  assumes "tree_ok H R" "p \<in> R" "parent_walk H n p = Some p'" "height (H c) \<le> height (H p')"
  shows "ancestor H c p \<longleftrightarrow> ancestor H c p'"
proof
  assume "ancestor H c p"
  then obtain k where k: "parent_walk H k p = Some c" by (auto simp: ancestor_def)
  have "n \<le> k" using parent_walk_height [OF assms(1-3)] parent_walk_height [OF assms(1,2) k] assms(4) by linarith
  then have "parent_walk H (k - n) p' = Some c" using parent_walk_add [of H n "k - n" p] assms(3) k by simp
  then show "ancestor H c p'" by (auto simp: ancestor_def)
next
  assume "ancestor H c p'"
  then obtain k where "parent_walk H k p' = Some c" by (auto simp: ancestor_def)
  then have "parent_walk H (n + k) p = Some c" using parent_walk_add [of H n k p] assms(3) by simp
  then show "ancestor H c p" by (auto simp: ancestor_def)
qed

lemma ancestor_height: "tree_ok H R \<Longrightarrow> p \<in> R \<Longrightarrow> ancestor H c p \<Longrightarrow> c \<in> R \<and> height (H c) \<le> height (H p)"
  using parent_walk_height [of H R p] by (fastforce simp: ancestor_def)

lemma findLast_lift:
  assumes tree: "tree_ok H R" and pq: "p \<in> R" "q \<in> R" and le: "height (H q) \<le> height (H p)"
  shows "\<exists>p' \<in> R. height (H p') = height (H q) \<and>
    (if height (H p) > height (H q) then getAncestor H p (height (H q)) else Some (Some p)) = Some (Some p') \<and>
    (\<forall>c. ancestor H c p \<and> ancestor H c q \<longleftrightarrow> ancestor H c p' \<and> ancestor H c q)"
proof -
  define n where "n = nat (height (H p) - height (H q))"
  have h: "0 \<le> height (H q)" using tree_okD(1) [OF tree pq(2)] .
  then have n: "int n = height (H p) - height (H q)" using le by (simp add: n_def)
  obtain p' where p': "p' \<in> R" "parent_walk H n p = Some p'" "height (H p') = height (H p) - int n"
    using parent_walk_ok [OF tree pq(1), of n] n h by auto
  have "ancestor H c p \<and> ancestor H c q \<longleftrightarrow> ancestor H c p' \<and> ancestor H c q" for c
    using ancestor_lower [OF tree pq(1) p'(2), of c] ancestor_height [OF tree pq(2), of c] p'(3) n by auto
  moreover have "(if height (H p) > height (H q) then getAncestor H p (height (H q)) else Some (Some p)) = Some (Some p')"
  proof (cases "height (H p) > height (H q)")
    case True
    then show ?thesis using p'(2) h by (simp add: getAncestor_walk [OF tree pq(1)] n_def)
  next
    case False
    then show ?thesis using p'(2) by (simp add: n_def)
  qed
  ultimately show ?thesis using p' n by (intro bexI [of _ p']) simp_all
qed

lemma common_ancestor:
  assumes "tree_ok H R" "p \<in> R" "q \<in> R"
  shows "\<exists>r. findLastCommonAncestor H p q = Some r \<and>
    (case r of None \<Rightarrow> \<forall>c. \<not> (ancestor H c p \<and> ancestor H c q)
     | Some a \<Rightarrow> \<forall>c. ancestor H c p \<and> ancestor H c q \<longleftrightarrow> ancestor H c a)"
proof (cases "height (H q) \<le> height (H p)")
  case True
  obtain p' where p': "p' \<in> R" "height (H p') = height (H q)"
    "(if height (H p) > height (H q) then getAncestor H p (height (H q)) else Some (Some p)) = Some (Some p')"
    and same: "\<And>c. (ancestor H c p \<and> ancestor H c q) = (ancestor H c p' \<and> ancestor H c q)"
    using findLast_lift [OF assms True] by blast
  have "findLastCommonAncestor H p q = Option.bind (common_loop H (Some p') (Some q)) (\<lambda>xy. do { assert_that (fst xy = snd xy); Some (fst xy) })"
    using p'(3) True by (cases "height (H p) > height (H q)") (simp_all add: findLastCommonAncestor_def)
  moreover have "height (H q) = int (nat (height (H q)))" using tree_okD(1) [OF assms(1,3)] by simp
  then obtain r where "common_loop H (Some p') (Some q) = Some (r, r)" "case r of None \<Rightarrow> \<forall>c. \<not> (ancestor H c p' \<and> ancestor H c q)
       | Some a \<Rightarrow> a \<in> R \<and> (\<forall>c. ancestor H c p' \<and> ancestor H c q \<longleftrightarrow> ancestor H c a)"
    using common_loop_meets [OF assms(1) p'(1) assms(3), of "nat (height (H q))"] p'(2) by auto
  ultimately show ?thesis unfolding same by (intro exI [of _ r]) (cases r; simp)
next
  case False
  obtain q' where q': "q' \<in> R" "height (H q') = height (H p)" "getAncestor H q (height (H p)) = Some (Some q')"
    and same: "\<And>c. (ancestor H c p \<and> ancestor H c q) = (ancestor H c p \<and> ancestor H c q')"
    using findLast_lift [OF assms(1,3,2)] False by (auto simp: conj_commute)
  have "findLastCommonAncestor H p q = Option.bind (common_loop H (Some p) (Some q')) (\<lambda>xy. do { assert_that (fst xy = snd xy); Some (fst xy) })"
    using q'(3) False by (simp add: findLastCommonAncestor_def)
  moreover have "height (H p) = int (nat (height (H p)))" using tree_okD(1) [OF assms(1,2)] by simp
  then obtain r where "common_loop H (Some p) (Some q') = Some (r, r)" "case r of None \<Rightarrow> \<forall>c. \<not> (ancestor H c p \<and> ancestor H c q')
       | Some a \<Rightarrow> a \<in> R \<and> (\<forall>c. ancestor H c p \<and> ancestor H c q' \<longleftrightarrow> ancestor H c a)"
    using common_loop_meets [OF assms(1,2) q'(1), of "nat (height (H p))"] q'(2) by auto
  ultimately show ?thesis unfolding same by (intro exI [of _ r]) (cases r; simp)
qed

section \<open>Properties\<close>

text \<open>C14: on a tree of entries, \<open>setTip\<close> turns any linked vector into exactly the ancestors of the new
  tip indexed by height, although it stops as soon as it meets an entry already in place; the result
  is linked again, so the invariant holds through any sequence of reorganisations.\<close>

theorem set_tip_follows:
  assumes "tree_ok H R" "p \<in> R" "linked H R (length m) m"
  shows "chain_setTip H m (Some p) = Some (chain_of H p) \<and> linked H R (length (chain_of H p)) (chain_of H p) \<and>
    chain_getTip (chain_of H p) = Some (Some p) \<and> chain_getHeight (chain_of H p) = Some (height (H p))"
proof -
  have "0 \<le> height (H p)" using tree_okD(1) [OF assms(1,2)] .
  moreover have "chain_of H p \<noteq> []" by (simp add: chain_of_def)
  moreover have "chain_of H p ! nat (height (H p)) = Some p" by (simp add: chain_of_def del: upt_Suc)
  ultimately show ?thesis using setTip_chain_of [OF assms] linked_chain_of [OF assms(1,2)]
    by (simp add: chain_getTip_def chain_getHeight_def)
qed

theorem set_tip_follows_witness:
  "chain_setTip line_heap (chain_of line_heap 7) (Some 3) = Some (chain_of line_heap 3)"
  using set_tip_follows [OF line_heap_ok, of 3 "chain_of line_heap 7"] linked_chain_of [OF line_heap_ok, of 7] by simp

text \<open>the chain of a tip contains exactly the ancestors of the tip, and the entry after one of them
  is its child on the chain, or null at the tip.\<close>

theorem chain_contains_ancestors:
  assumes "tree_ok H R" "p \<in> R" "q \<in> R"
  shows "(chain_contains H (chain_of H p) q \<longleftrightarrow> ancestor H q p) \<and>
    (ancestor H q p \<longrightarrow> (if q = p then chain_next H (chain_of H p) q = None
      else (\<exists>r \<in> R. chain_next H (chain_of H p) q = Some r \<and> previous (H r) = Some q \<and> ancestor H r p)))"
proof (intro conjI impI)
  show "chain_contains H (chain_of H p) q \<longleftrightarrow> ancestor H q p" using assms by (rule contains_chain_of)
  have hp: "0 \<le> height (H p)" using tree_okD(1) [OF assms(1,2)] .
  assume "ancestor H q p"
  then obtain n where n: "parent_walk H n p = Some q" by (auto simp: ancestor_def)
  have hq: "height (H q) = height (H p) - int n" "int n \<le> height (H p)" using parent_walk_height [OF assms(1,2) n] by simp_all
  show "if q = p then chain_next H (chain_of H p) q = None
      else (\<exists>r \<in> R. chain_next H (chain_of H p) q = Some r \<and> previous (H r) = Some q \<and> ancestor H r p)"
  proof (cases n)
    case 0
    then show ?thesis using n hp by (simp add: chain_next_def getBlock_chain_of)
  next
    case (Suc k)
    then have "q \<noteq> p" using hq by auto
    obtain r where r: "parent_walk H k p = Some r" "previous (H r) = Some q"
      using n Suc parent_walk_Suc_last [of H k p] by (cases "parent_walk H k p") auto
    have "nat (height (H p) - (height (H q) + 1)) = k" using hq Suc by simp
    then have "chain_next H (chain_of H p) q = Some r" using r(1) hq hp Suc by (simp add: chain_next_def getBlock_chain_of)
    moreover have "r \<in> R" using parent_walk_height [OF assms(1,2) r(1)] by simp
    ultimately show ?thesis using r \<open>q \<noteq> p\<close> by (auto simp: ancestor_def)
  qed
qed

theorem chain_contains_ancestors_witness:
  "chain_contains line_heap (chain_of line_heap 7) 3 \<longleftrightarrow> ancestor line_heap 3 7"
  using chain_contains_ancestors [OF line_heap_ok, of 7 3] by simp

text \<open>C36: the locator of an entry lists the hashes of its ancestors at strictly decreasing heights, from
  its own height down to the root: the first ten one apart, then at doubling distances, so that a
  chain lower than \<open>2 ^ k\<close> takes at most \<open>k + 11\<close> hashes. The jumps through the active chain and
  through the skip pointers give the same ancestors.\<close>

theorem locator_correct:
  assumes "tree_ok H R" "t \<in> R" "p \<in> R" "\<forall>r \<in> R. hash (header (H r)) \<noteq> uint256_null"
    and "height (H p) < 2 ^ k" "k < 30"
  shows "chain_getLocator H (chain_of H t) (Some p) =
      Some (map (hash_at H p) (locator_heights 0 1 (nat (height (H p))))) \<and>
    sorted_wrt (>) (locator_heights 0 1 (nat (height (H p)))) \<and>
    hd (locator_heights 0 1 (nat (height (H p)))) = nat (height (H p)) \<and>
    last (locator_heights 0 1 (nat (height (H p)))) = 0 \<and>
    length (locator_heights 0 1 (nat (height (H p)))) \<le> k + 11"
proof -
  define h where "h = nat (height (H p))"
  have h: "height (H p) = int h" using tree_okD(1) [OF assms(1,3)] by (simp add: h_def)
  have "h < 2 ^ k" using assms(5) by (simp add: h zless_nat_eq_int_zless)
  moreover have "(2 :: nat) ^ k \<le> 2 ^ 29" using assms(6) by (intro power_increasing) simp_all
  ultimately have "1 + h < 2 ^ 30" by simp
  then have "locator_loop H (chain_of H t) [] (int 1) (Some p) = Some (map (hash_at H p) (locator_heights 0 1 h))"
    using locator_loop_heights [OF assms(1,2,4,3) h, of 1 "[]"] by simp
  then show ?thesis using locator_heights_sorted [of 1 0 h] locator_heights_length [of 0 h k] \<open>h < 2 ^ k\<close>
    by (simp add: chain_getLocator_def h_def [symmetric])
qed

theorem locator_correct_witness:
  "\<exists>have. chain_getLocator (\<lambda>p. line_heap p\<lparr>header := BlockHeader_new\<lparr>hash := [of_nat p]\<rparr>\<rparr>)
     (chain_of (\<lambda>p. line_heap p\<lparr>header := BlockHeader_new\<lparr>hash := [of_nat p]\<rparr>\<rparr>) 9) (Some 5) = Some have"
proof -
  let ?H = "\<lambda>p. line_heap p\<lparr>header := BlockHeader_new\<lparr>hash := [of_nat p]\<rparr>\<rparr>"
  have "tree_ok ?H UNIV" by (auto simp: tree_ok_def line_heap_def BlockIndex_new_def)
  moreover have "[w] \<noteq> uint256_null" for w by (simp add: uint256_null_def numeral_eq_Suc)
  then have "\<forall>r \<in> UNIV. hash (header (?H r)) \<noteq> uint256_null" by simp
  ultimately have "chain_getLocator ?H (chain_of ?H 9) (Some 5) =
      Some (map (hash_at ?H 5) (locator_heights 0 1 (nat (height (?H 5)))))"
    using locator_correct [of ?H UNIV 9 5 3] by (simp add: line_heap_def)
  then show ?thesis by (rule exI)
qed

text \<open>C37: \<open>findLastCommonAncestor\<close> returns without failing its assertion; its result is null exactly when
  the two entries have no common ancestor, and otherwise the entry whose ancestors are exactly the
  common ancestors.\<close>

theorem common_ancestor_correct:
  assumes "tree_ok H R" "p \<in> R" "q \<in> R"
  shows "\<exists>r. findLastCommonAncestor H p q = Some r \<and>
    (case r of None \<Rightarrow> \<forall>c. \<not> (ancestor H c p \<and> ancestor H c q)
     | Some a \<Rightarrow> \<forall>c. ancestor H c p \<and> ancestor H c q \<longleftrightarrow> ancestor H c a)"
  by (rule common_ancestor [OF assms])

theorem common_ancestor_correct_witness:
  "\<exists>r. findLastCommonAncestor line_heap 5 2 = Some r \<and>
    (case r of None \<Rightarrow> \<forall>c. \<not> (ancestor line_heap c 5 \<and> ancestor line_heap c 2)
     | Some a \<Rightarrow> \<forall>c. ancestor line_heap c 5 \<and> ancestor line_heap c 2 \<longleftrightarrow> ancestor line_heap c a)"
  by (rule common_ancestor_correct [OF line_heap_ok]) simp_all

end
