(* ===== verification/BlockFiles.thy ===== *)
theory BlockFiles
  imports BlockData ObjectDB "HOL-Library.Multiset"
begin

text \<open>
  \<open>storage/BlockStorage.cpp\<close>: the files that hold the blocks. The storage reserves a range of a file
  for every block and posts the write to the disk service, which performs its jobs later; the ranges
  never overlap, so every block can be read back whatever the order of the jobs.

  A file is named by its number: the path \<open>formatBlockFilePath\<close> builds is the library's formatting.
  \<open>None\<close> is a failed assertion or an undefined access.
\<close>

section \<open>Files\<close>

text \<open>The library's files: the contents of a file (\<open>None\<close> if it cannot be opened for reading), opening a
  file to write in it (\<open>open_binary_writing\<close>) or as a new file (\<open>open_binary\<close>), moving to a position, and
  writing at a position, which yields the number of bytes written.\<close>

record 'f file_store =
  f_content :: "'f \<Rightarrow> int \<Rightarrow> bytes option"
  f_update :: "'f \<Rightarrow> int \<Rightarrow> bool"
  f_create :: "'f \<Rightarrow> int \<Rightarrow> 'f option"
  f_seek :: "'f \<Rightarrow> int \<Rightarrow> nat \<Rightarrow> bool"
  f_put :: "'f \<Rightarrow> int \<Rightarrow> nat \<Rightarrow> bytes \<Rightarrow> nat \<times> 'f"

definition overwrite :: "bytes \<Rightarrow> nat \<Rightarrow> bytes \<Rightarrow> bytes" where
  "overwrite c p b = take p c @ replicate (p - length c) 0 @ b @ drop (p + length b) c"

text \<open>The laws: a file that can be updated has contents, a created file is empty, a write changes the range it
  covers and nothing else.\<close>

locale block_files =
  fixes fio :: "'f file_store"
  assumes update_content: "f_update fio fs i \<Longrightarrow> f_content fio fs i \<noteq> None"
    and create_content: "f_create fio fs i = Some fs' \<Longrightarrow> f_content fio fs' = (f_content fio fs)(i \<mapsto> [])"
    and create_needed: "f_content fio fs i \<noteq> None \<Longrightarrow> f_update fio fs i"
    and put_content: "f_content fio fs i = Some c \<Longrightarrow> f_put fio fs i p b = (n, fs') \<Longrightarrow>
      n \<le> length b \<and> f_content fio fs' = (f_content fio fs)(i \<mapsto> overwrite c p (take n b))"

text \<open>A device that takes every write whole, and on which every file can be created and every position
  reached.\<close>

locale sound_device = block_files +
  assumes put_whole: "fst (f_put fio fs i p b) = length b"
    and create_some: "f_create fio fs i \<noteq> None"
    and seek_ok: "f_seek fio fs i p"

text \<open>Files kept as a map.\<close>

definition map_files :: "(int \<Rightarrow> bytes option) file_store" where
  "map_files = \<lparr>f_content = id, f_update = \<lambda>fs i. fs i \<noteq> None, f_create = \<lambda>fs i. Some (fs(i \<mapsto> [])),
     f_seek = \<lambda>fs i p. True,
     f_put = \<lambda>fs i p b. (length b, case fs i of Some c \<Rightarrow> fs(i \<mapsto> overwrite c p b) | None \<Rightarrow> fs)\<rparr>"

interpretation mpf: sound_device map_files
  by unfold_locales (auto simp: map_files_def)

section \<open>The storage\<close>

definition MAX_BLOCKFILE_SIZE :: u32 where "MAX_BLOCKFILE_SIZE = 0x8000000"

text \<open>The set of dirty files is kept in ascending order, as \<open>std::set\<close> iterates over it.\<close>

record BlockStorage =
  lastBlockFile :: int
  blockFiles :: "BlockFileInfo list"
  dirtyFiles :: "nat list"

definition BlockStorage_new :: BlockStorage where
  "BlockStorage_new = \<lparr>lastBlockFile = 0, blockFiles = [], dirtyFiles = []\<rparr>"

definition storage_load :: "BlockFileInfo list \<Rightarrow> int \<Rightarrow> BlockStorage \<Rightarrow> BlockStorage" where
  "storage_load files lastFile st = st\<lparr>blockFiles := files, lastBlockFile := lastFile\<rparr>"

definition grow :: "nat \<Rightarrow> BlockFileInfo list \<Rightarrow> BlockFileInfo list" where
  "grow n files = (if length files \<le> n then files @ replicate (n + 1 - length files) BlockFileInfo_new else files)"

text \<open>The loop of \<open>findBlockPos\<close>; \<open>None\<close> is a loop that does not end. The sum is an unsigned int.\<close>

partial_function (option) find_file :: "u32 \<Rightarrow> nat \<Rightarrow> BlockFileInfo list \<Rightarrow> (nat \<times> BlockFileInfo list) option" where
  "find_file blockSize b files =
     (if info_size (files ! b) + blockSize \<ge> MAX_BLOCKFILE_SIZE
      then find_file blockSize (b + 1) (grow (b + 1) files)
      else Some (b, files))"

definition findBlockPos :: "int \<Rightarrow> u32 \<Rightarrow> BlockStorage \<Rightarrow> (DiskBlockPos \<times> BlockStorage) option" where
  "findBlockPos preferredFile blockSize st = do {
     let b = (if preferredFile > 0 then preferredFile else lastBlockFile st);
     assert_that (b \<ge> 0);
     (b, files) \<leftarrow> find_file blockSize (nat b) (grow (nat b) (blockFiles st));
     Some (\<lparr>pos_fileIndex = int b, position = info_size (files ! b)\<rparr>,
       st\<lparr>blockFiles := files[b := (files ! b)\<lparr>info_size := info_size (files ! b) + blockSize\<rparr>],
          lastBlockFile := int b, dirtyFiles := insort_insert b (dirtyFiles st)\<rparr>)
   }"

text \<open>A block is encoded into a buffer of 2 MiB; what the stream leaves of a block that does not fit is the
  library's, and not modelled.\<close>

definition BLOCK_BUFFER :: nat where "BLOCK_BUFFER = 2 * 1024 * 1024"

definition writeBlock :: "ostream \<Rightarrow> Block \<Rightarrow> BlockIndex \<Rightarrow> BlockStorage \<Rightarrow> (DiskBlockPos \<times> bytes \<times> BlockStorage) option" where
  "writeBlock os block bi st = do {
     let s = write_block os block;
     assert_that (length s \<le> BLOCK_BUFFER);
     (pos, st) \<leftarrow> findBlockPos 0 (of_nat (length s + 8)) st;
     let i = nat (pos_fileIndex pos);
     info \<leftarrow> info_addBlock (word_of_int (height bi)) (ucast (timestamp (header bi))) (blockFiles st ! i);
     Some (pos, s, st\<lparr>blockFiles := (blockFiles st)[i := info]\<rparr>)
   }"

text \<open>\<open>flush\<close>: the records of the dirty files, and the last file.\<close>

definition storage_flush :: "BlockStorage \<Rightarrow> (BlockFileInfo list \<times> int \<times> BlockStorage) option" where
  "storage_flush st = do {
     assert_that (list_all (\<lambda>f. f < length (blockFiles st)) (dirtyFiles st));
     Some (map (\<lambda>f. blockFiles st ! f) (dirtyFiles st), lastBlockFile st, st\<lparr>dirtyFiles := []\<rparr>)
   }"

section \<open>Reading and writing\<close>

text \<open>What reading and writing a block uses: the files, the conversion of the two words in front of a
  block, the network's magic number, the streams and the digests.\<close>

record ('f, 's) disk_context =
  dk_files :: "'f file_store"
  dk_bits :: bit_converter
  protocolMagic :: u32
  dk_in :: "'s istream"
  dk_out :: ostream
  dk_digests :: digests

definition doWriteBlock :: "('f, 's) disk_context \<Rightarrow> bytes \<Rightarrow> DiskBlockPos \<Rightarrow> 'f \<Rightarrow> 'f option" where
  "doWriteBlock dk data pos fs = do {
     let i = pos_fileIndex pos;
     fs \<leftarrow> (if f_update (dk_files dk) fs i then Some fs else f_create (dk_files dk) fs i);
     assert_that (f_seek (dk_files dk) fs i (unat (position pos)));
     let buf = from_dword (dk_bits dk) (protocolMagic dk) @ from_dword (dk_bits dk) (of_nat (length data));
     let (n, fs) = f_put (dk_files dk) fs i (unat (position pos)) buf;
     let (size, fs) = f_put (dk_files dk) fs i (unat (position pos) + n) data;
     assert_that (size = length data);
     Some fs
   }"

definition block_hashes :: "digests \<Rightarrow> ostream \<Rightarrow> Block \<Rightarrow> Block" where
  "block_hashes dg os b = \<lparr>blk_header = computeHash dg os (blk_header b), transactions = map (computeHash_tx dg os) (transactions b)\<rparr>"

text \<open>The outer \<open>None\<close> is a failed assertion, the inner one the null pointer.\<close>

definition doReadBlock :: "('f, 's) disk_context \<Rightarrow> BlockIndex \<Rightarrow> 'f \<Rightarrow> Block option option" where
  "doReadBlock dk bi fs =
     (case f_content (dk_files dk) fs (fileIndex bi) of
        None \<Rightarrow> Some None
      | Some c \<Rightarrow>
          if dataPosition bi < 8 then None
          else let p = unat (dataPosition bi - 8)
          in if \<not> f_seek (dk_files dk) fs (fileIndex bi) p then Some None
          else let buf = take 8 (drop p c)
          in if length buf \<noteq> 8 then Some None
          else let magic = to_dword (dk_bits dk) buf; blockSize = to_dword (dk_bits dk) (drop 4 buf)
          in if magic \<noteq> protocolMagic dk \<or> blockSize = 0 \<or> blockSize > 2 * 1024 * 1024 then Some None
          else let s = take (unat blockSize) (drop (p + 8) c)
          in if length s \<noteq> unat blockSize then Some None
          else case read_block (dk_in dk) \<lparr>blk_header = BlockHeader_new, transactions = []\<rparr> (of_bytes (dk_in dk) s) of
                 (block, s') \<Rightarrow>
                   if good (dk_in dk) s' then Some (Some (block_hashes (dk_digests dk) (dk_out dk) block)) else Some None)"

section \<open>Contents of a file\<close>

lemma length_overwrite [simp]: "length (overwrite c p b) = max (length c) (p + length b)"
  by (simp add: overwrite_def)

lemma nth_overwrite:
  "j < max (length c) (p + length b) \<Longrightarrow>
    overwrite c p b ! j = (if p \<le> j \<and> j < p + length b then b ! (j - p) else if j < length c then c ! j else 0)"
  by (auto simp: overwrite_def nth_append min_def)

text \<open>The bytes of a range.\<close>

definition range_of :: "bytes \<Rightarrow> nat \<Rightarrow> nat \<Rightarrow> bytes" where
  "range_of c p n = take n (drop p c)"

lemma range_overwrite_same [simp]: "range_of (overwrite c p b) p (length b) = b"
  by (rule nth_equalityI) (auto simp: range_of_def nth_overwrite)

lemma range_overwrite_other:
  "q + n \<le> length c \<Longrightarrow> q + n \<le> p \<or> p + length b \<le> q \<Longrightarrow> range_of (overwrite c p b) q n = range_of c q n"
  by (rule nth_equalityI) (auto simp: range_of_def nth_overwrite)

lemma overwrite_append: "overwrite (overwrite c p a) (p + length a) b = overwrite c p (a @ b)"
  by (rule nth_equalityI) (auto simp: nth_overwrite nth_append)

section \<open>Reserving ranges\<close>

text \<open>The bytes of a file that are reserved.\<close>

definition used :: "BlockStorage \<Rightarrow> nat \<Rightarrow> nat" where
  "used st i = (if i < length (blockFiles st) then unat (info_size (blockFiles st ! i)) else 0)"

text \<open>The record of a file: below the limit, at least eight bytes for every block, and untouched times and
  heights without one.\<close>

definition info_ok :: "BlockFileInfo \<Rightarrow> bool" where
  "info_ok i \<longleftrightarrow> info_size i < MAX_BLOCKFILE_SIZE \<and> 8 * unat (blocks i) \<le> unat (info_size i) \<and>
     (blocks i = 0 \<longrightarrow> minHeight i = 0 \<and> maxHeight i = 0 \<and> minTime i = 0 \<and> maxTime i = 0)"

definition storage_ok :: "BlockStorage \<Rightarrow> bool" where
  "storage_ok st \<longleftrightarrow> list_all info_ok (blockFiles st) \<and> 0 \<le> lastBlockFile st \<and>
     list_all (\<lambda>f. f < length (blockFiles st)) (dirtyFiles st)"

lemma info_ok_new [simp]: "info_ok BlockFileInfo_new" "info_size BlockFileInfo_new = 0"
  by (simp_all add: info_ok_def BlockFileInfo_new_def MAX_BLOCKFILE_SIZE_def)

lemma storage_ok_new [simp]: "storage_ok BlockStorage_new"
  by (simp add: storage_ok_def BlockStorage_new_def)

lemma grow_extends: "\<exists>k. grow n files = files @ replicate k BlockFileInfo_new"
  by (auto simp: grow_def intro: exI [of _ 0])

lemma length_grow: "length (grow n files) = max (length files) (n + 1)"
  by (auto simp: grow_def)

lemma find_file_ok:
  assumes "b < length files" "blockSize < MAX_BLOCKFILE_SIZE"
  obtains b' k where "find_file blockSize b files = Some (b', files @ replicate k BlockFileInfo_new)" "b \<le> b'"
    "b' < length files + k" "info_size ((files @ replicate k BlockFileInfo_new) ! b') + blockSize < MAX_BLOCKFILE_SIZE"
  using assms
proof (induction "length files - b" arbitrary: b files thesis rule: less_induct)
  case less
  show ?case
  proof (cases "info_size (files ! b) + blockSize \<ge> MAX_BLOCKFILE_SIZE")
    case False
    then have "find_file blockSize b files = Some (b, files)" by (simp add: find_file.simps [of _ b])
    then show ?thesis using less.prems(1) [of b 0] less.prems(2) False by (simp add: not_le)
  next
    case True
    show ?thesis
    proof (cases "b + 1 < length files")
      case room: True
      then have g: "grow (b + 1) files = files" by (simp add: grow_def)
      have "length files - (b + 1) < length files - b" using room by simp
      from less.hyps [OF this _ room less.prems(3)] obtain b' k
        where "find_file blockSize (b + 1) files = Some (b', files @ replicate k BlockFileInfo_new)" "b + 1 \<le> b'"
          "b' < length files + k" "info_size ((files @ replicate k BlockFileInfo_new) ! b') + blockSize < MAX_BLOCKFILE_SIZE"
        by blast
      then show ?thesis using less.prems(1) [of b' k] True g by (simp add: find_file.simps [of _ b])
    next
      case False
      then have l: "length files = b + 1" using less.prems(2) by simp
      then have g: "grow (b + 1) files = files @ [BlockFileInfo_new]" "length files = b + 1" by (simp_all add: grow_def)
      then have "find_file blockSize b files = Some (b + 1, files @ [BlockFileInfo_new])"
        using True less.prems(3) [folded not_le] by (simp add: find_file.simps [of _ b] find_file.simps [of _ "Suc b"] nth_append)
      then show ?thesis using less.prems(1) [of "b + 1" 1] g(2) less.prems(3) by (simp add: nth_append)
    qed
  qed
qed

lemma info_ok_below: "info_ok i \<Longrightarrow> unat (info_size i) < 0x8000000"
  by (simp add: info_ok_def MAX_BLOCKFILE_SIZE_def word_less_nat_alt)

lemma used_less: "storage_ok st \<Longrightarrow> used st i < 0x8000000"
  by (simp add: storage_ok_def used_def list_all_length info_ok_below)

lemma unat_sum_below:
  fixes a b :: u32
  assumes "unat a < 0x8000000" "unat b < 0x8000000"
  shows "unat (a + b) = unat a + unat b"
  using assms by (intro unat_plus_if_size [THEN trans]) (simp add: word_size)

text \<open>A reservation moves the end of one file and leaves the others alone.\<close>

definition reserves :: "BlockStorage \<Rightarrow> DiskBlockPos \<Rightarrow> nat \<Rightarrow> BlockStorage \<Rightarrow> bool" where
  "reserves st pos n st' \<longleftrightarrow> 0 \<le> pos_fileIndex pos \<and> unat (position pos) = used st (nat (pos_fileIndex pos)) \<and>
     used st' = (used st)(nat (pos_fileIndex pos) := used st (nat (pos_fileIndex pos)) + n)"

lemma findBlockPos_ok:
  assumes st: "storage_ok st" and size: "8 \<le> unat blockSize" "blockSize < MAX_BLOCKFILE_SIZE"
  obtains pos st' where "findBlockPos 0 blockSize st = Some (pos, st')" "reserves st pos (unat blockSize) st'"
    "nat (pos_fileIndex pos) < length (blockFiles st')" "lastBlockFile st' = pos_fileIndex pos" "storage_ok st'"
    "8 * unat (blocks (blockFiles st' ! nat (pos_fileIndex pos))) + 8 \<le> unat (info_size (blockFiles st' ! nat (pos_fileIndex pos)))"
proof -
  let ?files = "grow (nat (lastBlockFile st)) (blockFiles st)"
  obtain k where k: "?files = blockFiles st @ replicate k BlockFileInfo_new" using grow_extends by blast
  have "nat (lastBlockFile st) < length ?files" by (simp add: length_grow)
  from find_file_ok [OF this size(2)] obtain b j where f:
    "find_file blockSize (nat (lastBlockFile st)) ?files = Some (b, ?files @ replicate j BlockFileInfo_new)"
    "b < length ?files + j" "info_size ((?files @ replicate j BlockFileInfo_new) ! b) + blockSize < MAX_BLOCKFILE_SIZE"
    by metis
  define files where "files = blockFiles st @ replicate (k + j) BlockFileInfo_new"
  have files: "?files @ replicate j BlockFileInfo_new = files" by (simp add: k files_def replicate_add)
  have ok: "list_all info_ok files" using st by (simp add: files_def storage_ok_def set_replicate_conv_if list_all_iff)
  have b: "b < length files" using f(2) by (simp add: files [symmetric])
  let ?i = "files ! b"
  have i: "info_ok ?i" using ok b by (simp add: list_all_length)
  have sum: "unat (info_size ?i + blockSize) = unat (info_size ?i) + unat blockSize"
    using info_ok_below [OF i] size(2) by (intro unat_sum_below) (simp_all add: MAX_BLOCKFILE_SIZE_def word_less_nat_alt)
  define st' where "st' = st\<lparr>blockFiles := files[b := ?i\<lparr>info_size := info_size ?i + blockSize\<rparr>],
    lastBlockFile := int b, dirtyFiles := insort_insert b (dirtyFiles st)\<rparr>"
  define pos where "pos = \<lparr>pos_fileIndex = int b, position = info_size ?i\<rparr>"
  have used: "used st n = (if n < length files then unat (info_size (files ! n)) else 0)" for n
    by (auto simp: used_def files_def nth_append)
  have nonzero: "info_size ?i + blockSize \<noteq> 0 \<or> blocks ?i = 0" using sum size(1) by (metis add_is_0 not_numeral_le_zero unat_0)
  have "info_ok (?i\<lparr>info_size := info_size ?i + blockSize\<rparr>)"
    using i sum f(3) files by (simp add: info_ok_def)
  then have "list_all info_ok (blockFiles st')" using ok by (simp add: st'_def list_all_update)
  moreover have "list_all (\<lambda>f. f < length (blockFiles st')) (dirtyFiles st')"
    using st b by (auto simp: st'_def storage_ok_def list_all_iff set_insort_insert files_def)
  ultimately have "storage_ok st'" by (simp add: storage_ok_def st'_def)
  moreover have "findBlockPos 0 blockSize st = Some (pos, st')"
    using st f(1) by (simp add: findBlockPos_def storage_ok_def files st'_def pos_def)
  moreover have "reserves st pos (unat blockSize) st'"
    using b by (auto simp: reserves_def pos_def used st'_def fun_eq_iff nth_list_update sum) (auto simp: used_def nth_list_update sum)
  moreover have "8 * unat (blocks (blockFiles st' ! nat (pos_fileIndex pos))) + 8 \<le> unat (info_size (blockFiles st' ! nat (pos_fileIndex pos)))"
    using i b size(1) by (simp add: st'_def pos_def sum info_ok_def)
  moreover have "nat (pos_fileIndex pos) < length (blockFiles st')" "lastBlockFile st' = pos_fileIndex pos"
    using b by (simp_all add: st'_def pos_def)
  ultimately show thesis using that by blast
qed

lemma info_addBlock_ok:
  assumes "info_size i < MAX_BLOCKFILE_SIZE" "8 * unat (blocks i) + 8 \<le> unat (info_size i)"
    "blocks i = 0 \<Longrightarrow> minHeight i = 0 \<and> maxHeight i = 0 \<and> minTime i = 0 \<and> maxTime i = 0"
  obtains i' where "info_addBlock h t i = Some i'" "info_ok i'" "info_size i' = info_size i" "info_fileIndex i' = info_fileIndex i"
proof -
  have "unat (info_size i) < 0x8000000" using assms(1) by (simp add: MAX_BLOCKFILE_SIZE_def word_less_nat_alt)
  then have sum: "unat (blocks i + 1) = unat (blocks i) + 1"
    using assms(2) by (intro unat_plus_if_size [THEN trans]) (simp add: word_size)
  then have "blocks i + 1 \<noteq> 0" by (metis add_is_0 unat_0 zero_neq_one)
  then show thesis using that assms sum by (cases "blocks i = 0") (auto simp: info_addBlock_def info_ok_def)
qed

lemma used_update: "info_size i = info_size (blockFiles st ! k) \<Longrightarrow> used (st\<lparr>blockFiles := (blockFiles st)[k := i]\<rparr>) = used st"
  by (rule ext, cases "k < length (blockFiles st)") (simp_all add: used_def nth_list_update)

lemma storage_ok_nth: "storage_ok st \<Longrightarrow> i < length (blockFiles st) \<Longrightarrow> info_ok (blockFiles st ! i)"
  by (simp add: storage_ok_def list_all_length)

lemma writeBlock_ok:
  assumes st: "storage_ok st" and size: "length (write_block os b) \<le> BLOCK_BUFFER"
  obtains pos st' where "writeBlock os b bi st = Some (pos, write_block os b, st')" "storage_ok st'"
    "reserves st pos (length (write_block os b) + 8) st'"
proof -
  let ?n = "of_nat (length (write_block os b) + 8) :: u32"
  have small: "length (write_block os b) + 8 < 2 ^ 32" using size by (simp add: BLOCK_BUFFER_def)
  then have n: "unat ?n = length (write_block os b) + 8" by (intro of_nat_inverse) (simp_all add: BLOCK_BUFFER_def)
  have "8 \<le> unat ?n" "?n < MAX_BLOCKFILE_SIZE"
    using n size by (simp_all add: MAX_BLOCKFILE_SIZE_def BLOCK_BUFFER_def word_less_nat_alt del: of_nat_add)
  from findBlockPos_ok [OF st this] obtain pos st1 where f: "findBlockPos 0 ?n st = Some (pos, st1)" "reserves st pos (unat ?n) st1"
    "nat (pos_fileIndex pos) < length (blockFiles st1)" "storage_ok st1"
    "8 * unat (blocks (blockFiles st1 ! nat (pos_fileIndex pos))) + 8 \<le> unat (info_size (blockFiles st1 ! nat (pos_fileIndex pos)))"
    by metis
  let ?i = "blockFiles st1 ! nat (pos_fileIndex pos)"
  have "info_ok ?i" using storage_ok_nth [OF f(4,3)] .
  then have "info_size ?i < MAX_BLOCKFILE_SIZE" "blocks ?i = 0 \<Longrightarrow> minHeight ?i = 0 \<and> maxHeight ?i = 0 \<and> minTime ?i = 0 \<and> maxTime ?i = 0"
    by (simp_all add: info_ok_def)
  from info_addBlock_ok [OF this(1) f(5) this(2)] obtain i'
    where i': "info_addBlock (word_of_int (height bi)) (ucast (timestamp (header bi))) ?i = Some i'" "info_ok i'" "info_size i' = info_size ?i"
    by metis
  let ?st = "st1\<lparr>blockFiles := (blockFiles st1)[nat (pos_fileIndex pos) := i']\<rparr>"
  have "writeBlock os b bi st = Some (pos, write_block os b, ?st)"
    using size f(1) i'(1) by (simp add: writeBlock_def)
  moreover have "storage_ok ?st" using f(4) i'(2) by (simp add: storage_ok_def list_all_update)
  moreover have "reserves st pos (length (write_block os b) + 8) ?st" using f(2) n used_update [OF i'(3)] by (simp add: reserves_def)
  ultimately show thesis by (rule that)
qed

section \<open>The ranges of many blocks\<close>

text \<open>A job of the disk service: the bytes of a block and where they go.\<close>

type_synonym write_job = "DiskBlockPos \<times> bytes"

fun write_blocks :: "ostream \<Rightarrow> (Block \<times> BlockIndex) list \<Rightarrow> BlockStorage \<Rightarrow> (write_job list \<times> BlockStorage) option" where
  "write_blocks os [] st = Some ([], st)"
| "write_blocks os ((b, bi) # items) st = do {
     (pos, data, st) \<leftarrow> writeBlock os b bi st;
     (jobs, st) \<leftarrow> write_blocks os items st;
     Some ((pos, data) # jobs, st)
   }"

definition job_start :: "write_job \<Rightarrow> nat" where
  "job_start j = unat (position (fst j))"

definition job_end :: "write_job \<Rightarrow> nat" where
  "job_end j = job_start j + 8 + length (snd j)"

definition apart :: "write_job \<Rightarrow> write_job \<Rightarrow> bool" where
  "apart j k \<longleftrightarrow> pos_fileIndex (fst j) \<noteq> pos_fileIndex (fst k) \<or> job_end j \<le> job_start k \<or> job_end k \<le> job_start j"

lemma write_blocks_ok:
  assumes "storage_ok st" "\<forall>(b, bi) \<in> set items. length (write_block os b) \<le> BLOCK_BUFFER"
  shows "\<exists>jobs st'. write_blocks os items st = Some (jobs, st') \<and> storage_ok st' \<and> (\<forall>i. used st i \<le> used st' i) \<and>
    map snd jobs = map (write_block os \<circ> fst) items \<and>
    (\<forall>j \<in> set jobs. 0 \<le> pos_fileIndex (fst j) \<and> used st (nat (pos_fileIndex (fst j))) \<le> job_start j \<and>
       job_end j \<le> used st' (nat (pos_fileIndex (fst j)))) \<and>
    distinct jobs \<and> (\<forall>j \<in> set jobs. \<forall>k \<in> set jobs. j \<noteq> k \<longrightarrow> apart j k)"
  using assms
proof (induction items arbitrary: st)
  case (Cons item items)
  obtain b bi where item: "item = (b, bi)" by fastforce
  have len: "length (write_block os b) \<le> BLOCK_BUFFER" using Cons.prems(2) item by simp
  from writeBlock_ok [OF Cons.prems(1) len] obtain pos st1
    where w: "writeBlock os b bi st = Some (pos, write_block os b, st1)" "storage_ok st1" "reserves st pos (length (write_block os b) + 8) st1"
    by metis
  let ?j = "(pos, write_block os b)" and ?i = "nat (pos_fileIndex pos)"
  have "\<forall>(b, bi) \<in> set items. length (write_block os b) \<le> BLOCK_BUFFER" using Cons.prems(2) by simp
  from Cons.IH [OF w(2) this] obtain jobs st'
    where r: "write_blocks os items st1 = Some (jobs, st')" "storage_ok st'" "\<And>i. used st1 i \<le> used st' i"
      "map snd jobs = map (write_block os \<circ> fst) items"
      "\<And>j. j \<in> set jobs \<Longrightarrow> 0 \<le> pos_fileIndex (fst j) \<and> used st1 (nat (pos_fileIndex (fst j))) \<le> job_start j \<and>
         job_end j \<le> used st' (nat (pos_fileIndex (fst j)))"
      "distinct jobs" "\<And>j k. j \<in> set jobs \<Longrightarrow> k \<in> set jobs \<Longrightarrow> j \<noteq> k \<Longrightarrow> apart j k"
    by blast
  have j: "0 \<le> pos_fileIndex pos" "job_start ?j = used st ?i" "job_end ?j = used st1 ?i"
    using w(3) by (simp_all add: reserves_def job_start_def job_end_def)
  have mono: "used st i \<le> used st1 i" for i using w(3) by (simp add: reserves_def)
  have apart: "apart ?j k" if "k \<in> set jobs" for k
    using r(5) [OF that] j by (auto simp: apart_def)
  have "apart k ?j" if "k \<in> set jobs" for k using apart [OF that] by (auto simp: apart_def)
  moreover have "?j \<notin> set jobs" using apart [of ?j] by (auto simp: apart_def job_end_def)
  ultimately show ?case
    using w(1) r(1,2,4,6,7) j apart mono order_trans [OF mono r(3)] r(3) r(5)
    by (auto simp: item intro: order_trans [OF mono])
qed simp

section \<open>The disk service\<close>

definition block_record :: "('f, 's) disk_context \<Rightarrow> bytes \<Rightarrow> bytes" where
  "block_record dk data = from_dword (dk_bits dk) (protocolMagic dk) @ from_dword (dk_bits dk) (of_nat (length data)) @ data"

text \<open>The record of a job is in its place.\<close>

definition stored :: "('f, 's) disk_context \<Rightarrow> 'f \<Rightarrow> write_job \<Rightarrow> bool" where
  "stored dk fs j \<longleftrightarrow> (\<exists>c. f_content (dk_files dk) fs (pos_fileIndex (fst j)) = Some c \<and> job_end j \<le> length c \<and>
     range_of c (job_start j) (8 + length (snd j)) = block_record dk (snd j))"

fun run_jobs :: "('f, 's) disk_context \<Rightarrow> write_job list \<Rightarrow> 'f \<Rightarrow> 'f option" where
  "run_jobs dk [] fs = Some fs"
| "run_jobs dk (j # jobs) fs = do { fs \<leftarrow> doWriteBlock dk (snd j) (fst j) fs; run_jobs dk jobs fs }"

locale disk = sound_device "dk_files dk" + streams "dk_in dk" "dk_out dk" + little_endian "dk_bits dk"
  for dk :: "('f, 's) disk_context"
begin

lemma put_all:
  assumes "f_content (dk_files dk) fs i = Some c"
  obtains fs' where "f_put (dk_files dk) fs i p b = (length b, fs')"
    "f_content (dk_files dk) fs' = (f_content (dk_files dk) fs)(i \<mapsto> overwrite c p b)"
proof -
  obtain n fs' where p: "f_put (dk_files dk) fs i p b = (n, fs')" by fastforce
  then have "n = length b" using put_whole [of fs i p b] by simp
  then show thesis using that p put_content [OF assms p] by simp
qed

lemma doWriteBlock_ok:
  obtains fs' c where "doWriteBlock dk (snd j) (fst j) fs = Some fs'"
    "c = (case f_content (dk_files dk) fs (pos_fileIndex (fst j)) of Some c \<Rightarrow> c | None \<Rightarrow> [])"
    "f_content (dk_files dk) fs' =
      (f_content (dk_files dk) fs)(pos_fileIndex (fst j) \<mapsto> overwrite c (job_start j) (block_record dk (snd j)))"
proof -
  let ?i = "pos_fileIndex (fst j)"
  define c where "c = (case f_content (dk_files dk) fs ?i of Some c \<Rightarrow> c | None \<Rightarrow> [])"
  obtain fs1 where fs1: "(if f_update (dk_files dk) fs ?i then Some fs else f_create (dk_files dk) fs ?i) = Some fs1"
    "f_content (dk_files dk) fs1 = (f_content (dk_files dk) fs)(?i \<mapsto> c)"
  proof (cases "f_update (dk_files dk) fs ?i")
    case True
    then show thesis using that [of fs] update_content [OF True] by (auto simp: c_def fun_upd_idem)
  next
    case False
    then have none: "f_content (dk_files dk) fs ?i = None" using create_needed [of fs ?i] by blast
    obtain fs' where cr: "f_create (dk_files dk) fs ?i = Some fs'" using create_some [of fs ?i] by blast
    show thesis using that [of fs'] False none cr create_content [OF cr] by (simp add: c_def)
  qed
  let ?hd = "from_dword (dk_bits dk) (protocolMagic dk) @ from_dword (dk_bits dk) (of_nat (length (snd j)))"
  have "f_content (dk_files dk) fs1 ?i = Some c" using fs1(2) by simp
  from put_all [OF this] obtain fs2 where fs2: "f_put (dk_files dk) fs1 ?i (job_start j) ?hd = (length ?hd, fs2)"
    "f_content (dk_files dk) fs2 = (f_content (dk_files dk) fs1)(?i \<mapsto> overwrite c (job_start j) ?hd)" by metis
  then have "f_content (dk_files dk) fs2 ?i = Some (overwrite c (job_start j) ?hd)" by simp
  from put_all [OF this] obtain fs3 where fs3:
    "f_put (dk_files dk) fs2 ?i (job_start j + length ?hd) (snd j) = (length (snd j), fs3)"
    "f_content (dk_files dk) fs3 = (f_content (dk_files dk) fs2)(?i \<mapsto>
       overwrite (overwrite c (job_start j) ?hd) (job_start j + length ?hd) (snd j))" by metis
  have "f_content (dk_files dk) fs3 = (f_content (dk_files dk) fs)(?i \<mapsto> overwrite c (job_start j) (block_record dk (snd j)))"
    using fs1(2) fs2(2) fs3(2) overwrite_append [of c "job_start j" ?hd "snd j"] by (simp add: block_record_def)
  moreover have "doWriteBlock dk (snd j) (fst j) fs = Some fs3"
    using fs1(1) fs2(1) fs3(1) seek_ok by (simp add: doWriteBlock_def job_start_def)
  ultimately show thesis using that c_def by blast
qed

lemma length_block_record [simp]: "length (block_record dk data) = 8 + length data"
  by (simp add: block_record_def)

lemma stored_step:
  assumes "doWriteBlock dk (snd j) (fst j) fs = Some fs'"
  shows "stored dk fs' j" and "stored dk fs k \<Longrightarrow> apart j k \<Longrightarrow> stored dk fs' k"
proof -
  obtain c where c: "c = (case f_content (dk_files dk) fs (pos_fileIndex (fst j)) of Some c \<Rightarrow> c | None \<Rightarrow> [])"
    "f_content (dk_files dk) fs' =
      (f_content (dk_files dk) fs)(pos_fileIndex (fst j) \<mapsto> overwrite c (job_start j) (block_record dk (snd j)))"
    using assms doWriteBlock_ok [of j fs] by (metis option.inject)
  show "stored dk fs' j"
    using range_overwrite_same [of c "job_start j" "block_record dk (snd j)"] by (simp add: stored_def c(2) job_end_def)
  assume k: "stored dk fs k" "apart j k"
  show "stored dk fs' k"
  proof (cases "pos_fileIndex (fst k) = pos_fileIndex (fst j)")
    case True
    then have d: "f_content (dk_files dk) fs (pos_fileIndex (fst j)) = Some c" "job_end k \<le> length c"
      "range_of c (job_start k) (8 + length (snd k)) = block_record dk (snd k)"
      using k(1) c(1) by (auto simp: stored_def)
    then have "range_of (overwrite c (job_start j) (block_record dk (snd j))) (job_start k) (8 + length (snd k)) = block_record dk (snd k)"
      using k(2) True by (subst range_overwrite_other) (auto simp: apart_def job_end_def)
    then show ?thesis using d(2) True by (simp add: stored_def c(2))
  qed (use k(1) in \<open>simp add: stored_def c(2)\<close>)
qed

lemma run_jobs_keeps:
  "\<forall>j \<in> set jobs. apart j k \<Longrightarrow> stored dk fs k \<Longrightarrow> \<exists>fs'. run_jobs dk jobs fs = Some fs' \<and> stored dk fs' k"
proof (induction jobs arbitrary: fs)
  case (Cons j jobs)
  obtain fs1 where fs1: "doWriteBlock dk (snd j) (fst j) fs = Some fs1" using doWriteBlock_ok [of j fs] by metis
  then have "stored dk fs1 k" using stored_step(2) [OF fs1 Cons.prems(2)] Cons.prems(1) by simp
  then show ?case using Cons.IH [of fs1] Cons.prems(1) fs1 by simp
qed simp

lemma run_jobs_stored:
  "distinct jobs \<Longrightarrow> \<forall>j \<in> set jobs. \<forall>k \<in> set jobs. j \<noteq> k \<longrightarrow> apart j k \<Longrightarrow>
    \<exists>fs'. run_jobs dk jobs fs = Some fs' \<and> (\<forall>j \<in> set jobs. stored dk fs' j)"
proof (induction jobs arbitrary: fs)
  case (Cons j jobs)
  obtain fs1 where fs1: "doWriteBlock dk (snd j) (fst j) fs = Some fs1" using doWriteBlock_ok [of j fs] by metis
  have "\<forall>k \<in> set jobs. apart k j" using Cons.prems by auto
  from run_jobs_keeps [OF this stored_step(1) [OF fs1]] Cons.IH [of fs1] Cons.prems fs1
  show ?case by auto
qed simp

lemma hashes_again:
  "block_hashes dg os \<lparr>blk_header = (blk_header b)\<lparr>hash := uint256_null\<rparr>,
      transactions = map (\<lambda>t. t\<lparr>tx_hash := uint256_null\<rparr>) (transactions b)\<rparr> = block_hashes dg os b" for os
  by (simp add: block_hashes_def computeHash_def computeHash_tx_def write_header_def write_tx_def hasWitness_def Let_def)

lemma read_stored:
  assumes "stored dk fs j" "wf_block b" "snd j = write_block (dk_out dk) b" "length (snd j) \<le> BLOCK_BUFFER"
    and "job_start j < 0x8000000"
  shows "doReadBlock dk (setDiskPosition (fst j) bi) fs = Some (Some (block_hashes (dk_digests dk) (dk_out dk) b))"
proof -
  let ?p = "position (fst j)" and ?n = "length (snd j)"
  obtain c where c: "f_content (dk_files dk) fs (pos_fileIndex (fst j)) = Some c" "job_end j \<le> length c"
    "range_of c (job_start j) (8 + ?n) = block_record dk (snd j)" using assms(1) by (auto simp: stored_def)
  have "unat (?p + 8) = job_start j + 8"
    using assms(5) by (subst unat_sum_below) (simp_all add: job_start_def)
  then have p: "\<not> ?p + 8 < 8" "unat ?p = job_start j" "min (length c - job_start j) 8 = 8"
    using c(2) by (simp_all add: word_less_nat_alt job_start_def job_end_def)
  have len: "min (length c - (job_start j + 8)) ?n = ?n" using c(2) by (simp add: job_end_def)
  have take: "take k (drop (job_start j) c) = take k (block_record dk (snd j))" if "k \<le> 8 + ?n" for k
    using that by (simp add: c(3) [symmetric] range_of_def min_absorb1)
  have hd: "take 8 (drop (job_start j) c) = from_dword (dk_bits dk) (protocolMagic dk) @ from_dword (dk_bits dk) (of_nat ?n)"
    using take [of 8] by (simp add: block_record_def)
  have data: "take ?n (drop (job_start j + 8) c) = snd j"
    using arg_cong [OF take [of "8 + ?n"], of "drop 8"] by (simp add: block_record_def drop_take add.commute)
  have n: "unat (of_nat ?n :: u32) = ?n" using assms(4) by (intro of_nat_inverse) (simp_all add: BLOCK_BUFFER_def)
  have "0 < ?n" unfolding assms(3) by (simp add: write_block_def write_header_def wr32_le)
  then have size: "(of_nat ?n :: u32) \<noteq> 0" "\<not> (of_nat ?n :: u32) > 2 * 1024 * 1024"
    using n assms(4) by (auto simp: word_less_nat_alt BLOCK_BUFFER_def)
  have magic: "to_dword (dk_bits dk) (from_dword (dk_bits dk) w @ r) = w" for w r by (rule to_from)
  have one: "to_dword (dk_bits dk) (from_dword (dk_bits dk) w) = w" for w using magic [of w "[]"] by simp
  have rd: "read_block (dk_in dk) \<lparr>blk_header = BlockHeader_new, transactions = []\<rparr> (of_bytes (dk_in dk) (snd j)) =
    (\<lparr>blk_header = (blk_header b)\<lparr>hash := uint256_null\<rparr>, transactions = map (\<lambda>t. t\<lparr>tx_hash := uint256_null\<rparr>) (transactions b)\<rparr>,
     of_bytes (dk_in dk) [])"
    using read_block_write [OF assms(2), of "[]"] by (simp add: assms(3))
  show ?thesis
    using c(1) size n
    by (simp add: doReadBlock_def setDiskPosition_def Let_def p seek_ok hd magic one data len rd hashes_again)
qed

end

section \<open>Properties\<close>

definition plain_disk :: "(int \<Rightarrow> bytes option, bytes \<times> bool) disk_context" where
  "plain_disk = \<lparr>dk_files = map_files, dk_bits = le_converter, protocolMagic = 0xD9B4BEF9, dk_in = le_istream, dk_out = le_ostream,
     dk_digests = \<lparr>sha256 = id, ripemd160 = id\<rparr>\<rparr>"

lemma disk_plain: "disk plain_disk"
  by (simp add: disk_def plain_disk_def mpf.sound_device_axioms les.streams_axioms lec.little_endian_axioms)

interpretation pld: disk plain_disk
  by (rule disk_plain)

text \<open>C21: whatever order the disk service performs its jobs in, and whatever the files held before, every block
  written can be read back through the position it was given, with the hashes of its header and its
  transactions computed; no job and no reservation fails.\<close>

theorem blocks_read_back:
  assumes "sound_device (dk_files dk)" "streams (dk_in dk) (dk_out dk)" "little_endian (dk_bits dk)" "storage_ok st"
    and "\<forall>(b, bi) \<in> set items. wf_block b \<and> length (write_block (dk_out dk) b) \<le> BLOCK_BUFFER"
  shows "\<exists>jobs st'. write_blocks (dk_out dk) items st = Some (jobs, st') \<and> length jobs = length items \<and>
    (\<forall>order. mset order = mset jobs \<longrightarrow> (\<exists>fs'. run_jobs dk order fs = Some fs' \<and>
      (\<forall>k < length items. doReadBlock dk (setDiskPosition (fst (jobs ! k)) (snd (items ! k))) fs' =
         Some (Some (block_hashes (dk_digests dk) (dk_out dk) (fst (items ! k)))))))"
proof -
  have dk: "disk dk" using assms(1-3) by (simp add: disk_def)
  have "\<forall>(b, bi) \<in> set items. length (write_block (dk_out dk) b) \<le> BLOCK_BUFFER" using assms(5) by auto
  from write_blocks_ok [OF assms(4) this] obtain jobs st'
    where w: "write_blocks (dk_out dk) items st = Some (jobs, st')" "storage_ok st'"
      "map snd jobs = map (write_block (dk_out dk) \<circ> fst) items"
      "\<And>j. j \<in> set jobs \<Longrightarrow> job_end j \<le> used st' (nat (pos_fileIndex (fst j)))"
      "distinct jobs" "\<forall>j \<in> set jobs. \<forall>k \<in> set jobs. j \<noteq> k \<longrightarrow> apart j k"
    by blast
  have len: "length jobs = length items" using arg_cong [OF w(3), of length] by simp
  have "\<exists>fs'. run_jobs dk order fs = Some fs' \<and>
      (\<forall>k < length items. doReadBlock dk (setDiskPosition (fst (jobs ! k)) (snd (items ! k))) fs' =
         Some (Some (block_hashes (dk_digests dk) (dk_out dk) (fst (items ! k)))))" if "mset order = mset jobs" for order
  proof -
    have "distinct order" "set order = set jobs" using \<open>mset order = mset jobs\<close> w(5)
      by (metis mset_eq_imp_distinct_iff, metis set_mset_mset)
    then obtain fs' where fs': "run_jobs dk order fs = Some fs'" "\<And>j. j \<in> set jobs \<Longrightarrow> stored dk fs' j"
      using disk.run_jobs_stored [OF dk, of order fs] w(6) by auto
    have "doReadBlock dk (setDiskPosition (fst (jobs ! k)) (snd (items ! k))) fs' =
         Some (Some (block_hashes (dk_digests dk) (dk_out dk) (fst (items ! k))))" if "k < length items" for k
    proof -
      have k: "jobs ! k \<in> set jobs" "items ! k \<in> set items" using \<open>k < length items\<close> len by simp_all
      have wf: "wf_block (fst (items ! k))" "length (write_block (dk_out dk) (fst (items ! k))) \<le> BLOCK_BUFFER"
        using bspec [OF assms(5) k(2)] by (simp_all add: case_prod_beta)
      have data: "snd (jobs ! k) = write_block (dk_out dk) (fst (items ! k))"
        using arg_cong [OF w(3), of "\<lambda>xs. xs ! k"] \<open>k < length items\<close> len by simp
      have "job_start (jobs ! k) < 0x8000000"
        using w(4) [OF k(1)] used_less [OF w(2), of "nat (pos_fileIndex (fst (jobs ! k)))"] by (simp add: job_end_def)
      then show ?thesis using wf(2) data by (intro disk.read_stored [OF dk fs'(2) [OF k(1)] wf(1) data]) simp_all
    qed
    then show ?thesis using fs'(1) by blast
  qed
  then show ?thesis using w(1) len by blast
qed

lemma plain_disk_simps [simp]: "dk_files plain_disk = map_files" "dk_bits plain_disk = le_converter"
  "dk_in plain_disk = le_istream" "dk_out plain_disk = le_ostream"
  by (simp_all add: plain_disk_def)

theorem blocks_read_back_witness:
  "\<exists>jobs st'. write_blocks le_ostream (replicate 2 (\<lparr>blk_header = BlockHeader_new, transactions = []\<rparr>, BlockIndex_new)) BlockStorage_new =
      Some (jobs, st') \<and> length jobs = 2"
proof -
  let ?b = "\<lparr>blk_header = BlockHeader_new, transactions = []\<rparr>"
  have "wf_block ?b" by (simp add: wf_block_def wf_header_def BlockHeader_new_def uint256_null_def)
  moreover have "length (write_block le_ostream ?b) \<le> BLOCK_BUFFER"
    by (simp add: write_block_def write_header_def le_ostream_def BlockHeader_new_def uint256_null_def writeVector_def writeCompactSize_def
        BLOCK_BUFFER_def le_bytes_def)
  ultimately have "\<forall>(b, bi) \<in> set (replicate 2 (?b, BlockIndex_new)). wf_block b \<and> length (write_block (dk_out plain_disk) b) \<le> BLOCK_BUFFER"
    by simp
  from blocks_read_back [OF _ _ _ storage_ok_new this] show ?thesis
    by (simp add: mpf.sound_device_axioms les.streams_axioms lec.little_endian_axioms) blast
qed

end
