(* ===== verification/BlockIndexDB.thy ===== *)
theory BlockIndexDB
  imports CoinView BlockFiles
begin

text \<open>
  \<open>storage/BlockIndexDB.cpp\<close>: the database of block index entries and of the records of the block
  files. What is written is found again by \<open>loadAll\<close>; the records of the files, however, all carry the
  number of file 0, so a restart loses them and the storage overwrites blocks.

  The entries an index refers to are values here: the pointers of the cache are followed when the disk
  service performs the write.
\<close>

section \<open>Data\<close>

record IndexesData =
  ix_blocks :: "(uint256 \<times> BlockIndex) list"
  ix_files :: "BlockFileInfo list"
  ix_lastBlockFile :: int

definition IndexesData_new :: IndexesData where
  "IndexesData_new = \<lparr>ix_blocks = [], ix_files = [], ix_lastBlockFile = 0\<rparr>"

definition DB_BLOCK_FILES :: byte where "DB_BLOCK_FILES = 0x66"
definition DB_BLOCK_INDEX :: byte where "DB_BLOCK_INDEX = 0x62"
definition DB_LAST_BLOCK :: bytes where "DB_LAST_BLOCK = [0x6C]"

definition block_key :: "ostream \<Rightarrow> uint256 \<Rightarrow> bytes" where
  "block_key os h = DB_BLOCK_INDEX # wr_bn os h"

definition file_key :: "ostream \<Rightarrow> int \<Rightarrow> bytes" where
  "file_key os i = DB_BLOCK_FILES # wr32 os (word_of_int i)"

section \<open>Writing\<close>

fun put_blocks :: "ostream \<Rightarrow> 'd ObjectDB \<Rightarrow> (uint256 \<times> BlockIndex) list \<Rightarrow> write_batch \<Rightarrow> write_batch option" where
  "put_blocks os odb [] b = Some b"
| "put_blocks os odb ((_, x) # items) b = do {
     h \<leftarrow> index_getHash x;
     val \<leftarrow> write_index os x;
     put_blocks os odb items (batch_writeString odb (block_key os h) val b)
   }"

fun put_files :: "ostream \<Rightarrow> 'd ObjectDB \<Rightarrow> BlockFileInfo list \<Rightarrow> write_batch \<Rightarrow> write_batch option" where
  "put_files os odb [] b = Some b"
| "put_files os odb (i # items) b = do {
     val \<leftarrow> write_file_info i;
     put_files os odb items (batch_writeString odb (file_key os (info_fileIndex i)) val b)
   }"

definition writeBlocks :: "('d, 's) db_context \<Rightarrow> IndexesData \<Rightarrow> 'd ObjectDB \<Rightarrow> (bool \<times> 'd ObjectDB) option" where
  "writeBlocks cx data odb = do {
     let b = (if ix_lastBlockFile data > 0
              then batch_writeString odb DB_LAST_BLOCK (wr32 (db_out cx) (word_of_int (ix_lastBlockFile data))) [] else []);
     b \<leftarrow> put_blocks (db_out cx) odb (ix_blocks data) b;
     b \<leftarrow> put_files (db_out cx) odb (ix_files data) b;
     Some (batch_execute (store cx) b odb)
   }"

section \<open>Reading\<close>

definition readLastBlockFile :: "('d, 's) db_context \<Rightarrow> 'd ObjectDB \<Rightarrow> int \<Rightarrow> bool \<times> int" where
  "readLastBlockFile cx odb old =
     map_prod id sint (odb_read (store cx) (db_in cx) (into (rd32 (db_in cx))) odb DB_LAST_BLOCK (word_of_int old))"

definition readBlockFileInfo :: "('d, 's) db_context \<Rightarrow> 'd ObjectDB \<Rightarrow> int \<Rightarrow> BlockFileInfo \<Rightarrow> bool \<times> BlockFileInfo" where
  "readBlockFileInfo cx odb i info =
     odb_read (store cx) (db_in cx) (read_file_info (db_in cx)) odb (file_key (db_out cx) i) info"

definition loadBlockFileInfo :: "'s istream \<Rightarrow> bytes \<Rightarrow> bytes \<Rightarrow> BlockFileInfo option" where
  "loadBlockFileInfo ist key val =
     (let (tag, s) = into (rd8 ist) 0 (of_bytes ist key);
          (i, s) = into (rd32 ist) 0 s
      in if \<not> good ist s then None
      else let (fileinfo, s) = read_file_info ist BlockFileInfo_new (of_bytes ist val)
      in if \<not> good ist s then None
      else Some (fileinfo\<lparr>info_fileIndex := sint i\<rparr>))"

text \<open>The outer \<open>None\<close> is a failed assertion, the inner one the null pointer.\<close>

definition loadBlockIndex :: "'s istream \<Rightarrow> ostream \<Rightarrow> digests \<Rightarrow> bytes \<Rightarrow> bytes \<Rightarrow> BlockIndex option option" where
  "loadBlockIndex ist os dg key val =
     (let (tag, s) = into (rd8 ist) 0 (of_bytes ist key);
          (h, s) = into (rd_bn ist) uint256_null s
      in if \<not> good ist s then Some None
      else do {
        assert_that (tag = DB_BLOCK_INDEX);
        let (block, s) = read_index ist BlockIndex_new (of_bytes ist val);
        if \<not> good ist s then Some None
        else do {
          assert_that (fileIndex block \<le> 10000);
          let block = block\<lparr>header := computeHash dg os (header block)\<rparr>;
          h' \<leftarrow> index_getHash block;
          assert_that (h' = h);
          Some (Some block)
        }
      })"

function load_entries :: "('d, 's) db_context \<Rightarrow> digests \<Rightarrow> cursor \<Rightarrow> IndexesData \<Rightarrow> IndexesData option" where
  "load_entries cx dg cursor data =
     (if \<not> cursor_valid cursor then Some data
      else do {
        let key = cursor_getKey cursor;
        assert_that (key \<noteq> []);
        let val = cursor_getValue cursor;
        if key ! 0 = DB_BLOCK_INDEX
        then do {
          block \<leftarrow> loadBlockIndex (db_in cx) (db_out cx) dg key val;
          data \<leftarrow> (case block of
              None \<Rightarrow> Some data
            | Some b \<Rightarrow> do { h \<leftarrow> index_getHash b; Some (data\<lparr>ix_blocks := AList.update h b (ix_blocks data)\<rparr>) });
          load_entries cx dg (cursor_next cursor) data
        }
        else if key ! 0 = DB_BLOCK_FILES
        then load_entries cx dg (cursor_next cursor)
               (case loadBlockFileInfo (db_in cx) key val of
                  None \<Rightarrow> data | Some i \<Rightarrow> data\<lparr>ix_files := ix_files data @ [i]\<rparr>)
        else load_entries cx dg (cursor_next cursor) data
      })"
  by pat_completeness auto
termination
  by (relation "measure (\<lambda>(cx, dg, c, d). length c)") (auto simp: cursor_valid_def cursor_next_def)

definition loadAll :: "('d, 's) db_context \<Rightarrow> digests \<Rightarrow> 'd ObjectDB \<Rightarrow> IndexesData \<Rightarrow> IndexesData option" where
  "loadAll cx dg odb data =
     (let (ok, lastFile) = odb_read (store cx) (db_in cx) (into (rd32 (db_in cx))) odb DB_LAST_BLOCK 0;
          data = (if ok then data\<lparr>ix_lastBlockFile := sint lastFile\<rparr> else data)
      in load_entries cx dg (seekToFirst (store cx) (m_db odb)) data)"

section \<open>What the database holds\<close>

text \<open>An entry that can be stored: its header has its hash, and its file number is one the loader takes.\<close>

definition storable :: "ostream \<Rightarrow> digests \<Rightarrow> BlockIndex \<Rightarrow> bool" where
  "storable os dg b \<longleftrightarrow> wf_index b \<and> header b = computeHash dg os (header b) \<and> length (hash (header b)) = 32 \<and>
     hash (header b) \<noteq> uint256_null \<and> fileIndex (disk_index b) \<le> 10000"

text \<open>The entry as it comes back.\<close>

definition restored :: "BlockIndex \<Rightarrow> BlockIndex" where
  "restored b = (disk_index b)\<lparr>header := header b\<rparr>"

definition entry_wf :: "ostream \<Rightarrow> digests \<Rightarrow> bytes \<times> bytes \<Rightarrow> bool" where
  "entry_wf os dg e \<longleftrightarrow> fst e \<noteq> [] \<and>
     (fst e ! 0 = DB_BLOCK_INDEX \<longrightarrow> (\<exists>b. storable os dg b \<and> fst e = block_key os (hash (header b)) \<and> write_index os b = Some (snd e))) \<and>
     (fst e ! 0 = DB_BLOCK_FILES \<longrightarrow> (\<exists>i. - (2 ^ 31) \<le> info_fileIndex i \<and> info_fileIndex i < 2 ^ 31 \<and>
        fst e = file_key os (info_fileIndex i) \<and> write_file_info i = Some (snd e)))"

definition index_db_ok :: "('d, 's) db_context \<Rightarrow> digests \<Rightarrow> 'd ObjectDB \<Rightarrow> bool" where
  "index_db_ok cx dg odb \<longleftrightarrow> \<not> needObfuscation odb \<and> obfuscator odb = [] \<and>
     (\<forall>k v. odb_map (store cx) odb k = Some v \<longrightarrow> entry_wf (db_out cx) dg (k, v))"

context streams
begin

lemma loadBlockIndex_ok:
  assumes b: "storable os dg b" and e: "write_index os b = Some val"
  shows "loadBlockIndex ist os dg (block_key os (hash (header b))) val = Some (Some (restored b))"
proof -
  have wf: "wf_index b" and h: "length (hash (header b)) = 32" using b by (simp_all add: storable_def)
  obtain val' where "write_index os b = Some val'" "read_index ist BlockIndex_new (of_bytes ist val') = (disk_index b, of_bytes ist [])"
    using read_index_write [OF wf, of "[]"] by auto
  then have r: "read_index ist BlockIndex_new (of_bytes ist val) = (disk_index b, of_bytes ist [])" using e by simp
  have k: "rd_bn ist (of_bytes ist (wr_bn os (hash (header b)))) = (Some (hash (header b)), of_bytes ist [])"
    using rd_bn [OF h, of "[]"] by simp
  have hd: "computeHash dg os (header (disk_index b)) = header b"
    using b by (simp add: storable_def disk_index_def computeHash_def write_header_def)
  show ?thesis
    using b by (simp add: loadBlockIndex_def block_key_def into_def k r hd index_getHash_def restored_def storable_def)
qed

lemma loadBlockFileInfo_ok:
  assumes "- (2 ^ 31) \<le> info_fileIndex i" "info_fileIndex i < 2 ^ 31" "write_file_info i = Some val"
  shows "loadBlockFileInfo ist (file_key os (info_fileIndex i)) val = Some i"
proof -
  obtain val' where "write_file_info i = Some val'"
    "read_file_info ist BlockFileInfo_new (of_bytes ist val') = (i\<lparr>info_fileIndex := 0\<rparr>, of_bytes ist [])"
    using read_file_info_write [of i BlockFileInfo_new "[]"] by (auto simp: BlockFileInfo_new_def)
  then have r: "read_file_info ist BlockFileInfo_new (of_bytes ist val) = (i\<lparr>info_fileIndex := 0\<rparr>, of_bytes ist [])"
    using assms(3) by simp
  have k: "rd32 ist (of_bytes ist (wr32 os w)) = (Some w, of_bytes ist [])" for w using rd32 [of w "[]"] by simp
  have "sint (word_of_int (info_fileIndex i) :: u32) = info_fileIndex i"
    using assms(1,2) by (simp add: signed_of_int signed_take_bit_int_eq_self)
  then show ?thesis by (simp add: loadBlockFileInfo_def file_key_def into_def k r)
qed

end

declare load_entries.simps [simp del]

lemma load_entries_Nil [simp]: "load_entries cx dg [] d = Some d"
  by (simp add: load_entries.simps cursor_valid_def)

lemma load_entries_Cons:
  "load_entries cx dg ((k, v) # es) d =
     (if k = [] then None
      else if k ! 0 = DB_BLOCK_INDEX
      then Option.bind (loadBlockIndex (db_in cx) (db_out cx) dg k v) (\<lambda>block.
             case block of None \<Rightarrow> load_entries cx dg es d
             | Some b \<Rightarrow> Option.bind (index_getHash b) (\<lambda>h. load_entries cx dg es (d\<lparr>ix_blocks := AList.update h b (ix_blocks d)\<rparr>)))
      else if k ! 0 = DB_BLOCK_FILES
      then load_entries cx dg es (case loadBlockFileInfo (db_in cx) k v of None \<Rightarrow> d | Some i \<Rightarrow> d\<lparr>ix_files := ix_files d @ [i]\<rparr>)
      else load_entries cx dg es d)"
  by (subst load_entries.simps, cases "loadBlockIndex (db_in cx) (db_out cx) dg k v")
    (simp_all add: cursor_valid_def cursor_getKey_def cursor_getValue_def cursor_next_def split: option.split)

definition is_file :: "bytes \<times> bytes \<Rightarrow> bool" where
  "is_file e \<longleftrightarrow> fst e ! 0 = DB_BLOCK_FILES"

lemma block_key_nth [simp]: "block_key os h ! 0 = DB_BLOCK_INDEX" "block_key os h \<noteq> []" "file_key os i ! 0 = DB_BLOCK_FILES" "file_key os i \<noteq> []"
  by (simp_all add: block_key_def file_key_def)

lemma key_tags [simp]: "DB_BLOCK_INDEX \<noteq> DB_BLOCK_FILES" "DB_BLOCK_FILES \<noteq> DB_BLOCK_INDEX"
  by (simp_all add: DB_BLOCK_INDEX_def DB_BLOCK_FILES_def)

text \<open>What \<open>loadAll\<close> makes of the entries.\<close>

definition loads :: "ostream \<Rightarrow> digests \<Rightarrow> (bytes \<times> bytes) list \<Rightarrow> IndexesData \<Rightarrow> IndexesData \<Rightarrow> bool" where
  "loads os dg es d d' \<longleftrightarrow> ix_lastBlockFile d' = ix_lastBlockFile d \<and>
     (\<forall>b v. (block_key os (hash (header b)), v) \<in> set es \<longrightarrow> storable os dg b \<longrightarrow> write_index os b = Some v \<longrightarrow>
        map_of (ix_blocks d') (hash (header b)) = Some (restored b)) \<and>
     (\<forall>h. length h = 32 \<longrightarrow> block_key os h \<notin> fst ` set es \<longrightarrow> map_of (ix_blocks d') h = map_of (ix_blocks d) h) \<and>
     (\<exists>fs. ix_files d' = ix_files d @ fs \<and> length fs = length (filter is_file es))"

context streams
begin

lemma block_key_inj:
  "length h = 32 \<Longrightarrow> length h' = 32 \<Longrightarrow> block_key os h = block_key os h' \<longleftrightarrow> h = h'"
  unfolding block_key_def by (metis list.inject option.inject prod.inject rd_bn)

lemma load_entries_ok:
  assumes "list_all (entry_wf os dg) es" "distinct (map fst es)" "db_in cx = ist" "db_out cx = os"
  shows "\<exists>d'. load_entries cx dg es d = Some d' \<and> loads os dg es d d'"
  using assms(1,2)
proof (induction es arbitrary: d)
  case Nil
  then show ?case by (simp add: loads_def)
next
  case (Cons e es)
  obtain k v where e: "e = (k, v)" by fastforce
  have wf: "entry_wf os dg (k, v)" and rest: "list_all (entry_wf os dg) es" "distinct (map fst es)" "k \<notin> fst ` set es"
    using Cons.prems e by simp_all
  consider b where "storable os dg b" "k = block_key os (hash (header b))" "write_index os b = Some v"
    | i where "loadBlockFileInfo ist k v = Some i" "k \<noteq> []" "k ! 0 = DB_BLOCK_FILES"
    | "k \<noteq> []" "k ! 0 \<noteq> DB_BLOCK_INDEX" "k ! 0 \<noteq> DB_BLOCK_FILES"
    using wf loadBlockFileInfo_ok by (fastforce simp: entry_wf_def)
  then show ?case
  proof cases
    case 1
    let ?h = "hash (header b)"
    let ?d = "d\<lparr>ix_blocks := AList.update ?h (restored b) (ix_blocks d)\<rparr>"
    have h: "length ?h = 32" "?h \<noteq> uint256_null" using 1(1) by (simp_all add: storable_def)
    obtain d' where d': "load_entries cx dg es ?d = Some d'" "loads os dg es ?d d'" using Cons.IH [OF rest(1,2)] by blast
    have "load_entries cx dg (e # es) d = Some d'"
      using d'(1) loadBlockIndex_ok [OF 1(1,3)] h(2) by (simp add: e 1(2) load_entries_Cons assms(3,4) index_getHash_def restored_def)
    moreover have same: "restored b' = restored b"
      if "storable os dg b'" "write_index os b' = Some v" "hash (header b') = ?h" for b'
      using loadBlockIndex_ok [OF that(1,2)] loadBlockIndex_ok [OF 1(1,3)] that(3) by simp
    have "loads os dg (e # es) d d'"
    proof -
      have "map_of (ix_blocks d') (hash (header b')) = Some (restored b')"
        if "(block_key os (hash (header b')), v') \<in> set (e # es)" "storable os dg b'" "write_index os b' = Some v'" for b' v'
      proof (cases "hash (header b') = ?h")
        case True
        have "block_key os ?h \<notin> fst ` set es" using rest(3) 1(2) by simp
        then have "map_of (ix_blocks d') ?h = Some (restored b)" using d'(2) h(1) by (simp add: loads_def update_conv')
        moreover have "v' = v" using that(1) rest(3) True by (auto simp: e 1(2) image_iff)
        ultimately show ?thesis using same that(2,3) True by simp
      next
        case False
        then have "block_key os (hash (header b')) \<noteq> k"
          using block_key_inj [OF _ h(1)] that(2) by (simp add: 1(2) storable_def)
        then show ?thesis using that d'(2) by (auto simp: e loads_def)
      qed
      then show ?thesis using d'(2) h(1) block_key_inj by (auto simp: loads_def e 1(2) update_conv' is_file_def)
    qed
    ultimately show ?thesis by blast
  next
    case 2
    let ?d = "d\<lparr>ix_files := ix_files d @ [i]\<rparr>"
    obtain d' where d': "load_entries cx dg es ?d = Some d'" "loads os dg es ?d d'" using Cons.IH [OF rest(1,2)] by blast
    have "load_entries cx dg (e # es) d = Some d'" using d'(1) 2 by (simp add: e load_entries_Cons assms(3,4))
    moreover have "block_key os h \<noteq> k" for h using 2(3) key_tags by (metis block_key_nth(1))
    then have "loads os dg (e # es) d d'" using d'(2) 2(3) by (auto simp: loads_def e is_file_def)
    ultimately show ?thesis by blast
  next
    case 3
    obtain d' where d': "load_entries cx dg es d = Some d'" "loads os dg es d d'" using Cons.IH [OF rest(1,2)] by blast
    have "load_entries cx dg (e # es) d = Some d'" using d'(1) 3 by (simp add: e load_entries_Cons)
    moreover have "block_key os h \<noteq> k" for h using 3(2) by (metis block_key_nth(1))
    then have "loads os dg (e # es) d d'" using d'(2) 3 by (auto simp: loads_def e is_file_def)
    ultimately show ?thesis by blast
  qed
qed

end

section \<open>What is written\<close>

definition last_puts :: "ostream \<Rightarrow> int \<Rightarrow> (bytes \<times> bytes) list" where
  "last_puts os l = (if l > 0 then [(DB_LAST_BLOCK, wr32 os (word_of_int l))] else [])"

definition block_puts :: "ostream \<Rightarrow> (uint256 \<times> BlockIndex) list \<Rightarrow> (bytes \<times> bytes) list" where
  "block_puts os items = map (\<lambda>(_, x). (block_key os (hash (header x)), the (write_index os x))) items"

definition file_puts :: "ostream \<Rightarrow> BlockFileInfo list \<Rightarrow> (bytes \<times> bytes) list" where
  "file_puts os items = map (\<lambda>i. (file_key os (info_fileIndex i), the (write_file_info i))) items"

definition put_op :: "bytes \<times> bytes \<Rightarrow> batch_op" where
  "put_op e = Put (fst e) (snd e)"

lemma write_file_info_some: "\<exists>e. write_file_info i = Some e"
  using les.read_file_info_write [of i BlockFileInfo_new "[]"] by blast

lemma write_index_some: "storable os dg x \<Longrightarrow> \<exists>e. write_index os x = Some e"
proof -
  have "wf_index x \<Longrightarrow> \<exists>e. write_index le_ostream x = Some e" using les.read_index_write [of x "[]"] by blast
  then show "storable os dg x \<Longrightarrow> ?thesis"
    by (auto simp: storable_def write_index_def split: bind_splits if_splits)
qed

lemma put_blocks_ok:
  "\<not> needObfuscation odb \<Longrightarrow> list_all (storable os dg \<circ> snd) items \<Longrightarrow>
    put_blocks os odb items b = Some (b @ map put_op (block_puts os items))"
proof (induction items arbitrary: b)
  case (Cons item items)
  obtain h x where item: "item = (h, x)" by fastforce
  then have x: "storable os dg x" using Cons.prems(2) by simp
  from write_index_some [OF x] obtain e where "write_index os x = Some e" by blast
  then show ?case using Cons x
    by (simp add: item block_puts_def put_op_def index_getHash_def storable_def batch_writeString_def batch_write_def)
qed (simp add: block_puts_def)

lemma put_files_ok:
  "\<not> needObfuscation odb \<Longrightarrow> put_files os odb items b = Some (b @ map put_op (file_puts os items))"
proof (induction items arbitrary: b)
  case (Cons i items)
  from write_file_info_some [of i] obtain e where "write_file_info i = Some e" by blast
  then show ?case using Cons by (simp add: file_puts_def put_op_def batch_writeString_def batch_write_def)
qed (simp add: file_puts_def)

definition index_puts :: "ostream \<Rightarrow> IndexesData \<Rightarrow> (bytes \<times> bytes) list" where
  "index_puts os data = last_puts os (ix_lastBlockFile data) @ block_puts os (ix_blocks data) @ file_puts os (ix_files data)"

lemma writeBlocks_puts:
  assumes "\<not> needObfuscation odb" "list_all (storable (db_out cx) dg \<circ> snd) (ix_blocks data)"
  shows "writeBlocks cx data odb = Some (batch_execute (store cx) (map put_op (index_puts (db_out cx) data)) odb)"
  using assms
  by (simp add: writeBlocks_def put_blocks_ok put_files_ok index_puts_def last_puts_def put_op_def batch_writeString_def batch_write_def)

lemma apply_puts_map: "apply_batch m (map put_op kvs) = m ++ map_of (rev kvs)"
proof (induction kvs arbitrary: m)
  case (Cons e kvs)
  then show ?case by (cases e) (simp add: apply_batch_def put_op_def map_add_def fun_eq_iff split: option.split)
qed (simp add: apply_batch_def)

context key_value_store
begin

lemma odb_map_puts:
  assumes "\<not> needObfuscation odb" "obfuscator odb = []" "batch_execute ldb (map put_op kvs) odb = (True, odb')"
  shows "odb_map ldb odb' = odb_map ldb odb ++ map_of (rev kvs) \<and> \<not> needObfuscation odb' \<and> obfuscator odb' = []"
proof -
  have "map (hide_op odb) (map put_op kvs) = map put_op kvs" using assms(1) by (simp add: put_op_def hide_def)
  from odb_map_batch [of odb "map put_op kvs" odb', unfolded this] assms
  show ?thesis by (simp add: wf_odb_def apply_puts_map)
qed

lemma entries_map:
  assumes "obfuscator odb = []"
  shows "(k, v) \<in> set (ldb_entries ldb (m_db odb)) \<longleftrightarrow> odb_map ldb odb k = Some v"
  using entries [of "m_db odb"] assms
  by (auto simp: odb_map_def odb_readString_def LevelDB_read_def obfuscate_def map_of_eq_Some_iff simp flip: entries(1))

end

lemma entry_wf_puts:
  assumes "list_all (storable os dg \<circ> snd) (ix_blocks data)"
    and "list_all (\<lambda>i. - (2 ^ 31) \<le> info_fileIndex i \<and> info_fileIndex i < 2 ^ 31) (ix_files data)"
    and "e \<in> set (index_puts os data)"
  shows "entry_wf os dg e"
proof -
  consider "e \<in> set (last_puts os (ix_lastBlockFile data))" | "e \<in> set (block_puts os (ix_blocks data))"
    | "e \<in> set (file_puts os (ix_files data))"
    using assms(3) by (auto simp: index_puts_def)
  then show ?thesis
  proof cases
    case 1
    then show ?thesis
      by (auto simp: last_puts_def entry_wf_def DB_LAST_BLOCK_def DB_BLOCK_INDEX_def DB_BLOCK_FILES_def split: if_splits)
  next
    case 2
    then obtain h x where x: "(h, x) \<in> set (ix_blocks data)" "e = (block_key os (hash (header x)), the (write_index os x))"
      by (auto simp: block_puts_def)
    then have "storable os dg x" using assms(1) by (auto simp: list_all_iff)
    then show ?thesis using write_index_some [of os dg x] x(2) by (auto simp: entry_wf_def)
  next
    case 3
    then obtain i where i: "i \<in> set (ix_files data)" "e = (file_key os (info_fileIndex i), the (write_file_info i))"
      by (auto simp: file_puts_def)
    then show ?thesis using write_file_info_some [of i] assms(2) by (auto simp: entry_wf_def list_all_iff)
  qed
qed

text \<open>The number of the last file, as \<open>loadAll\<close> reads it.\<close>

definition stored_last :: "('d, 's) db_context \<Rightarrow> 'd ObjectDB \<Rightarrow> int" where
  "stored_last cx odb = (case odb_read (store cx) (db_in cx) (into (rd32 (db_in cx))) odb DB_LAST_BLOCK 0 of (ok, l) \<Rightarrow> if ok then sint l else 0)"

lemma loadAll_loads:
  assumes "key_value_store (store cx)" "streams (db_in cx) (db_out cx)" "index_db_ok cx dg odb"
  shows "\<exists>d. loadAll cx dg odb IndexesData_new = Some d \<and>
    loads (db_out cx) dg (ldb_entries (store cx) (m_db odb)) (IndexesData_new\<lparr>ix_lastBlockFile := stored_last cx odb\<rparr>) d"
proof -
  have "list_all (entry_wf (db_out cx) dg) (ldb_entries (store cx) (m_db odb))"
    using assms(3) key_value_store.entries_map [OF assms(1), of odb] by (auto simp: list_all_iff index_db_ok_def)
  from streams.load_entries_ok [OF assms(2) this key_value_store.entries(2) [OF assms(1)] refl refl]
  have "\<exists>d. load_entries cx dg (ldb_entries (store cx) (m_db odb)) (IndexesData_new\<lparr>ix_lastBlockFile := stored_last cx odb\<rparr>) = Some d \<and>
    loads (db_out cx) dg (ldb_entries (store cx) (m_db odb)) (IndexesData_new\<lparr>ix_lastBlockFile := stored_last cx odb\<rparr>) d" .
  moreover have "loadAll cx dg odb IndexesData_new =
      load_entries cx dg (ldb_entries (store cx) (m_db odb)) (IndexesData_new\<lparr>ix_lastBlockFile := stored_last cx odb\<rparr>)"
    by (auto simp: loadAll_def seekToFirst_def IndexesData_new_def stored_last_def split: prod.splits)
  ultimately show ?thesis by simp
qed

text \<open>A write: what the map of the store is after it.\<close>

lemma writeBlocks_map:
  assumes "key_value_store (store cx)" "index_db_ok cx dg odb" "list_all (storable (db_out cx) dg \<circ> snd) (ix_blocks data)"
    and "list_all (\<lambda>i. - (2 ^ 31) \<le> info_fileIndex i \<and> info_fileIndex i < 2 ^ 31) (ix_files data)"
    and "writeBlocks cx data odb = Some (True, odb')"
  shows "odb_map (store cx) odb' = odb_map (store cx) odb ++ map_of (rev (index_puts (db_out cx) data))" "index_db_ok cx dg odb'"
proof -
  have plain: "\<not> needObfuscation odb" "obfuscator odb = []" using assms(2) by (simp_all add: index_db_ok_def)
  have "batch_execute (store cx) (map put_op (index_puts (db_out cx) data)) odb = (True, odb')"
    using writeBlocks_puts [OF plain(1) assms(3)] assms(5) by simp
  note m = key_value_store.odb_map_puts [OF assms(1) plain this]
  then show "odb_map (store cx) odb' = odb_map (store cx) odb ++ map_of (rev (index_puts (db_out cx) data))" by simp
  have "entry_wf (db_out cx) dg (k, v)" if "odb_map (store cx) odb' k = Some v" for k v
    using that m assms(2) entry_wf_puts [OF assms(3,4), of "(k, v)"]
    by (auto simp: index_db_ok_def map_add_Some_iff dest!: map_of_SomeD)
  then show "index_db_ok cx dg odb'" using m by (simp add: index_db_ok_def)
qed

lemma map_of_rev: "distinct (map fst xs) \<Longrightarrow> map_of (rev xs) = map_of xs"
proof (induction xs)
  case (Cons x xs)
  then have "map_of xs (fst x) = None" by (simp add: map_of_eq_None_iff)
  then show ?case using Cons by (auto simp: map_add_def fun_eq_iff split: option.split)
qed simp

lemma index_puts_block:
  assumes "streams ist os" "list_all (storable os dg \<circ> snd) (ix_blocks data)" "length h = 32"
    and "distinct (map (\<lambda>(_, x). hash (header x)) (ix_blocks data))"
  shows "map_of (rev (index_puts os data)) (block_key os h) =
    map_option (\<lambda>x. the (write_index os x)) (map_of (map (\<lambda>(_, x). (hash (header x), x)) (ix_blocks data)) h)"
proof -
  have other: "block_key os h \<notin> fst ` set (last_puts os l)" "block_key os h \<notin> fst ` set (file_puts os fs)" for l fs
    using key_tags by (auto simp: last_puts_def file_puts_def block_key_def file_key_def DB_LAST_BLOCK_def DB_BLOCK_INDEX_def)
  let ?bs = "block_puts os (ix_blocks data)"
  have len: "length (hash (header x)) = 32" if "(h', x) \<in> set (ix_blocks data)" for h' x
    using assms(2) that by (auto simp: list_all_iff storable_def)
  have "inj_on (block_key os) {h. length h = 32}" using streams.block_key_inj [OF assms(1)] by (auto simp: inj_on_def)
  moreover have "set (map (\<lambda>(_, x). hash (header x)) (ix_blocks data)) \<subseteq> {h. length h = 32}" using len by auto
  ultimately have "distinct (map (block_key os) (map (\<lambda>(_, x). hash (header x)) (ix_blocks data)))"
    using assms(4) by (subst distinct_map) (blast intro: inj_on_subset)
  moreover have "map fst ?bs = map (block_key os) (map (\<lambda>(_, x). hash (header x)) (ix_blocks data))"
    by (simp add: block_puts_def case_prod_beta comp_def)
  ultimately have "distinct (map fst ?bs)" by simp
  then have rev: "map_of (rev ?bs) = map_of ?bs" by (simp add: map_of_rev)
  have "map_of (rev (index_puts os data)) (block_key os h) = map_of ?bs (block_key os h)"
    using other by (simp add: index_puts_def map_add_def rev map_of_eq_None_iff [THEN iffD2] split: option.split)
  also have "\<dots> = map_option (\<lambda>x. the (write_index os x)) (map_of (map (\<lambda>(_, x). (hash (header x), x)) (ix_blocks data)) h)"
  proof -
    have "\<forall>(h', x) \<in> set items. length (hash (header x)) = 32 \<Longrightarrow> map_of (block_puts os items) (block_key os h) =
        map_option (\<lambda>x. the (write_index os x)) (map_of (map (\<lambda>(_, x). (hash (header x), x)) items) h)" for items
      by (induction items) (auto simp: block_puts_def streams.block_key_inj [OF assms(1) assms(3)])
    then show ?thesis using len by blast
  qed
  finally show ?thesis .
qed

section \<open>The numbers of the files\<close>

text \<open>A record made by the storage has the number 0, whatever its file.\<close>

definition unnumbered :: "BlockStorage \<Rightarrow> bool" where
  "unnumbered st \<longleftrightarrow> list_all (\<lambda>i. info_fileIndex i = 0) (blockFiles st)"

lemma grow_unnumbered:
  "list_all (\<lambda>i. info_fileIndex i = 0) files \<Longrightarrow> list_all (\<lambda>i. info_fileIndex i = 0) (grow n files)"
  by (simp add: grow_def list_all_iff set_replicate_conv_if BlockFileInfo_new_def)

lemma find_file_unnumbered:
  assumes "find_file n b files = Some (b', files')" "list_all (\<lambda>i. info_fileIndex i = 0) files"
  shows "list_all (\<lambda>i. info_fileIndex i = 0) files'"
proof -
  let ?P = "list_all (\<lambda>i. info_fileIndex i = 0)"
  have "find_file n b files = Some r \<Longrightarrow> ?P files \<longrightarrow> ?P (snd r)" for r
    by (rule find_file.raw_induct [where P = "\<lambda>n b files r. ?P files \<longrightarrow> ?P (snd r)"])
      (auto simp: grow_unnumbered split: if_splits)
  then show ?thesis using assms by simp
qed

lemma findBlockPos_unnumbered:
  assumes "findBlockPos p n st = Some (pos, st')" "unnumbered st"
  shows "unnumbered st'"
proof -
  obtain b files where f: "find_file n (nat (if p > 0 then p else lastBlockFile st)) (grow (nat (if p > 0 then p else lastBlockFile st)) (blockFiles st)) = Some (b, files)"
    "blockFiles st' = files[b := (files ! b)\<lparr>info_size := info_size (files ! b) + n\<rparr>]"
    using assms(1) by (auto simp: findBlockPos_def Let_def split: bind_splits if_splits)
  have "list_all (\<lambda>i. info_fileIndex i = 0) files"
    using find_file_unnumbered [OF f(1)] grow_unnumbered assms(2) by (simp add: unnumbered_def)
  then show ?thesis by (cases "b < length files") (simp_all add: unnumbered_def f(2) list_all_length nth_list_update)
qed

lemma writeBlock_unnumbered:
  assumes "writeBlock os b bi st = Some (pos, data, st')" "unnumbered st"
  shows "unnumbered st'"
proof -
  obtain st1 i where st1: "findBlockPos 0 (of_nat (length (write_block os b) + 8)) st = Some (pos, st1)"
    "info_addBlock (word_of_int (height bi)) (ucast (timestamp (header bi))) (blockFiles st1 ! nat (pos_fileIndex pos)) = Some i"
    "st' = st1\<lparr>blockFiles := (blockFiles st1)[nat (pos_fileIndex pos) := i]\<rparr>"
    using assms(1) by (auto simp: writeBlock_def Let_def split: bind_splits if_splits)
  have "info_fileIndex i = info_fileIndex (blockFiles st1 ! nat (pos_fileIndex pos))"
    using st1(2) by (auto simp: info_addBlock_def split: if_splits)
  then show ?thesis
    using findBlockPos_unnumbered [OF st1(1) assms(2)] st1(3)
    by (cases "nat (pos_fileIndex pos) < length (blockFiles st1)") (simp_all add: unnumbered_def list_all_length nth_list_update)
qed

lemma write_blocks_unnumbered:
  "write_blocks os items st = Some (jobs, st') \<Longrightarrow> unnumbered st \<Longrightarrow> unnumbered st'"
proof (induction items arbitrary: st jobs)
  case (Cons item items)
  then show ?case using writeBlock_unnumbered by (cases item) (fastforce split: bind_splits prod.splits)
qed simp

lemma writeBlocks_loadAll:
  assumes "key_value_store (store cx)" "streams (db_in cx) (db_out cx)" "index_db_ok cx dg odb"
    and "list_all (storable (db_out cx) dg \<circ> snd) (ix_blocks data)"
    and "list_all (\<lambda>i. - (2 ^ 31) \<le> info_fileIndex i \<and> info_fileIndex i < 2 ^ 31) (ix_files data)"
    and "distinct (map (\<lambda>(_, x). hash (header x)) (ix_blocks data))"
    and "writeBlocks cx data odb = Some (True, odb')"
  shows "index_db_ok cx dg odb' \<and> (\<exists>d d'. loadAll cx dg odb IndexesData_new = Some d \<and> loadAll cx dg odb' IndexesData_new = Some d' \<and>
    (\<forall>h. length h = 32 \<longrightarrow> map_of (ix_blocks d') h =
       (case map_of (map (\<lambda>(_, x). (hash (header x), x)) (ix_blocks data)) h of
          Some x \<Rightarrow> Some (restored x) | None \<Rightarrow> map_of (ix_blocks d) h)))"
proof -
  let ?os = "db_out cx" and ?es = "\<lambda>odb. ldb_entries (store cx) (m_db odb)"
  note w = writeBlocks_map [OF assms(1,3,4,5,7)]
  obtain d where d: "loadAll cx dg odb IndexesData_new = Some d"
    "loads ?os dg (?es odb) (IndexesData_new\<lparr>ix_lastBlockFile := stored_last cx odb\<rparr>) d"
    using loadAll_loads [OF assms(1,2,3)] by blast
  obtain d' where d': "loadAll cx dg odb' IndexesData_new = Some d'"
    "loads ?os dg (?es odb') (IndexesData_new\<lparr>ix_lastBlockFile := stored_last cx odb'\<rparr>) d'"
    using loadAll_loads [OF assms(1,2) w(2)] by blast
  have ent: "obfuscator odb = []" "obfuscator odb' = []" using assms(3) w(2) by (simp_all add: index_db_ok_def)
  note e = key_value_store.entries_map [OF assms(1) ent(1)] key_value_store.entries_map [OF assms(1) ent(2)]
  have in_dom: "k \<in> fst ` set (?es odb) \<longleftrightarrow> odb_map (store cx) odb k \<noteq> None" "k \<in> fst ` set (?es odb') \<longleftrightarrow> odb_map (store cx) odb' k \<noteq> None" for k
  proof -
    have im: "k \<in> fst ` set es \<longleftrightarrow> (\<exists>v. (k, v) \<in> set es)" for es :: "(bytes \<times> bytes) list" by force
    show "k \<in> fst ` set (?es odb) \<longleftrightarrow> odb_map (store cx) odb k \<noteq> None" "k \<in> fst ` set (?es odb') \<longleftrightarrow> odb_map (store cx) odb' k \<noteq> None"
      by (simp_all add: im e)
  qed
  have "map_of (ix_blocks d') h = (case map_of (map (\<lambda>(_, x). (hash (header x), x)) (ix_blocks data)) h of
      Some x \<Rightarrow> Some (restored x) | None \<Rightarrow> map_of (ix_blocks d) h)" if h: "length h = 32" for h
  proof (cases "map_of (map (\<lambda>(_, x). (hash (header x), x)) (ix_blocks data)) h")
    case (Some x)
    then obtain h' where x: "(h', x) \<in> set (ix_blocks data)" "hash (header x) = h" by (auto dest!: map_of_SomeD)
    have st: "storable ?os dg x" using assms(4) x(1) by (auto simp: list_all_iff)
    obtain v where v: "write_index ?os x = Some v" using write_index_some [OF st] by blast
    have "odb_map (store cx) odb' (block_key ?os h) = Some v"
      using index_puts_block [OF assms(2,4) h assms(6)] Some v by (simp add: w(1) map_add_def)
    then show ?thesis using d'(2) st v x(2) Some e(2) by (auto simp: loads_def)
  next
    case None
    have same: "odb_map (store cx) odb' (block_key ?os h) = odb_map (store cx) odb (block_key ?os h)"
      using index_puts_block [OF assms(2,4) h assms(6)] None by (simp add: w(1) map_add_def)
    show ?thesis
    proof (cases "odb_map (store cx) odb (block_key ?os h)")
      case None': None
      then show ?thesis using d(2) d'(2) h None same in_dom by (simp add: loads_def IndexesData_new_def)
    next
      case (Some v)
      then have "entry_wf ?os dg (block_key ?os h, v)" using assms(3) by (auto simp: index_db_ok_def)
      then obtain b where b: "storable ?os dg b" "block_key ?os h = block_key ?os (hash (header b))" "write_index ?os b = Some v"
        by (auto simp: entry_wf_def)
      then have "hash (header b) = h" using streams.block_key_inj [OF assms(2) h] by (auto simp: storable_def)
      then have "map_of (ix_blocks d) h = Some (restored b)" "map_of (ix_blocks d') h = Some (restored b)"
        using d(2) d'(2) b Some same e by (auto simp: loads_def)
      then show ?thesis using None by simp
    qed
  qed
  then show ?thesis using d(1) d'(1) w(2) by blast
qed

section \<open>Properties\<close>

text \<open>C35: the index database finds again what was written: after a successful write, loading yields every
  entry written, as the disk keeps it and with its hash, every entry the database held before and that
  was not written again, and no assertion of the loader fails; this holds after any number of writes.\<close>

theorem index_db_roundtrip:
  assumes "key_value_store (store cx)" "streams (db_in cx) (db_out cx)" "index_db_ok cx dg odb"
    and "list_all (storable (db_out cx) dg \<circ> snd) (ix_blocks data)"
    and "list_all (\<lambda>i. - (2 ^ 31) \<le> info_fileIndex i \<and> info_fileIndex i < 2 ^ 31) (ix_files data)"
    and "distinct (map (\<lambda>(_, x). hash (header x)) (ix_blocks data))"
    and "writeBlocks cx data odb = Some (True, odb')"
  shows "index_db_ok cx dg odb' \<and> (\<exists>d d'. loadAll cx dg odb IndexesData_new = Some d \<and> loadAll cx dg odb' IndexesData_new = Some d' \<and>
    (\<forall>h. length h = 32 \<longrightarrow> map_of (ix_blocks d') h =
       (case map_of (map (\<lambda>(_, x). (hash (header x), x)) (ix_blocks data)) h of
          Some x \<Rightarrow> Some (restored x) | None \<Rightarrow> map_of (ix_blocks d) h)))"
  by (rule writeBlocks_loadAll [OF assms])

text \<open>C38: the storage forgets its files at a restart: once the blocks of a storage whose records it made itself (none, to
  begin with) have filled more than one file, the records the flush gives to the database all have the key of file 0, so loading them
  brings back at most one, and the next block is placed at the start of the last file, over the blocks
  it holds.\<close>

theorem restart_overwrites:
  assumes "key_value_store (store cx)" "streams (db_in cx) (db_out cx)" "index_db_ok cx dg odb"
    and "\<forall>i. odb_map (store cx) odb (file_key (db_out cx) i) = None"
    and "unnumbered st0" "write_blocks os items st0 = Some (jobs, st)" "0 < lastBlockFile st" "lastBlockFile st < 2 ^ 31"
    and "storage_flush st = Some (files, l, st')"
    and "writeBlocks cx \<lparr>ix_blocks = [], ix_files = files, ix_lastBlockFile = l\<rparr> odb = Some (True, odb')"
    and "blockSize < MAX_BLOCKFILE_SIZE"
  shows "\<exists>d st2. loadAll cx dg odb' IndexesData_new = Some d \<and>
    findBlockPos 0 blockSize (storage_load (ix_files d) (ix_lastBlockFile d) BlockStorage_new) =
      Some (\<lparr>pos_fileIndex = lastBlockFile st, position = 0\<rparr>, st2)"
proof -
  let ?os = "db_out cx" and ?data = "\<lparr>ix_blocks = [], ix_files = files, ix_lastBlockFile = l\<rparr>"
  have l: "l = lastBlockFile st" and fl: "files = map (\<lambda>f. blockFiles st ! f) (dirtyFiles st)"
    "list_all (\<lambda>f. f < length (blockFiles st)) (dirtyFiles st)"
    using assms(9) by (auto simp: storage_flush_def split: if_splits)
  have "unnumbered st" using write_blocks_unnumbered [OF assms(6,5)] .
  moreover have "\<forall>f \<in> set (dirtyFiles st). f < length (blockFiles st)" using fl(2) by (simp add: list_all_iff)
  ultimately have zero: "\<forall>i \<in> set files. info_fileIndex i = 0" by (auto simp: fl(1) unnumbered_def list_all_length)
  then have "list_all (\<lambda>i. - (2 ^ 31) \<le> info_fileIndex i \<and> info_fileIndex i < 2 ^ 31) (ix_files ?data)" by (simp add: list_all_iff)
  from writeBlocks_map [OF assms(1,3) _ this assms(10)]
  have m: "odb_map (store cx) odb' = odb_map (store cx) odb ++ map_of (rev (index_puts ?os ?data))" "index_db_ok cx dg odb'" by simp_all
  have plain: "obfuscator odb' = []" using m(2) by (simp add: index_db_ok_def)
  let ?es = "ldb_entries (store cx) (m_db odb')"
  note ent = key_value_store.entries_map [OF assms(1) plain]
  obtain d where d: "loadAll cx dg odb' IndexesData_new = Some d"
    "loads ?os dg ?es (IndexesData_new\<lparr>ix_lastBlockFile := stored_last cx odb'\<rparr>) d"
    using loadAll_loads [OF assms(1,2) m(2)] by blast
  have "fst e = file_key ?os 0" if e: "e \<in> set (filter is_file ?es)" for e
  proof -
    obtain k v where kv: "e = (k, v)" by fastforce
    have k: "odb_map (store cx) odb' k = Some v" "k ! 0 = DB_BLOCK_FILES" using e ent by (simp_all add: kv is_file_def)
    obtain i where i: "k = file_key ?os i" using k m(2) by (auto simp: index_db_ok_def entry_wf_def)
    have "(k, v) \<in> set (index_puts ?os ?data)"
      using k(1) assms(4) i by (auto simp: m(1) map_add_Some_iff dest!: map_of_SomeD)
    then have "(k, v) \<in> set (file_puts ?os files)"
      using i by (auto simp: index_puts_def block_puts_def last_puts_def file_key_def DB_LAST_BLOCK_def DB_BLOCK_FILES_def split: if_splits)
    then show ?thesis using zero by (auto simp: kv file_puts_def)
  qed
  moreover have "distinct (map fst (filter is_file ?es))"
    using key_value_store.entries(2) [OF assms(1)] by (rule distinct_map_filter)
  ultimately have "length (filter is_file ?es) \<le> 1"
    using distinct_card [of "map fst (filter is_file ?es)"] card_mono [of "{file_key ?os 0}" "set (map fst (filter is_file ?es))"]
    by (auto simp: image_subset_iff)
  then have one: "length (ix_files d) \<le> 1" using d(2) by (auto simp: loads_def IndexesData_new_def)
  have last: "ix_lastBlockFile d = lastBlockFile st"
  proof -
    have "DB_LAST_BLOCK \<notin> fst ` set (file_puts ?os files)"
      by (auto simp: file_puts_def file_key_def DB_LAST_BLOCK_def DB_BLOCK_FILES_def)
    then have "odb_map (store cx) odb' DB_LAST_BLOCK = Some (wr32 ?os (word_of_int l))"
      using assms(7) l by (simp add: m(1) index_puts_def last_puts_def block_puts_def map_add_def map_of_eq_None_iff [THEN iffD2])
    moreover have "rd32 (db_in cx) (of_bytes (db_in cx) (wr32 ?os w)) = (Some w, of_bytes (db_in cx) [])" for w
      using streams.rd32 [OF assms(2), of w "[]"] by simp
    moreover have "sint (word_of_int l :: u32) = l"
      using assms(7,8) l by (simp add: signed_of_int signed_take_bit_int_eq_self)
    ultimately have "stored_last cx odb' = l"
      using streams.good_of_bytes [OF assms(2)] by (simp add: stored_last_def odb_read_def odb_map_def into_def)
    then show ?thesis using d(2) l by (simp add: loads_def)
  qed
  define n where "n = nat (lastBlockFile st)"
  have n: "int n = lastBlockFile st" "0 < n" using assms(7) by (simp_all add: n_def)
  have new: "length (grow n (ix_files d)) = n + 1" "grow n (ix_files d) ! n = BlockFileInfo_new"
    using one n(2) by (auto simp: grow_def nth_append)
  have "find_file blockSize n (grow n (ix_files d)) = Some (n, grow n (ix_files d))"
    using assms(11) [folded not_le] new by (simp add: find_file.simps [of _ n])
  then show ?thesis using d(1) new assms(7) n
    by (simp add: findBlockPos_def storage_load_def last n_def [symmetric] Let_def)
qed

text \<open>The concrete databases of the witnesses.\<close>

definition flat_digests :: digests where
  "flat_digests = \<lparr>sha256 = \<lambda>b. replicate 32 1, ripemd160 = \<lambda>b. []\<rparr>"

definition index0 :: "(bytes \<times> bytes) list ObjectDB" where
  "index0 = ObjectDB_new False []"

definition sample_index :: BlockIndex where
  "sample_index = createBlockIndex (computeHash flat_digests le_ostream BlockHeader_new)"

lemma odb_map_index0: "odb_map alist_leveldb index0 k = None"
  by (simp add: index0_def odb_map_def odb_readString_def LevelDB_read_def ObjectDB_new_def alist_leveldb_def)

lemma index0_ok: "index_db_ok le_db dg index0"
  by (simp add: index_db_ok_def odb_map_index0) (simp add: index0_def ObjectDB_new_def)

lemma index0_write:
  assumes "list_all (storable le_ostream dg \<circ> snd) (ix_blocks data)"
  shows "\<exists>odb'. writeBlocks le_db data index0 = Some (True, odb')"
  using writeBlocks_puts [of index0 le_db dg data] assms
  by (simp add: index0_def ObjectDB_new_def batch_execute_def LevelDB_execute_def alist_leveldb_def)

lemma storable_sample: "storable le_ostream flat_digests sample_index"
  by (simp add: storable_def sample_index_def wf_index_def wf_header_def createBlockIndex_def BlockIndex_new_def BlockHeader_new_def
      computeHash_def hash256_def flat_digests_def uint256_null_def write_header_def disk_index_def replicate_eq_replicate)

theorem index_db_roundtrip_witness:
  "\<exists>odb' d'. writeBlocks le_db \<lparr>ix_blocks = [(replicate 32 1, sample_index)], ix_files = [], ix_lastBlockFile = 0\<rparr> index0 = Some (True, odb') \<and>
    loadAll le_db flat_digests odb' IndexesData_new = Some d' \<and> map_of (ix_blocks d') (replicate 32 1) = Some (restored sample_index)"
proof -
  let ?data = "\<lparr>ix_blocks = [(replicate 32 1, sample_index)], ix_files = [], ix_lastBlockFile = 0\<rparr>"
  have st: "list_all (storable le_ostream flat_digests \<circ> snd) (ix_blocks ?data)" by (simp add: storable_sample)
  from index0_write [OF st] obtain odb' where w: "writeBlocks le_db ?data index0 = Some (True, odb')" by blast
  have h: "hash (header sample_index) = replicate 32 1"
    by (simp add: sample_index_def createBlockIndex_def computeHash_def hash256_def flat_digests_def)
  show ?thesis
    using index_db_roundtrip [of le_db flat_digests index0 ?data odb'] als.key_value_store_axioms les.streams_axioms index0_ok st w h
    by (fastforce simp: length_replicate)
qed

theorem restart_overwrites_witness:
  "\<exists>odb' d st2. loadAll le_db flat_digests odb' IndexesData_new = Some d \<and>
    findBlockPos 0 100 (storage_load (ix_files d) (ix_lastBlockFile d) BlockStorage_new) = Some (\<lparr>pos_fileIndex = 1, position = 0\<rparr>, st2)"
proof -
  let ?st = "\<lparr>lastBlockFile = 1, blockFiles = [BlockFileInfo_new, BlockFileInfo_new\<lparr>info_size := 500\<rparr>], dirtyFiles = [1]\<rparr>"
  have "unnumbered ?st" by (simp add: unnumbered_def BlockFileInfo_new_def)
  moreover obtain files l st' where "storage_flush ?st = Some (files, l, st')" by (simp add: storage_flush_def)
  moreover obtain odb' where "writeBlocks le_db \<lparr>ix_blocks = [], ix_files = files, ix_lastBlockFile = l\<rparr> index0 = Some (True, odb')"
    using index0_write [of flat_digests "\<lparr>ix_blocks = [], ix_files = files, ix_lastBlockFile = l\<rparr>"] by auto
  moreover have "(100 :: u32) < MAX_BLOCKFILE_SIZE" by (simp add: MAX_BLOCKFILE_SIZE_def)
  ultimately show ?thesis
    using restart_overwrites [of le_db flat_digests index0 ?st le_ostream "[]" "[]" ?st files l st' odb' 100]
      als.key_value_store_axioms les.streams_axioms index0_ok odb_map_index0 by auto
qed

end
