(* ===== verification/BlockCache.thy ===== *)
theory BlockCache
  imports Validator BlockChain BlockIndexDB
begin

text \<open>
  \<open>storage/BlockCache.cpp\<close>: the index of all known headers, the active chain, the coins and the disk
  service behind them. Index entries are objects that the index, the chain, the list of dirty entries
  and the jobs of the disk service share: a heap maps references to entries. The disk service is a queue
  of jobs that runs beside the program: \<open>run_disk_job\<close> performs its first one.

  \<open>late\<close> is whether more than five seconds have passed since the last flush. Unordered maps are
  association lists. The entries and blocks kept for two heights (91812 and 91842) are only stored,
  never read, and left out. \<open>None\<close> is a failed assertion, a null pointer that is followed, or an
  exception nobody catches.
\<close>

section \<open>State\<close>

datatype disk_job =
    WriteJob DiskBlockPos bytes Block bref
  | SignalJob DiskBlockPos Block bref
  | FlushJob "(uint256 \<times> bref) list" "BlockFileInfo list" int

record ('d, 'f) BlockCache =
  bc_heap :: index_heap
  bc_next :: bref
  bc_blocks :: "(uint256 \<times> bref option) list"
  bc_best :: "bref option"
  bc_chain :: chain
  bc_dirty :: "(uint256 \<times> bref) list"
  bc_coins :: "'d CoinView"
  bc_storage :: BlockStorage
  bc_db :: "'d ObjectDB"
  bc_files :: 'f
  bc_jobs :: "disk_job list"

record ('d, 's, 'k, 'g, 'f) cache_context =
  c_val :: "('d, 's, 'k, 'g) val_context"
  c_bits :: bit_converter
  c_index :: "('d, 's) db_context"
  c_disk :: "('f, 's) disk_context"
  genesisBlock :: Block

definition BlockCache_new :: "index_heap \<Rightarrow> 'd CoinView \<Rightarrow> 'd ObjectDB \<Rightarrow> 'f \<Rightarrow> ('d, 'f) BlockCache" where
  "BlockCache_new H cv db fs = \<lparr>bc_heap = H, bc_next = 0, bc_blocks = [], bc_best = None, bc_chain = [], bc_dirty = [],
     bc_coins = cv, bc_storage = BlockStorage_new, bc_db = db, bc_files = fs, bc_jobs = []\<rparr>"

definition put_index :: "bref \<Rightarrow> BlockIndex \<Rightarrow> ('d, 'f) BlockCache \<Rightarrow> ('d, 'f) BlockCache" where
  "put_index p b bc = bc\<lparr>bc_heap := (bc_heap bc)(p := b)\<rparr>"

definition get_index :: "('d, 'f) BlockCache \<Rightarrow> bref \<Rightarrow> BlockIndex" where
  "get_index bc p = bc_heap bc p"

section \<open>Flushing\<close>

definition cache_flush :: "('d, 's, 'k, 'g, 'f) cache_context \<Rightarrow> ('d, 'f) BlockCache \<Rightarrow> ('d, 'f) BlockCache option" where
  "cache_flush cx bc = do {
     (infos, l, st) \<leftarrow> storage_flush (bc_storage bc);
     (ok, cv) \<leftarrow> view_flush (v_db (c_val cx)) (bc_coins bc);
     Some (bc\<lparr>bc_dirty := [], bc_storage := st, bc_jobs := bc_jobs bc @ [FlushJob (bc_dirty bc) infos l], bc_coins := cv\<rparr>)
   }"

definition checkFlush :: "('d, 's, 'k, 'g, 'f) cache_context \<Rightarrow> bool \<Rightarrow> ('d, 'f) BlockCache \<Rightarrow> ('d, 'f) BlockCache option" where
  "checkFlush cx late bc = (if length (bc_dirty bc) \<ge> 100000 \<or> late then cache_flush cx bc else Some bc)"

definition markDirtyBlock :: "('d, 's, 'k, 'g, 'f) cache_context \<Rightarrow> bool \<Rightarrow> bref \<Rightarrow> ('d, 'f) BlockCache \<Rightarrow> ('d, 'f) BlockCache option" where
  "markDirtyBlock cx late p bc = do {
     h \<leftarrow> index_getHash (get_index bc p);
     checkFlush cx late (bc\<lparr>bc_dirty := AList.update h p (bc_dirty bc)\<rparr>)
   }"

section \<open>Adding headers and blocks\<close>

text \<open>The work of an entry and the time and transactions up to it; \<open>previous\<close> is followed after the entry's
  own fields are set.\<close>

definition updateBlockInfo :: "('d, 's, 'k, 'g, 'f) cache_context \<Rightarrow> bref \<Rightarrow> ('d, 'f) BlockCache \<Rightarrow> ('d, 'f) BlockCache option" where
  "updateBlockInfo cx p bc = do {
     let b = get_index bc p;
     work \<leftarrow> (case calcBlockProof (c_bits cx) (bits (header b)) of Inl e \<Rightarrow> None | Inr w \<Rightarrow> Some w);
     let bc = put_index p (b\<lparr>chainWork := work, bi_maxTime := timestamp (header b), chainTransactionCount := transactionCount b\<rparr>) bc;
     let bc = (case previous b of
         None \<Rightarrow> bc
       | Some q \<Rightarrow>
           (let b = get_index bc p; v = get_index bc q
            in put_index p (b\<lparr>chainTransactionCount := chainTransactionCount b + chainTransactionCount v,
                 chainWork := bn_add (v_bn (c_val cx)) (chainWork b) (chainWork v),
                 bi_maxTime := (if bi_maxTime b < bi_maxTime v then bi_maxTime v else bi_maxTime b)\<rparr>) bc));
     Some (case bc_best bc of
         None \<Rightarrow> bc\<lparr>bc_best := Some p\<rparr>
       | Some m \<Rightarrow>
           if bn_greater (v_bn (c_val cx)) (chainWork (get_index bc p)) (chainWork (get_index bc m)) then bc\<lparr>bc_best := Some p\<rparr> else bc)
   }"

text \<open>The entry is made, linked to the entry of its parent when that is known, and its validity raised.\<close>

definition link_index :: "BlockHeader \<Rightarrow> ('d, 'f) BlockCache \<Rightarrow> (bref \<times> ('d, 'f) BlockCache) option" where
  "link_index h bc = do {
     let p = bc_next bc;
     let bc = put_index p (createBlockIndex h) (bc\<lparr>bc_next := p + 1, bc_blocks := AList.update (hash h) (Some p) (bc_blocks bc)\<rparr>);
     bc \<leftarrow> (if previousBlockHash h = uint256_null then Some bc
            else case map_of (bc_blocks bc) (previousBlockHash h) of
                None \<Rightarrow> Some bc
              | Some prev \<Rightarrow> do {
                  q \<leftarrow> prev;
                  let bc = put_index p ((get_index bc p)\<lparr>previous := Some q\<rparr>) bc;
                  Some (put_index p ((get_index bc p)\<lparr>height := height (get_index bc q) + 1\<rparr>) bc)
                });
     (raised, b) \<leftarrow> raiseValidity BLOCK_VALID_TREE (get_index bc p);
     Some (p, put_index p b bc)
   }"

text \<open>The result is the entry, or the null pointer for a header without its proof of work.\<close>

definition addBlockIndex :: "('d, 's, 'k, 'g, 'f) cache_context \<Rightarrow> bool \<Rightarrow> BlockHeader \<Rightarrow> ('d, 'f) BlockCache \<Rightarrow> (bref option \<times> ('d, 'f) BlockCache) option" where
  "addBlockIndex cx late h bc = do {
     assert_that (hash h \<noteq> uint256_null);
     let bc = (if map_of (bc_blocks bc) (hash h) = None then bc\<lparr>bc_blocks := AList.update (hash h) None (bc_blocks bc)\<rparr> else bc);
     case map_of (bc_blocks bc) (hash h) of
       Some (Some p) \<Rightarrow> Some (Some p, bc)
     | _ \<Rightarrow>
         if \<not> validateBlockHeader (v_bn (c_val cx)) h then Some (None, bc)
         else do {
           (p, bc) \<leftarrow> link_index h bc;
           bc \<leftarrow> updateBlockInfo cx p bc;
           bc \<leftarrow> markDirtyBlock cx late p bc;
           Some (Some p, bc)
         }
   }"

definition updateBlockIndex :: "bref \<Rightarrow> Block \<Rightarrow> ('d, 'f) BlockCache \<Rightarrow> ('d, 'f) BlockCache option" where
  "updateBlockIndex p block bc = do {
     let b = get_index bc p;
     assert_that (transactionCount b = 0 \<or> unat (transactionCount b) = length (transactions block));
     Some (put_index p (b\<lparr>transactionCount := of_nat (length (transactions block))\<rparr>) bc)
   }"

definition saveBlock :: "('d, 's, 'k, 'g, 'f) cache_context \<Rightarrow> Block \<Rightarrow> bref \<Rightarrow> ('d, 'f) BlockCache \<Rightarrow> ('d, 'f) BlockCache option" where
  "saveBlock cx block p bc = do {
     (pos, data, st) \<leftarrow> writeBlock (dk_out (c_disk cx)) block (get_index bc p) (bc_storage bc);
     Some (bc\<lparr>bc_storage := st, bc_jobs := bc_jobs bc @ [WriteJob pos data block p]\<rparr>)
   }"

definition addBlock :: "('d, 's, 'k, 'g, 'f) cache_context \<Rightarrow> bool \<Rightarrow> Block \<Rightarrow> ('d, 'f) BlockCache \<Rightarrow> (bref option \<times> ('d, 'f) BlockCache) option" where
  "addBlock cx late block bc = do {
     (r, bc) \<leftarrow> addBlockIndex cx late (blk_header block) bc;
     p \<leftarrow> r;
     assert_that (height (get_index bc p) > 0);
     if \<not> validateBlock block (get_index bc p) then Some (None, bc)
     else do {
       bc \<leftarrow> updateBlockIndex p block bc;
       bc \<leftarrow> saveBlock cx block p bc;
       Some (Some p, bc)
     }
   }"

definition getBlockIndex :: "uint256 \<Rightarrow> ('d, 'f) BlockCache \<Rightarrow> bref option" where
  "getBlockIndex h bc = (case map_of (bc_blocks bc) h of None \<Rightarrow> None | Some r \<Rightarrow> r)"

definition cache_getTip :: "('d, 'f) BlockCache \<Rightarrow> bref option option" where
  "cache_getTip bc = chain_getTip (bc_chain bc)"

definition getBestHeader :: "('d, 'f) BlockCache \<Rightarrow> bref option" where
  "getBestHeader bc = bc_best bc"

definition cache_readBlock :: "('d, 's, 'k, 'g, 'f) cache_context \<Rightarrow> bref \<Rightarrow> ('d, 'f) BlockCache \<Rightarrow> Block option option" where
  "cache_readBlock cx p bc = doReadBlock (c_disk cx) (get_index bc p) (bc_files bc)"

section \<open>Blocks that have been written\<close>

fun transfer_all :: "('d, 's) db_context \<Rightarrow> Transaction list \<Rightarrow> int \<Rightarrow> 'd CoinView \<Rightarrow> 'd CoinView option" where
  "transfer_all cx [] ht cv = Some cv"
| "transfer_all cx (tx # txs) ht cv = do { cv \<leftarrow> transfer cx tx ht cv; transfer_all cx txs ht cv }"

definition updateCoins :: "('d, 's, 'k, 'g, 'f) cache_context \<Rightarrow> Block \<Rightarrow> bref \<Rightarrow> ('d, 'f) BlockCache \<Rightarrow> (bool \<times> ('d, 'f) BlockCache) option" where
  "updateCoins cx block p bc = do {
     (ok, cv) \<leftarrow> verifyTransactions (c_val cx) block (get_index bc p) (bc_coins bc);
     if \<not> ok then Some (False, bc\<lparr>bc_coins := cv\<rparr>)
     else do {
       ch \<leftarrow> chain_setTip (bc_heap bc) (bc_chain bc) (Some p);
       h \<leftarrow> index_getHash (get_index bc p);
       cv \<leftarrow> transfer_all (v_db (c_val cx)) (transactions block) (height (get_index bc p))
         (setBestBlockHash h (height (get_index bc p)) cv);
       Some (True, bc\<lparr>bc_chain := ch, bc_coins := cv\<rparr>)
     }
   }"

definition onBlockWritten :: "('d, 's, 'k, 'g, 'f) cache_context \<Rightarrow> bool \<Rightarrow> Block \<Rightarrow> bref \<Rightarrow> DiskBlockPos \<Rightarrow> ('d, 'f) BlockCache \<Rightarrow> ('d, 'f) BlockCache option" where
  "onBlockWritten cx late block p pos bc = do {
     let b = setDiskPosition pos (get_index bc p);
     let b = b\<lparr>status := status b OR BLOCK_HAVE_DATA\<rparr>;
     (raised, b) \<leftarrow> raiseValidity BLOCK_VALID_TRANSACTIONS b;
     bc \<leftarrow> markDirtyBlock cx late p (put_index p b bc);
     (ok, bc) \<leftarrow> updateCoins cx block p bc;
     assert_that ok;
     ht \<leftarrow> chain_getHeight (bc_chain bc);
     assert_that (ht = bestBlockHeight (coins (bc_coins bc)));
     Some bc
   }"

section \<open>The disk service\<close>

text \<open>The first job of the queue; a flush writes the entries as they are when it runs, and its result is not
  looked at.\<close>

definition run_disk_job :: "('d, 's, 'k, 'g, 'f) cache_context \<Rightarrow> bool \<Rightarrow> ('d, 'f) BlockCache \<Rightarrow> ('d, 'f) BlockCache option" where
  "run_disk_job cx late bc =
     (case bc_jobs bc of
        [] \<Rightarrow> Some bc
      | WriteJob pos data block p # jobs \<Rightarrow> do {
          fs \<leftarrow> doWriteBlock (c_disk cx) data pos (bc_files bc);
          Some (bc\<lparr>bc_files := fs, bc_jobs := jobs @ [SignalJob pos block p]\<rparr>)
        }
      | SignalJob pos block p # jobs \<Rightarrow> onBlockWritten cx late block p pos (bc\<lparr>bc_jobs := jobs\<rparr>)
      | FlushJob items infos l # jobs \<Rightarrow> do {
          (ok, db) \<leftarrow> writeBlocks (c_index cx)
            \<lparr>ix_blocks = map (\<lambda>(h, p). (h, get_index bc p)) items, ix_files = infos, ix_lastBlockFile = l\<rparr> (bc_db bc);
          Some (bc\<lparr>bc_db := db, bc_jobs := jobs\<rparr>)
        })"

section \<open>Loading\<close>

text \<open>The entries the database yields become objects.\<close>

fun adopt_blocks :: "(uint256 \<times> BlockIndex) list \<Rightarrow> ('d, 'f) BlockCache \<Rightarrow> ('d, 'f) BlockCache" where
  "adopt_blocks [] bc = bc"
| "adopt_blocks ((h, b) # items) bc =
     adopt_blocks items (put_index (bc_next bc) b
       (bc\<lparr>bc_next := bc_next bc + 1, bc_blocks := AList.update h (Some (bc_next bc)) (bc_blocks bc)\<rparr>))"

definition validateBlockIndexes :: "('d, 's, 'k, 'g, 'f) cache_context \<Rightarrow> ('d, 'f) BlockCache \<Rightarrow> ('d, 'f) BlockCache option" where
  "validateBlockIndexes cx bc = do {
     assert_that (list_all (\<lambda>(h, r). r \<noteq> None) (bc_blocks bc));
     Some (bc\<lparr>bc_blocks := filter (\<lambda>(h, r). validateBlockIndex (v_bn (c_val cx)) (get_index bc (the r))) (bc_blocks bc)\<rparr>)
   }"

fun link_previous :: "(uint256 \<times> bref option) list \<Rightarrow> ('d, 'f) BlockCache \<Rightarrow> ('d, 'f) BlockCache option" where
  "link_previous [] bc = Some bc"
| "link_previous ((h, r) # items) bc = do {
     p \<leftarrow> r;
     h' \<leftarrow> index_getHash (get_index bc p);
     assert_that (h' = h);
     assert_that (previous (get_index bc p) = None);
     link_previous items
       (case map_of (bc_blocks bc) (previousBlockHash (header (get_index bc p))) of
          None \<Rightarrow> bc | Some q \<Rightarrow> put_index p ((get_index bc p)\<lparr>previous := q\<rparr>) bc)
   }"

definition updatePreviousBlock :: "('d, 'f) BlockCache \<Rightarrow> ('d, 'f) BlockCache option" where
  "updatePreviousBlock bc = link_previous (bc_blocks bc) bc"

fun update_infos :: "('d, 's, 'k, 'g, 'f) cache_context \<Rightarrow> bref list \<Rightarrow> ('d, 'f) BlockCache \<Rightarrow> ('d, 'f) BlockCache option" where
  "update_infos cx [] bc = Some bc"
| "update_infos cx (p # ps) bc = do { bc \<leftarrow> updateBlockInfo cx p bc; update_infos cx ps bc }"

text \<open>Entries of one height come in the order of their addresses; here, in the order of the map.\<close>

definition updateChainWork :: "('d, 's, 'k, 'g, 'f) cache_context \<Rightarrow> ('d, 'f) BlockCache \<Rightarrow> ('d, 'f) BlockCache option" where
  "updateChainWork cx bc = do {
     assert_that (list_all (\<lambda>(h, r). r \<noteq> None) (bc_blocks bc));
     bc \<leftarrow> update_infos cx (sort_key (\<lambda>p. height (get_index bc p)) (map (\<lambda>(h, r). the r) (bc_blocks bc))) bc;
     assert_that (bc_best bc \<noteq> None \<or> bc_blocks bc = []);
     Some bc
   }"

definition sortOutBlocks :: "('d, 's, 'k, 'g, 'f) cache_context \<Rightarrow> ('d, 'f) BlockCache \<Rightarrow> ('d, 'f) BlockCache option" where
  "sortOutBlocks cx bc = do {
     bc \<leftarrow> validateBlockIndexes cx bc;
     bc \<leftarrow> updatePreviousBlock bc;
     updateChainWork cx bc
   }"

definition loadGenesisBlock :: "('d, 's, 'k, 'g, 'f) cache_context \<Rightarrow> bool \<Rightarrow> ('d, 'f) BlockCache \<Rightarrow> ('d, 'f) BlockCache option" where
  "loadGenesisBlock cx late bc = do {
     assert_that (hash (blk_header (genesisBlock cx)) \<noteq> uint256_null);
     case map_of (bc_blocks bc) (hash (blk_header (genesisBlock cx))) of
       Some r \<Rightarrow> do { ch \<leftarrow> chain_setTip (bc_heap bc) (bc_chain bc) r; Some (bc\<lparr>bc_chain := ch\<rparr>) }
     | None \<Rightarrow> do {
         (r, bc) \<leftarrow> addBlockIndex cx late (blk_header (genesisBlock cx)) bc;
         p \<leftarrow> r;
         bc \<leftarrow> updateBlockIndex p (genesisBlock cx) bc;
         bc \<leftarrow> saveBlock cx (genesisBlock cx) p bc;
         ch \<leftarrow> chain_setTip (bc_heap bc) (bc_chain bc) (Some p);
         cache_flush cx (bc\<lparr>bc_chain := ch\<rparr>)
       }
   }"

definition loadChainTip :: "('d, 'f) BlockCache \<Rightarrow> (bool \<times> ('d, 'f) BlockCache) option" where
  "loadChainTip bc =
     (let best = bestBlockHash (coins (bc_coins bc))
      in if best = uint256_null then Some (length (bc_blocks bc) = 1, bc)
      else case map_of (bc_blocks bc) best of
          None \<Rightarrow> None
        | Some r \<Rightarrow> do { ch \<leftarrow> chain_setTip (bc_heap bc) (bc_chain bc) r; Some (True, bc\<lparr>bc_chain := ch\<rparr>) })"

text \<open>\<open>load\<close>, once the databases are open.\<close>

definition cache_load :: "('d, 's, 'k, 'g, 'f) cache_context \<Rightarrow> bool \<Rightarrow> ('d, 'f) BlockCache \<Rightarrow> (bool \<times> ('d, 'f) BlockCache) option" where
  "cache_load cx late bc = do {
     data \<leftarrow> loadAll (c_index cx) (dk_digests (c_disk cx)) (bc_db bc) IndexesData_new;
     let bc = bc\<lparr>bc_storage := storage_load (ix_files data) (ix_lastBlockFile data) (bc_storage bc), bc_blocks := []\<rparr>;
     bc \<leftarrow> sortOutBlocks cx (adopt_blocks (ix_blocks data) bc);
     cv \<leftarrow> view_load (v_db (c_val cx)) (bc_coins bc);
     bc \<leftarrow> loadGenesisBlock cx late (bc\<lparr>bc_coins := cv\<rparr>);
     (ok, bc) \<leftarrow> loadChainTip bc;
     Some (True, bc)
   }"

section \<open>The tree of headers\<close>

lemma get_put [simp]: "get_index (put_index p b bc) = (get_index bc)(p := b)"
  by (simp add: get_index_def put_index_def fun_eq_iff)

lemma put_index_fields [simp]:
  "bc_heap (put_index p b bc) = (bc_heap bc)(p := b)" "bc_blocks (put_index p b bc) = bc_blocks bc"
  "bc_next (put_index p b bc) = bc_next bc" "bc_best (put_index p b bc) = bc_best bc" "bc_chain (put_index p b bc) = bc_chain bc"
  "bc_jobs (put_index p b bc) = bc_jobs bc" "bc_coins (put_index p b bc) = bc_coins bc"
  by (simp_all add: put_index_def)

lemma get_index_heap [simp]: "get_index (bc_dirty_update f bc) = get_index bc" "get_index (bc_best_update g bc) = get_index bc"
  by (simp_all add: get_index_def fun_eq_iff)

definition refs :: "('d, 'f) BlockCache \<Rightarrow> bref set" where
  "refs bc = {p. \<exists>h. map_of (bc_blocks bc) h = Some (Some p)}"

text \<open>The work of a target.\<close>

definition proof_val :: "u32 \<Rightarrow> int" where
  "proof_val c = (if compact_val c = 0 \<or> bit c 23 \<or> 2 ^ 256 \<le> compact_val c then 0 else 2 ^ 256 div (compact_val c + 1))"

text \<open>Every entry is a root or one above its parent, whose hash its header names; its work is its own added to
  its parent's, in 256 bits. No entry has a skip pointer: nothing builds them.\<close>

definition entry_ok' :: "index_heap \<Rightarrow> bref set \<Rightarrow> bref \<Rightarrow> bool" where
  "entry_ok' H R p \<longleftrightarrow> skip (H p) = None \<and> length (chainWork (H p)) = 32 \<and>
     (case previous (H p) of
        None \<Rightarrow> height (H p) = 0 \<and> bytes_val (chainWork (H p)) = proof_val (bits (header (H p)))
      | Some q \<Rightarrow> q \<in> R \<and> height (H p) = height (H q) + 1 \<and> hash (header (H q)) = previousBlockHash (header (H p)) \<and>
          bytes_val (chainWork (H p)) = (proof_val (bits (header (H p))) + bytes_val (chainWork (H q))) mod 2 ^ 256)"

definition header_tree :: "index_heap \<Rightarrow> bref set \<Rightarrow> bool" where
  "header_tree H R \<longleftrightarrow> (\<forall>p \<in> R. 0 \<le> height (H p) \<and> entry_ok' H R p)"

text \<open>References are handed out in the order of arrival. An entry is a root only when its header names no parent or
  when the parent it names, if it is in the index, came after it: the code links an entry to its parent when the entry
  comes, and never later.\<close>

definition roots_ok :: "index_heap \<Rightarrow> bref set \<Rightarrow> bool" where
  "roots_ok H R \<longleftrightarrow> (\<forall>p \<in> R. previous (H p) = None \<longrightarrow> previousBlockHash (header (H p)) = uint256_null \<or>
     (\<forall>q \<in> R. hash (header (H q)) = previousBlockHash (header (H p)) \<longrightarrow> p < q))"

definition same_links :: "index_heap \<Rightarrow> index_heap \<Rightarrow> bref set \<Rightarrow> bool" where
  "same_links H H' R \<longleftrightarrow> (\<forall>p \<in> R. header (H' p) = header (H p) \<and> height (H' p) = height (H p) \<and> previous (H' p) = previous (H p) \<and>
     skip (H' p) = skip (H p) \<and> chainWork (H' p) = chainWork (H p))"

lemma same_links_refl [simp]: "same_links H H R"
  by (simp add: same_links_def)

lemma header_tree_parent:
  assumes "header_tree H R" "p \<in> R"
  shows "0 \<le> height (H p)" "skip (H p) = None" "length (chainWork (H p)) = 32"
    "previous (H p) = None \<Longrightarrow> height (H p) = 0"
    "previous (H p) = Some q \<Longrightarrow> q \<in> R \<and> height (H p) = height (H q) + 1 \<and> hash (header (H q)) = previousBlockHash (header (H p))"
proof -
  have "0 \<le> height (H p)" and e: "entry_ok' H R p" using assms by (simp_all add: header_tree_def)
  then show "0 \<le> height (H p)" "skip (H p) = None" "length (chainWork (H p)) = 32"
    "previous (H p) = None \<Longrightarrow> height (H p) = 0"
    "previous (H p) = Some q \<Longrightarrow> q \<in> R \<and> height (H p) = height (H q) + 1 \<and> hash (header (H q)) = previousBlockHash (header (H p))"
    by (simp_all add: entry_ok'_def)
qed

lemma header_tree_tree_ok:
  assumes "header_tree H R"
  shows "tree_ok H R"
  unfolding tree_ok_def
proof
  fix p assume p: "p \<in> R"
  note f = header_tree_parent [OF assms p]
  show "0 \<le> height (H p) \<and> (height (H p) = 0 \<longrightarrow> previous (H p) = None) \<and>
     (0 < height (H p) \<longrightarrow> (\<exists>q \<in> R. previous (H p) = Some q \<and> height (H q) = height (H p) - 1)) \<and>
     (\<forall>k. skip (H p) = Some k \<longrightarrow>
        0 < height (H p) \<and> parent_walk H (nat (height (H p) - getSkipHeight (height (H p)))) p = Some k)"
  proof (cases "previous (H p)")
    case None
    then show ?thesis using f(1,2,4) by simp
  next
    case (Some q)
    then have q: "q \<in> R" "height (H p) = height (H q) + 1" using f(5) by simp_all
    have "0 \<le> height (H q)" using header_tree_parent(1) [OF assms q(1)] .
    then show ?thesis using f(2) q Some by simp
  qed
qed

lemma header_tree_same:
  assumes "header_tree H R" "same_links H H' R"
  shows "header_tree H' R"
  unfolding header_tree_def
proof
  fix p assume p: "p \<in> R"
  have s: "header (H' q) = header (H q)" "height (H' q) = height (H q)" "previous (H' q) = previous (H q)"
    "skip (H' q) = skip (H q)" "chainWork (H' q) = chainWork (H q)" if "q \<in> R" for q
    using assms(2) that by (simp_all add: same_links_def)
  have o: "0 \<le> height (H p)" "entry_ok' H R p" using assms(1) p by (simp_all add: header_tree_def)
  show "0 \<le> height (H' p) \<and> entry_ok' H' R p"
  proof (cases "previous (H p)")
    case None
    then show ?thesis using o by (simp add: entry_ok'_def s [OF p])
  next
    case (Some q)
    then have "q \<in> R" using o(2) by (simp add: entry_ok'_def)
    then show ?thesis using o Some by (simp add: entry_ok'_def s [OF p] s)
  qed
qed

lemma roots_ok_same: "roots_ok H R \<Longrightarrow> same_links H H' R \<Longrightarrow> roots_ok H' R"
  by (simp add: roots_ok_def same_links_def)

lemma roots_ok_insert:
  assumes "roots_ok H R" "\<And>q. q \<in> R \<Longrightarrow> q < p" "hash (header b) \<noteq> previousBlockHash (header b)"
    and "previous b = None \<Longrightarrow> previousBlockHash (header b) = uint256_null \<or> (\<forall>q \<in> R. hash (header (H q)) \<noteq> previousBlockHash (header b))"
  shows "roots_ok (H(p := b)) (insert p R)"
proof -
  have f: "(H(p := b)) q = H q" if "q \<in> R" for q using assms(2) [OF that] by simp
  show ?thesis unfolding roots_ok_def
  proof (intro ballI impI)
    fix r assume r: "r \<in> insert p R" "previous ((H(p := b)) r) = None"
    show "previousBlockHash (header ((H(p := b)) r)) = uint256_null \<or>
      (\<forall>q \<in> insert p R. hash (header ((H(p := b)) q)) = previousBlockHash (header ((H(p := b)) r)) \<longrightarrow> r < q)"
    proof (cases "r = p")
      case True
      then show ?thesis using r assms(3,4) f by auto
    next
      case False
      then have "r \<in> R" using r(1) by simp
      then show ?thesis using assms(1,2) r(2) f unfolding roots_ok_def by auto
    qed
  qed
qed

lemma entry_ok_mono:
  assumes "entry_ok' H R p" "R \<subseteq> R'"
  shows "entry_ok' H R' p"
  using assms by (cases "previous (H p)") (auto simp: entry_ok'_def)

lemma header_tree_insert:
  assumes "header_tree H R" "p \<notin> R" "0 \<le> height b" "entry_ok' (H(p := b)) R p"
  shows "header_tree (H(p := b)) (insert p R)"
proof -
  have "q \<noteq> p" if "q \<in> R" for q using that assms(2) by blast
  then have "same_links H (H(p := b)) R" by (simp add: same_links_def)
  from header_tree_same [OF assms(1) this] have "header_tree (H(p := b)) R" .
  then have "0 \<le> height ((H(p := b)) q) \<and> entry_ok' (H(p := b)) R q" if "q \<in> R" for q
    using that by (simp add: header_tree_def)
  then show ?thesis using assms(3,4) entry_ok_mono [OF _ subset_insertI] unfolding header_tree_def
    by (metis fun_upd_same insertE)
qed

section \<open>The invariant of the cache\<close>

text \<open>The best header has the most work.\<close>

definition best_ok :: "index_heap \<Rightarrow> bref set \<Rightarrow> bref option \<Rightarrow> bool" where
  "best_ok H R best \<longleftrightarrow> (case best of
     None \<Rightarrow> R = {} | Some m \<Rightarrow> m \<in> R \<and> (\<forall>p \<in> R. bytes_val (chainWork (H p)) \<le> bytes_val (chainWork (H m))))"

fun job_refs :: "disk_job \<Rightarrow> bref set" where
  "job_refs (WriteJob pos data block p) = {p}"
| "job_refs (SignalJob pos block p) = {p}"
| "job_refs (FlushJob items infos l) = {}"

definition cache_ok :: "('d, 'f) BlockCache \<Rightarrow> bool" where
  "cache_ok bc \<longleftrightarrow> distinct (map fst (bc_blocks bc)) \<and>
     (\<forall>h p. map_of (bc_blocks bc) h = Some (Some p) \<longrightarrow> p < bc_next bc \<and> hash (header (bc_heap bc p)) = h) \<and>
     header_tree (bc_heap bc) (refs bc) \<and> roots_ok (bc_heap bc) (refs bc) \<and> best_ok (bc_heap bc) (refs bc) (bc_best bc) \<and>
     linked (bc_heap bc) (refs bc) (length (bc_chain bc)) (bc_chain bc) \<and>
     (\<forall>j \<in> set (bc_jobs bc). job_refs j \<subseteq> refs bc)"

lemma cache_flush_fields:
  assumes "cache_flush cx bc = Some bc'"
  shows "bc_heap bc' = bc_heap bc" "bc_blocks bc' = bc_blocks bc" "bc_next bc' = bc_next bc" "bc_best bc' = bc_best bc"
    "bc_chain bc' = bc_chain bc" "\<exists>items infos l. bc_jobs bc' = bc_jobs bc @ [FlushJob items infos l]"
    "\<exists>ok. view_flush (v_db (c_val cx)) (bc_coins bc) = Some (ok, bc_coins bc')"
  using assms by (auto simp: cache_flush_def split: bind_splits)

text \<open>What marking an entry dirty can change besides the list of dirty entries: at most a flush job is queued and
  the coins are flushed.\<close>

definition only_flushed :: "('d, 's, 'k, 'g, 'f) cache_context \<Rightarrow> ('d, 'f) BlockCache \<Rightarrow> ('d, 'f) BlockCache \<Rightarrow> bool" where
  "only_flushed cx bc bc' \<longleftrightarrow> bc_heap bc' = bc_heap bc \<and> bc_blocks bc' = bc_blocks bc \<and> bc_next bc' = bc_next bc \<and>
     bc_best bc' = bc_best bc \<and> bc_chain bc' = bc_chain bc \<and>
     (bc_jobs bc' = bc_jobs bc \<and> bc_coins bc' = bc_coins bc \<or>
      (\<exists>items infos l ok. bc_jobs bc' = bc_jobs bc @ [FlushJob items infos l] \<and>
         view_flush (v_db (c_val cx)) (bc_coins bc) = Some (ok, bc_coins bc')))"

lemma cache_flush_only: "cache_flush cx bc = Some bc' \<Longrightarrow> only_flushed cx bc bc'"
  unfolding only_flushed_def using cache_flush_fields [of cx bc bc'] by blast

lemma only_flushed_dirty: "only_flushed cx (bc\<lparr>bc_dirty := d\<rparr>) bc' = only_flushed cx bc bc'"
  by (simp add: only_flushed_def)

lemma markDirtyBlock_only:
  assumes "markDirtyBlock cx late p bc = Some bc'"
  shows "only_flushed cx bc bc'"
proof -
  obtain h where c: "checkFlush cx late (bc\<lparr>bc_dirty := AList.update h p (bc_dirty bc)\<rparr>) = Some bc'"
    using assms by (auto simp: markDirtyBlock_def split: bind_splits)
  have "only_flushed cx (bc\<lparr>bc_dirty := AList.update h p (bc_dirty bc)\<rparr>) bc'"
  proof (cases "length (bc_dirty (bc\<lparr>bc_dirty := AList.update h p (bc_dirty bc)\<rparr>)) \<ge> 100000 \<or> late")
    case True
    then show ?thesis using c cache_flush_only unfolding checkFlush_def by (simp only: if_True)
  next
    case False
    then have "bc' = bc\<lparr>bc_dirty := AList.update h p (bc_dirty bc)\<rparr>" using c unfolding checkFlush_def by (simp only: if_False option.inject)
    then show ?thesis by (simp add: only_flushed_def)
  qed
  then show ?thesis by (simp only: only_flushed_dirty)
qed

lemma only_flushed_ok:
  assumes "cache_ok bc" "only_flushed cx bc bc'"
  shows "cache_ok bc' \<and> refs bc' = refs bc"
proof -
  have f: "bc_heap bc' = bc_heap bc" "bc_blocks bc' = bc_blocks bc" "bc_next bc' = bc_next bc" "bc_best bc' = bc_best bc"
    "bc_chain bc' = bc_chain bc" and j: "bc_jobs bc' = bc_jobs bc \<or> (\<exists>items infos l. bc_jobs bc' = bc_jobs bc @ [FlushJob items infos l])"
    using assms(2) unfolding only_flushed_def by blast+
  have r: "refs bc' = refs bc" by (simp add: refs_def f)
  have "\<forall>x \<in> set (bc_jobs bc'). job_refs x \<subseteq> refs bc'"
    using j assms(1) unfolding r by (auto simp: cache_ok_def)
  then show ?thesis using assms(1) by (simp add: cache_ok_def f r)
qed

text \<open>The other parts of the state stay as they are.\<close>

definition same_rest :: "('d, 'f) BlockCache \<Rightarrow> ('d, 'f) BlockCache \<Rightarrow> bool" where
  "same_rest bc bc' \<longleftrightarrow> bc_blocks bc' = bc_blocks bc \<and> bc_next bc' = bc_next bc \<and> bc_chain bc' = bc_chain bc \<and>
     bc_jobs bc' = bc_jobs bc \<and> bc_coins bc' = bc_coins bc \<and> bc_storage bc' = bc_storage bc \<and> bc_files bc' = bc_files bc \<and>
     bc_db bc' = bc_db bc \<and> bc_dirty bc' = bc_dirty bc"

text \<open>What a fresh entry looks like once it is linked.\<close>

definition entry_linked :: "index_heap \<Rightarrow> bref set \<Rightarrow> bref \<Rightarrow> bool" where
  "entry_linked H R p \<longleftrightarrow> skip (H p) = None \<and>
     (case previous (H p) of
        None \<Rightarrow> height (H p) = 0
      | Some q \<Rightarrow> q \<in> R \<and> height (H p) = height (H q) + 1 \<and> hash (header (H q)) = previousBlockHash (header (H p)))"

locale cache_numbers = little_endian "c_bits cx" + big_number "v_bn (c_val cx)"
  for cx :: "('d, 's, 'k, 'g, 'f) cache_context"
begin

lemma updateBlockInfo_entry:
  assumes "header_tree (bc_heap bc) R" "p \<notin> R" "entry_linked (bc_heap bc) R p"
  shows "\<exists>b bc'. updateBlockInfo cx p bc = Some bc' \<and> bc_heap bc' = (bc_heap bc)(p := b) \<and> header b = header (bc_heap bc p) \<and>
     previous b = previous (bc_heap bc p) \<and> height b = height (bc_heap bc p) \<and> entry_ok' ((bc_heap bc)(p := b)) R p \<and> same_rest bc bc' \<and>
     bc_best bc' = (case bc_best bc of None \<Rightarrow> Some p
       | Some m \<Rightarrow> if bn_greater (v_bn (c_val cx)) (chainWork b) (chainWork (((bc_heap bc)(p := b)) m)) then Some p else Some m)"
proof -
  let ?h = "header (bc_heap bc p)"
  obtain w where w: "calcBlockProof (c_bits cx) (bits ?h) = Inr w" "length w = 32" "bytes_val w = proof_val (bits ?h)"
    using calcBlockProof_val [of "bits ?h"] unfolding proof_val_def by blast
  define b0 where "b0 = (bc_heap bc p)\<lparr>chainWork := w, bi_maxTime := timestamp ?h, chainTransactionCount := transactionCount (bc_heap bc p)\<rparr>"
  show ?thesis
  proof (cases "previous (bc_heap bc p)")
    case None
    let ?bc = "put_index p b0 bc"
    have u: "updateBlockInfo cx p bc = Some (case bc_best ?bc of None \<Rightarrow> ?bc\<lparr>bc_best := Some p\<rparr>
      | Some m \<Rightarrow> if bn_greater (v_bn (c_val cx)) (chainWork b0) (chainWork (get_index ?bc m)) then ?bc\<lparr>bc_best := Some p\<rparr> else ?bc)"
      using None by (simp add: updateBlockInfo_def Let_def get_index_def w(1) b0_def cong: option.case_cong if_cong)
    have e: "entry_ok' ((bc_heap bc)(p := b0)) R p"
      using assms(3) None w(2,3) by (simp add: entry_ok'_def entry_linked_def b0_def)
    show ?thesis
      by (rule exI [of _ b0]) (simp add: u e b0_def [symmetric] same_rest_def get_index_def split: option.split, simp add: put_index_def b0_def)
  next
    case (Some q)
    then have q: "q \<in> R" "height (bc_heap bc p) = height (bc_heap bc q) + 1"
      "hash (header (bc_heap bc q)) = previousBlockHash ?h" "q \<noteq> p" "skip (bc_heap bc p) = None"
      using assms(2,3) by (auto simp: entry_linked_def)
    let ?v = "bc_heap bc q"
    define b1 where "b1 = b0\<lparr>chainTransactionCount := chainTransactionCount b0 + chainTransactionCount ?v,
                 chainWork := bn_add (v_bn (c_val cx)) (chainWork b0) (chainWork ?v),
                 bi_maxTime := (if bi_maxTime b0 < bi_maxTime ?v then bi_maxTime ?v else bi_maxTime b0)\<rparr>"
    let ?bc = "put_index p b1 (put_index p b0 bc)"
    have u: "updateBlockInfo cx p bc = Some (case bc_best ?bc of None \<Rightarrow> ?bc\<lparr>bc_best := Some p\<rparr>
      | Some m \<Rightarrow> if bn_greater (v_bn (c_val cx)) (chainWork b1) (chainWork (get_index ?bc m)) then ?bc\<lparr>bc_best := Some p\<rparr> else ?bc)"
      using Some q(4) unfolding updateBlockInfo_def Let_def get_index_def w(1)
      by (simp add: get_index_def b0_def b1_def cong: option.case_cong if_cong)
    have "length (chainWork ?v) = 32" using header_tree_parent(3) [OF assms(1) q(1)] .
    then have "length (chainWork b1) = 32" "bytes_val (chainWork b1) = (proof_val (bits ?h) + bytes_val (chainWork ?v)) mod 2 ^ 256"
      using add_val [of w "chainWork ?v"] w(2,3) by (simp_all add: b1_def b0_def)
    then have e: "entry_ok' ((bc_heap bc)(p := b1)) R p"
      using q Some by (simp add: entry_ok'_def b1_def b0_def)
    show ?thesis
      by (rule exI [of _ b1]) (simp add: u e same_rest_def get_index_def split: option.split, simp add: put_index_def b1_def b0_def)
  qed
qed

end

lemma raise_fields:
  assumes "b'\<lparr>status := s\<rparr> = b"
  shows "header b' = header b" "height b' = height b" "previous b' = previous b" "skip b' = skip b" "chainWork b' = chainWork b"
  by (simp_all flip: assms)

lemma valid_levels: "BLOCK_VALID_TREE AND NOT BLOCK_VALID_MASK = 0" "BLOCK_VALID_TRANSACTIONS AND NOT BLOCK_VALID_MASK = 0"
  by (simp_all add: BLOCK_VALID_TREE_def BLOCK_VALID_MASK_def BLOCK_VALID_HEADER_def BLOCK_VALID_TRANSACTIONS_def BLOCK_VALID_CHAIN_def
      BLOCK_VALID_SCRIPTS_def)

lemma raise_tree: "\<exists>f b'. raiseValidity BLOCK_VALID_TREE b = Some (f, b') \<and> b'\<lparr>status := status b\<rparr> = b"
  using raise_validity [OF valid_levels(1), of b] by blast

text \<open>The entry of the parent, if it is known: \<open>Some None\<close> when it is not, \<open>None\<close> when the index holds a null
  pointer for it.\<close>

definition parent_of :: "BlockHeader \<Rightarrow> ('d, 'f) BlockCache \<Rightarrow> bref option option" where
  "parent_of h bc = (if previousBlockHash h = uint256_null then Some None
     else case map_of (bc_blocks bc) (previousBlockHash h) of None \<Rightarrow> Some None | Some r \<Rightarrow> map_option Some r)"

lemma link_index_crash: "parent_of h bc = None \<Longrightarrow> previousBlockHash h \<noteq> hash h \<Longrightarrow> link_index h bc = None"
  by (auto simp: parent_of_def link_index_def Let_def update_conv' split: if_splits option.splits)

lemma link_index_entry:
  assumes "parent_of h bc = Some par" "previousBlockHash h \<noteq> hash h" "par \<noteq> Some (bc_next bc)"
  shows "\<exists>b. link_index h bc = Some (bc_next bc,
      put_index (bc_next bc) b (bc\<lparr>bc_next := bc_next bc + 1, bc_blocks := AList.update (hash h) (Some (bc_next bc)) (bc_blocks bc)\<rparr>)) \<and>
    header b = h \<and> skip b = None \<and> previous b = par \<and> height b = (case par of None \<Rightarrow> 0 | Some q \<Rightarrow> height (bc_heap bc q) + 1)"
proof -
  define b0 where "b0 = (case par of None \<Rightarrow> createBlockIndex h
    | Some q \<Rightarrow> (createBlockIndex h)\<lparr>previous := Some q, height := height (bc_heap bc q) + 1\<rparr>)"
  obtain f b where b: "raiseValidity BLOCK_VALID_TREE b0 = Some (f, b)" "b\<lparr>status := status b0\<rparr> = b0"
    using raise_tree [of b0] by blast
  have "link_index h bc = Some (bc_next bc,
      put_index (bc_next bc) b (bc\<lparr>bc_next := bc_next bc + 1, bc_blocks := AList.update (hash h) (Some (bc_next bc)) (bc_blocks bc)\<rparr>))"
  proof (cases par)
    case None
    then show ?thesis using assms(1,2) b(1)
      by (auto simp: parent_of_def link_index_def Let_def update_conv' b0_def get_index_def put_index_def split: if_splits option.splits)
  next
    case (Some q)
    then show ?thesis using assms b(1)
      by (auto simp: parent_of_def link_index_def Let_def update_conv' b0_def get_index_def put_index_def split: if_splits option.splits)
  qed
  moreover have "header b0 = h \<and> skip b0 = None \<and> previous b0 = par \<and> height b0 = (case par of None \<Rightarrow> 0 | Some q \<Rightarrow> height (bc_heap bc q) + 1)"
    by (simp add: b0_def createBlockIndex_def BlockIndex_new_def split: option.split)
  ultimately show ?thesis using raise_fields [OF b(2)] by auto
qed

lemma linked_same:
  assumes "linked H R n m" "same_links H H' R" "R \<subseteq> R'"
  shows "linked H' R' n m"
  unfolding linked_def
proof (intro conjI allI impI)
  show "n \<le> length m" using assms(1) by (simp add: linked_def)
  fix i q assume i: "i < n" "m ! i = Some q"
  then have q: "q \<in> R" "height (H q) = int i" "0 < i \<longrightarrow> m ! (i - 1) = previous (H q)" using assms(1) by (simp_all add: linked_def)
  then show "q \<in> R'" "height (H' q) = int i" using assms(2,3) by (auto simp: same_links_def)
  show "m ! (i - 1) = previous (H' q)" if "0 < i" using q assms(2) that by (simp add: same_links_def)
qed

lemma cache_okD:
  assumes "cache_ok bc"
  shows "header_tree (bc_heap bc) (refs bc)" "best_ok (bc_heap bc) (refs bc) (bc_best bc)"
    "linked (bc_heap bc) (refs bc) (length (bc_chain bc)) (bc_chain bc)" "tree_ok (bc_heap bc) (refs bc)"
    "map_of (bc_blocks bc) h = Some (Some p) \<Longrightarrow> p \<in> refs bc \<and> p < bc_next bc \<and> hash (header (bc_heap bc p)) = h"
    "p \<in> refs bc \<Longrightarrow> p < bc_next bc" "j \<in> set (bc_jobs bc) \<Longrightarrow> job_refs j \<subseteq> refs bc" "distinct (map fst (bc_blocks bc))"
    "roots_ok (bc_heap bc) (refs bc)"
  using assms header_tree_tree_ok unfolding cache_ok_def refs_def by blast+

text \<open>The empty cell the subscript operator makes for a new hash.\<close>

definition with_cell :: "uint256 \<Rightarrow> ('d, 'f) BlockCache \<Rightarrow> ('d, 'f) BlockCache" where
  "with_cell h bc = (if map_of (bc_blocks bc) h = None then bc\<lparr>bc_blocks := AList.update h None (bc_blocks bc)\<rparr> else bc)"

lemma bind_Some_map: "Option.bind x (\<lambda>y. Some (f y)) = map_option f x"
  by (cases x) simp_all

lemma with_cell_lookup: "map_of (bc_blocks (with_cell h bc)) k = (if k = h \<and> map_of (bc_blocks bc) h = None then Some None else map_of (bc_blocks bc) k)"
  by (simp add: with_cell_def update_conv')

lemma with_cell_fields [simp]:
  "bc_heap (with_cell h bc) = bc_heap bc" "bc_next (with_cell h bc) = bc_next bc" "bc_best (with_cell h bc) = bc_best bc"
  "bc_chain (with_cell h bc) = bc_chain bc" "bc_jobs (with_cell h bc) = bc_jobs bc" "bc_coins (with_cell h bc) = bc_coins bc"
  "bc_dirty (with_cell h bc) = bc_dirty bc" "bc_storage (with_cell h bc) = bc_storage bc"
  by (simp_all add: with_cell_def)

lemma with_cell_refs [simp]: "refs (with_cell h bc) = refs bc"
  by (auto simp: refs_def with_cell_lookup)

lemma with_cell_distinct: "distinct (map fst (bc_blocks bc)) \<Longrightarrow> distinct (map fst (bc_blocks (with_cell h bc)))"
  by (simp add: with_cell_def distinct_update)

lemma with_cell_ok: "cache_ok bc \<Longrightarrow> cache_ok (with_cell h bc)"
  unfolding cache_ok_def with_cell_refs with_cell_fields with_cell_lookup
  by (simp add: with_cell_distinct del: map_of_eq_Some_iff)

lemma same_links_fresh: "p \<notin> R \<Longrightarrow> same_links H (H(p := b)) R"
  by (auto simp: same_links_def)

lemma add_entry_ok:
  assumes ok: "cache_ok bc" and new: "\<And>q. map_of (bc_blocks bc) k \<noteq> Some (Some q)" and p: "p = bc_next bc"
    and heap: "bc_heap bc' = (bc_heap bc)(p := b)" and b: "hash (header b) = k" "entry_ok' (bc_heap bc') (refs bc) p" "0 \<le> height b"
    and rest: "bc_blocks bc' = AList.update k (Some p) (bc_blocks bc)" "bc_next bc' = p + 1" "bc_chain bc' = bc_chain bc" "bc_jobs bc' = bc_jobs bc"
    and best: "best_ok (bc_heap bc') (insert p (refs bc)) (bc_best bc')" and own: "previousBlockHash (header b) \<noteq> k"
    and root: "previous b = None \<Longrightarrow> previousBlockHash (header b) = uint256_null \<or>
      (\<forall>q \<in> refs bc. hash (header (bc_heap bc q)) \<noteq> previousBlockHash (header b))"
  shows "cache_ok bc' \<and> refs bc' = insert p (refs bc)"
proof -
  have np: "p \<notin> refs bc" using cache_okD(6) [OF ok, of p] p by blast
  have look: "map_of (bc_blocks bc') h = (if h = k then Some (Some p) else map_of (bc_blocks bc) h)" for h
    by (simp add: rest(1) update_conv')
  have "q \<in> refs bc' \<longleftrightarrow> q = p \<or> q \<in> refs bc" for q
  proof
    show "q = p \<or> q \<in> refs bc" if "q \<in> refs bc'" using that by (auto simp: refs_def look split: if_splits)
    assume "q = p \<or> q \<in> refs bc"
    then obtain h where "q = p \<and> h = k \<or> map_of (bc_blocks bc) h = Some (Some q)" by (auto simp: refs_def)
    then have "map_of (bc_blocks bc') h = Some (Some q)" using new [of q] by (auto simp: look)
    then show "q \<in> refs bc'" by (auto simp: refs_def)
  qed
  then have r: "refs bc' = insert p (refs bc)" by blast
  have tree: "header_tree (bc_heap bc') (insert p (refs bc))"
    unfolding heap by (rule header_tree_insert [OF cache_okD(1) [OF ok] np b(3) b(2) [unfolded heap]])
  have roots: "roots_ok (bc_heap bc') (insert p (refs bc))"
    unfolding heap by (rule roots_ok_insert [OF cache_okD(9) [OF ok]]) (use cache_okD(6) [OF ok] p b(1) own root in auto)
  have link: "linked (bc_heap bc') (insert p (refs bc)) (length (bc_chain bc')) (bc_chain bc')"
    unfolding heap rest by (rule linked_same [OF cache_okD(3) [OF ok] same_links_fresh [OF np] subset_insertI])
  have "q < bc_next bc' \<and> hash (header (bc_heap bc' q)) = h" if "map_of (bc_blocks bc') h = Some (Some q)" for h q
  proof (cases "h = k")
    case True
    then have "q = p" using that by (simp add: look)
    then show ?thesis using b(1) True by (simp add: heap rest)
  next
    case False
    then have "q < bc_next bc \<and> hash (header (bc_heap bc q)) = h" using that cache_okD(5) [OF ok, of h q] by (simp add: look)
    then show ?thesis by (simp add: heap rest p)
  qed
  moreover have "job_refs j \<subseteq> insert p (refs bc)" if "j \<in> set (bc_jobs bc')" for j
    using cache_okD(7) [OF ok, of j] that by (auto simp: rest)
  moreover have "distinct (map fst (bc_blocks bc'))" using cache_okD(8) [OF ok] by (simp add: rest(1) distinct_update)
  ultimately show ?thesis using tree roots link best unfolding cache_ok_def r by blast
qed

context cache_numbers
begin

lemma updateBlockInfo_best:
  assumes "best_ok H R best" "p \<notin> R" "entry_ok' (H(p := b)) R p" "\<forall>q \<in> R. length (chainWork (H q)) = 32"
  shows "best_ok (H(p := b)) (insert p R) (case best of None \<Rightarrow> Some p
       | Some m \<Rightarrow> if bn_greater (v_bn (c_val cx)) (chainWork b) (chainWork ((H(p := b)) m)) then Some p else Some m)"
proof (cases best)
  case None
  then show ?thesis using assms(1) by (simp add: best_ok_def)
next
  case (Some m)
  then have m: "m \<in> R" "m \<noteq> p" "\<And>q. q \<in> R \<Longrightarrow> bytes_val (chainWork (H q)) \<le> bytes_val (chainWork (H m))"
    using assms(1,2) by (auto simp: best_ok_def)
  have f: "(H(p := b)) q = H q" if "q \<in> R" for q using that assms(2) by auto
  have "length (chainWork b) = 32" using assms(3) by (simp add: entry_ok'_def)
  then have g: "bn_greater (v_bn (c_val cx)) (chainWork b) (chainWork (H m)) \<longleftrightarrow> bytes_val (chainWork b) > bytes_val (chainWork (H m))"
    using greater_val assms(4) m(1) by blast
  show ?thesis
  proof (cases "bytes_val (chainWork b) > bytes_val (chainWork (H m))")
    case True
    then have "bytes_val (chainWork ((H(p := b)) q)) \<le> bytes_val (chainWork b)" if "q \<in> R" for q
      using m(3) [OF that] f [OF that] by simp
    then show ?thesis using Some g True m(1,2) by (simp add: best_ok_def)
  next
    case False
    then have "bytes_val (chainWork ((H(p := b)) q)) \<le> bytes_val (chainWork (H m))" if "q \<in> R" for q
      using m(3) [OF that] f [OF that] by simp
    then show ?thesis using Some g False m(1,2) by (simp add: best_ok_def)
  qed
qed

text \<open>A header seen for the first time.\<close>

lemma addBlockIndex_new:
  assumes ok: "cache_ok bc" and h: "hash h \<noteq> uint256_null" "previousBlockHash h \<noteq> hash h"
    and new: "\<And>q. map_of (bc_blocks bc) (hash h) \<noteq> Some (Some q)" and pow: "validateBlockHeader (v_bn (c_val cx)) h"
    and par: "parent_of h bc = Some par"
  shows "\<exists>b bc'. addBlockIndex cx late h bc = map_option (\<lambda>x. (Some (bc_next bc), x)) (markDirtyBlock cx late (bc_next bc) bc') \<and>
    cache_ok bc' \<and> refs bc' = insert (bc_next bc) (refs bc) \<and> bc_heap bc' = (bc_heap bc)(bc_next bc := b) \<and> header b = h \<and>
    previous b = par \<and> bc_next bc' = bc_next bc + 1 \<and> bc_blocks bc' = AList.update (hash h) (Some (bc_next bc)) (bc_blocks (with_cell (hash h) bc)) \<and>
    bc_chain bc' = bc_chain bc \<and> bc_jobs bc' = bc_jobs bc \<and> bc_coins bc' = bc_coins bc \<and> bc_dirty bc' = bc_dirty bc"
proof -
  let ?p = "bc_next bc" and ?bc = "with_cell (hash h) bc"
  have okc: "cache_ok ?bc" using with_cell_ok [OF ok] .
  have np: "?p \<notin> refs bc" using cache_okD(6) [OF ok, of ?p] by blast
  have look: "map_of (bc_blocks ?bc) (previousBlockHash h) = map_of (bc_blocks bc) (previousBlockHash h)"
    using h(2) by (simp add: with_cell_lookup)
  have par': "parent_of h ?bc = Some par" using par unfolding parent_of_def look .
  have parent: "q \<in> refs bc \<and> hash (header (bc_heap bc q)) = previousBlockHash h" if "par = Some q" for q
    using par that cache_okD(5) [OF ok, of "previousBlockHash h" q] by (auto simp: parent_of_def split: if_splits option.splits)
  then have fresh: "par \<noteq> Some ?p" using np by blast
  obtain b where b: "link_index h ?bc = Some (?p,
      put_index ?p b (?bc\<lparr>bc_next := ?p + 1, bc_blocks := AList.update (hash h) (Some ?p) (bc_blocks ?bc)\<rparr>))"
    "header b = h" "skip b = None" "previous b = par" "height b = (case par of None \<Rightarrow> 0 | Some q \<Rightarrow> height (bc_heap bc q) + 1)"
    using link_index_entry [OF par' h(2)] fresh unfolding with_cell_fields by blast
  define bc1 where "bc1 = put_index ?p b (?bc\<lparr>bc_next := ?p + 1, bc_blocks := AList.update (hash h) (Some ?p) (bc_blocks ?bc)\<rparr>)"
  have heap1: "bc_heap bc1 = (bc_heap bc)(?p := b)" by (simp add: bc1_def)
  have tree1: "header_tree (bc_heap bc1) (refs bc)"
    unfolding heap1 by (rule header_tree_same [OF cache_okD(1) [OF ok] same_links_fresh [OF np]])
  have "entry_linked (bc_heap bc1) (refs bc) ?p"
    using b(2-5) parent fresh by (auto simp: entry_linked_def heap1 split: option.splits)
  then obtain b' bc' where u: "updateBlockInfo cx ?p bc1 = Some bc'" "bc_heap bc' = (bc_heap bc1)(?p := b')" "header b' = h"
    "previous b' = par" "height b' = height b" "entry_ok' ((bc_heap bc1)(?p := b')) (refs bc) ?p" "same_rest bc1 bc'"
    "bc_best bc' = (case bc_best bc1 of None \<Rightarrow> Some ?p
       | Some m \<Rightarrow> if bn_greater (v_bn (c_val cx)) (chainWork b') (chainWork (((bc_heap bc1)(?p := b')) m)) then Some ?p else Some m)"
    using updateBlockInfo_entry [OF tree1 np] b(2,4) heap1 by auto
  have best1: "bc_best bc1 = bc_best bc" by (simp add: bc1_def)
  have heap: "bc_heap bc' = (bc_heap bc)(?p := b')" by (simp add: u(2) heap1)
  have rest: "bc_blocks bc' = AList.update (hash h) (Some ?p) (bc_blocks ?bc)" "bc_next bc' = ?p + 1" "bc_chain bc' = bc_chain bc"
    "bc_jobs bc' = bc_jobs bc" "bc_coins bc' = bc_coins bc" "bc_dirty bc' = bc_dirty bc"
    using u(7) by (simp_all add: same_rest_def bc1_def put_index_def)
  have work: "\<forall>q \<in> refs bc. length (chainWork (bc_heap bc q)) = 32" using header_tree_parent(3) [OF cache_okD(1) [OF ok]] by blast
  have e: "entry_ok' ((bc_heap bc)(?p := b')) (refs bc) ?p" using u(6) by (simp add: heap1)
  have best: "best_ok (bc_heap bc') (insert ?p (refs bc)) (bc_best bc')"
    using updateBlockInfo_best [OF cache_okD(2) [OF ok] np e work] unfolding heap u(8) best1 heap1 fun_upd_upd .
  have nonneg: "0 \<le> height b'"
  proof (cases par)
    case (Some q)
    then have "0 \<le> height (bc_heap bc q)" using header_tree_parent(1) [OF cache_okD(1) [OF ok]] parent by blast
    then show ?thesis using u(5) b(5) Some by simp
  qed (use u(5) b(5) in simp)
  have new': "map_of (bc_blocks ?bc) (hash h) \<noteq> Some (Some q)" for q using new [of q] by (simp add: with_cell_lookup)
  have res: "cache_ok bc' \<and> refs bc' = insert ?p (refs ?bc)"
  proof (rule add_entry_ok [OF okc new', of ?p bc' b'])
    show "entry_ok' (bc_heap bc') (refs ?bc) ?p" using e heap by simp
    show "best_ok (bc_heap bc') (insert ?p (refs ?bc)) (bc_best bc')" using best by simp
    show "previousBlockHash (header b') = uint256_null \<or> (\<forall>q \<in> refs ?bc. hash (header (bc_heap ?bc q)) \<noteq> previousBlockHash (header b'))"
      if "previous b' = None"
    proof (cases "previousBlockHash h = uint256_null")
      case False
      have "par = None" using that u(4) by simp
      then have "map_of (bc_blocks bc) (previousBlockHash h) = None"
        using par False by (auto simp: parent_of_def split: option.splits)
      then have "hash (header (bc_heap bc q)) \<noteq> previousBlockHash h" if "q \<in> refs bc" for q
        using that cache_okD(5) [OF ok] unfolding refs_def by force
      then show ?thesis using u(3) by simp
    qed (use u(3) in simp)
  qed (use heap rest nonneg u(3) h(2) in simp_all)
  have "map_of (bc_blocks ?bc) (hash h) = Some None"
    using new by (cases "map_of (bc_blocks bc) (hash h)") (auto simp: with_cell_lookup)
  then have "addBlockIndex cx late h bc = map_option (\<lambda>x. (Some ?p, x)) (markDirtyBlock cx late ?p bc')"
    using h(1) pow b(1) u(1) unfolding addBlockIndex_def with_cell_def [symmetric] Let_def bc1_def
    by (simp add: bind_Some_map del: put_index_fields)
  then show ?thesis using res heap rest u(3,4) by auto
qed

end

section \<open>Every operation keeps the invariant\<close>

lemma cache_ok_same:
  assumes ok: "cache_ok bc" and links: "same_links (bc_heap bc) (bc_heap bc') (refs bc)"
    and same: "bc_blocks bc' = bc_blocks bc" "bc_next bc' = bc_next bc" "bc_best bc' = bc_best bc"
    and chain: "linked (bc_heap bc') (refs bc) (length (bc_chain bc')) (bc_chain bc')"
    and jobs: "\<forall>j \<in> set (bc_jobs bc'). job_refs j \<subseteq> refs bc"
  shows "cache_ok bc' \<and> refs bc' = refs bc"
proof -
  have r: "refs bc' = refs bc" by (simp add: refs_def same)
  have l: "chainWork (bc_heap bc' p) = chainWork (bc_heap bc p)" "header (bc_heap bc' p) = header (bc_heap bc p)" if "p \<in> refs bc" for p
    using links that by (simp_all add: same_links_def)
  have "best_ok (bc_heap bc') (refs bc) (bc_best bc)"
    using cache_okD(2) [OF ok] l(1) by (auto simp: best_ok_def split: option.splits)
  moreover have "p < bc_next bc \<and> hash (header (bc_heap bc' p)) = h" if "map_of (bc_blocks bc) h = Some (Some p)" for h p
    using cache_okD(5) [OF ok that] l(2) by simp
  ultimately show ?thesis
    using header_tree_same [OF cache_okD(1) [OF ok] links] roots_ok_same [OF cache_okD(9) [OF ok] links] cache_okD(8) [OF ok] chain jobs unfolding cache_ok_def r same by blast
qed

lemma linked_links:
  assumes "cache_ok bc" "same_links (bc_heap bc) H (refs bc)"
  shows "linked H (refs bc) (length (bc_chain bc)) (bc_chain bc)"
  using linked_same [OF cache_okD(3) [OF assms(1)] assms(2) order_refl] .

text \<open>An entry is changed in fields that do not place it.\<close>

lemma put_index_ok:
  assumes "cache_ok bc" "header b = header (bc_heap bc p)" "height b = height (bc_heap bc p)" "previous b = previous (bc_heap bc p)"
    "skip b = skip (bc_heap bc p)" "chainWork b = chainWork (bc_heap bc p)"
  shows "cache_ok (put_index p b bc) \<and> refs (put_index p b bc) = refs bc"
proof -
  have l: "same_links (bc_heap bc) (bc_heap (put_index p b bc)) (refs bc)" using assms(2-6) by (simp add: same_links_def)
  show ?thesis
    by (rule cache_ok_same [OF assms(1) l]) (use linked_links [OF assms(1) l] cache_okD(7) [OF assms(1)] in simp_all)
qed

lemma updateBlockIndex_ok:
  assumes "cache_ok bc" "updateBlockIndex p block bc = Some bc'"
  shows "cache_ok bc' \<and> refs bc' = refs bc"
  using assms(2) put_index_ok [OF assms(1)] by (auto simp: updateBlockIndex_def get_index_def Let_def split: bind_splits if_splits)

lemma saveBlock_ok:
  assumes "cache_ok bc" "saveBlock cx block p bc = Some bc'" "p \<in> refs bc"
  shows "cache_ok bc' \<and> refs bc' = refs bc"
proof -
  obtain pos data st where b: "bc' = bc\<lparr>bc_storage := st, bc_jobs := bc_jobs bc @ [WriteJob pos data block p]\<rparr>"
    using assms(2) by (auto simp: saveBlock_def split: bind_splits)
  show ?thesis
    by (rule cache_ok_same [OF assms(1)]) (use cache_okD(3,7) [OF assms(1)] assms(3) in \<open>auto simp: b\<close>)
qed

lemma coins_ok: "cache_ok bc \<Longrightarrow> cache_ok (bc\<lparr>bc_coins := cv\<rparr>) \<and> refs (bc\<lparr>bc_coins := cv\<rparr>) = refs bc"
  by (rule cache_ok_same) (simp_all add: cache_okD)

lemma updateCoins_ok:
  assumes ok: "cache_ok bc" and run: "updateCoins cx block p bc = Some (okay, bc')" and p: "p \<in> refs bc"
  shows "cache_ok bc' \<and> refs bc' = refs bc"
proof (cases okay)
  case False
  then obtain cv where "bc' = bc\<lparr>bc_coins := cv\<rparr>" using run by (auto simp: updateCoins_def split: bind_splits if_splits)
  then show ?thesis using coins_ok [OF ok] by simp
next
  case True
  then obtain ch cv where t: "chain_setTip (bc_heap bc) (bc_chain bc) (Some p) = Some ch" "bc' = bc\<lparr>bc_chain := ch, bc_coins := cv\<rparr>"
    using run by (auto simp: updateCoins_def split: bind_splits if_splits)
  note tree = cache_okD(4) [OF ok]
  have "ch = chain_of (bc_heap bc) p" using setTip_chain_of [OF tree p cache_okD(3) [OF ok]] t(1) by simp
  then have "linked (bc_heap bc') (refs bc) (length (bc_chain bc')) (bc_chain bc')" using linked_chain_of [OF tree p] t(2) by simp
  then show ?thesis
    by (intro cache_ok_same [OF ok]) (use cache_okD(7) [OF ok] t(2) in simp_all)
qed

lemma onBlockWritten_parts:
  assumes "onBlockWritten cx late block p pos bc = Some bc'"
  shows "\<exists>b bc1. markDirtyBlock cx late p (put_index p b bc) = Some bc1 \<and> updateCoins cx block p bc1 = Some (True, bc') \<and>
    header b = header (bc_heap bc p) \<and> height b = height (bc_heap bc p) \<and> previous b = previous (bc_heap bc p) \<and>
    skip b = skip (bc_heap bc p) \<and> chainWork b = chainWork (bc_heap bc p)"
proof -
  define b0 where "b0 = (setDiskPosition pos (get_index bc p))\<lparr>status := status (setDiskPosition pos (get_index bc p)) OR BLOCK_HAVE_DATA\<rparr>"
  obtain f b bc1 where b: "raiseValidity BLOCK_VALID_TRANSACTIONS b0 = Some (f, b)"
    "markDirtyBlock cx late p (put_index p b bc) = Some bc1" "updateCoins cx block p bc1 = Some (True, bc')"
    using assms by (auto simp: onBlockWritten_def Let_def b0_def split: bind_splits if_splits)
  have "b\<lparr>status := status b0\<rparr> = b0" using raise_validity [OF valid_levels(2), of b0] b(1) by auto
  from raise_fields [OF this] b(2,3) show ?thesis
    by (intro exI [of _ b] exI [of _ bc1]) (simp add: b0_def setDiskPosition_def get_index_def)
qed

lemma onBlockWritten_ok:
  assumes ok: "cache_ok bc" and run: "onBlockWritten cx late block p pos bc = Some bc'" and p: "p \<in> refs bc"
  shows "cache_ok bc' \<and> refs bc' = refs bc"
proof -
  obtain b bc1 where b: "markDirtyBlock cx late p (put_index p b bc) = Some bc1" "updateCoins cx block p bc1 = Some (True, bc')"
    "header b = header (bc_heap bc p)" "height b = height (bc_heap bc p)" "previous b = previous (bc_heap bc p)"
    "skip b = skip (bc_heap bc p)" "chainWork b = chainWork (bc_heap bc p)"
    using onBlockWritten_parts [OF run] by blast
  have "cache_ok (put_index p b bc) \<and> refs (put_index p b bc) = refs bc" using b by (intro put_index_ok [OF ok])
  moreover from this have "cache_ok bc1 \<and> refs bc1 = refs bc"
    using only_flushed_ok [OF _ markDirtyBlock_only [OF b(1)]] by simp
  ultimately show ?thesis using updateCoins_ok [OF _ b(2)] p by auto
qed

lemma run_disk_job_ok:
  assumes ok: "cache_ok bc" and run: "run_disk_job cx late bc = Some bc'"
  shows "cache_ok bc' \<and> refs bc' = refs bc"
proof (cases "bc_jobs bc")
  case Nil
  then show ?thesis using ok run by (simp add: run_disk_job_def)
next
  case (Cons j jobs)
  have j: "job_refs j \<subseteq> refs bc" "\<forall>x \<in> set jobs. job_refs x \<subseteq> refs bc" using cache_okD(7) [OF ok] Cons by auto
  have popped: "cache_ok x \<and> refs x = refs bc" if "bc_jobs x = jobs @ js" "\<forall>x \<in> set js. job_refs x \<subseteq> refs bc" "bc_heap x = bc_heap bc"
    "bc_blocks x = bc_blocks bc" "bc_next x = bc_next bc" "bc_best x = bc_best bc" "bc_chain x = bc_chain bc" for js x
    using cache_ok_same [OF ok, of x] cache_okD(3) [OF ok] j(2) that by auto
  have pop: "cache_ok (bc\<lparr>bc_jobs := jobs\<rparr>)" "refs (bc\<lparr>bc_jobs := jobs\<rparr>) = refs bc"
    using cache_ok_same [OF ok, of "bc\<lparr>bc_jobs := jobs\<rparr>"] cache_okD(3) [OF ok] j(2) by auto
  show ?thesis
  proof (cases j)
    case (WriteJob pos data block p)
    then obtain fs where "bc' = bc\<lparr>bc_files := fs, bc_jobs := jobs @ [SignalJob pos block p]\<rparr>"
      using run Cons by (auto simp: run_disk_job_def split: bind_splits)
    then show ?thesis using popped [of bc' "[SignalJob pos block p]"] j(1) WriteJob by simp
  next
    case (SignalJob pos block p)
    then have w: "onBlockWritten cx late block p pos (bc\<lparr>bc_jobs := jobs\<rparr>) = Some bc'" "p \<in> refs (bc\<lparr>bc_jobs := jobs\<rparr>)"
      using run Cons pop(2) j(1) by (simp_all add: run_disk_job_def)
    show ?thesis using onBlockWritten_ok [OF pop(1) w] pop(2) by blast
  next
    case (FlushJob items infos l)
    then obtain db where "bc' = bc\<lparr>bc_db := db, bc_jobs := jobs\<rparr>"
      using run Cons by (auto simp: run_disk_job_def split: bind_splits)
    then show ?thesis using popped [of bc' "[]"] by simp
  qed
qed

context cache_numbers
begin

lemma addBlockIndex_ok:
  assumes ok: "cache_ok bc" and h: "previousBlockHash h \<noteq> hash h" and run: "addBlockIndex cx late h bc = Some (r, bc')"
  shows "cache_ok bc' \<and> (\<forall>p. r = Some p \<longrightarrow> p \<in> refs bc' \<and> hash (header (bc_heap bc' p)) = hash h) \<and> refs bc \<subseteq> refs bc'"
proof (cases "\<exists>q. map_of (bc_blocks bc) (hash h) = Some (Some q)")
  case True
  then obtain q where q: "map_of (bc_blocks bc) (hash h) = Some (Some q)" by blast
  then have "r = Some q" "bc' = bc" using run by (simp_all add: addBlockIndex_def Let_def split: if_splits)
  then show ?thesis using ok cache_okD(5) [OF ok q] by simp
next
  case False
  then have new: "\<And>q. map_of (bc_blocks bc) (hash h) \<noteq> Some (Some q)" by blast
  have cell: "map_of (bc_blocks (with_cell (hash h) bc)) (hash h) = Some None"
    using new by (cases "map_of (bc_blocks bc) (hash h)") (auto simp: with_cell_lookup)
  have nz: "hash h \<noteq> uint256_null" using run by (auto simp: addBlockIndex_def split: if_splits)
  show ?thesis
  proof (cases "validateBlockHeader (v_bn (c_val cx)) h")
    case False
    then have "r = None" "bc' = with_cell (hash h) bc"
      using run cell nz unfolding addBlockIndex_def with_cell_def [symmetric] Let_def by simp_all
    then show ?thesis using with_cell_ok [OF ok] by simp
  next
    case True
    show ?thesis
    proof (cases "parent_of h bc")
      case None
      have "map_of (bc_blocks (with_cell (hash h) bc)) (previousBlockHash h) = map_of (bc_blocks bc) (previousBlockHash h)"
        using h by (simp add: with_cell_lookup)
      then have "parent_of h (with_cell (hash h) bc) = None" using None by (simp only: parent_of_def)
      from link_index_crash [OF this h] show ?thesis
        using run cell nz True unfolding addBlockIndex_def with_cell_def [symmetric] Let_def by simp
    next
      case (Some par)
      from addBlockIndex_new [OF ok nz h new True Some, of late] obtain b bc1 where
        a: "addBlockIndex cx late h bc = map_option (\<lambda>x. (Some (bc_next bc), x)) (markDirtyBlock cx late (bc_next bc) bc1)"
        "cache_ok bc1" "refs bc1 = insert (bc_next bc) (refs bc)" "bc_heap bc1 = (bc_heap bc)(bc_next bc := b)" "header b = h" by blast
      then have "map_option (\<lambda>x. (Some (bc_next bc), x)) (markDirtyBlock cx late (bc_next bc) bc1) = Some (r, bc')"
        using run by simp
      then have m: "markDirtyBlock cx late (bc_next bc) bc1 = Some bc'" "r = Some (bc_next bc)"
        by (auto simp only: map_option_eq_Some prod.inject)
      note o = markDirtyBlock_only [OF m(1)]
      then have "refs bc' = refs bc1" "bc_heap bc' = bc_heap bc1" by (simp_all add: only_flushed_def refs_def)
      then show ?thesis using only_flushed_ok [OF a(2) o] a(3-5) m(2) by auto
    qed
  qed
qed

lemma addBlock_ok:
  assumes ok: "cache_ok bc" and h: "previousBlockHash (blk_header block) \<noteq> hash (blk_header block)"
    and run: "addBlock cx late block bc = Some (r, bc')"
  shows "cache_ok bc' \<and> refs bc \<subseteq> refs bc'"
proof -
  obtain p bc1 where a: "addBlockIndex cx late (blk_header block) bc = Some (Some p, bc1)"
    using run by (auto simp: addBlock_def split: bind_splits)
  note o = addBlockIndex_ok [OF ok h a]
  show ?thesis
  proof (cases "validateBlock block (get_index bc1 p)")
    case False
    then show ?thesis using run a o by (auto simp: addBlock_def split: bind_splits if_splits)
  next
    case True
    then obtain bc2 where "updateBlockIndex p block bc1 = Some bc2" "saveBlock cx block p bc2 = Some bc'"
      using run a by (auto simp: addBlock_def split: bind_splits if_splits)
    then show ?thesis using o updateBlockIndex_ok saveBlock_ok by metis
  qed
qed

end

section \<open>The coins of a block\<close>

















section \<open>The queue of the disk service\<close>

fun job_weight :: "disk_job \<Rightarrow> nat" where
  "job_weight (WriteJob pos data block p) = 3"
| "job_weight (SignalJob pos block p) = 2"
| "job_weight (FlushJob items infos l) = 1"

definition queue_weight :: "('d, 'f) BlockCache \<Rightarrow> nat" where
  "queue_weight bc = sum_list (map job_weight (bc_jobs bc))"

text \<open>The disk service runs on its own, job after job; the times of the flushes are given.\<close>

fun run_disk_jobs :: "('d, 's, 'k, 'g, 'f) cache_context \<Rightarrow> bool list \<Rightarrow> ('d, 'f) BlockCache \<Rightarrow> ('d, 'f) BlockCache option" where
  "run_disk_jobs cx [] bc = Some bc"
| "run_disk_jobs cx (late # ls) bc = do { bc \<leftarrow> run_disk_job cx late bc; run_disk_jobs cx ls bc }"

lemma updateCoins_jobs: "updateCoins cx block p bc = Some (okay, bc') \<Longrightarrow> bc_jobs bc' = bc_jobs bc"
  by (auto simp: updateCoins_def split: bind_splits if_splits)

lemma run_disk_job_weight:
  assumes "run_disk_job cx late bc = Some bc'" "bc_jobs bc \<noteq> []"
  shows "queue_weight bc' < queue_weight bc"
proof -
  obtain j jobs where Cons: "bc_jobs bc = j # jobs" using assms(2) by (cases "bc_jobs bc") auto
  show ?thesis
  proof (cases j)
    case (WriteJob pos data block p)
    then show ?thesis using assms(1) Cons by (auto simp: run_disk_job_def queue_weight_def split: bind_splits)
  next
    case (SignalJob pos block p)
    then have w: "onBlockWritten cx late block p pos (bc\<lparr>bc_jobs := jobs\<rparr>) = Some bc'" using assms(1) Cons by (simp add: run_disk_job_def)
    obtain b bc1 where b: "markDirtyBlock cx late p (put_index p b (bc\<lparr>bc_jobs := jobs\<rparr>)) = Some bc1" "updateCoins cx block p bc1 = Some (True, bc')"
      using onBlockWritten_parts [OF w] by blast
    have "bc_jobs bc1 = jobs \<or> (\<exists>items infos l. bc_jobs bc1 = jobs @ [FlushJob items infos l])"
      using markDirtyBlock_only [OF b(1)] by (auto simp: only_flushed_def)
    then show ?thesis using Cons SignalJob updateCoins_jobs [OF b(2)] by (auto simp: queue_weight_def)
  next
    case (FlushJob items infos l)
    then show ?thesis using assms(1) Cons by (auto simp: run_disk_job_def queue_weight_def split: bind_splits)
  qed
qed

lemma run_disk_jobs_drain:
  "run_disk_jobs cx ls bc = Some bc' \<Longrightarrow> queue_weight bc \<le> length ls \<Longrightarrow> bc_jobs bc' = []"
proof (induction ls arbitrary: bc)
  case Nil
  then have "sum_list (map job_weight (bc_jobs bc)) = 0" "bc' = bc" by (simp_all add: queue_weight_def)
  moreover have "job_weight j \<noteq> 0" for j by (cases j) simp_all
  ultimately show ?case by (cases "bc_jobs bc") simp_all
next
  case (Cons late ls)
  then obtain bc1 where r: "run_disk_job cx late bc = Some bc1" "run_disk_jobs cx ls bc1 = Some bc'" by (auto split: bind_splits)
  have "queue_weight bc1 \<le> length ls"
  proof (cases "bc_jobs bc = []")
    case True
    then show ?thesis using r(1) by (auto simp: run_disk_job_def queue_weight_def)
  next
    case False
    then show ?thesis using run_disk_job_weight [OF r(1) False] Cons.prems(2) by simp
  qed
  from Cons.IH [OF r(2) this] show ?case .
qed

section \<open>Connecting a block in any state\<close>






section \<open>Runs of the cache\<close>

text \<open>Headers and blocks arrive in any order while the disk service works in between; no header names itself as
  its parent.\<close>

inductive cache_run :: "('d, 's, 'k, 'g, 'f) cache_context \<Rightarrow> ('d, 'f) BlockCache \<Rightarrow> ('d, 'f) BlockCache \<Rightarrow> bool" for cx bc where
  run_new: "cache_run cx bc bc"
| run_header: "cache_run cx bc bc1 \<Longrightarrow> previousBlockHash h \<noteq> hash h \<Longrightarrow> addBlockIndex cx late h bc1 = Some (r, bc2) \<Longrightarrow> cache_run cx bc bc2"
| run_block: "cache_run cx bc bc1 \<Longrightarrow> previousBlockHash (blk_header block) \<noteq> hash (blk_header block) \<Longrightarrow>
    addBlock cx late block bc1 = Some (r, bc2) \<Longrightarrow> cache_run cx bc bc2"
| run_disk: "cache_run cx bc bc1 \<Longrightarrow> run_disk_job cx late bc1 = Some bc2 \<Longrightarrow> cache_run cx bc bc2"

section \<open>A concrete cache\<close>

definition easy_header :: "byte \<Rightarrow> uint256 \<Rightarrow> BlockHeader" where
  "easy_header k prev = BlockHeader_new\<lparr>bits := 0x1d00ffff, hash := k # replicate 31 0, previousBlockHash := prev\<rparr>"

definition bad_header :: "byte \<Rightarrow> BlockHeader" where
  "bad_header k = (easy_header k uint256_null)\<lparr>bits := 0\<rparr>"

definition plain_cache :: "((bytes \<times> bytes) list, bytes \<times> bool, bytes, bytes, int \<Rightarrow> bytes option) cache_context" where
  "plain_cache = \<lparr>c_val = plain_validator, c_bits = le_converter, c_index = le_db, c_disk = plain_disk,
     genesisBlock = \<lparr>blk_header = easy_header 1 uint256_null, transactions = [coinbase_tx 50]\<rparr>\<rparr>"

definition cache0 :: "((bytes \<times> bytes) list, int \<Rightarrow> bytes option) BlockCache" where
  "cache0 = BlockCache_new (\<lambda>p. BlockIndex_new) view0 (ObjectDB_new True []) (\<lambda>i. None)"

lemma plain_cache_simps [simp]: "c_val plain_cache = plain_validator" "c_bits plain_cache = le_converter"
  by (simp_all add: plain_cache_def)

interpretation plc: cache_numbers plain_cache
  by (simp add: cache_numbers_def lec.little_endian_axioms lbn.big_number_axioms)

lemma easy_header_simps [simp]:
  "hash (easy_header k prev) = k # replicate 31 0" "previousBlockHash (easy_header k prev) = prev"
  "hash (bad_header k) = k # replicate 31 0" "bits (bad_header k) = 0"
  by (simp_all add: easy_header_def bad_header_def)

lemma easy_hash_null [simp]: "k # replicate 31 0 = uint256_null \<longleftrightarrow> k = 0" "uint256_null = k # replicate 31 0 \<longleftrightarrow> k = 0"
proof -
  have "replicate 32 (0 :: byte) = 0 # replicate 31 0" by (simp add: numeral_eq_Suc)
  then show "k # replicate 31 0 = uint256_null \<longleftrightarrow> k = 0" "uint256_null = k # replicate 31 0 \<longleftrightarrow> k = 0"
    by (auto simp only: uint256_null_def list.inject)
qed

lemma easy_header_valid: "validateBlockHeader limb_big_number (easy_header k prev)"
proof -
  have v: "compact_val 0x1d00ffff = 0xffff * 256 ^ 26"
    by (simp add: compact_val_def compact_exponent_def compact_mantissa_def)
  have "\<not> bit (0x1d00ffff :: u32) 23" by (simp only: sign_bit [symmetric]) simp
  moreover have "uint k < 2 ^ 8" using uint_less_exp [of k] by simp
  ultimately show ?thesis
    unfolding validateBlockHeader_def checkProofOfWork_exact [OF lbn.big_number_axioms, of "easy_header k prev", simplified]
    by (simp add: easy_header_def v)
qed

lemma bad_header_invalid: "\<not> validateBlockHeader limb_big_number (bad_header k)"
  unfolding validateBlockHeader_def checkProofOfWork_exact [OF lbn.big_number_axioms, of "bad_header k", simplified]
  by (simp add: compact_val_def compact_mantissa_def Let_def)

lemma cache0_fields [simp]:
  "bc_blocks cache0 = []" "bc_next cache0 = 0" "bc_best cache0 = None" "bc_chain cache0 = []" "bc_jobs cache0 = []" "bc_coins cache0 = view0"
  "bc_dirty cache0 = []" "refs cache0 = {}"
  by (simp_all add: cache0_def BlockCache_new_def refs_def)

lemma cache0_ok: "cache_ok cache0"
  by (simp add: cache_ok_def header_tree_def roots_ok_def best_ok_def linked_def)

lemma markDirtyBlock_runs:
  assumes "hash (header (bc_heap bc p)) \<noteq> uint256_null" "length (bc_dirty bc) < 99999"
  shows "\<exists>d. markDirtyBlock cx False p bc = Some (bc\<lparr>bc_dirty := d\<rparr>) \<and> length d \<le> length (bc_dirty bc) + 1"
proof -
  let ?d = "AList.update (hash (header (bc_heap bc p))) p (bc_dirty bc)"
  have "length (AList.update k p d) \<le> length d + 1" for k and d :: "(uint256 \<times> bref) list" by (induction d) auto
  from this [of "hash (header (bc_heap bc p))" "bc_dirty bc"] show ?thesis
    using assms by (intro exI [of _ ?d]) (simp add: markDirtyBlock_def checkFlush_def get_index_def index_getHash_def)
qed

lemma new_header:
  assumes ok: "cache_ok bc" and k: "k \<noteq> 0" "prev \<noteq> k # replicate 31 0" and new: "map_of (bc_blocks bc) (k # replicate 31 0) = None"
    and par: "parent_of (easy_header k prev) bc = Some par" and dirty: "length (bc_dirty bc) < 99999"
  shows "\<exists>bc'. addBlockIndex plain_cache False (easy_header k prev) bc = Some (Some (bc_next bc), bc') \<and> cache_ok bc' \<and>
    refs bc' = insert (bc_next bc) (refs bc) \<and> header (bc_heap bc' (bc_next bc)) = easy_header k prev \<and> previous (bc_heap bc' (bc_next bc)) = par \<and>
    map_of (bc_blocks bc') = (map_of (bc_blocks bc))(k # replicate 31 0 \<mapsto> Some (bc_next bc)) \<and> bc_next bc' = bc_next bc + 1 \<and>
    (\<forall>q. q \<noteq> bc_next bc \<longrightarrow> bc_heap bc' q = bc_heap bc q) \<and> bc_chain bc' = bc_chain bc \<and> bc_jobs bc' = bc_jobs bc \<and> bc_coins bc' = bc_coins bc \<and> length (bc_dirty bc') \<le> length (bc_dirty bc) + 1"
proof -
  let ?h = "easy_header k prev" and ?p = "bc_next bc"
  obtain b bc1 where a: "addBlockIndex plain_cache False ?h bc = map_option (\<lambda>x. (Some ?p, x)) (markDirtyBlock plain_cache False ?p bc1)"
    "cache_ok bc1" "refs bc1 = insert ?p (refs bc)" "bc_heap bc1 = (bc_heap bc)(?p := b)" "header b = ?h" "previous b = par"
    "bc_next bc1 = ?p + 1" "bc_blocks bc1 = AList.update (hash ?h) (Some ?p) (bc_blocks (with_cell (hash ?h) bc))"
    "bc_chain bc1 = bc_chain bc" "bc_jobs bc1 = bc_jobs bc" "bc_coins bc1 = bc_coins bc" "bc_dirty bc1 = bc_dirty bc"
    using plc.addBlockIndex_new [OF ok, of ?h par False] k new par easy_header_valid by auto
  obtain d where d: "markDirtyBlock plain_cache False ?p bc1 = Some (bc1\<lparr>bc_dirty := d\<rparr>)" "length d \<le> length (bc_dirty bc1) + 1"
    using markDirtyBlock_runs [of bc1 ?p plain_cache] a(4,5,12) k(1) dirty by auto
  have "map_of (bc_blocks bc1) = (map_of (bc_blocks bc))(k # replicate 31 0 \<mapsto> Some ?p)"
    by (auto simp: fun_eq_iff a(8) update_conv' with_cell_lookup)
  moreover have "cache_ok (bc1\<lparr>bc_dirty := d\<rparr>) \<and> refs (bc1\<lparr>bc_dirty := d\<rparr>) = refs bc1"
    by (rule cache_ok_same [OF a(2)]) (simp_all add: cache_okD [OF a(2)])
  ultimately show ?thesis using a d by simp
qed

text \<open>A header and a child of it.\<close>

lemma first_header:
  "\<exists>bc. addBlockIndex plain_cache False (easy_header 1 uint256_null) cache0 = Some (Some 0, bc) \<and> cache_ok bc \<and> refs bc = {0} \<and>
     previous (bc_heap bc 0) = None \<and> map_of (bc_blocks bc) = [1 # replicate 31 0 \<mapsto> Some 0] \<and> bc_next bc = 1 \<and>
     bc_jobs bc = [] \<and> bc_coins bc = view0 \<and> length (bc_dirty bc) \<le> 1"
proof -
  have par: "parent_of (easy_header 1 uint256_null) cache0 = Some None" by (simp add: parent_of_def)
  have "map_of (bc_blocks cache0) (1 # replicate 31 0) = None" "length (bc_dirty cache0) < 99999" by simp_all
  note h = new_header [OF cache0_ok _ _ this(1) par this(2)]
  obtain bc where "addBlockIndex plain_cache False (easy_header 1 uint256_null) cache0 = Some (Some (bc_next cache0), bc)" "cache_ok bc"
    "refs bc = insert (bc_next cache0) (refs cache0)" "previous (bc_heap bc (bc_next cache0)) = None"
    "map_of (bc_blocks bc) = (map_of (bc_blocks cache0))(1 # replicate 31 0 \<mapsto> Some (bc_next cache0))" "bc_next bc = bc_next cache0 + 1"
    "bc_jobs bc = bc_jobs cache0" "bc_coins bc = bc_coins cache0" "length (bc_dirty bc) \<le> length (bc_dirty cache0) + 1"
    using h by (auto simp only: easy_hash_null one_neq_zero not_False_eq_True)
  then show ?thesis unfolding cache0_fields by (intro exI [of _ bc]) simp
qed

lemma two_headers:
  "\<exists>bc1 bc2. addBlockIndex plain_cache False (easy_header 1 uint256_null) cache0 = Some (Some 0, bc1) \<and>
     addBlockIndex plain_cache False (easy_header 2 (1 # replicate 31 0)) bc1 = Some (Some 1, bc2) \<and> cache_ok bc2 \<and> refs bc2 = {1, 0} \<and>
     height (bc_heap bc2 1) = 1 \<and> header (bc_heap bc2 1) = easy_header 2 (1 # replicate 31 0) \<and>
     bc_jobs bc2 = [] \<and> bc_coins bc2 = view0 \<and> length (bc_dirty bc2) \<le> 2"
proof -
  obtain bc1 where bc1: "addBlockIndex plain_cache False (easy_header 1 uint256_null) cache0 = Some (Some 0, bc1)" "cache_ok bc1"
    "refs bc1 = {0}" "previous (bc_heap bc1 0) = None" "map_of (bc_blocks bc1) = [1 # replicate 31 0 \<mapsto> Some 0]" "bc_next bc1 = 1"
    "bc_jobs bc1 = []" "bc_coins bc1 = view0" "length (bc_dirty bc1) \<le> 1"
    using first_header by blast
  have par: "parent_of (easy_header 2 (1 # replicate 31 0)) bc1 = Some (Some 0)" by (simp add: parent_of_def bc1(5))
  have "map_of (bc_blocks bc1) (2 # replicate 31 0) = None" "length (bc_dirty bc1) < 99999" using bc1(9) by (simp_all add: bc1(5))
  from new_header [OF bc1(2) _ _ this(1) par this(2)]
  obtain bc2 where bc2: "addBlockIndex plain_cache False (easy_header 2 (1 # replicate 31 0)) bc1 = Some (Some (bc_next bc1), bc2)" "cache_ok bc2"
    "refs bc2 = insert (bc_next bc1) (refs bc1)" "header (bc_heap bc2 (bc_next bc1)) = easy_header 2 (1 # replicate 31 0)"
    "previous (bc_heap bc2 (bc_next bc1)) = Some 0" "\<forall>q. q \<noteq> bc_next bc1 \<longrightarrow> bc_heap bc2 q = bc_heap bc1 q"
    "bc_jobs bc2 = bc_jobs bc1" "bc_coins bc2 = bc_coins bc1" "length (bc_dirty bc2) \<le> length (bc_dirty bc1) + 1" by auto
  note tree = header_tree_parent [OF cache_okD(1) [OF bc2(2)]]
  have "bc_heap bc2 0 = bc_heap bc1 0" using bc2(6) bc1(6) by simp
  then have "height (bc_heap bc2 0) = 0" using tree(4) [of 0] bc1(4) bc2(3) bc1(3) by simp
  then have "height (bc_heap bc2 1) = 1" using tree(5) [of 1 0] bc2(3,5) bc1(3,6) by simp
  then show ?thesis using bc1 bc2 by (intro exI [of _ bc1] exI [of _ bc2]) simp
qed




section \<open>Properties\<close>

text \<open>C4: whatever headers and blocks arrive, in whatever order, and however the disk service's jobs fall between
  them, as long as no assertion fails, the index stays a forest: an entry whose parent was in the index when it came
  is linked to it and one above it; an entry is a root, of height 0, only when its header names no parent or the parent it
  names came after it, if at all (such an entry is never linked later). Every entry holds the work of its ancestors and its
  own, modulo 2^256, the best header has the most work, the active chain is linked through that forest, and the
  jobs that wait refer to entries of the index. No header names itself as its parent.\<close>

theorem cache_invariant:
  assumes "little_endian (c_bits cx)" "big_number (v_bn (c_val cx))" "cache_ok bc" "cache_run cx bc bc'"
  shows "cache_ok bc'"
  using assms(4)
proof (induction rule: cache_run.induct)
  case run_new
  then show ?case by (rule assms(3))
next
  case (run_header bc1 h late r bc2)
  have "cache_numbers cx" by (simp add: cache_numbers_def assms)
  from cache_numbers.addBlockIndex_ok [OF this run_header(4,2,3)] show ?case by blast
next
  case (run_block bc1 block late r bc2)
  have "cache_numbers cx" by (simp add: cache_numbers_def assms)
  from cache_numbers.addBlock_ok [OF this run_block(4,2,3)] show ?case ..
next
  case (run_disk bc1 late bc2)
  then show ?case using run_disk_job_ok by blast
qed

theorem cache_invariant_witness: "\<exists>bc. cache_run plain_cache cache0 bc \<and> refs bc = {1, 0} \<and> cache_ok bc"
proof -
  obtain bc1 bc2 where h: "addBlockIndex plain_cache False (easy_header 1 uint256_null) cache0 = Some (Some 0, bc1)"
    "addBlockIndex plain_cache False (easy_header 2 (1 # replicate 31 0)) bc1 = Some (Some 1, bc2)" "refs bc2 = {1, 0}"
    using two_headers by blast
  have "cache_run plain_cache cache0 bc1" by (rule run_header [OF run_new _ h(1)]) simp
  then have "cache_run plain_cache cache0 bc2" by (rule run_header [OF _ _ h(2)]) simp
  from cache_invariant [OF _ _ cache0_ok this] h(3) \<open>cache_run plain_cache cache0 bc2\<close> show ?thesis
    by (auto simp: lec.little_endian_axioms lbn.big_number_axioms)
qed

text \<open>C15: a header that fails its proof of work leaves a null pointer in the index: a valid header that names it
  as its parent then ends the process.\<close>

theorem null_header_crash:
  assumes "hash h \<noteq> uint256_null" "map_of (bc_blocks bc) (hash h) = None" "\<not> validateBlockHeader (v_bn (c_val cx)) h"
    and "hash c \<noteq> uint256_null" "map_of (bc_blocks bc) (hash c) = None" "validateBlockHeader (v_bn (c_val cx)) c"
    and "previousBlockHash c = hash h" "hash c \<noteq> hash h"
  shows "\<exists>bc'. addBlockIndex cx late h bc = Some (None, bc') \<and> addBlockIndex cx late c bc' = None"
proof -
  let ?bc = "with_cell (hash h) bc"
  have "addBlockIndex cx late h bc = Some (None, ?bc)"
    using assms(1-3) unfolding addBlockIndex_def with_cell_def [symmetric] Let_def by (simp add: with_cell_lookup)
  moreover have "parent_of c (with_cell (hash c) ?bc) = None" using assms by (simp add: parent_of_def with_cell_lookup)
  from link_index_crash [OF this] have "link_index c (with_cell (hash c) ?bc) = None" using assms(7,8) by auto
  then have "addBlockIndex cx late c ?bc = None"
    using assms(4-6,8) unfolding addBlockIndex_def with_cell_def [symmetric] Let_def by (simp add: with_cell_lookup)
  ultimately show ?thesis by blast
qed

theorem null_header_crash_witness:
  "\<exists>bc. addBlockIndex plain_cache False (bad_header 1) cache0 = Some (None, bc) \<and>
     addBlockIndex plain_cache False (easy_header 2 (1 # replicate 31 0)) bc = None"
  by (rule null_header_crash) (simp_all add: easy_header_valid bad_header_invalid)



text \<open>C23: the queue of the disk service drains: with no new headers or blocks, three jobs for every write, two for
  every signal and one for every flush that waits are enough, though the blocks written on the way queue
  further flushes.\<close>

theorem disk_queue_drains:
  assumes "run_disk_jobs cx ls bc = Some bc'" "queue_weight bc \<le> length ls"
  shows "bc_jobs bc' = []"
  by (rule run_disk_jobs_drain [OF assms])

theorem disk_queue_drains_witness:
  "\<exists>bc'. run_disk_jobs plain_cache [False] (cache0\<lparr>bc_jobs := [FlushJob [] [] 0]\<rparr>) = Some bc' \<and> bc_jobs bc' = []"
proof -
  obtain okay db where "batch_execute (store (c_index plain_cache)) [] (bc_db cache0) = (okay, db)" by fastforce
  then have r: "run_disk_jobs plain_cache [False] (cache0\<lparr>bc_jobs := [FlushJob [] [] 0]\<rparr>) = Some (cache0\<lparr>bc_db := db, bc_jobs := []\<rparr>)"
    by (simp add: run_disk_job_def writeBlocks_def)
  from disk_queue_drains [OF r] show ?thesis using r by (simp add: queue_weight_def)
qed

end
