(* ===== verification/NodeSync.thy ===== *)
theory NodeSync
  imports BlockCache
begin

text \<open>
  \<open>net/NodeSyncInfo.hpp\<close> and its functions in \<open>net/BlockSynchronizer.cpp\<close>: what is known of the blocks of a
  peer, and which of them to ask it for next. A fork is found through the entries of the index; the blocks
  asked for are kept until they arrive. \<open>None\<close> is a failed assertion or a null pointer that is followed.
\<close>

section \<open>State\<close>

record NodeSyncInfo =
  bestKnownBlock :: "bref option"
  lastUnknownBlockHash :: uint256
  lastCommonBlock :: "bref option"
  lastDownloadBlock :: "bref option"
  requestingBlocks :: "(uint256 \<times> bref) list"

definition NodeSyncInfo_new :: NodeSyncInfo where
  "NodeSyncInfo_new = \<lparr>bestKnownBlock = None, lastUnknownBlockHash = uint256_null, lastCommonBlock = None,
     lastDownloadBlock = None, requestingBlocks = []\<rparr>"

definition BLOCK_DOWNLOAD_WINDOW :: int where "BLOCK_DOWNLOAD_WINDOW = 1024"

text \<open>The comparison of numbers: \<open>x >= y\<close> is that \<open>y\<close> is not greater.\<close>

definition bn_geq :: "big_number_ops \<Rightarrow> uint256 \<Rightarrow> uint256 \<Rightarrow> bool" where
  "bn_geq bn x y \<longleftrightarrow> \<not> bn_greater bn y x"

section \<open>What a peer has\<close>

text \<open>An entry with work is the best known block unless the one known has more.\<close>

definition better_known :: "big_number_ops \<Rightarrow> index_heap \<Rightarrow> bref \<Rightarrow> NodeSyncInfo \<Rightarrow> NodeSyncInfo" where
  "better_known bn H p si =
     (case bestKnownBlock si of
        None \<Rightarrow> si\<lparr>bestKnownBlock := Some p\<rparr>
      | Some b \<Rightarrow> if bn_geq bn (chainWork (H p)) (chainWork (H b)) then si\<lparr>bestKnownBlock := Some p\<rparr> else si)"

definition processBlockAvailability :: "big_number_ops \<Rightarrow> ('d, 'f) BlockCache \<Rightarrow> NodeSyncInfo \<Rightarrow> NodeSyncInfo" where
  "processBlockAvailability bn bc si =
     (if lastUnknownBlockHash si = uint256_null then si
      else case getBlockIndex (lastUnknownBlockHash si) bc of
          None \<Rightarrow> si
        | Some p \<Rightarrow>
            if bn_is_null bn (chainWork (get_index bc p)) then si
            else (better_known bn (bc_heap bc) p si)\<lparr>lastUnknownBlockHash := uint256_null\<rparr>)"

definition updateBlockAvailability :: "big_number_ops \<Rightarrow> uint256 \<Rightarrow> bref option \<Rightarrow> ('d, 'f) BlockCache \<Rightarrow> NodeSyncInfo \<Rightarrow> NodeSyncInfo" where
  "updateBlockAvailability bn h block bc si =
     (let si = processBlockAvailability bn bc si
      in case block of
           None \<Rightarrow> si\<lparr>lastUnknownBlockHash := h\<rparr>
         | Some p \<Rightarrow> if bn_is_null bn (chainWork (get_index bc p)) then si\<lparr>lastUnknownBlockHash := h\<rparr>
                    else better_known bn (bc_heap bc) p si)"

section \<open>The next blocks to ask for\<close>

text \<open>The entries from the last one backwards, in the order of the vector.\<close>

fun fill_back :: "index_heap \<Rightarrow> nat \<Rightarrow> bref \<Rightarrow> bref list option" where
  "fill_back H 0 p = Some []"
| "fill_back H (Suc 0) p = Some [p]"
| "fill_back H (Suc (Suc n)) p = do { q \<leftarrow> previous (H p); ps \<leftarrow> fill_back H (Suc n) q; Some (ps @ [p]) }"

definition findBlocksToDownload :: "big_number_ops \<Rightarrow> uint256 \<Rightarrow> int \<Rightarrow> ('d, 'f) BlockCache \<Rightarrow> NodeSyncInfo \<Rightarrow> (bref list \<times> NodeSyncInfo) option" where
  "findBlocksToDownload bn minimumChainWork cnt bc si =
     (let si = processBlockAvailability bn bc si; H = bc_heap bc
      in case bestKnownBlock si of
           None \<Rightarrow> Some ([], si)
         | Some best \<Rightarrow> do {
             tip \<leftarrow> chain_getTip (bc_chain bc);
             tip \<leftarrow> tip;
             if bn_greater bn (chainWork (H tip)) (chainWork (H best)) \<or> bn_greater bn minimumChainWork (chainWork (H best))
             then Some ([], si)
             else do {
               common \<leftarrow> (case lastCommonBlock si of
                   Some c \<Rightarrow> Some (Some c)
                 | None \<Rightarrow> do { ht \<leftarrow> chain_getHeight (bc_chain bc); Some (chain_getBlock (bc_chain bc) (min (height (H best)) ht)) });
               c \<leftarrow> common;
               common \<leftarrow> findLastCommonAncestor H c best;
               let si = si\<lparr>lastCommonBlock := common\<rparr>;
               if common = Some best then Some ([], si)
               else do {
                 c \<leftarrow> common;
                 let windowEnd = height (H c) + BLOCK_DOWNLOAD_WINDOW;
                 let maxHeight = min (height (H best)) (windowEnd + 1);
                 let realCount = min (maxHeight - height (H c)) (max cnt 128);
                 block \<leftarrow> getAncestor H best (height (H c) + realCount);
                 block \<leftarrow> block;
                 blocks \<leftarrow> fill_back H (nat realCount) block;
                 Some (blocks, si\<lparr>lastDownloadBlock := Some block, lastCommonBlock := Some block\<rparr>)
               }
             }
           })"

section \<open>Blocks on their way\<close>

definition isRequestingBlock :: "NodeSyncInfo \<Rightarrow> bool" where
  "isRequestingBlock si \<longleftrightarrow> requestingBlocks si \<noteq> []"

fun record_blocks :: "index_heap \<Rightarrow> bref list \<Rightarrow> (uint256 \<times> bref) list \<Rightarrow> (uint256 \<times> bref) list option" where
  "record_blocks H [] m = Some m"
| "record_blocks H (p # ps) m = do {
     h \<leftarrow> index_getHash (H p);
     assert_that (h \<noteq> uint256_null);
     record_blocks H ps (AList.update h p m)
   }"

definition recordRequestingBlocks :: "index_heap \<Rightarrow> bref list \<Rightarrow> NodeSyncInfo \<Rightarrow> NodeSyncInfo option" where
  "recordRequestingBlocks H ps si = do {
     assert_that (requestingBlocks si = []);
     m \<leftarrow> record_blocks H ps [];
     Some (si\<lparr>requestingBlocks := m\<rparr>)
   }"

text \<open>A block that was not asked for fails the assertion.\<close>

definition removeBlockRecord :: "Block \<Rightarrow> NodeSyncInfo \<Rightarrow> NodeSyncInfo option" where
  "removeBlockRecord block si = do {
     let h = hash (blk_header block);
     assert_that (h \<noteq> uint256_null);
     assert_that (map_of (requestingBlocks si) h \<noteq> None);
     Some (si\<lparr>requestingBlocks := AList.delete h (requestingBlocks si)\<rparr>)
   }"

section \<open>The blocks asked for\<close>

text \<open>The specification: the \<open>n\<close> ancestors of an entry above a height, upwards.\<close>

definition segment :: "index_heap \<Rightarrow> bref \<Rightarrow> nat \<Rightarrow> nat \<Rightarrow> bref list" where
  "segment H b h n = map (\<lambda>k. the (parent_walk H (nat (height (H b)) - Suc (h + k)) b)) [0..<n]"

lemma fill_back_walk:
  assumes "tree_ok H R" "p \<in> R" "int n \<le> height (H p)"
  shows "fill_back H n p = Some (map (\<lambda>k. the (parent_walk H (n - Suc k) p)) [0..<n])"
  using assms(2,3)
proof (induction n arbitrary: p rule: less_induct)
  case (less n)
  show ?case
  proof (cases n)
    case (Suc m)
    show ?thesis
    proof (cases m)
      case 0
      then show ?thesis using Suc by simp
    next
      case (Suc j)
      then have n: "n = Suc (Suc j)" using \<open>n = Suc m\<close> by simp
      then obtain q where q: "q \<in> R" "previous (H p) = Some q" "height (H q) = height (H p) - 1"
        using tree_okD(3) [OF assms(1) less.prems(1)] less.prems(2) by auto
      have "fill_back H (Suc j) q = Some (map (\<lambda>k. the (parent_walk H (Suc j - Suc k) q)) [0..<Suc j])"
        using less.IH [of "Suc j" q] q less.prems(2) n by simp
      moreover have "parent_walk H (Suc j - k) p = parent_walk H (j - k) q" if "k < Suc j" for k
        using q(2) that by (simp add: Suc_diff_le)
      ultimately show ?thesis using q(2) by (simp add: n)
    qed
  qed simp
qed

lemma segment_walk:
  assumes "parent_walk H (nat (height (H b)) - (h + n)) b = Some p" "h + n \<le> nat (height (H b))"
  shows "map (\<lambda>k. the (parent_walk H (n - Suc k) p)) [0..<n] = segment H b h n"
  unfolding segment_def
proof (rule map_cong [OF refl])
  fix k assume "k \<in> set [0..<n]"
  then have "nat (height (H b)) - Suc (h + k) = (nat (height (H b)) - (h + n)) + (n - Suc k)" using assms(2) by auto
  then show "the (parent_walk H (n - Suc k) p) = the (parent_walk H (nat (height (H b)) - Suc (h + k)) b)"
    using assms(1) by (simp only: parent_walk_add) simp
qed

lemma ancestor_level:
  assumes "tree_ok H R" "b \<in> R" "ancestor H c b"
  shows "c \<in> R" "height (H c) \<le> height (H b)" "height (H c) = height (H b) \<Longrightarrow> c = b"
proof -
  obtain n where n: "parent_walk H n b = Some c" using assms(3) by (auto simp: ancestor_def)
  have "c \<in> R \<and> int n \<le> height (H b) \<and> height (H c) = height (H b) - int n"
    using parent_walk_height [OF assms(1,2) n] by blast
  then show "c \<in> R" "height (H c) \<le> height (H b)" by auto
  show "c = b" if "height (H c) = height (H b)"
  proof -
    have "n = 0" using that parent_walk_height [OF assms(1,2) n] by simp
    then show ?thesis using n by simp
  qed
qed

text \<open>The entry a search for the fork starts from.\<close>

definition fork_start :: "('d, 'f) BlockCache \<Rightarrow> NodeSyncInfo \<Rightarrow> bref \<Rightarrow> bref option" where
  "fork_start bc si best = (case lastCommonBlock si of Some c \<Rightarrow> Some c
     | None \<Rightarrow> chain_getBlock (bc_chain bc) (min (height (bc_heap bc best)) (int (length (bc_chain bc)) - 1)))"

lemma find_blocks:
  assumes tree: "tree_ok (bc_heap bc) R" and known: "bestKnownBlock (processBlockAvailability bn bc si) = Some best" "best \<in> R"
    and tip: "chain_getTip (bc_chain bc) = Some (Some tip)"
    and work: "\<not> bn_greater bn (chainWork (bc_heap bc tip)) (chainWork (bc_heap bc best))" "\<not> bn_greater bn minWork (chainWork (bc_heap bc best))"
    and start: "fork_start bc (processBlockAvailability bn bc si) best = Some s" "s \<in> R"
    and root: "ancestor (bc_heap bc) r s" "ancestor (bc_heap bc) r best"
  shows "\<exists>c si'. findBlocksToDownload bn minWork cnt bc si =
      Some (segment (bc_heap bc) best (nat (height (bc_heap bc c))) (nat (min (height (bc_heap bc best) - height (bc_heap bc c)) (min 1025 (max cnt 128)))), si') \<and>
    (\<forall>x. ancestor (bc_heap bc) x s \<and> ancestor (bc_heap bc) x best \<longleftrightarrow> ancestor (bc_heap bc) x c)"
proof -
  let ?H = "bc_heap bc" and ?si = "processBlockAvailability bn bc si"
  obtain c where c: "findLastCommonAncestor ?H s best = Some (Some c)" "\<And>x. ancestor ?H x s \<and> ancestor ?H x best \<longleftrightarrow> ancestor ?H x c"
  proof -
    obtain y where y: "findLastCommonAncestor ?H s best = Some y"
      "case y of None \<Rightarrow> \<forall>c. \<not> (ancestor ?H c s \<and> ancestor ?H c best) | Some a \<Rightarrow> \<forall>c. ancestor ?H c s \<and> ancestor ?H c best \<longleftrightarrow> ancestor ?H c a"
      using common_ancestor [OF tree start(2) known(2)] by blast
    then show thesis using that root by (cases y) auto
  qed
  have self: "ancestor ?H c c" unfolding ancestor_def by (rule exI [of _ 0]) simp
  then have anc: "ancestor ?H c best" using c(2) by blast
  note ch = ancestor_level [OF tree known(2) anc]
  have hc: "0 \<le> height (?H c)" "0 \<le> height (?H best)" using tree_okD(1) [OF tree] ch(1) known(2) by simp_all
  let ?n = "min (height (?H best) - height (?H c)) (min 1025 (max cnt 128))"
  have seg0: "segment ?H best h 0 = []" for h by (simp add: segment_def)
  have common: "(case lastCommonBlock ?si of Some c \<Rightarrow> Some (Some c)
      | None \<Rightarrow> do { ht \<leftarrow> chain_getHeight (bc_chain bc); Some (chain_getBlock (bc_chain bc) (min (height (?H best)) ht)) }) = Some (Some s)"
    using start(1) tip by (cases "lastCommonBlock ?si") (auto simp: fork_start_def chain_getHeight_def chain_getTip_def Suc_le_eq split: if_splits)
  show ?thesis
  proof (cases "c = best")
    case True
    then have "findBlocksToDownload bn minWork cnt bc si = Some ([], ?si\<lparr>lastCommonBlock := Some best\<rparr>)"
      using known(1) tip work common c(1) by (simp add: findBlocksToDownload_def Let_def)
    then show ?thesis using True c(2) by (intro exI [of _ c]) (simp add: seg0)
  next
    case False
    then have less: "height (?H c) < height (?H best)" using ch(2,3) by fastforce
    then have "0 < ?n" "height (?H c) + ?n \<le> height (?H best)" by auto
    then obtain n where n: "?n = n" "0 < n" "height (?H c) + n \<le> height (?H best)" by blast
    have real: "min (min (height (?H best)) (height (?H c) + BLOCK_DOWNLOAD_WINDOW + 1) - height (?H c)) (max cnt 128) = n"
      unfolding n(1) [symmetric] by (auto simp: BLOCK_DOWNLOAD_WINDOW_def min_def)
    let ?d = "height (?H c) + n"
    have d: "0 \<le> ?d" "?d \<le> height (?H best)" using hc(1) n by simp_all
    obtain p where p: "getAncestor ?H best ?d = Some (Some p)" "p \<in> R" "height (?H p) = ?d"
      "parent_walk ?H (nat (height (?H best) - ?d)) best = Some p"
    proof -
      obtain q where q: "parent_walk ?H (nat (height (?H best) - ?d)) best = Some q" "q \<in> R"
          "height (?H q) = height (?H best) - int (nat (height (?H best) - ?d))"
        using parent_walk_ok [OF tree known(2), of "nat (height (?H best) - ?d)"] d by auto
      moreover have "getAncestor ?H best ?d = Some (Some q)" using getAncestor_walk [OF tree known(2), of ?d] d q(1) by simp
      ultimately show thesis using that d by simp
    qed
    have "int (nat n) \<le> height (?H p)" using p(3) hc(1) n(2) by simp
    note fill = fill_back_walk [OF tree p(2) this]
    have nat: "nat (height (?H best) - ?d) = nat (height (?H best)) - (nat (height (?H c)) + nat n)"
      using hc n(2,3) by linarith
    have "nat (height (?H c)) + nat n \<le> nat (height (?H best))" using hc n(2,3) by linarith
    from segment_walk [OF p(4) [unfolded nat] this] fill
    have "fill_back ?H (nat n) p = Some (segment ?H best (nat (height (?H c))) (nat n))" by simp
    then have "findBlocksToDownload bn minWork cnt bc si = Some (segment ?H best (nat (height (?H c))) (nat n),
        ?si\<lparr>lastDownloadBlock := Some p, lastCommonBlock := Some p\<rparr>)"
      using known(1) tip work common c(1) False p(1) unfolding findBlocksToDownload_def Let_def by (simp add: real [unfolded Let_def])
    then show ?thesis using c(2) by (intro exI [of _ c]) (simp add: n(1))
  qed
qed

section \<open>Properties\<close>

text \<open>C20: the blocks asked for are exactly those the peer's best chain continues with after the fork: at most 128 (or
  the count, and never more than the window), one above the other, from just above the last common ancestor
  of the best known block and the block the search starts from.\<close>

theorem blocks_to_download:
  assumes "tree_ok (bc_heap bc) R" "bestKnownBlock (processBlockAvailability bn bc si) = Some best" "best \<in> R"
    and "chain_getTip (bc_chain bc) = Some (Some tip)"
    and "\<not> bn_greater bn (chainWork (bc_heap bc tip)) (chainWork (bc_heap bc best))" "\<not> bn_greater bn minWork (chainWork (bc_heap bc best))"
    and "fork_start bc (processBlockAvailability bn bc si) best = Some s" "s \<in> R"
    and "ancestor (bc_heap bc) r s" "ancestor (bc_heap bc) r best"
  shows "\<exists>c si'. findBlocksToDownload bn minWork cnt bc si =
      Some (segment (bc_heap bc) best (nat (height (bc_heap bc c))) (nat (min (height (bc_heap bc best) - height (bc_heap bc c)) (min 1025 (max cnt 128)))), si') \<and>
    (\<forall>x. ancestor (bc_heap bc) x s \<and> ancestor (bc_heap bc) x best \<longleftrightarrow> ancestor (bc_heap bc) x c)"
  by (rule find_blocks [OF assms])

theorem blocks_to_download_witness:
  "\<exists>si'. findBlocksToDownload limb_big_number uint256_null 128 (cache0\<lparr>bc_heap := line_heap, bc_chain := [Some 0]\<rparr>)
     (NodeSyncInfo_new\<lparr>bestKnownBlock := Some 5\<rparr>) = Some ([1, 2, 3, 4, 5], si')"
proof -
  let ?bc = "cache0\<lparr>bc_heap := line_heap, bc_chain := [Some 0]\<rparr>" and ?si = "NodeSyncInfo_new\<lparr>bestKnownBlock := Some 5\<rparr>"
  have si: "processBlockAvailability limb_big_number ?bc ?si = ?si" by (simp add: processBlockAvailability_def NodeSyncInfo_new_def)
  have g: "\<not> bn_greater limb_big_number uint256_null uint256_null" using lbn.greater_val [of uint256_null uint256_null] by (simp add: uint256_null_def)
  have w: "chainWork (line_heap p) = uint256_null" for p by (simp add: line_heap_def BlockIndex_new_def)
  have walk: "parent_walk line_heap 5 5 = Some 0" by (simp add: line_heap_def BlockIndex_new_def numeral_eq_Suc)
  have "\<exists>c si'. findBlocksToDownload limb_big_number uint256_null 128 ?bc ?si =
      Some (segment (bc_heap ?bc) 5 (nat (height (bc_heap ?bc c))) (nat (min (height (bc_heap ?bc 5) - height (bc_heap ?bc c)) (min 1025 (max 128 128)))), si') \<and>
    (\<forall>x. ancestor (bc_heap ?bc) x 0 \<and> ancestor (bc_heap ?bc) x 5 \<longleftrightarrow> ancestor (bc_heap ?bc) x c)"
  proof (rule blocks_to_download [where R = UNIV and tip = 0 and r = 0])
    show "fork_start ?bc (processBlockAvailability limb_big_number ?bc ?si) 5 = Some 0"
      unfolding si by (simp add: fork_start_def NodeSyncInfo_new_def chain_getBlock_def line_heap_def BlockIndex_new_def)
    show "ancestor (bc_heap ?bc) 0 0" unfolding ancestor_def by (rule exI [of _ 0]) simp
    show "ancestor (bc_heap ?bc) 0 5" unfolding ancestor_def by (rule exI [of _ 5]) (simp add: walk)
  qed (simp_all add: line_heap_ok si w g chain_getTip_def)
  then obtain c si' where c: "findBlocksToDownload limb_big_number uint256_null 128 ?bc ?si =
      Some (segment line_heap 5 (nat (height (line_heap c))) (nat (min (5 - height (line_heap c)) 128)), si')"
    "\<forall>x. ancestor line_heap x 0 \<and> ancestor line_heap x 5 \<longleftrightarrow> ancestor line_heap x c"
    by (auto simp: line_heap_def BlockIndex_new_def)
  have "ancestor line_heap c c" unfolding ancestor_def by (rule exI [of _ 0]) simp
  then have "ancestor line_heap c 0" using c(2) by blast
  then have "c = 0" using ancestor_level(2) [OF line_heap_ok UNIV_I, of c 0] by (simp add: line_heap_def BlockIndex_new_def)
  moreover have "segment line_heap 5 0 5 = [1, 2, 3, 4, 5]"
    by (simp add: segment_def line_heap_def BlockIndex_new_def upt_rec numeral_eq_Suc)
  ultimately show ?thesis using c(1) by (simp add: line_heap_def BlockIndex_new_def)
qed

end
