(* ===== verification/Messages.thy ===== *)
theory Messages
  imports BlockData
begin

text \<open>
  \<open>net/Message.hpp\<close>, \<open>net/Messages.hpp\<close>, \<open>net/Messages.cpp\<close>, \<open>net/NodeAddress.hpp\<close> and \<open>net/protocols.hpp\<close>:
  the messages of the peer-to-peer protocol and their payloads. The record \<open>net_context\<close> holds the streams
  with what only this part of the program uses of them. The classes of compact blocks
  (\<open>PrefilledTransaction\<close> and the three beside it) have no reader, writer or user and are left out.
\<close>

section \<open>Streams\<close>

text \<open>\<open>available\<close> is the number of bytes left; \<open>wr_text\<close> is what \<open>operator<<\<close> of the library does with a
  \<open>std::string\<close>.\<close>

record 's net_context =
  nt_in :: "'s istream"
  nt_out :: ostream
  available :: "'s \<Rightarrow> int"
  rd_bool :: "'s \<Rightarrow> bool option \<times> 's"
  wr_bool :: "bool \<Rightarrow> bytes"
  wr_text :: "bytes \<Rightarrow> bytes"

locale message_streams = streams "nt_in nt" "nt_out nt" for nt :: "'s net_context" +
  assumes available_of_bytes [simp]: "available nt (of_bytes (nt_in nt) b) = int (length b)"
    and rd_bool [simp]: "rd_bool nt (of_bytes (nt_in nt) (wr_bool nt flag @ r)) = (Some flag, of_bytes (nt_in nt) r)"
    and wr_bool_some [simp]: "wr_bool nt flag \<noteq> []"
    and wr_text_raw [simp]: "wr_text nt t = t"

section \<open>Addresses\<close>

record PeerAddress =
  ip :: u32
  port :: u16

record NodeAddress =
  address :: PeerAddress
  services :: u64

definition PeerAddress_new :: PeerAddress where
  "PeerAddress_new = \<lparr>ip = 0, port = 0\<rparr>"

definition NodeAddress_new :: NodeAddress where
  "NodeAddress_new = \<lparr>address = PeerAddress_new, services = 0\<rparr>"

definition address_isValid :: "PeerAddress \<Rightarrow> bool" where
  "address_isValid a \<longleftrightarrow> ip a > 0 \<and> port a > 0"

definition address_less :: "PeerAddress \<Rightarrow> PeerAddress \<Rightarrow> bool" where
  "address_less x y = (if ip x \<noteq> ip y then ip x < ip y else port x < port y)"

text \<open>\<open>htonl\<close> and \<open>htons\<close> on a little-endian machine, which are their own inverses.\<close>

definition htonl :: "u32 \<Rightarrow> u32" where
  "htonl w = le_word (rev (le_bytes 4 w))"

definition htons :: "u16 \<Rightarrow> u16" where
  "htons w = le_word (rev (le_bytes 2 w))"

definition read_peer_address :: "'s net_context \<Rightarrow> ('s, PeerAddress) reader" where
  "read_peer_address nt a s =
     (let (i, s) = into (rd32 (nt_in nt)) (ip a) s; (p, s) = into (rd16 (nt_in nt)) (port a) s in (\<lparr>ip = i, port = p\<rparr>, s))"

definition write_peer_address :: "'s net_context \<Rightarrow> PeerAddress \<Rightarrow> bytes" where
  "write_peer_address nt a = wr32 (nt_out nt) (ip a) @ wr16 (nt_out nt) (port a)"

definition read_address :: "'s net_context \<Rightarrow> ('s, NodeAddress) reader" where
  "read_address nt a s =
     (let (v, s) = into (rd64 (nt_in nt)) (services a) s;
          (buf, s) = rd_str (nt_in nt) 12 s;
          (i, s) = into (rd32 (nt_in nt)) (ip (address a)) s;
          (p, s) = into (rd16 (nt_in nt)) (port (address a)) s
      in (\<lparr>address = \<lparr>ip = htonl i, port = htons p\<rparr>, services = v\<rparr>, s))"

definition write_address :: "'s net_context \<Rightarrow> NodeAddress \<Rightarrow> bytes" where
  "write_address nt a =
     wr64 (nt_out nt) (services a) @
     (if ip (address a) \<noteq> 0 then replicate 10 0 @ [0xFF, 0xFF] else replicate 12 0) @
     wr32 (nt_out nt) (htonl (ip (address a))) @ wr16 (nt_out nt) (htons (port (address a)))"

section \<open>Message types\<close>

definition ascii :: "string \<Rightarrow> bytes" where
  "ascii = map of_char"

record VersionMessage =
  vm_version :: u32
  vm_services :: u64
  vm_timestamp :: u64
  yourAddress :: NodeAddress
  myAddress :: NodeAddress
  vm_nonce :: u64
  userAgent :: bytes
  startHeight :: int
  relay :: bool

record RejectMessage =
  rj_message :: bytes
  rj_code :: byte
  rj_reason :: bytes
  rj_data :: bytes

record AddressInfo =
  ai_timestamp :: u32
  ai_address :: NodeAddress

record InventoryItem =
  it_type :: u32
  it_hash :: uint256

record BlockLocator =
  bl_version :: u32
  bl_hashes :: "uint256 list"
  hashStop :: uint256

text \<open>The classes derived from \<open>Message\<close>; those that share a base class share its fields.\<close>

datatype Message =
    Version VersionMessage
  | Verack
  | Reject RejectMessage
  | GetAddr
  | SendHeaders
  | FeeFilter int
  | SendCmpct bool u64
  | Addr "AddressInfo list"
  | Inv "InventoryItem list"
  | GetData "InventoryItem list"
  | NotFound "InventoryItem list"
  | GetBlocks BlockLocator
  | GetHeaders BlockLocator
  | Ping u64
  | Pong u64
  | Headers "BlockHeader list"
  | BlockMessage Block

fun getMessageType :: "Message \<Rightarrow> bytes" where
  "getMessageType (Version m) = ascii ''version''"
| "getMessageType Verack = ascii ''verack''"
| "getMessageType (Reject m) = ascii ''reject''"
| "getMessageType GetAddr = ascii ''getaddr''"
| "getMessageType SendHeaders = ascii ''sendheaders''"
| "getMessageType (FeeFilter r) = ascii ''feefilter''"
| "getMessageType (SendCmpct a v) = ascii ''sendcmpct''"
| "getMessageType (Addr as) = ascii ''addr''"
| "getMessageType (Inv is) = ascii ''inv''"
| "getMessageType (GetData is) = ascii ''getdata''"
| "getMessageType (NotFound is) = ascii ''notfound''"
| "getMessageType (GetBlocks b) = ascii ''getblocks''"
| "getMessageType (GetHeaders b) = ascii ''getheaders''"
| "getMessageType (Ping n) = ascii ''ping''"
| "getMessageType (Pong n) = ascii ''pong''"
| "getMessageType (Headers hs) = ascii ''headers''"
| "getMessageType (BlockMessage b) = ascii ''block''"

definition VersionMessage_new :: VersionMessage where
  "VersionMessage_new = \<lparr>vm_version = 0, vm_services = 0, vm_timestamp = 0, yourAddress = NodeAddress_new, myAddress = NodeAddress_new,
     vm_nonce = 0, userAgent = [], startHeight = 0, relay = False\<rparr>"

definition RejectMessage_new :: RejectMessage where
  "RejectMessage_new = \<lparr>rj_message = [], rj_code = 0, rj_reason = [], rj_data = []\<rparr>"

section \<open>Payloads\<close>

text \<open>Every reader returns whether the stream is good after it, which is its result.\<close>

definition read_version :: "'s net_context \<Rightarrow> ('s, VersionMessage) reader" where
  "read_version nt m s =
     (let ist = nt_in nt;
          (v, s) = into (rd32 ist) (vm_version m) s;
          (sv, s) = into (rd64 ist) (vm_services m) s;
          (t, s) = into (rd64 ist) (vm_timestamp m) s;
          (your, s) = read_address nt (yourAddress m) s;
          m = m\<lparr>vm_version := v, vm_services := sv, vm_timestamp := t, yourAddress := your\<rparr>;
          (m, s) = (if available nt s > 0
            then let (my, s) = read_address nt (myAddress m) s; (n, s) = into (rd64 ist) (vm_nonce m) s
                 in (m\<lparr>myAddress := my, vm_nonce := n\<rparr>, s)
            else (m, s));
          (m, s) = (if available nt s > 0
            then let (u, s) = readString ist 128 (userAgent m) s in (m\<lparr>userAgent := u\<rparr>, s) else (m, s));
          (m, s) = (if available nt s > 0
            then let (h, s) = into (rd32 ist) (word_of_int (startHeight m)) s; (r, s) = into (rd_bool nt) (relay m) s
                 in (m\<lparr>startHeight := sint h, relay := r\<rparr>, s)
            else (m, s))
      in (m, s))"

definition write_version :: "'s net_context \<Rightarrow> VersionMessage \<Rightarrow> bytes" where
  "write_version nt m =
     (let os = nt_out nt
      in wr32 os (vm_version m) @ wr64 os (vm_services m) @ wr64 os (vm_timestamp m) @ write_address nt (yourAddress m) @
         write_address nt (myAddress m) @ wr64 os (vm_nonce m) @ writeString os (userAgent m) @
         wr32 os (word_of_int (startHeight m)) @ wr_bool nt (relay m))"

definition read_reject :: "'s net_context \<Rightarrow> ('s, RejectMessage) reader" where
  "read_reject nt m s =
     (let ist = nt_in nt;
          (t, s) = readString ist 64 (rj_message m) s;
          (c, s) = into (rd8 ist) (rj_code m) s;
          (r, s) = readString ist 1024 (rj_reason m) s;
          (d, s) = into (rd_str ist (nat (available nt s))) (rj_data m) s
      in (\<lparr>rj_message = t, rj_code = c, rj_reason = r, rj_data = d\<rparr>, s))"

definition write_reject :: "'s net_context \<Rightarrow> RejectMessage \<Rightarrow> bytes" where
  "write_reject nt m = writeString (nt_out nt) (rj_message m) @ [rj_code m] @ writeString (nt_out nt) (rj_reason m) @ wr_text nt (rj_data m)"

definition read_address_info :: "'s net_context \<Rightarrow> ('s, AddressInfo) reader" where
  "read_address_info nt i s =
     (let (t, s) = into (rd32 (nt_in nt)) (ai_timestamp i) s; (a, s) = read_address nt (ai_address i) s
      in (\<lparr>ai_timestamp = t, ai_address = a\<rparr>, s))"

definition write_address_info :: "'s net_context \<Rightarrow> AddressInfo \<Rightarrow> bytes" where
  "write_address_info nt i = wr32 (nt_out nt) (ai_timestamp i) @ write_address nt (ai_address i)"

definition read_item :: "'s net_context \<Rightarrow> ('s, InventoryItem) reader" where
  "read_item nt i s =
     (let (t, s) = into (rd32 (nt_in nt)) (it_type i) s; (h, s) = into (rd_bn (nt_in nt)) (it_hash i) s
      in (\<lparr>it_type = t, it_hash = h\<rparr>, s))"

definition write_item :: "'s net_context \<Rightarrow> InventoryItem \<Rightarrow> bytes" where
  "write_item nt i = wr32 (nt_out nt) (it_type i) @ wr_bn (nt_out nt) (it_hash i)"

text \<open>The time of a new \<open>AddressInfo\<close> has no initial value; the reader sets it before it is used.\<close>

definition AddressInfo_new :: AddressInfo where
  "AddressInfo_new = \<lparr>ai_timestamp = 0, ai_address = NodeAddress_new\<rparr>"

definition InventoryItem_new :: InventoryItem where
  "InventoryItem_new = \<lparr>it_type = 0, it_hash = uint256_null\<rparr>"

definition read_addresses :: "'s net_context \<Rightarrow> ('s, AddressInfo list) reader" where
  "read_addresses nt = readVector (nt_in nt) (read_address_info nt) AddressInfo_new 5000"

definition read_inventory :: "'s net_context \<Rightarrow> ('s, InventoryItem list) reader" where
  "read_inventory nt = readVector (nt_in nt) (read_item nt) InventoryItem_new 50000"

definition read_locator :: "'s net_context \<Rightarrow> ('s, BlockLocator) reader" where
  "read_locator nt b s =
     (let (v, s) = into (rd32 (nt_in nt)) (bl_version b) s;
          (h, s) = readVector (nt_in nt) (into (rd_bn (nt_in nt))) uint256_null 1000 (bl_hashes b) s;
          (e, s) = into (rd_bn (nt_in nt)) (hashStop b) s
      in (\<lparr>bl_version = v, bl_hashes = h, hashStop = e\<rparr>, s))"

definition write_locator :: "'s net_context \<Rightarrow> BlockLocator \<Rightarrow> bytes" where
  "write_locator nt b = wr32 (nt_out nt) (bl_version b) @ writeVector (nt_out nt) (wr_bn (nt_out nt)) (bl_hashes b) @ wr_bn (nt_out nt) (hashStop b)"

text \<open>The headers are read in place; each is followed by a count that must be zero. The loop ends at a count
  that cannot be read, not at a header that cannot.\<close>

fun read_header_list :: "'s net_context \<Rightarrow> BlockHeader list \<Rightarrow> 's \<Rightarrow> BlockHeader list \<times> 's" where
  "read_header_list nt [] s = ([], s)"
| "read_header_list nt (h # hs) s =
     (let (h, s) = read_header (nt_in nt) h s
      in case readCompactSize (nt_in nt) s of
           (None, s) \<Rightarrow> (h # hs, s)
         | (Some txcount, s) \<Rightarrow>
             if txcount \<noteq> 0 then (h # hs, set_bad (nt_in nt) s)
             else (let (hs, s) = read_header_list nt hs s in (h # hs, s)))"

definition read_headers :: "'s net_context \<Rightarrow> ('s, BlockHeader list) reader" where
  "read_headers nt hs s =
     (case readCompactSize (nt_in nt) s of
        (None, s) \<Rightarrow> (hs, s)
      | (Some count, s) \<Rightarrow>
          if count > 10000 then (hs, set_bad (nt_in nt) s)
          else read_header_list nt (take (unat count) hs @ replicate (unat count - length hs) BlockHeader_new) s)"

definition write_headers :: "'s net_context \<Rightarrow> BlockHeader list \<Rightarrow> bytes" where
  "write_headers nt hs = writeCompactSize (nt_out nt) (of_nat (length hs)) @ concat (map (\<lambda>h. write_header (nt_out nt) h @ [0]) hs)"

text \<open>The virtual functions: a message reads into its own fields.\<close>

fun read_object :: "'s net_context \<Rightarrow> ('s, Message) reader" where
  "read_object nt (Version m) s = map_prod Version id (read_version nt m s)"
| "read_object nt Verack s = (Verack, s)"
| "read_object nt (Reject m) s = map_prod Reject id (read_reject nt m s)"
| "read_object nt GetAddr s = (GetAddr, s)"
| "read_object nt SendHeaders s = (SendHeaders, s)"
| "read_object nt (FeeFilter r) s = map_prod (\<lambda>w. FeeFilter (sint w)) id (into (rd64 (nt_in nt)) (word_of_int r) s)"
| "read_object nt (SendCmpct a v) s =
     (let (a, s) = into (rd_bool nt) a s; (v, s) = into (rd64 (nt_in nt)) v s in (SendCmpct a v, s))"
| "read_object nt (Addr as) s = map_prod Addr id (read_addresses nt as s)"
| "read_object nt (Inv is) s = map_prod Inv id (read_inventory nt is s)"
| "read_object nt (GetData is) s = map_prod GetData id (read_inventory nt is s)"
| "read_object nt (NotFound is) s = map_prod NotFound id (read_inventory nt is s)"
| "read_object nt (GetBlocks b) s = map_prod GetBlocks id (read_locator nt b s)"
| "read_object nt (GetHeaders b) s = map_prod GetHeaders id (read_locator nt b s)"
| "read_object nt (Ping n) s = map_prod Ping id (into (rd64 (nt_in nt)) n s)"
| "read_object nt (Pong n) s = map_prod Pong id (into (rd64 (nt_in nt)) n s)"
| "read_object nt (Headers hs) s = map_prod Headers id (read_headers nt hs s)"
| "read_object nt (BlockMessage b) s = map_prod BlockMessage id (read_block (nt_in nt) b s)"

fun write_object :: "'s net_context \<Rightarrow> Message \<Rightarrow> bytes" where
  "write_object nt (Version m) = write_version nt m"
| "write_object nt Verack = []"
| "write_object nt (Reject m) = write_reject nt m"
| "write_object nt GetAddr = []"
| "write_object nt SendHeaders = []"
| "write_object nt (FeeFilter r) = wr64 (nt_out nt) (word_of_int r)"
| "write_object nt (SendCmpct a v) = wr_bool nt a @ wr64 (nt_out nt) v"
| "write_object nt (Addr as) = writeVector (nt_out nt) (write_address_info nt) as"
| "write_object nt (Inv is) = writeVector (nt_out nt) (write_item nt) is"
| "write_object nt (GetData is) = writeVector (nt_out nt) (write_item nt) is"
| "write_object nt (NotFound is) = writeVector (nt_out nt) (write_item nt) is"
| "write_object nt (GetBlocks b) = write_locator nt b"
| "write_object nt (GetHeaders b) = write_locator nt b"
| "write_object nt (Ping n) = wr64 (nt_out nt) n"
| "write_object nt (Pong n) = wr64 (nt_out nt) n"
| "write_object nt (Headers hs) = write_headers nt hs"
| "write_object nt (BlockMessage b) = write_block (nt_out nt) b"

section \<open>Reading back\<close>

lemma htonl_htonl [simp]: "htonl (htonl w) = w"
  by (simp add: htonl_def le_bytes_le_word le_word_le_bytes)

lemma htons_htons [simp]: "htons (htons w) = w"
  by (simp add: htons_def le_bytes_le_word le_word_le_bytes)

text \<open>What the readers accept, and what reading back leaves out: the hashes of headers and blocks are not sent.\<close>

fun wf_message :: "Message \<Rightarrow> bool" where
  "wf_message (Version m) \<longleftrightarrow> length (userAgent m) \<le> 128 \<and> - (2 ^ 31) \<le> startHeight m \<and> startHeight m < 2 ^ 31"
| "wf_message (Reject m) \<longleftrightarrow> length (rj_message m) \<le> 64 \<and> length (rj_reason m) \<le> 1024"
| "wf_message (FeeFilter r) \<longleftrightarrow> - (2 ^ 63) \<le> r \<and> r < 2 ^ 63"
| "wf_message (Addr as) \<longleftrightarrow> length as \<le> 5000"
| "wf_message (Inv is) \<longleftrightarrow> length is \<le> 50000 \<and> (\<forall>i \<in> set is. length (it_hash i) = 32)"
| "wf_message (GetData is) \<longleftrightarrow> length is \<le> 50000 \<and> (\<forall>i \<in> set is. length (it_hash i) = 32)"
| "wf_message (NotFound is) \<longleftrightarrow> length is \<le> 50000 \<and> (\<forall>i \<in> set is. length (it_hash i) = 32)"
| "wf_message (GetBlocks b) \<longleftrightarrow> length (bl_hashes b) \<le> 1000 \<and> (\<forall>h \<in> set (bl_hashes b). length h = 32) \<and> length (hashStop b) = 32"
| "wf_message (GetHeaders b) \<longleftrightarrow> length (bl_hashes b) \<le> 1000 \<and> (\<forall>h \<in> set (bl_hashes b). length h = 32) \<and> length (hashStop b) = 32"
| "wf_message (Headers hs) \<longleftrightarrow> length hs \<le> 10000 \<and> (\<forall>h \<in> set hs. wf_header h)"
| "wf_message (BlockMessage b) \<longleftrightarrow> wf_block b"
| "wf_message m \<longleftrightarrow> True"

fun as_read :: "Message \<Rightarrow> Message" where
  "as_read (Headers hs) = Headers (map (\<lambda>h. h\<lparr>hash := uint256_null\<rparr>) hs)"
| "as_read (BlockMessage b) = BlockMessage \<lparr>blk_header = (blk_header b)\<lparr>hash := uint256_null\<rparr>,
     transactions = map (\<lambda>t. t\<lparr>tx_hash := uint256_null\<rparr>) (transactions b)\<rparr>"
| "as_read m = m"

text \<open>A message as its constructor makes it; fields without an initial value are read before they are used.\<close>

fun fresh_message :: "Message \<Rightarrow> Message" where
  "fresh_message (Version m) = Version VersionMessage_new"
| "fresh_message (Reject m) = Reject RejectMessage_new"
| "fresh_message (FeeFilter r) = FeeFilter 0"
| "fresh_message (SendCmpct a v) = SendCmpct False 0"
| "fresh_message (Addr as) = Addr []"
| "fresh_message (Inv is) = Inv []"
| "fresh_message (GetData is) = GetData []"
| "fresh_message (NotFound is) = NotFound []"
| "fresh_message (GetBlocks b) = GetBlocks \<lparr>bl_version = 0, bl_hashes = [], hashStop = uint256_null\<rparr>"
| "fresh_message (GetHeaders b) = GetHeaders \<lparr>bl_version = 0, bl_hashes = [], hashStop = uint256_null\<rparr>"
| "fresh_message (Ping n) = Ping 0"
| "fresh_message (Pong n) = Pong 0"
| "fresh_message (Headers hs) = Headers []"
| "fresh_message (BlockMessage b) = BlockMessage \<lparr>blk_header = BlockHeader_new, transactions = []\<rparr>"
| "fresh_message m = m"

context message_streams
begin

lemma into_more [wire_simps]:
  "into (rd16 (nt_in nt)) x (of_bytes (nt_in nt) (wr16 (nt_out nt) h @ r)) = (h, of_bytes (nt_in nt) r)"
  "into (rd8 (nt_in nt)) y (of_bytes (nt_in nt) (c # r)) = (c, of_bytes (nt_in nt) r)"
  "into (rd_bool nt) z (of_bytes (nt_in nt) (wr_bool nt b @ r)) = (b, of_bytes (nt_in nt) r)"
  "length t = n \<Longrightarrow> into (rd_str (nt_in nt) n) u (of_bytes (nt_in nt) t) = (t, of_bytes (nt_in nt) [])"
  using rd_str [of t n "[]"] by (simp_all add: into_def)

lemma read_address_write [wire_simps]:
  "read_address nt b (of_bytes (nt_in nt) (write_address nt a @ r)) = (a, of_bytes (nt_in nt) r)"
proof -
  let ?z = "if ip (address a) \<noteq> 0 then replicate 10 0 @ [0xFF, 0xFF] else replicate 12 0 :: bytes"
  have z: "length ?z = 12" by simp
  have "read_address nt b (of_bytes (nt_in nt) (wr64 (nt_out nt) (services a) @ z @ wr32 (nt_out nt) (htonl (ip (address a))) @
      wr16 (nt_out nt) (htons (port (address a))) @ r)) = (a, of_bytes (nt_in nt) r)" if "length z = 12" for z
    using that by (simp add: read_address_def wire_simps)
  from this [OF z] show ?thesis by (simp add: write_address_def)
qed

lemma some_left: "0 < available nt (of_bytes (nt_in nt) b) \<longleftrightarrow> b \<noteq> []"
  by simp

lemma read_version_write:
  assumes "wf_message (Version m)"
  shows "read_version nt VersionMessage_new (of_bytes (nt_in nt) (write_version nt m @ r)) = (m, of_bytes (nt_in nt) r)"
proof -
  have "sint (word_of_int (startHeight m) :: u32) = startHeight m"
    using assms by (simp add: signed_of_int signed_take_bit_int_eq_self)
  moreover have "length (userAgent m) < 2 ^ 64" using assms by simp
  ultimately show ?thesis using assms
    by (simp add: read_version_def write_version_def VersionMessage_new_def wire_simps Let_def some_left del: available_of_bytes)
qed

lemma read_reject_write:
  assumes "wf_message (Reject m)"
  shows "read_reject nt RejectMessage_new (of_bytes (nt_in nt) (write_reject nt m)) = (m, of_bytes (nt_in nt) [])"
proof -
  have "length (rj_message m) < 2 ^ 64" "length (rj_reason m) < 2 ^ 64" using assms by simp_all
  then show ?thesis using assms by (simp add: read_reject_def write_reject_def wire_simps Let_def)
qed

lemma read_addresses_write:
  assumes "length as \<le> 5000"
  shows "read_addresses nt [] (of_bytes (nt_in nt) (writeVector (nt_out nt) (write_address_info nt) as @ r)) = (as, of_bytes (nt_in nt) r)"
proof -
  have "reads (nt_in nt) (read_address_info nt) AddressInfo_new (write_address_info nt x) x" for x
    by (simp add: reads_def read_address_info_def write_address_info_def wire_simps)
  then show ?thesis using readVector_write [of as "read_address_info nt" AddressInfo_new "write_address_info nt" id 5000 r] assms
    by (simp add: read_addresses_def)
qed

lemma read_inventory_write:
  assumes "length is \<le> 50000" "\<forall>i \<in> set is. length (it_hash i) = 32"
  shows "read_inventory nt [] (of_bytes (nt_in nt) (writeVector (nt_out nt) (write_item nt) is @ r)) = (is, of_bytes (nt_in nt) r)"
proof -
  have "\<forall>x \<in> set is. reads (nt_in nt) (read_item nt) InventoryItem_new (write_item nt x) (id x)"
    using assms(2) by (simp add: reads_def read_item_def write_item_def wire_simps)
  from readVector_write [OF this, of 50000 r] show ?thesis using assms by (simp add: read_inventory_def)
qed

lemma read_locator_write:
  assumes "wf_message (GetBlocks b)"
  shows "read_locator nt \<lparr>bl_version = 0, bl_hashes = [], hashStop = uint256_null\<rparr> (of_bytes (nt_in nt) (write_locator nt b @ r)) = (b, of_bytes (nt_in nt) r)"
proof -
  have "\<forall>h \<in> set (bl_hashes b). reads (nt_in nt) (into (rd_bn (nt_in nt))) uint256_null (wr_bn (nt_out nt) h) (id h)"
    using assms by (simp add: reads_def wire_simps)
  from readVector_write [OF this, of 1000] show ?thesis using assms
    by (simp add: read_locator_def write_locator_def wire_simps)
qed

lemma read_header_list_write:
  "\<forall>h \<in> set hs. wf_header h \<Longrightarrow> read_header_list nt (replicate (length hs) BlockHeader_new)
      (of_bytes (nt_in nt) (concat (map (\<lambda>h. write_header (nt_out nt) h @ [0]) hs) @ r)) =
    (map (\<lambda>h. h\<lparr>hash := uint256_null\<rparr>) hs, of_bytes (nt_in nt) r)"
proof (induction hs)
  case (Cons h hs)
  have zero: "writeCompactSize (nt_out nt) 0 = [0]" by (simp add: writeCompactSize_def)
  have "readCompactSize (nt_in nt) (of_bytes (nt_in nt) (0 # t)) = (Some 0, of_bytes (nt_in nt) t)" for t
    using readCompactSize_write [of 0 t] by (simp add: zero)
  then show ?case using Cons by (simp add: wire_simps BlockHeader_new_def)
qed simp

lemma read_headers_write:
  assumes "wf_message (Headers hs)"
  shows "read_headers nt [] (of_bytes (nt_in nt) (write_headers nt hs @ r)) = (map (\<lambda>h. h\<lparr>hash := uint256_null\<rparr>) hs, of_bytes (nt_in nt) r)"
proof -
  have n: "unat (of_nat (length hs) :: u64) = length hs" using assms by (simp add: unat_of_nat)
  then have "(of_nat (length hs) :: u64) \<le> 10000" using assms by (simp add: word_le_nat_alt)
  then have "\<not> (of_nat (length hs) :: u64) > 10000" by simp
  then show ?thesis using assms n read_header_list_write [of hs r]
    by (simp add: read_headers_def write_headers_def wire_simps)
qed

lemma read_object_write:
  assumes "wf_message m"
  shows "read_object nt (fresh_message m) (of_bytes (nt_in nt) (write_object nt m)) = (as_read m, of_bytes (nt_in nt) [])"
proof (cases m)
  case (Version v)
  then show ?thesis using assms read_version_write [of v "[]"] by simp
next
  case (Reject v)
  then show ?thesis using assms read_reject_write [of v] by simp
next
  case (FeeFilter v)
  then have "sint (word_of_int v :: u64) = v" using assms by (simp add: signed_of_int signed_take_bit_int_eq_self)
  then show ?thesis using FeeFilter into_simps(2) [of _ _ "[]"] by simp
next
  case (SendCmpct a v)
  then show ?thesis using into_simps(2) [of _ _ "[]"] by (simp add: wire_simps)
next
  case (Addr as)
  then show ?thesis using assms read_addresses_write [of as "[]"] by simp
next
  case (Inv as)
  then show ?thesis using assms read_inventory_write [of as "[]"] by simp
next
  case (GetData as)
  then show ?thesis using assms read_inventory_write [of as "[]"] by simp
next
  case (NotFound as)
  then show ?thesis using assms read_inventory_write [of as "[]"] by simp
next
  case (GetBlocks b)
  then show ?thesis using assms read_locator_write [of b "[]"] by simp
next
  case (GetHeaders b)
  then show ?thesis using assms read_locator_write [of b "[]"] by simp
next
  case (Ping n)
  then show ?thesis using into_simps(2) [of _ _ "[]"] by simp
next
  case (Pong n)
  then show ?thesis using into_simps(2) [of _ _ "[]"] by simp
next
  case (Headers hs)
  then show ?thesis using assms read_headers_write [of hs "[]"] by simp
next
  case (BlockMessage b)
  then show ?thesis using assms read_block_write [of b "[]"] by simp
qed (simp_all)

end

section \<open>Properties\<close>

definition le_net :: "(bytes \<times> bool) net_context" where
  "le_net = \<lparr>nt_in = le_istream, nt_out = le_ostream, available = \<lambda>s. int (length (fst s)),
     rd_bool = take_bytes 1 (\<lambda>b. hd b \<noteq> 0), wr_bool = \<lambda>b. [if b then 1 else 0], wr_text = id\<rparr>"

lemma le_net_simps [simp]: "nt_in le_net = le_istream" "nt_out le_net = le_ostream"
  by (simp_all add: le_net_def)

interpretation lem: message_streams le_net
  by (intro message_streams.intro message_streams_axioms.intro)
    (simp_all add: les.streams_axioms, simp_all add: le_net_def le_istream_def take_bytes_def)

text \<open>C31: the payload of every message, written and read into a fresh message of its type, comes back whole and
  is used up, within the limits the readers set; only the hashes of headers and blocks, which are not
  sent, come back unset.\<close>

theorem message_roundtrip:
  assumes "message_streams nt" "wf_message m"
  shows "read_object nt (fresh_message m) (of_bytes (nt_in nt) (write_object nt m)) = (as_read m, of_bytes (nt_in nt) [])"
  by (rule message_streams.read_object_write [OF assms])

theorem message_roundtrip_witness:
  "read_object le_net (Inv []) (of_bytes le_istream (write_object le_net (Inv [\<lparr>it_type = 2, it_hash = replicate 32 5\<rparr>]))) =
     (Inv [\<lparr>it_type = 2, it_hash = replicate 32 5\<rparr>], of_bytes le_istream [])"
  using message_roundtrip [OF lem.message_streams_axioms, of "Inv [\<lparr>it_type = 2, it_hash = replicate 32 5\<rparr>]"] by simp

end
