(* ===== verification/MessageCodec.thy ===== *)
theory MessageCodec
  imports Messages
begin

text \<open>
  \<open>net/MessageCodec.cpp\<close>: messages on the wire, a header of 24 bytes and a payload. The decoder is given the
  bytes of the socket as they come, in pieces of any size, keeps what is left of an unfinished message and calls
  its listener for every message that is complete; the listener changes a state of its own. \<open>None\<close> is a failed
  assertion, a read outside the buffer, or the listener's own failure.
\<close>

section \<open>Headers\<close>

record MessageHeader =
  magic :: u32
  command :: bytes
  payload_length :: u32
  checksum :: u32

record 's codec_context =
  cd_net :: "'s net_context"
  cd_bits :: bit_converter
  cd_digests :: digests
  cd_magic :: u32

definition PROTOCOL_HEADER_SIZE :: nat where "PROTOCOL_HEADER_SIZE = 24"

text \<open>The command is the text of the field up to its first zero byte. \<open>None\<close> is \<open>false\<close>.\<close>

definition read_message_header :: "'s istream \<Rightarrow> 's \<Rightarrow> MessageHeader option \<times> 's" where
  "read_message_header ist s =
     (let (m, s) = rd32 ist s; (c, s) = rd_str ist 12 s; (l, s) = rd32 ist s; (k, s) = rd32 ist s
      in (do { m \<leftarrow> m; c \<leftarrow> c; l \<leftarrow> l; k \<leftarrow> k;
               Some \<lparr>magic = m, command = takeWhile (\<lambda>b. b \<noteq> 0) c, payload_length = l, checksum = k\<rparr> }, s))"

section \<open>The encoder\<close>

definition writeMessageCommand :: "bytes \<Rightarrow> bytes option" where
  "writeMessageCommand t = do { assert_that (length t < 12); Some (t @ replicate (12 - length t) 0) }"

text \<open>The buffer of the encoder; how the library writes past its end is not known, and is \<open>None\<close> here.\<close>

definition ENCODER_BUFFER :: nat where "ENCODER_BUFFER = 1024 * 1024"

definition encode :: "'s codec_context \<Rightarrow> Message \<Rightarrow> bytes option" where
  "encode cd msg = do {
     c \<leftarrow> writeMessageCommand (getMessageType msg);
     let p = write_object (cd_net cd) msg;
     assert_that (PROTOCOL_HEADER_SIZE + length p \<le> ENCODER_BUFFER);
     Some (wr32 (nt_out (cd_net cd)) (cd_magic cd) @ c @ wr32 (nt_out (cd_net cd)) (of_nat (length p)) @
       take 4 (hash256 (cd_digests cd) p) @ p)
   }"

section \<open>The decoder\<close>

text \<open>\<open>decodeOneMessage\<close>: \<open>NeedMore\<close> is the result 0. The sizes are compared in 32 bits, so the sum of a length
  near \<open>2 ^ 32\<close> and the size of the header wraps around; the payload then reaches outside the buffer.\<close>

datatype one_message = NeedMore | OneMessage MessageHeader bytes

definition decodeOneMessage :: "'s codec_context \<Rightarrow> bytes \<Rightarrow> one_message option" where
  "decodeOneMessage cd data =
     (if length data < PROTOCOL_HEADER_SIZE then Some NeedMore
      else do {
        h \<leftarrow> fst (read_message_header (nt_in (cd_net cd)) (of_bytes (nt_in (cd_net cd)) data));
        assert_that (magic h = cd_magic cd);
        if (of_nat (length data) :: u32) < payload_length h + of_nat PROTOCOL_HEADER_SIZE then Some NeedMore
        else do {
          assert_that (PROTOCOL_HEADER_SIZE + unat (payload_length h) \<le> length data);
          let p = take (unat (payload_length h)) (drop PROTOCOL_HEADER_SIZE data);
          assert_that (to_dword (cd_bits cd) (hash256 (cd_digests cd) p) = checksum h);
          Some (OneMessage h p)
        }
      })"

text \<open>\<open>decodeMessages\<close>: the bytes that are left, and the listener's state.\<close>

function decodeMessages :: "'s codec_context \<Rightarrow> (MessageHeader \<Rightarrow> bytes \<Rightarrow> 'l \<Rightarrow> 'l option) \<Rightarrow> bytes \<Rightarrow> 'l \<Rightarrow> (bytes \<times> 'l) option" where
  "decodeMessages cd f data l =
     (if data = [] then Some (data, l)
      else case decodeOneMessage cd data of
          None \<Rightarrow> None
        | Some NeedMore \<Rightarrow> Some (data, l)
        | Some (OneMessage h p) \<Rightarrow> (case f h p l of
            None \<Rightarrow> None | Some l \<Rightarrow> decodeMessages cd f (drop (PROTOCOL_HEADER_SIZE + unat (payload_length h)) data) l))"
  by pat_completeness auto
termination by (relation "measure (\<lambda>(cd, f, data, l). length data)") (auto simp: PROTOCOL_HEADER_SIZE_def)

declare decodeMessages.simps [simp del]

text \<open>\<open>decode\<close>: the piece is appended to what was left over; the result is the new left-over, and \<open>true\<close>.\<close>

definition decode :: "'s codec_context \<Rightarrow> (MessageHeader \<Rightarrow> bytes \<Rightarrow> 'l \<Rightarrow> 'l option) \<Rightarrow> bytes \<Rightarrow> bytes \<times> 'l \<Rightarrow> (bytes \<times> 'l) option" where
  "decode cd f data st = decodeMessages cd f (if fst st = [] then data else fst st @ data) (snd st)"

fun decode_pieces :: "'s codec_context \<Rightarrow> (MessageHeader \<Rightarrow> bytes \<Rightarrow> 'l \<Rightarrow> 'l option) \<Rightarrow> bytes list \<Rightarrow> bytes \<times> 'l \<Rightarrow> (bytes \<times> 'l) option" where
  "decode_pieces cd f [] st = Some st"
| "decode_pieces cd f (d # ds) st = do { st \<leftarrow> decode cd f d st; decode_pieces cd f ds st }"

section \<open>Decoding in pieces\<close>

text \<open>The header a message is sent with.\<close>

definition header_of :: "'s codec_context \<Rightarrow> Message \<Rightarrow> MessageHeader" where
  "header_of cd msg =
     (let p = write_object (cd_net cd) msg
      in \<lparr>magic = cd_magic cd, command = getMessageType msg, payload_length = of_nat (length p),
          checksum = to_dword (cd_bits cd) (hash256 (cd_digests cd) p)\<rparr>)"

fun deliver :: "'s codec_context \<Rightarrow> (MessageHeader \<Rightarrow> bytes \<Rightarrow> 'l \<Rightarrow> 'l option) \<Rightarrow> Message list \<Rightarrow> 'l \<Rightarrow> 'l option" where
  "deliver cd f [] l = Some l"
| "deliver cd f (m # ms) l = do { l \<leftarrow> f (header_of cd m) (write_object (cd_net cd) m) l; deliver cd f ms l }"

lemma type_short: "length (getMessageType m) < 12" "0 \<notin> set (getMessageType m)"
  by (cases m; simp add: ascii_def of_char_of)+

lemma deliver_append: "deliver cd f (xs @ ys) l = Option.bind (deliver cd f xs l) (deliver cd f ys)"
proof (induction xs arbitrary: l)
  case (Cons m xs)
  then show ?case by (cases "f (header_of cd m) (write_object (cd_net cd) m) l") simp_all
qed simp

locale codec = message_streams "cd_net cd" + little_endian "cd_bits cd"
  for cd :: "'s codec_context" +
  assumes digest_size: "length (sha256 (cd_digests cd) b) = 32"
begin

lemma wr32_le_word:
  assumes "length b = 4"
  shows "wr32 (nt_out (cd_net cd)) (le_word b) = b"
  using assms by (simp add: wr32_le le_bytes_le_word)

lemma encode_parts:
  assumes "encode cd m = Some e"
  obtains c where "e = wr32 (nt_out (cd_net cd)) (cd_magic cd) @ c @ wr32 (nt_out (cd_net cd)) (of_nat (length (write_object (cd_net cd) m))) @
      wr32 (nt_out (cd_net cd)) (checksum (header_of cd m)) @ write_object (cd_net cd) m"
    "length c = 12" "takeWhile (\<lambda>b. b \<noteq> 0) c = getMessageType m" "PROTOCOL_HEADER_SIZE + length (write_object (cd_net cd) m) \<le> ENCODER_BUFFER"
proof -
  let ?p = "write_object (cd_net cd) m" and ?c = "getMessageType m @ replicate (12 - length (getMessageType m)) 0"
  let ?k = "take 4 (hash256 (cd_digests cd) ?p)"
  have k: "length ?k = 4" using digest_size by (simp add: hash256_def)
  have "checksum (header_of cd m) = le_word ?k"
    using to_dword_val [of "hash256 (cd_digests cd) ?p"] digest_size
    by (simp add: header_of_def Let_def word_uint_eq_iff uint_le_word hash256_def)
  then have "wr32 (nt_out (cd_net cd)) (checksum (header_of cd m)) = ?k" using wr32_le_word [OF k] by simp
  then have "e = wr32 (nt_out (cd_net cd)) (cd_magic cd) @ ?c @ wr32 (nt_out (cd_net cd)) (of_nat (length ?p)) @
      wr32 (nt_out (cd_net cd)) (checksum (header_of cd m)) @ ?p" "PROTOCOL_HEADER_SIZE + length ?p \<le> ENCODER_BUFFER"
    using assms by (auto simp: encode_def writeMessageCommand_def Let_def split: if_splits bind_splits)
  moreover have "length ?c = 12" using type_short(1) [of m] by simp
  moreover have "takeWhile (\<lambda>b. b \<noteq> 0) ?c = getMessageType m"
    using type_short [of m] by (subst takeWhile_append2) (auto simp: takeWhile_eq_Nil_iff)
  ultimately show thesis using that by blast
qed

lemma encode_length:
  assumes "encode cd m = Some e"
  shows "length e = PROTOCOL_HEADER_SIZE + length (write_object (cd_net cd) m)" "length e \<le> ENCODER_BUFFER"
proof -
  obtain c where c: "e = wr32 (nt_out (cd_net cd)) (cd_magic cd) @ c @ wr32 (nt_out (cd_net cd)) (of_nat (length (write_object (cd_net cd) m))) @
      wr32 (nt_out (cd_net cd)) (checksum (header_of cd m)) @ write_object (cd_net cd) m" "length c = 12"
    "PROTOCOL_HEADER_SIZE + length (write_object (cd_net cd) m) \<le> ENCODER_BUFFER"
    using encode_parts [OF assms] by blast
  then show "length e = PROTOCOL_HEADER_SIZE + length (write_object (cd_net cd) m)" "length e \<le> ENCODER_BUFFER"
    by (simp_all add: wr32_le PROTOCOL_HEADER_SIZE_def)
qed

lemma decodeOne_prefix:
  assumes e: "encode cd m = Some e" and data: "data @ c = e @ r" and small: "length data < 2 ^ 32"
  shows "decodeOneMessage cd data = Some (if length data < length e then NeedMore else OneMessage (header_of cd m) (write_object (cd_net cd) m))"
proof (cases "length data < PROTOCOL_HEADER_SIZE")
  case True
  then show ?thesis using encode_length(1) [OF e] by (simp add: decodeOneMessage_def)
next
  case False
  let ?os = "nt_out (cd_net cd)" and ?ist = "nt_in (cd_net cd)" and ?p = "write_object (cd_net cd) m"
  obtain cmd where parts: "e = wr32 ?os (cd_magic cd) @ cmd @ wr32 ?os (of_nat (length ?p)) @ wr32 ?os (checksum (header_of cd m)) @ ?p"
    "length cmd = 12" "takeWhile (\<lambda>b. b \<noteq> 0) cmd = getMessageType m" "PROTOCOL_HEADER_SIZE + length ?p \<le> ENCODER_BUFFER"
    using encode_parts [OF e] by blast
  let ?h = "wr32 ?os (cd_magic cd) @ cmd @ wr32 ?os (of_nat (length ?p)) @ wr32 ?os (checksum (header_of cd m))"
  have h: "length ?h = PROTOCOL_HEADER_SIZE" using parts(2) by (simp add: wr32_le PROTOCOL_HEADER_SIZE_def)
  have "take PROTOCOL_HEADER_SIZE data = take PROTOCOL_HEADER_SIZE (data @ c)" using False by simp
  also have "\<dots> = ?h" unfolding data parts(1) using h by (simp add: append_assoc [symmetric] del: append_assoc)
  finally obtain d where d: "data = ?h @ d" using append_take_drop_id [of PROTOCOL_HEADER_SIZE data] by metis
  have drop: "drop PROTOCOL_HEADER_SIZE data = d" unfolding d using h by simp
  have dc: "d @ c = ?p @ r" using data unfolding d parts(1) by simp
  have len: "length data = PROTOCOL_HEADER_SIZE + length d" unfolding d length_append [of ?h] h ..
  have n: "unat (of_nat (length ?p) :: u32) = length ?p" using parts(4) by (simp add: unat_of_nat ENCODER_BUFFER_def PROTOCOL_HEADER_SIZE_def)
  have sum: "unat (of_nat (length ?p) + of_nat PROTOCOL_HEADER_SIZE :: u32) = length ?p + PROTOCOL_HEADER_SIZE"
  proof -
    have "length ?p + PROTOCOL_HEADER_SIZE < 2 ^ 32" using parts(4) by (simp add: ENCODER_BUFFER_def)
    then show ?thesis unfolding of_nat_add [symmetric] unat_of_nat by simp
  qed
  have size: "unat (of_nat (length data) :: u32) = length data" using small by (simp add: unat_of_nat)
  have hdr: "fst (read_message_header ?ist (of_bytes ?ist data)) = Some (header_of cd m)"
    unfolding d using parts(2,3) by (simp add: read_message_header_def header_of_def Let_def)
  have mg: "magic (header_of cd m) = cd_magic cd" "payload_length (header_of cd m) = of_nat (length ?p)"
    "checksum (header_of cd m) = to_dword (cd_bits cd) (hash256 (cd_digests cd) ?p)"
    by (simp_all add: header_of_def Let_def)
  have less: "(of_nat (length data) :: u32) < of_nat (length ?p) + of_nat PROTOCOL_HEADER_SIZE \<longleftrightarrow> length d < length ?p"
    unfolding word_less_nat_alt size sum by (simp add: len)
  show ?thesis
  proof (cases "length d < length ?p")
    case True
    then show ?thesis using False hdr mg less by (simp add: decodeOneMessage_def len encode_length(1) [OF e])
  next
    case complete: False
    then have "take (length ?p) d = ?p" using arg_cong [OF dc, of "take (length ?p)"] by simp
    then show ?thesis using False complete hdr mg less n by (simp add: decodeOneMessage_def drop len encode_length(1) [OF e] Let_def)
  qed
qed

text \<open>Given a prefix of a sequence of messages, the decoder delivers those that are complete and keeps the rest.\<close>

lemma decodeMessages_prefix:
  assumes "list_all2 (\<lambda>m e. encode cd m = Some e) ms es" "data @ c = concat es" "length data < 2 ^ 32"
  shows "\<exists>k left. k \<le> length ms \<and> left @ c = concat (drop k es) \<and> (left = [] \<or> k < length es \<and> length left < length (es ! k)) \<and>
    (\<forall>l. decodeMessages cd f data l = map_option (Pair left) (deliver cd f (take k ms) l))"
  using assms
proof (induction ms es arbitrary: data rule: list_all2_induct)
  case Nil
  then show ?case by (intro exI [of _ 0] exI [of _ "[]"]) (simp add: decodeMessages.simps)
next
  case (Cons m ms e es)
  note one = decodeOne_prefix [OF Cons.hyps(1) Cons.prems(1) [unfolded concat.simps] Cons.prems(2)]
  have pos: "0 < length e" using encode_length(1) [OF Cons.hyps(1)] by (simp add: PROTOCOL_HEADER_SIZE_def)
  show ?case
  proof (cases "length data < length e")
    case True
    then have "decodeMessages cd f data l = Some (data, l)" for l using one by (simp add: decodeMessages.simps)
    then show ?thesis using True Cons.prems(1) by (intro exI [of _ 0] exI [of _ data]) simp
  next
    case False
    obtain d where d: "data = e @ d" "d @ c = concat es"
    proof
      have "take (length e) data = take (length e) (data @ c)" using False by simp
      then have "take (length e) data = e" using Cons.prems(1) by simp
      then show "data = e @ drop (length e) data" using append_take_drop_id [of "length e" data] by simp
      then show "drop (length e) data @ c = concat es" using Cons.prems(1)
        by (metis append.assoc concat.simps(2) same_append_eq)
    qed
    have small: "length d < 2 ^ 32" using Cons.prems(2) by (simp add: d(1))
    from Cons.IH [OF d(2) small] obtain k left where k: "k \<le> length ms" "left @ c = concat (drop k es)"
      "left = [] \<or> k < length es \<and> length left < length (es ! k)"
      "\<And>l. decodeMessages cd f d l = map_option (Pair left) (deliver cd f (take k ms) l)" by blast
    have n: "unat (payload_length (header_of cd m)) = length (write_object (cd_net cd) m)"
      using encode_length [OF Cons.hyps(1)] by (simp add: header_of_def Let_def unat_of_nat ENCODER_BUFFER_def)
    have "drop (PROTOCOL_HEADER_SIZE + unat (payload_length (header_of cd m))) data = d"
      unfolding n d(1) using encode_length(1) [OF Cons.hyps(1)] by simp
    then have "decodeMessages cd f data l = map_option (Pair left) (deliver cd f (take (Suc k) (m # ms)) l)" for l
      using one False pos d(1) by (subst decodeMessages.simps) (auto simp: k(4) split: option.split)
    then show ?thesis using k(1-3) by (intro exI [of _ "Suc k"] exI [of _ left]) auto
  qed
qed

lemma decode_pieces_messages:
  assumes "list_all2 (\<lambda>m e. encode cd m = Some e) ms es" "left @ concat ds = concat es" "length (left @ concat ds) < 2 ^ 32"
    and "left = [] \<or> es \<noteq> [] \<and> length left < length (hd es)"
  shows "decode_pieces cd f ds (left, l) = map_option (Pair []) (deliver cd f ms l)"
  using assms
proof (induction ds arbitrary: left ms es l)
  case Nil
  have "es = []"
  proof (rule ccontr)
    assume some: "es \<noteq> []"
    then obtain e es' where e: "es = e # es'" by (cases es) auto
    then obtain m where "encode cd m = Some e" using Nil.prems(1) by (auto simp: list_all2_Cons2)
    from encode_length(1) [OF this] have "0 < length e" by (simp add: PROTOCOL_HEADER_SIZE_def)
    then show False using Nil.prems(2,4) e by auto
  qed
  then show ?case using Nil.prems(1,2) by simp
next
  case (Cons d ds)
  have pre: "(left @ d) @ concat ds = concat es" using Cons.prems(2) by simp
  have "length (left @ d) \<le> length (left @ concat (d # ds))" by simp
  then have small: "length (left @ d) < 2 ^ 32" using Cons.prems(3) by (rule le_less_trans)
  from decodeMessages_prefix [OF Cons.prems(1) pre small, of f] obtain k left' where k: "k \<le> length ms" "left' @ concat ds = concat (drop k es)"
    "left' = [] \<or> k < length es \<and> length left' < length (es ! k)"
    "\<And>l. decodeMessages cd f (left @ d) l = map_option (Pair left') (deliver cd f (take k ms) l)" by blast
  have len: "length ms = length es" using Cons.prems(1) by (rule list_all2_lengthD)
  have "list_all2 (\<lambda>m e. encode cd m = Some e) (drop k ms) (drop k es)" using Cons.prems(1) by (rule list_all2_dropI)
  moreover have "length (left' @ concat ds) < 2 ^ 32"
  proof -
    have "length (concat (drop k es)) \<le> length (concat es)"
      by (metis append_take_drop_id concat_append length_append le_add2)
    then show ?thesis using Cons.prems(2,3) k(2) by simp
  qed
  moreover have "left' = [] \<or> drop k es \<noteq> [] \<and> length left' < length (hd (drop k es))"
    using k(3) by (auto simp: hd_drop_conv_nth)
  ultimately have rest: "decode_pieces cd f ds (left', l) = map_option (Pair []) (deliver cd f (drop k ms) l)" for l
    using Cons.IH k(2) by blast
  have "deliver cd f ms l = Option.bind (deliver cd f (take k ms) l) (deliver cd f (drop k ms))" for l
    using deliver_append [of cd f "take k ms" "drop k ms"] by simp
  then show ?case using rest k(4) by (cases "deliver cd f (take k ms) l") (auto simp: decode_def)
qed

end

section \<open>Properties\<close>

definition le_codec :: "(bytes \<times> bool) codec_context" where
  "le_codec = \<lparr>cd_net = le_net, cd_bits = le_converter, cd_digests = \<lparr>sha256 = \<lambda>b. take 32 (b @ replicate 32 0), ripemd160 = id\<rparr>,
     cd_magic = 0xD9B4BEF9\<rparr>"

lemma le_codec_simps [simp]: "cd_net le_codec = le_net" "cd_bits le_codec = le_converter" "cd_magic le_codec = 0xD9B4BEF9"
  by (simp_all add: le_codec_def)

interpretation lecd: codec le_codec
  by (intro codec.intro codec_axioms.intro) (simp_all add: lem.message_streams_axioms lec.little_endian_axioms, simp add: le_codec_def)

text \<open>C12: the encoded messages may reach the decoder in pieces of any sizes, cut anywhere: the listener gets exactly
  the messages that were sent, in their order, each with its header and its payload, and nothing is left over.\<close>

theorem decode_any_pieces:
  assumes "codec cd" "list_all2 (\<lambda>m e. encode cd m = Some e) ms es" "concat ds = concat es" "length (concat es) < 2 ^ 32"
  shows "decode_pieces cd f ds ([], l) = map_option (Pair []) (deliver cd f ms l)"
  using codec.decode_pieces_messages [OF assms(1,2), of "[]" ds f l] assms(3,4) by simp

theorem decode_any_pieces_witness:
  "\<exists>a b. encode le_codec (Ping 7) = Some (a @ b) \<and> length a = 5 \<and>
     decode_pieces le_codec (\<lambda>h p ms. Some (ms @ [(command h, p)])) [a, [], b] ([], []) = Some ([], [(ascii ''ping'', le_bytes 8 (7 :: u64))])"
proof -
  have "encode le_codec (Ping 7) \<noteq> None"
    by (simp add: encode_def writeMessageCommand_def ascii_def PROTOCOL_HEADER_SIZE_def ENCODER_BUFFER_def le_ostream_def Let_def)
  then obtain e where e: "encode le_codec (Ping 7) = Some e" by blast
  have len: "length e = 32" using lecd.encode_length(1) [OF e] by (simp add: PROTOCOL_HEADER_SIZE_def le_ostream_def)
  have "decode_pieces le_codec (\<lambda>h p ms. Some (ms @ [(command h, p)])) [take 5 e, [], drop 5 e] ([], []) =
      map_option (Pair []) (deliver le_codec (\<lambda>h p ms. Some (ms @ [(command h, p)])) [Ping 7] [])"
    by (rule decode_any_pieces [OF lecd.codec_axioms, of "[Ping 7]" "[e]"]) (simp_all add: e len)
  then have "decode_pieces le_codec (\<lambda>h p ms. Some (ms @ [(command h, p)])) [take 5 e, [], drop 5 e] ([], []) =
      Some ([], [(ascii ''ping'', le_bytes 8 (7 :: u64))])" by (simp add: header_of_def Let_def le_ostream_def)
  then show ?thesis using e len by (intro exI [of _ "take 5 e"] exI [of _ "drop 5 e"]) simp
qed

text \<open>C29: a header whose length is just below \<open>2 ^ 32\<close> defeats the check of the size: the sum with the size of the
  header wraps around, and with the magic of the network the decoder reads far outside its buffer instead of waiting for more bytes (with another
  magic an assertion fails before; both end the process).\<close>

theorem length_check_wraps:
  assumes "codec cd" "length data = PROTOCOL_HEADER_SIZE"
    and "fst (read_message_header (nt_in (cd_net cd)) (of_bytes (nt_in (cd_net cd)) data)) = Some h"
    and "payload_length h \<ge> 0xFFFFFFE8"
  shows "decodeOneMessage cd data = None"
proof -
  have len: "unat (payload_length h) \<ge> 0xFFFFFFE8" using assms(4) by (simp add: word_le_nat_alt)
  have "unat (payload_length h + of_nat PROTOCOL_HEADER_SIZE) \<le> 24"
  proof -
    have "unat (payload_length h) < 2 ^ 32" using unsigned_less [of "payload_length h"] by simp
    moreover have "unat (payload_length h + 24) = (unat (payload_length h) + 24) mod 2 ^ 32" by (simp add: unat_word_ariths)
    moreover have "(unat (payload_length h) + 24) mod 2 ^ 32 = unat (payload_length h) + 24 - 2 ^ 32"
      using calculation(1) len by (subst mod_if) simp
    ultimately show ?thesis by (simp add: PROTOCOL_HEADER_SIZE_def)
  qed
  then have "\<not> (of_nat (length data) :: u32) < payload_length h + of_nat PROTOCOL_HEADER_SIZE"
    by (simp add: word_less_nat_alt assms(2) PROTOCOL_HEADER_SIZE_def)
  then show ?thesis using assms(2,3) len by (simp add: decodeOneMessage_def PROTOCOL_HEADER_SIZE_def)
qed

theorem length_check_wraps_witness:
  "decodeOneMessage le_codec (le_bytes 4 (0xD9B4BEF9 :: u32) @ replicate 12 0 @ replicate 8 0xFF) = None"
proof -
  let ?d = "le_bytes 4 (0xD9B4BEF9 :: u32) @ replicate 12 0 @ replicate 8 0xFF"
  have le: "le_bytes 4 (0xFFFFFFFF :: u32) = replicate 4 0xFF" by code_simp
  have d: "?d = wr32 le_ostream 0xD9B4BEF9 @ replicate 12 0 @ wr32 le_ostream 0xFFFFFFFF @ wr32 le_ostream 0xFFFFFFFF"
    using replicate_add [of 4 4 "0xFF :: byte"] by (simp add: le_ostream_def le)
  obtain h where h: "fst (read_message_header le_istream (of_bytes le_istream ?d)) = Some h" "payload_length h = 0xFFFFFFFF"
    unfolding d by (simp add: read_message_header_def Let_def les.rd32 [of _ "[]", simplified])
  show ?thesis
    using length_check_wraps [OF lecd.codec_axioms, of ?d h] h by (simp add: PROTOCOL_HEADER_SIZE_def)
qed

end
