(* ===== verification/PeerPool.thy ===== *)
theory PeerPool
  imports Messages "HOL-Library.AList"
begin

text \<open>
  \<open>net/PeerPoolImpl.hpp\<close> and \<open>net/PeerPoolImpl.cpp\<close>: the addresses the node knows, with what it has tried with
  each. An entry of the pool is an object that the map of peers and two multimaps by time share; the map has
  one object for an address, so the address stands for the object. A multimap is the list of its pairs in
  order. \<open>time_counter\<close> is the library's: a counter holds the time it was synchronised at, and
  \<open>elapsed32 now count\<close> is the time since then as a 32-bit number. \<open>None\<close> is a failed assertion.
\<close>

section \<open>State\<close>

datatype PoolPeerState = standby | connecting | connected

record PoolPeerInfo =
  endpoint :: PeerAddress
  rtt :: int
  lastConnectTime :: int
  lastActiveTime :: int
  pp_state :: PoolPeerState
  disconnectError :: int

record PeerPool =
  peers :: "(PeerAddress \<times> PoolPeerInfo) list"
  connectionPool :: "(int \<times> PeerAddress) list"
  expiringPool :: "(int \<times> PeerAddress) list"

record pool_context =
  localEndPoint :: PeerAddress
  elapsed32 :: "int \<Rightarrow> int \<Rightarrow> int"

definition PeerPool_new :: PeerPool where
  "PeerPool_new = \<lparr>peers = [], connectionPool = [], expiringPool = []\<rparr>"

definition PoolPeerInfo_new :: "int \<Rightarrow> PeerAddress \<Rightarrow> PoolPeerInfo" where
  "PoolPeerInfo_new now ep = \<lparr>endpoint = ep, rtt = -1, lastConnectTime = 0, lastActiveTime = now, pp_state = standby, disconnectError = 0\<rparr>"

definition isStandby :: "PoolPeerInfo \<Rightarrow> bool" where
  "isStandby i \<longleftrightarrow> pp_state i = standby"

definition isConnected :: "PoolPeerInfo \<Rightarrow> bool" where
  "isConnected i \<longleftrightarrow> pp_state i = connected"

definition isSelf :: "pool_context \<Rightarrow> PeerAddress \<Rightarrow> bool" where
  "isSelf pc ep \<longleftrightarrow> localEndPoint pc = ep"

section \<open>Multimaps\<close>

text \<open>\<open>std::multimap::insert\<close> puts a pair behind those with its key; \<open>xul::multimaps::erase\<close> takes out a pair.\<close>

fun mm_insert :: "int \<times> 'a \<Rightarrow> (int \<times> 'a) list \<Rightarrow> (int \<times> 'a) list" where
  "mm_insert x [] = [x]"
| "mm_insert x (y # ys) = (if fst x < fst y then x # y # ys else y # mm_insert x ys)"

definition mm_erase :: "int \<times> 'a \<Rightarrow> (int \<times> 'a) list \<Rightarrow> (int \<times> 'a) list" where
  "mm_erase x ys = filter (\<lambda>y. y \<noteq> x) ys"

definition removePeerMap :: "PeerAddress \<Rightarrow> PoolPeerInfo \<Rightarrow> PeerPool \<Rightarrow> PeerPool" where
  "removePeerMap a i pool = pool\<lparr>expiringPool := mm_erase (lastActiveTime i, a) (expiringPool pool),
     connectionPool := mm_erase (lastConnectTime i, a) (connectionPool pool)\<rparr>"

definition addPeerMap :: "PeerAddress \<Rightarrow> PoolPeerInfo \<Rightarrow> PeerPool \<Rightarrow> PeerPool" where
  "addPeerMap a i pool = pool\<lparr>
     connectionPool := (if isStandby i then mm_insert (lastConnectTime i, a) (connectionPool pool) else connectionPool pool),
     expiringPool := (if \<not> isConnected i then mm_insert (lastActiveTime i, a) (expiringPool pool) else expiringPool pool)\<rparr>"

section \<open>Operations\<close>

text \<open>A \<open>PoolItemUpdater\<close> takes the entry out of the multimaps, and puts it back under its new times and state
  when the function returns.\<close>

definition update_item :: "PeerAddress \<Rightarrow> PoolPeerInfo \<Rightarrow> (PoolPeerInfo \<Rightarrow> PoolPeerInfo) \<Rightarrow> PeerPool \<Rightarrow> PeerPool" where
  "update_item a i f pool =
     (let pool = removePeerMap a i pool; pool = pool\<lparr>peers := AList.update a (f i) (peers pool)\<rparr> in addPeerMap a (f i) pool)"

text \<open>Nothing here looks at whether the address is valid.\<close>

definition doAddPeer :: "pool_context \<Rightarrow> int \<Rightarrow> PeerAddress \<Rightarrow> PeerPool \<Rightarrow> PeerPool" where
  "doAddPeer pc now a pool =
     (if isSelf pc a then pool
      else case map_of (peers pool) a of
          None \<Rightarrow> addPeerMap a (PoolPeerInfo_new now a) (pool\<lparr>peers := AList.update a (PoolPeerInfo_new now a) (peers pool)\<rparr>)
        | Some i \<Rightarrow> update_item a i (\<lambda>i. i\<lparr>lastActiveTime := now\<rparr>) pool)"

definition addPeers :: "pool_context \<Rightarrow> int \<Rightarrow> PeerAddress list \<Rightarrow> PeerPool \<Rightarrow> PeerPool" where
  "addPeers pc now as pool = fold (doAddPeer pc now) as pool"

definition findPeer :: "int \<Rightarrow> PeerAddress \<Rightarrow> PeerPool \<Rightarrow> (PoolPeerInfo \<times> PeerPool) option" where
  "findPeer now a pool = do {
     assert_that (address_isValid a);
     Some (case map_of (peers pool) a of
         Some i \<Rightarrow> (i, pool)
       | None \<Rightarrow> (PoolPeerInfo_new now a,
           addPeerMap a (PoolPeerInfo_new now a) (pool\<lparr>peers := AList.update a (PoolPeerInfo_new now a) (peers pool)\<rparr>)))
   }"

text \<open>The address to connect to next, if any.\<close>

definition getConnectionPeer :: "pool_context \<Rightarrow> int \<Rightarrow> PeerPool \<Rightarrow> (PeerAddress option \<times> PeerPool) option" where
  "getConnectionPeer pc now pool =
     (case connectionPool pool of
        [] \<Rightarrow> Some (None, pool)
      | (t, a) # r \<Rightarrow> do {
          i \<leftarrow> map_of (peers pool) a;
          assert_that (address_isValid (endpoint i));
          if elapsed32 pc now (lastConnectTime i) < 5000 then Some (None, pool)
          else do {
            assert_that (isStandby i);
            Some (Some (endpoint i), update_item a i (\<lambda>i. i\<lparr>lastConnectTime := now\<rparr>) pool)
          }
        })"

definition setPeerConnecting :: "int \<Rightarrow> PeerAddress \<Rightarrow> PeerPool \<Rightarrow> PeerPool option" where
  "setPeerConnecting now a pool = do {
     assert_that (address_isValid a);
     (i, pool) \<leftarrow> findPeer now a pool;
     Some (update_item a i (\<lambda>i. i\<lparr>pp_state := connecting\<rparr>) pool)
   }"

definition setPeerConnected :: "int \<Rightarrow> PeerAddress \<Rightarrow> int \<Rightarrow> PeerPool \<Rightarrow> PeerPool option" where
  "setPeerConnected now a r pool =
     (if \<not> address_isValid a then Some pool
      else do {
        (i, pool) \<leftarrow> findPeer now a pool;
        Some (update_item a i (\<lambda>i. i\<lparr>pp_state := connected, rtt := r\<rparr>) pool)
      })"

definition setPeerDisconnected :: "int \<Rightarrow> PeerAddress \<Rightarrow> int \<Rightarrow> bool \<Rightarrow> PeerPool \<Rightarrow> PeerPool option" where
  "setPeerDisconnected now a err wasConnected pool =
     (if \<not> address_isValid a then Some pool
      else do {
        (i, pool) \<leftarrow> findPeer now a pool;
        Some (update_item a i (\<lambda>i. (i\<lparr>pp_state := standby, disconnectError := err\<rparr>)
          \<lparr>lastActiveTime := (if wasConnected then now else lastActiveTime i)\<rparr>) pool)
      })"

text \<open>Peers that nobody has mentioned for five minutes are forgotten, unless they are connected. The loop may
  run forever in the model: that it does not is a theorem.\<close>

partial_function (option) expire_loop :: "pool_context \<Rightarrow> int \<Rightarrow> PeerPool \<Rightarrow> PeerPool option" where
  "expire_loop pc now pool =
     (case expiringPool pool of
        [] \<Rightarrow> Some pool
      | (t, a) # r \<Rightarrow> (case map_of (peers pool) a of
          None \<Rightarrow> None
        | Some i \<Rightarrow>
            if elapsed32 pc now (lastActiveTime i) > 5 * 60 * 1000
            then expire_loop pc now (removePeerMap a i (pool\<lparr>peers := AList.delete (endpoint i) (peers pool)\<rparr>))
            else Some pool))"

definition removeExpired :: "pool_context \<Rightarrow> int \<Rightarrow> PeerPool \<Rightarrow> PeerPool option" where
  "removeExpired pc now pool = do {
     pool \<leftarrow> expire_loop pc now pool;
     assert_that (\<not> (length (peers pool) < length (connectionPool pool) \<or> length (expiringPool pool) > length (peers pool)));
     Some pool
   }"

definition pool_onTick :: "pool_context \<Rightarrow> int \<Rightarrow> int \<Rightarrow> PeerPool \<Rightarrow> PeerPool option" where
  "pool_onTick pc now tick pool = (if tick mod 20 = 0 then removeExpired pc now pool else Some pool)"

definition getPeerCount :: "PeerPool \<Rightarrow> int" where
  "getPeerCount pool = int (length (peers pool))"

definition getConnectPeerCount :: "PeerPool \<Rightarrow> int" where
  "getConnectPeerCount pool = int (length (connectionPool pool))"

section \<open>The invariant of the pool\<close>

text \<open>A multimap that holds a time for some of the peers: every such peer once, in the order of the times.\<close>

definition indexes :: "(int \<times> PeerAddress) list \<Rightarrow> (PoolPeerInfo \<Rightarrow> bool) \<Rightarrow> (PoolPeerInfo \<Rightarrow> int) \<Rightarrow> (PeerAddress \<Rightarrow> PoolPeerInfo option) \<Rightarrow> bool" where
  "indexes m P time M \<longleftrightarrow> sorted (map fst m) \<and> distinct m \<and>
     (\<forall>t a. (t, a) \<in> set m \<longleftrightarrow> (\<exists>i. M a = Some i \<and> P i \<and> t = time i))"

definition pool_ok :: "PeerPool \<Rightarrow> bool" where
  "pool_ok pool \<longleftrightarrow> distinct (map fst (peers pool)) \<and> (\<forall>a i. map_of (peers pool) a = Some i \<longrightarrow> endpoint i = a) \<and>
     indexes (connectionPool pool) isStandby lastConnectTime (map_of (peers pool)) \<and>
     indexes (expiringPool pool) (\<lambda>i. \<not> isConnected i) lastActiveTime (map_of (peers pool))"

lemma set_mm_insert [simp]: "set (mm_insert x ys) = insert x (set ys)"
  by (induction ys) auto

lemma sorted_mm_insert: "sorted (map fst ys) \<Longrightarrow> sorted (map fst (mm_insert x ys))"
  by (induction ys) auto

lemma distinct_mm_insert: "x \<notin> set ys \<Longrightarrow> distinct (mm_insert x ys) = distinct ys"
  by (induction ys) auto

lemma sorted_mm_erase: "sorted (map fst ys) \<Longrightarrow> sorted (map fst (mm_erase x ys))"
  by (simp add: mm_erase_def sorted_filter)

lemma mm_erase_facts [simp]: "set (mm_erase x ys) = set ys - {x}" "distinct ys \<Longrightarrow> distinct (mm_erase x ys)"
  by (auto simp: mm_erase_def)

lemma indexes_erase:
  assumes "indexes m P time M" "M a = Some i"
  shows "indexes (mm_erase (time i, a) m) P time (M(a := None))"
proof -
  have "(t, b) \<in> set (mm_erase (time i, a) m) \<longleftrightarrow> (\<exists>j. (M(a := None)) b = Some j \<and> P j \<and> t = time j)" for t b
    using assms by (auto simp: indexes_def)
  then show ?thesis using assms(1) by (simp add: indexes_def sorted_mm_erase)
qed

lemma indexes_insert:
  assumes "indexes m P time M" "M a = None"
  shows "indexes (if P i then mm_insert (time i, a) m else m) P time (M(a \<mapsto> i))"
proof -
  have "(time i, a) \<notin> set m" using assms by (simp add: indexes_def)
  moreover have "(t, b) \<in> set (if P i then mm_insert (time i, a) m else m) \<longleftrightarrow> (\<exists>j. (M(a \<mapsto> i)) b = Some j \<and> P j \<and> t = time j)" for t b
    using assms by (auto simp: indexes_def)
  ultimately show ?thesis using assms(1) by (simp add: indexes_def sorted_mm_insert distinct_mm_insert)
qed

lemma pool_okD:
  assumes "pool_ok pool"
  shows "map_of (peers pool) a = Some i \<Longrightarrow> endpoint i = a"
    "indexes (connectionPool pool) isStandby lastConnectTime (map_of (peers pool))"
    "indexes (expiringPool pool) (\<lambda>i. \<not> isConnected i) lastActiveTime (map_of (peers pool))" "distinct (map fst (peers pool))"
  using assms by (simp_all add: pool_ok_def)

lemma addPeerMap_ok:
  assumes "pool_ok pool" "map_of (peers pool) a = None" "endpoint i = a"
  shows "pool_ok (addPeerMap a i (pool\<lparr>peers := AList.update a i (peers pool)\<rparr>))"
  using indexes_insert [OF pool_okD(2) [OF assms(1)] assms(2), of i] indexes_insert [OF pool_okD(3) [OF assms(1)] assms(2), of i] assms(3)
    pool_okD(1,4) [OF assms(1)]
  by (simp add: pool_ok_def addPeerMap_def update_conv' distinct_update split: if_splits)

lemma removed_ok:
  assumes "pool_ok pool" "map_of (peers pool) a = Some i"
  shows "pool_ok (removePeerMap a i (pool\<lparr>peers := AList.delete a (peers pool)\<rparr>))"
  using indexes_erase [OF pool_okD(2) [OF assms(1)] assms(2)] indexes_erase [OF pool_okD(3) [OF assms(1)] assms(2)] pool_okD(1,4) [OF assms(1)]
  by (simp add: pool_ok_def removePeerMap_def delete_conv' distinct_delete)

lemma update_item_ok:
  assumes ok: "pool_ok pool" and i: "map_of (peers pool) a = Some i" and f: "endpoint (f i) = endpoint i"
  shows "pool_ok (update_item a i f pool)" "map_of (peers (update_item a i f pool)) = (map_of (peers pool))(a \<mapsto> f i)"
proof -
  show m: "map_of (peers (update_item a i f pool)) = (map_of (peers pool))(a \<mapsto> f i)"
    by (simp add: update_item_def addPeerMap_def removePeerMap_def Let_def update_conv')
  have a: "endpoint (f i) = a" using pool_okD(1) [OF ok i] f by simp
  have "indexes (connectionPool (update_item a i f pool)) isStandby lastConnectTime ((map_of (peers pool))(a \<mapsto> f i))"
    "indexes (expiringPool (update_item a i f pool)) (\<lambda>i. \<not> isConnected i) lastActiveTime ((map_of (peers pool))(a \<mapsto> f i))"
    using indexes_insert [OF indexes_erase [OF pool_okD(2) [OF ok] i], of a "f i"]
      indexes_insert [OF indexes_erase [OF pool_okD(3) [OF ok] i], of a "f i"]
    by (simp_all add: update_item_def addPeerMap_def removePeerMap_def Let_def split: if_splits)
  then show "pool_ok (update_item a i f pool)"
    using pool_okD(1,4) [OF ok] a unfolding pool_ok_def m
    by (simp add: update_item_def addPeerMap_def removePeerMap_def Let_def distinct_update)
qed

lemma findPeer_ok:
  assumes "pool_ok pool" "findPeer now a pool = Some (i, pool')"
  shows "pool_ok pool' \<and> map_of (peers pool') a = Some i"
proof (cases "map_of (peers pool) a")
  case None
  then have "i = PoolPeerInfo_new now a" "pool' = addPeerMap a i (pool\<lparr>peers := AList.update a i (peers pool)\<rparr>)"
    using assms(2) by (auto simp: findPeer_def split: if_splits)
  then show ?thesis using addPeerMap_ok [OF assms(1) None, of i] by (simp add: PoolPeerInfo_new_def addPeerMap_def update_conv')
next
  case (Some j)
  then show ?thesis using assms by (auto simp: findPeer_def split: if_splits)
qed

lemma doAddPeer_ok:
  assumes "pool_ok pool"
  shows "pool_ok (doAddPeer pc now a pool)"
proof (cases "isSelf pc a")
  case False
  show ?thesis
  proof (cases "map_of (peers pool) a")
    case None
    then show ?thesis using False addPeerMap_ok [OF assms None, of "PoolPeerInfo_new now a"] by (simp add: doAddPeer_def PoolPeerInfo_new_def)
  next
    case (Some i)
    then show ?thesis using False update_item_ok(1) [OF assms Some] by (simp add: doAddPeer_def)
  qed
qed (simp add: doAddPeer_def assms)

lemma getConnectionPeer_ok:
  assumes "pool_ok pool" "getConnectionPeer pc now pool = Some (r, pool')"
  shows "pool_ok pool'"
proof (cases "connectionPool pool")
  case Nil
  then show ?thesis using assms by (simp add: getConnectionPeer_def)
next
  case (Cons x xs)
  obtain t a where x: "x = (t, a)" by (cases x)
  show ?thesis
  proof (cases "map_of (peers pool) a")
    case None
    then show ?thesis using assms(2) by (simp add: getConnectionPeer_def Cons x)
  next
    case (Some i)
    then show ?thesis using assms update_item_ok(1) [OF assms(1) Some] by (auto simp: getConnectionPeer_def Cons x split: if_splits)
  qed
qed

lemma set_state_ok:
  assumes "pool_ok pool" "findPeer now a pool = Some (i, pool1)" "endpoint (f i) = endpoint i"
  shows "pool_ok (update_item a i f pool1)"
  using update_item_ok(1) findPeer_ok [OF assms(1,2)] assms(3) by blast

lemma setPeer_ok:
  assumes "pool_ok pool"
  shows "setPeerConnecting now a pool = Some pool' \<Longrightarrow> pool_ok pool'"
    "setPeerConnected now a r pool = Some pool' \<Longrightarrow> pool_ok pool'"
    "setPeerDisconnected now a e c pool = Some pool' \<Longrightarrow> pool_ok pool'"
  using assms set_state_ok [OF assms]
  by (auto simp: setPeerConnecting_def setPeerConnected_def setPeerDisconnected_def split: bind_splits if_splits)

text \<open>Expiry: the loop ends and forgets exactly the peers that are out of date.\<close>

definition expired :: "pool_context \<Rightarrow> int \<Rightarrow> PoolPeerInfo \<Rightarrow> bool" where
  "expired pc now i \<longleftrightarrow> \<not> isConnected i \<and> elapsed32 pc now (lastActiveTime i) > 300000"

lemma indexes_length:
  assumes "indexes m P time (map_of ps)"
  shows "length m \<le> length ps"
proof -
  have inj: "inj_on snd (set m)" using assms by (auto simp: inj_on_def indexes_def)
  have "snd ` set m \<subseteq> fst ` set ps" unfolding dom_map_of_conv_image_fst [symmetric] using assms by (auto simp: indexes_def)
  then have "card (snd ` set m) \<le> card (set (map fst ps))" by (intro card_mono) auto
  also have "\<dots> \<le> length ps" using card_length [of "map fst ps"] by simp
  finally show ?thesis using assms card_image [OF inj] by (simp add: indexes_def distinct_card)
qed

text \<open>What expiry leaves.\<close>

definition kept :: "pool_context \<Rightarrow> int \<Rightarrow> (PeerAddress \<Rightarrow> PoolPeerInfo option) \<Rightarrow> PeerAddress \<Rightarrow> PoolPeerInfo option" where
  "kept pc now M a = (case M a of None \<Rightarrow> None | Some i \<Rightarrow> if expired pc now i then None else Some i)"

lemma expire_loop_ok:
  assumes mono: "\<forall>s t. s \<le> t \<longrightarrow> elapsed32 pc now t > 300000 \<longrightarrow> elapsed32 pc now s > 300000" and ok: "pool_ok pool"
  shows "\<exists>pool'. expire_loop pc now pool = Some pool' \<and> pool_ok pool' \<and> map_of (peers pool') = kept pc now (map_of (peers pool))"
  using ok
proof (induction "length (expiringPool pool)" arbitrary: pool rule: less_induct)
  case less
  let ?M = "map_of (peers pool)"
  note ex = pool_okD(3) [OF less.prems]
  show ?case
  proof (cases "expiringPool pool")
    case Nil
    then have none: "isConnected i" if "?M a = Some i" for a i using ex that by (auto simp: indexes_def)
    have "expire_loop pc now pool = Some pool" using Nil by (subst expire_loop.simps) simp
    moreover have "kept pc now ?M = ?M" using none by (auto simp: kept_def expired_def fun_eq_iff split: option.split)
    ultimately show ?thesis using less.prems by auto
  next
    case (Cons x r)
    obtain t a where x: "x = (t, a)" by (cases x)
    have "(t, a) \<in> set (expiringPool pool)" using Cons x by simp
    then obtain i where i: "?M a = Some i" "\<not> isConnected i" "t = lastActiveTime i" using ex by (auto simp: indexes_def)
    show ?thesis
    proof (cases "elapsed32 pc now (lastActiveTime i) > 300000")
      case True
      let ?p = "removePeerMap a i (pool\<lparr>peers := AList.delete a (peers pool)\<rparr>)"
      have ok': "pool_ok ?p" using removed_ok [OF less.prems i(1)] .
      have "length (expiringPool ?p) < length (expiringPool pool)"
        using Cons x i(3) length_filter_le [of "\<lambda>y. y \<noteq> (t, a)" r] by (simp add: removePeerMap_def mm_erase_def le_imp_less_Suc)
      from less.hyps [OF this ok'] obtain pool' where p: "expire_loop pc now ?p = Some pool'" "pool_ok pool'"
        "map_of (peers pool') = kept pc now (map_of (peers ?p))" by blast
      have "expire_loop pc now pool = expire_loop pc now ?p"
        using Cons x i(1) True pool_okD(1) [OF less.prems i(1)] by (subst expire_loop.simps) simp
      moreover have "kept pc now (map_of (peers ?p)) = kept pc now ?M"
        using i True by (auto simp: kept_def expired_def fun_eq_iff removePeerMap_def delete_conv')
      ultimately show ?thesis using p by auto
    next
      case False
      have "\<not> expired pc now j" if j: "?M b = Some j" for b j
      proof (cases "isConnected j")
        case out: False
        then have "(lastActiveTime j, b) \<in> set (expiringPool pool)" using ex j by (auto simp: indexes_def)
        moreover have "\<forall>y \<in> set (expiringPool pool). t \<le> fst y" using ex Cons x by (auto simp: indexes_def)
        ultimately have "lastActiveTime i \<le> lastActiveTime j" using i(3) by auto
        then show ?thesis using mono False by (auto simp: expired_def)
      qed (simp add: expired_def)
      then have "kept pc now ?M = ?M" by (auto simp: kept_def fun_eq_iff split: option.split)
      moreover have "expire_loop pc now pool = Some pool" using Cons x i(1) False by (subst expire_loop.simps) simp
      ultimately show ?thesis using less.prems by auto
    qed
  qed
qed

section \<open>Runs of the pool\<close>

inductive pool_run :: "pool_context \<Rightarrow> PeerPool \<Rightarrow> PeerPool \<Rightarrow> bool" for pc p0 where
  pool_start: "pool_run pc p0 p0"
| pool_add: "pool_run pc p0 p \<Longrightarrow> pool_run pc p0 (doAddPeer pc now a p)"
| pool_get: "pool_run pc p0 p \<Longrightarrow> getConnectionPeer pc now p = Some (r, p') \<Longrightarrow> pool_run pc p0 p'"
| pool_connecting: "pool_run pc p0 p \<Longrightarrow> setPeerConnecting now a p = Some p' \<Longrightarrow> pool_run pc p0 p'"
| pool_connected: "pool_run pc p0 p \<Longrightarrow> setPeerConnected now a r p = Some p' \<Longrightarrow> pool_run pc p0 p'"
| pool_disconnected: "pool_run pc p0 p \<Longrightarrow> setPeerDisconnected now a e c p = Some p' \<Longrightarrow> pool_run pc p0 p'"
| pool_tick: "pool_run pc p0 p \<Longrightarrow> pool_onTick pc now k p = Some p' \<Longrightarrow> pool_run pc p0 p'"

text \<open>The elapsed time of the library: in milliseconds, as long as it fits.\<close>

definition plain_pool :: pool_context where
  "plain_pool = \<lparr>localEndPoint = \<lparr>ip = 0x7F000001, port = 8333\<rparr>, elapsed32 = (\<lambda>now t. now - t)\<rparr>"

section \<open>Properties\<close>

text \<open>C26: once in five minutes is enough to stay: expiry ends, forgets exactly the peers that are not connected and
  were last heard of more than five minutes ago, keeps the multimaps of the pool in step with its peers, and
  its assertion on their sizes holds. The clock of the library is assumed not to wrap over the times compared: what is too old stays too
  old for every earlier time.\<close>

theorem expiry_exact:
  assumes "\<forall>s t. s \<le> t \<longrightarrow> elapsed32 pc now t > 300000 \<longrightarrow> elapsed32 pc now s > 300000" "pool_ok pool"
  shows "\<exists>pool'. removeExpired pc now pool = Some pool' \<and> pool_ok pool' \<and> map_of (peers pool') = kept pc now (map_of (peers pool))"
proof -
  obtain pool' where p: "expire_loop pc now pool = Some pool'" "pool_ok pool'" "map_of (peers pool') = kept pc now (map_of (peers pool))"
    using expire_loop_ok [OF assms] by blast
  have "length (connectionPool pool') \<le> length (peers pool')" "length (expiringPool pool') \<le> length (peers pool')"
    using indexes_length pool_okD(2,3) [OF p(2)] by blast+
  then show ?thesis using p by (simp add: removeExpired_def)
qed

lemma pool_new_ok: "pool_ok PeerPool_new"
  by (simp add: pool_ok_def PeerPool_new_def indexes_def)

text \<open>An address that was mentioned at time 0 is forgotten ten minutes later.\<close>

definition peer1 :: PeerAddress where
  "peer1 = \<lparr>ip = 0x0A000001, port = 8333\<rparr>"

theorem expiry_exact_witness:
  "\<exists>pool'. removeExpired plain_pool 600000 (doAddPeer plain_pool 0 peer1 PeerPool_new) = Some pool' \<and> map_of (peers pool') peer1 = None"
proof -
  let ?pool = "doAddPeer plain_pool 0 peer1 PeerPool_new"
  have m: "map_of (peers ?pool) peer1 = Some (PoolPeerInfo_new 0 peer1)"
    by (simp add: doAddPeer_def isSelf_def plain_pool_def peer1_def PeerPool_new_def addPeerMap_def)
  have "\<exists>pool'. removeExpired plain_pool 600000 ?pool = Some pool' \<and> pool_ok pool' \<and>
      map_of (peers pool') = kept plain_pool 600000 (map_of (peers ?pool))"
    by (rule expiry_exact) (simp_all add: doAddPeer_ok pool_new_ok, simp add: plain_pool_def)
  moreover have "expired plain_pool 600000 (PoolPeerInfo_new 0 peer1)"
    by (simp add: expired_def isConnected_def PoolPeerInfo_new_def plain_pool_def)
  then have "kept plain_pool 600000 (map_of (peers ?pool)) peer1 = None" by (simp add: kept_def m)
  ultimately show ?thesis by metis
qed

lemma pool_run_ok:
  assumes mono: "\<forall>now s t. s \<le> t \<longrightarrow> elapsed32 pc now t > 300000 \<longrightarrow> elapsed32 pc now s > 300000"
    and "pool_run pc p0 p" "pool_ok p0"
  shows "pool_ok p"
  using assms(2,3)
proof (induction rule: pool_run.induct)
  case (pool_tick p now k p')
  show ?case
  proof (cases "k mod 20 = 0")
    case True
    have "\<forall>s t. s \<le> t \<longrightarrow> elapsed32 pc now t > 300000 \<longrightarrow> elapsed32 pc now s > 300000" using mono by blast
    then obtain q where q: "expire_loop pc now p = Some q" "pool_ok q" using expire_loop_ok pool_tick(3,4) by blast
    have "removeExpired pc now p = Some p'" using pool_tick(2) True by (simp add: pool_onTick_def)
    then have "p' = q" using q(1) by (simp add: removeExpired_def split: if_splits)
    then show ?thesis using q(2) by simp
  next
    case False
    then show ?thesis using pool_tick by (simp add: pool_onTick_def)
  qed
next
  case (pool_add p now a)
  then show ?case by (intro doAddPeer_ok)
next
  case (pool_get p now r p')
  then show ?case by (intro getConnectionPeer_ok [OF _ pool_get.hyps(2)])
next
  case (pool_connecting p now a p')
  then show ?case by (intro setPeer_ok(1) [OF _ pool_connecting.hyps(2)])
next
  case (pool_connected p now a r p')
  then show ?case by (intro setPeer_ok(2) [OF _ pool_connected.hyps(2)])
next
  case (pool_disconnected p now a e c p')
  then show ?case by (intro setPeer_ok(3) [OF _ pool_disconnected.hyps(2)])
qed

text \<open>C27: in every run of the pool, from the empty pool on, the two multimaps hold exactly the standby peers by the
  time of their last connection and exactly the unconnected peers by the time they were last heard of, in
  order and once each. The clock of the library is assumed not to wrap, as for expiry.\<close>

theorem pool_invariant:
  assumes "\<forall>now s t. s \<le> t \<longrightarrow> elapsed32 pc now t > 300000 \<longrightarrow> elapsed32 pc now s > 300000" "pool_run pc PeerPool_new p"
  shows "pool_ok p"
  by (rule pool_run_ok [OF assms pool_new_ok])

theorem pool_invariant_witness: "pool_ok (doAddPeer plain_pool 7 peer1 (doAddPeer plain_pool 3 peer1 PeerPool_new))"
  by (rule pool_invariant [of plain_pool]) (simp add: plain_pool_def, intro pool_add pool_start)

text \<open>C30: any peer can end the process: an address without a port, which is accepted like any other, fails the
  assertion of the next choice of a peer when no other peer is waiting to be tried.\<close>

theorem invalid_peer_crash:
  assumes "\<not> address_isValid a" "\<not> isSelf pc a" "pool_ok pool" "connectionPool pool = []" "map_of (peers pool) a = None"
  shows "getConnectionPeer pc later (doAddPeer pc now a pool) = None"
  using assms by (simp add: doAddPeer_def getConnectionPeer_def addPeerMap_def PoolPeerInfo_new_def isStandby_def isConnected_def update_conv')

theorem invalid_peer_crash_witness:
  "getConnectionPeer plain_pool 5000 (doAddPeer plain_pool 0 \<lparr>ip = 0x0A000001, port = 0\<rparr> PeerPool_new) = None"
  by (rule invalid_peer_crash) (simp_all add: address_isValid_def isSelf_def plain_pool_def pool_new_ok, simp_all add: PeerPool_new_def)

end
