(* ===== verification/Network.thy ===== *)
theory Network
  imports NodeSync MessageCodec PeerPool
begin

text \<open>
  \<open>net/NodeConnector.cpp\<close>, \<open>net/PendingNode.cpp\<close>, \<open>net/Node.cpp\<close>, \<open>net/NodeManager.cpp\<close>, \<open>net/BlockSynchronizer.cpp\<close>,
  \<open>net/MessageSender.cpp\<close>: the connections of the node. Their objects point at each other, so they are one
  state here: a connection is a number, and the \<open>NodeInfo\<close> that the pending node and the node of a connection share
  is a record, with the fields of both. The library's sockets, timers and resolver drive the state by events; what
  is sent is kept as a list. The maps of nodes are ordered by address in memory; here, by the order in
  which the nodes came. \<open>None\<close> is a failed assertion, a null pointer that is followed, or an exception.
\<close>

section \<open>State\<close>

record Conn =
  cn_inbound :: bool
  cn_address :: NodeAddress
  cn_connected :: bool
  cn_version :: u32
  cn_userAgent :: bytes
  cn_rtt :: int
  cn_start :: int
  cn_received :: int
  cn_buffer :: bytes
  cn_open :: bool
  cn_closed :: bool
  cn_handler :: bool
  cn_node :: bool
  cn_sync :: NodeSyncInfo
  cn_sent :: "Message list"

record ('d, 'f) Net =
  nw_cache :: "('d, 'f) BlockCache"
  nw_pool :: PeerPool
  nw_conns :: "nat \<Rightarrow> Conn"
  nw_next :: nat
  nw_pending :: "nat list"
  nw_dead :: "nat list"
  nw_nodes :: "nat list"
  nw_addresses :: "(PeerAddress \<times> nat) list"
  nw_syncNodes :: "nat list"
  nw_requester :: "nat option"
  nw_requesting :: bool
  nw_started :: int
  nw_headersRequest :: int
  nw_times :: nat
  nw_resolving :: "string option"

record HostNodeInfo =
  hi_address :: NodeAddress
  hi_external :: PeerAddress
  hi_userAgent :: bytes
  hi_version :: u32
  hi_headersSynced :: bool

text \<open>What the library does with text: \<open>split_pair\<close>, \<open>make_inet4_address\<close> and \<open>numerics::parse\<close>.\<close>

record text_ops =
  split_pair :: "string \<Rightarrow> string \<times> string"
  inet4 :: "string \<Rightarrow> u32"
  parse_number :: "string \<Rightarrow> int"

text \<open>What does not change: the configuration and the library; and what the moment of an event brings: the clock of
  the timers, whether a flush is due, the time of day, a random number, and what an uninitialised variable holds.\<close>

record ('d, 's, 'k, 'g, 'f) net_env =
  ne_cache :: "('d, 's, 'k, 'g, 'f) cache_context"
  ne_codec :: "'s codec_context"
  ne_text :: text_ops
  ne_elapsed32 :: "int \<Rightarrow> int \<Rightarrow> int"
  ne_host :: HostNodeInfo
  ne_minWork :: uint256
  ne_maxNodes :: int
  ne_direct :: string
  ne_seeds :: "string list"
  ne_port :: u16

record moment =
  mo_now :: int
  mo_late :: "nat \<Rightarrow> bool"
  mo_time :: u64
  mo_random :: u64
  mo_garbage :: u64

text \<open>\<open>late\<close> says of each header of an event whether a flush is due when it comes.\<close>

definition ne_pool :: "('d, 's, 'k, 'g, 'f) net_env \<Rightarrow> pool_context" where
  "ne_pool ne = \<lparr>localEndPoint = address (hi_address (ne_host ne)), elapsed32 = ne_elapsed32 ne\<rparr>"

definition NODE_WITNESS :: u64 where "NODE_WITNESS = 8"
definition MSG_BLOCK :: u32 where "MSG_BLOCK = 2"

definition Conn_new :: "int \<Rightarrow> PeerAddress \<Rightarrow> Conn" where
  "Conn_new now a = \<lparr>cn_inbound = False, cn_address = \<lparr>address = a, services = 0\<rparr>, cn_connected = False, cn_version = 0, cn_userAgent = [],
     cn_rtt = 0, cn_start = now, cn_received = now, cn_buffer = [], cn_open = True, cn_closed = False, cn_handler = True, cn_node = False,
     cn_sync = NodeSyncInfo_new, cn_sent = []\<rparr>"

definition conn_update :: "nat \<Rightarrow> (Conn \<Rightarrow> Conn) \<Rightarrow> ('d, 'f) Net \<Rightarrow> ('d, 'f) Net" where
  "conn_update i f nw = nw\<lparr>nw_conns := (nw_conns nw)(i := f (nw_conns nw i))\<rparr>"

definition peer_of :: "('d, 'f) Net \<Rightarrow> nat \<Rightarrow> PeerAddress" where
  "peer_of nw i = address (cn_address (nw_conns nw i))"

section \<open>Sending\<close>

text \<open>A socket that has been destroyed sends nothing.\<close>

definition sendMessage :: "('d, 's, 'k, 'g, 'f) net_env \<Rightarrow> nat \<Rightarrow> Message \<Rightarrow> ('d, 'f) Net \<Rightarrow> ('d, 'f) Net option" where
  "sendMessage ne i msg nw = do {
     e \<leftarrow> encode (ne_codec ne) msg;
     Some (conn_update i (\<lambda>c. if cn_open c then c\<lparr>cn_sent := cn_sent c @ [msg]\<rparr> else c) nw)
   }"

fun send_all :: "('d, 's, 'k, 'g, 'f) net_env \<Rightarrow> nat \<Rightarrow> Message list \<Rightarrow> ('d, 'f) Net \<Rightarrow> ('d, 'f) Net option" where
  "send_all ne i [] nw = Some nw"
| "send_all ne i (m # ms) nw = do { nw \<leftarrow> sendMessage ne i m nw; send_all ne i ms nw }"

text \<open>\<open>Node::start\<close>; the number of the ping is not initialised.\<close>

definition node_start :: "('d, 's, 'k, 'g, 'f) net_env \<Rightarrow> moment \<Rightarrow> nat \<Rightarrow> ('d, 'f) Net \<Rightarrow> ('d, 'f) Net option" where
  "node_start ne mo i nw =
     send_all ne i ([GetAddr, SendHeaders] @
       (if services (cn_address (nw_conns nw i)) AND NODE_WITNESS \<noteq> 0 then [SendCmpct False 2] else []) @
       [SendCmpct False 1, Ping (mo_garbage mo)]) nw"

section \<open>The pool\<close>

definition net_disconnected :: "moment \<Rightarrow> nat \<Rightarrow> int \<Rightarrow> ('d, 'f) Net \<Rightarrow> ('d, 'f) Net option" where
  "net_disconnected mo i err nw =
     (if cn_inbound (nw_conns nw i) then Some nw
      else do { p \<leftarrow> setPeerDisconnected (mo_now mo) (peer_of nw i) err False (nw_pool nw); Some (nw\<lparr>nw_pool := p\<rparr>) })"

section \<open>Asking for headers\<close>

text \<open>The locator of a block, or, without one, of the parent of the best header.\<close>

definition sync_requestHeaders :: "('d, 's, 'k, 'g, 'f) net_env \<Rightarrow> moment \<Rightarrow> bref option \<Rightarrow> ('d, 'f) Net \<Rightarrow> ('d, 'f) Net option" where
  "sync_requestHeaders ne mo block nw =
     (case nw_requester nw of
        None \<Rightarrow> Some nw
      | Some r \<Rightarrow> do {
          let bc = nw_cache nw;
          block \<leftarrow> (case block of Some p \<Rightarrow> Some (Some p)
            | None \<Rightarrow> do { best \<leftarrow> getBestHeader bc; Some (previous (get_index bc best)) });
          hashes \<leftarrow> chain_getLocator (bc_heap bc) (bc_chain bc) block;
          nw \<leftarrow> sendMessage ne r (GetHeaders \<lparr>bl_version = hi_version (ne_host ne), bl_hashes = hashes, hashStop = uint256_null\<rparr>) nw;
          Some (nw\<lparr>nw_requesting := True, nw_headersRequest := mo_now mo\<rparr>)
        })"

text \<open>The node with the shortest round trip, once there are five or two seconds have passed.\<close>

definition findHeadersRequester :: "moment \<Rightarrow> ('d, 'f) Net \<Rightarrow> nat option" where
  "findHeadersRequester mo nw =
     (if nw_syncNodes nw = [] then None
      else if mo_now mo - nw_started nw < 2000 \<and> length (nw_syncNodes nw) < 5 then None
      else (let nodes = fold (\<lambda>i. mm_insert (cn_rtt (nw_conns nw i), i)) (filter (\<lambda>i. \<not> cn_inbound (nw_conns nw i)) (nw_syncNodes nw)) []
            in if nodes \<noteq> [] then Some (snd (hd nodes)) else Some (hd (nw_syncNodes nw))))"

definition chooseHeadersRequester :: "('d, 's, 'k, 'g, 'f) net_env \<Rightarrow> moment \<Rightarrow> bool \<Rightarrow> ('d, 'f) Net \<Rightarrow> ('d, 'f) Net option" where
  "chooseHeadersRequester ne mo forced nw =
     (if nw_requester nw \<noteq> None \<and> \<not> forced then Some nw
      else sync_requestHeaders ne mo None (nw\<lparr>nw_requester := findHeadersRequester mo nw\<rparr>))"

definition sync_addNode :: "('d, 's, 'k, 'g, 'f) net_env \<Rightarrow> moment \<Rightarrow> nat \<Rightarrow> ('d, 'f) Net \<Rightarrow> ('d, 'f) Net option" where
  "sync_addNode ne mo i nw = chooseHeadersRequester ne mo False (nw\<lparr>nw_syncNodes := filter (\<lambda>j. j \<noteq> i) (nw_syncNodes nw) @ [i]\<rparr>)"

definition sync_removeNode :: "('d, 's, 'k, 'g, 'f) net_env \<Rightarrow> moment \<Rightarrow> nat \<Rightarrow> ('d, 'f) Net \<Rightarrow> ('d, 'f) Net option" where
  "sync_removeNode ne mo i nw =
     (let nw = nw\<lparr>nw_syncNodes := filter (\<lambda>j. j \<noteq> i) (nw_syncNodes nw)\<rparr>
      in if nw_requester nw = Some i then chooseHeadersRequester ne mo True nw else Some nw)"

section \<open>The node manager\<close>

definition getNodeShortage :: "('d, 's, 'k, 'g, 'f) net_env \<Rightarrow> ('d, 'f) Net \<Rightarrow> int" where
  "getNodeShortage ne nw = ne_maxNodes ne - int (length (nw_nodes nw))"

definition doesNodeAddressConnected :: "PeerAddress \<Rightarrow> ('d, 'f) Net \<Rightarrow> bool" where
  "doesNodeAddressConnected a nw \<longleftrightarrow> map_of (nw_addresses nw) a \<noteq> None"

text \<open>Making the node takes over the socket and the decoder of the connection.\<close>

definition addNewNode :: "('d, 's, 'k, 'g, 'f) net_env \<Rightarrow> moment \<Rightarrow> nat \<Rightarrow> ('d, 'f) Net \<Rightarrow> ('d, 'f) Net option" where
  "addNewNode ne mo i nw = do {
     let nw = conn_update i (\<lambda>c. c\<lparr>cn_node := True, cn_sync := NodeSyncInfo_new\<rparr>) nw;
     assert_that (i \<notin> set (nw_nodes nw));
     nw \<leftarrow> node_start ne mo i (nw\<lparr>nw_nodes := nw_nodes nw @ [i]\<rparr>);
     nw \<leftarrow> sync_addNode ne mo i nw;
     if cn_inbound (nw_conns nw i) then Some nw
     else do {
       assert_that (\<not> doesNodeAddressConnected (peer_of nw i) nw);
       Some (nw\<lparr>nw_addresses := AList.update (peer_of nw i) i (nw_addresses nw)\<rparr>)
     }
   }"

definition removeNode :: "('d, 's, 'k, 'g, 'f) net_env \<Rightarrow> moment \<Rightarrow> nat \<Rightarrow> ('d, 'f) Net \<Rightarrow> ('d, 'f) Net option" where
  "removeNode ne mo i nw = do {
     nw \<leftarrow> sync_removeNode ne mo i nw;
     let nw = conn_update i (\<lambda>c. c\<lparr>cn_open := False\<rparr>) nw;
     nw \<leftarrow> (if cn_inbound (nw_conns nw i) then Some nw
           else do {
             assert_that (doesNodeAddressConnected (peer_of nw i) nw);
             Some (nw\<lparr>nw_addresses := AList.delete (peer_of nw i) (nw_addresses nw)\<rparr>)
           });
     Some (nw\<lparr>nw_nodes := filter (\<lambda>j. j \<noteq> i) (nw_nodes nw)\<rparr>)
   }"

definition node_handleError :: "('d, 's, 'k, 'g, 'f) net_env \<Rightarrow> moment \<Rightarrow> int \<Rightarrow> nat \<Rightarrow> ('d, 'f) Net \<Rightarrow> ('d, 'f) Net option" where
  "node_handleError ne mo err i nw = do {
     nw \<leftarrow> net_disconnected mo i err nw;
     removeNode ne mo i (conn_update i (\<lambda>c. c\<lparr>cn_open := False\<rparr>) nw)
   }"

section \<open>Headers and blocks that arrive\<close>

text \<open>\<open>requestBlocks\<close> of the node and of the synchronizer, and \<open>checkRequestBlocks\<close>.\<close>

fun block_items :: "index_heap \<Rightarrow> bref list \<Rightarrow> InventoryItem list option" where
  "block_items H [] = Some []"
| "block_items H (p # ps) = do { h \<leftarrow> index_getHash (H p); is \<leftarrow> block_items H ps; Some (\<lparr>it_type = MSG_BLOCK, it_hash = h\<rparr> # is) }"

definition node_requestBlocks :: "('d, 's, 'k, 'g, 'f) net_env \<Rightarrow> bref list \<Rightarrow> nat \<Rightarrow> ('d, 'f) Net \<Rightarrow> ('d, 'f) Net option" where
  "node_requestBlocks ne bs i nw = do {
     assert_that (bs \<noteq> []);
     items \<leftarrow> block_items (bc_heap (nw_cache nw)) bs;
     nw \<leftarrow> sendMessage ne i (GetData items) nw;
     si \<leftarrow> recordRequestingBlocks (bc_heap (nw_cache nw)) bs (cn_sync (nw_conns nw i));
     Some (conn_update i (\<lambda>c. c\<lparr>cn_sync := si\<rparr>) nw)
   }"

definition sync_requestBlocks :: "('d, 's, 'k, 'g, 'f) net_env \<Rightarrow> nat \<Rightarrow> ('d, 'f) Net \<Rightarrow> ('d, 'f) Net option" where
  "sync_requestBlocks ne i nw = do {
     (bs, si) \<leftarrow> findBlocksToDownload (v_bn (c_val (ne_cache ne))) (ne_minWork ne) 128 (nw_cache nw) (cn_sync (nw_conns nw i));
     let nw = conn_update i (\<lambda>c. c\<lparr>cn_sync := si\<rparr>) nw;
     if bs \<noteq> [] then node_requestBlocks ne bs i nw else Some nw
   }"

definition checkRequestBlocks :: "('d, 's, 'k, 'g, 'f) net_env \<Rightarrow> nat \<Rightarrow> ('d, 'f) Net \<Rightarrow> ('d, 'f) Net option" where
  "checkRequestBlocks ne i nw =
     (if isRequestingBlock (cn_sync (nw_conns nw i)) then Some nw else sync_requestBlocks ne i nw)"

text \<open>The headers are added one by one; the result is what the last one gave, a null pointer when it fails its
  proof of work.\<close>

fun add_headers :: "('d, 's, 'k, 'g, 'f) cache_context \<Rightarrow> (nat \<Rightarrow> bool) \<Rightarrow> BlockHeader list \<Rightarrow> bref option \<Rightarrow> ('d, 'f) BlockCache \<Rightarrow> (bref option \<times> ('d, 'f) BlockCache) option" where
  "add_headers cx late [] r bc = Some (r, bc)"
| "add_headers cx late (h # hs) r bc = do {
     (r, bc) \<leftarrow> addBlockIndex cx (late (length hs)) h bc;
     add_headers cx late hs r bc
   }"

definition net_header :: "('d, 's, 'k, 'g, 'f) net_env \<Rightarrow> BlockHeader \<Rightarrow> BlockHeader" where
  "net_header ne = computeHash (cd_digests (ne_codec ne)) (nt_out (cd_net (ne_codec ne)))"

definition handleHeaders :: "('d, 's, 'k, 'g, 'f) net_env \<Rightarrow> moment \<Rightarrow> BlockHeader list \<Rightarrow> nat \<Rightarrow> ('d, 'f) Net \<Rightarrow> ('d, 'f) Net option" where
  "handleHeaders ne mo hs i nw = do {
     let headers = map (net_header ne) hs;
     (block, bc) \<leftarrow> add_headers (ne_cache ne) (mo_late mo) headers None (nw_cache nw);
     let nw = nw\<lparr>nw_requesting := False, nw_cache := bc\<rparr>;
     nw \<leftarrow> (if headers = [] then Some nw
           else do {
             p \<leftarrow> block;
             sync_requestHeaders ne mo (Some p) (conn_update i (\<lambda>c. c\<lparr>cn_sync :=
               updateBlockAvailability (v_bn (c_val (ne_cache ne))) (hash (List.last headers)) (Some p) bc (cn_sync c)\<rparr>) nw)
           });
     if length headers < 2000 \<and> lastDownloadBlock (cn_sync (nw_conns nw i)) = None then checkRequestBlocks ne i nw else Some nw
   }"

text \<open>The block is taken off the record of those asked for, added to the index and queued for the disk; a block
  that is not valid is the null pointer, which is then followed.\<close>

definition handleBlock :: "('d, 's, 'k, 'g, 'f) net_env \<Rightarrow> moment \<Rightarrow> Block \<Rightarrow> nat \<Rightarrow> ('d, 'f) Net \<Rightarrow> ('d, 'f) Net option" where
  "handleBlock ne mo block i nw = do {
     let block = block\<lparr>transactions := map (computeHash_tx (cd_digests (ne_codec ne)) (nt_out (cd_net (ne_codec ne)))) (transactions block)\<rparr>;
     si \<leftarrow> removeBlockRecord block (cn_sync (nw_conns nw i));
     (r, bc) \<leftarrow> addBlock (ne_cache ne) (mo_late mo 0) block (nw_cache nw);
     p \<leftarrow> r;
     checkRequestBlocks ne i ((conn_update i (\<lambda>c. c\<lparr>cn_sync := si\<rparr>) nw)\<lparr>nw_cache := bc\<rparr>)
   }"

section \<open>Messages of a connected node\<close>

text \<open>The commands with a handler; most handlers only print.\<close>

definition node_commands :: "bytes list" where
  "node_commands = map ascii [''version'', ''verack'', ''addr'', ''inv'', ''getdata'', ''notfound'', ''getblocks'', ''getheaders'', ''tx'',
     ''block'', ''headers'', ''getaddr'', ''mempool'', ''ping'', ''pong'', ''reject'', ''filterload'', ''filteradd'', ''filterclear'',
     ''merkleblock'', ''alert'', ''sendheaders'', ''feefilter'', ''sendcmpct'', ''cmpctblock'', ''getblocktxn'', ''blocktxn'']"

text \<open>A message of three of the kinds that cannot be read ends the process: the error is handled, and an
  assertion fails.\<close>

definition handleCommand_addr :: "('d, 's, 'k, 'g, 'f) net_env \<Rightarrow> moment \<Rightarrow> bytes \<Rightarrow> ('d, 'f) Net \<Rightarrow> ('d, 'f) Net option" where
  "handleCommand_addr ne mo payload nw =
     (let nt = cd_net (ne_codec ne); (as, s) = read_addresses nt [] (of_bytes (nt_in nt) payload)
      in if \<not> good (nt_in nt) s then None
         else if ne_direct ne \<noteq> [] then Some nw
         else Some (nw\<lparr>nw_pool := fold (\<lambda>a. doAddPeer (ne_pool ne) (mo_now mo) (address (ai_address a))) as (nw_pool nw)\<rparr>))"

definition handleCommand_block :: "('d, 's, 'k, 'g, 'f) net_env \<Rightarrow> moment \<Rightarrow> bytes \<Rightarrow> nat \<Rightarrow> ('d, 'f) Net \<Rightarrow> ('d, 'f) Net option" where
  "handleCommand_block ne mo payload i nw =
     (let nt = cd_net (ne_codec ne);
          (block, s) = read_block (nt_in nt) \<lparr>blk_header = BlockHeader_new, transactions = []\<rparr> (of_bytes (nt_in nt) payload)
      in if \<not> good (nt_in nt) s then None
         else handleBlock ne mo (block\<lparr>blk_header := net_header ne (blk_header block)\<rparr>) i nw)"

definition handleCommand_headers :: "('d, 's, 'k, 'g, 'f) net_env \<Rightarrow> moment \<Rightarrow> bytes \<Rightarrow> nat \<Rightarrow> ('d, 'f) Net \<Rightarrow> ('d, 'f) Net option" where
  "handleCommand_headers ne mo payload i nw =
     (let nt = cd_net (ne_codec ne); (hs, s) = read_headers nt [] (of_bytes (nt_in nt) payload)
      in if \<not> good (nt_in nt) s then None else handleHeaders ne mo hs i nw)"

text \<open>A ping that cannot be read is answered with a number that was never set.\<close>

definition handleCommand_ping :: "('d, 's, 'k, 'g, 'f) net_env \<Rightarrow> moment \<Rightarrow> bytes \<Rightarrow> nat \<Rightarrow> ('d, 'f) Net \<Rightarrow> ('d, 'f) Net option" where
  "handleCommand_ping ne mo payload i nw =
     (let nt = cd_net (ne_codec ne); (n, s) = into (rd64 (nt_in nt)) (mo_garbage mo) (of_bytes (nt_in nt) payload)
      in sendMessage ne i (Pong n) nw)"

definition node_decoded :: "('d, 's, 'k, 'g, 'f) net_env \<Rightarrow> moment \<Rightarrow> nat \<Rightarrow> MessageHeader \<Rightarrow> bytes \<Rightarrow> ('d, 'f) Net \<Rightarrow> ('d, 'f) Net option" where
  "node_decoded ne mo i h payload nw =
     (if command h \<notin> set node_commands then None
      else if command h = ascii ''addr'' then handleCommand_addr ne mo payload nw
      else if command h = ascii ''block'' then handleCommand_block ne mo payload i nw
      else if command h = ascii ''headers'' then handleCommand_headers ne mo payload i nw
      else if command h = ascii ''ping'' then handleCommand_ping ne mo payload i nw
      else Some nw)"

section \<open>Connections before the handshake\<close>

text \<open>The destructor of a pending node.\<close>

definition pending_destroy :: "moment \<Rightarrow> nat \<Rightarrow> ('d, 'f) Net \<Rightarrow> ('d, 'f) Net option" where
  "pending_destroy mo i nw =
     (if cn_connected (nw_conns nw i) then Some nw
      else do { nw \<leftarrow> net_disconnected mo i 0 nw; Some (conn_update i (\<lambda>c. c\<lparr>cn_open := False\<rparr>) nw) })"

fun clear_dead :: "moment \<Rightarrow> nat list \<Rightarrow> ('d, 'f) Net \<Rightarrow> ('d, 'f) Net option" where
  "clear_dead mo [] nw = Some (nw\<lparr>nw_dead := []\<rparr>)"
| "clear_dead mo (i # is) nw = do { nw \<leftarrow> pending_destroy mo i nw; clear_dead mo is nw }"

text \<open>The node of a connection that ends is kept until the next one ends, or until the next tick.\<close>

definition removeConnection :: "moment \<Rightarrow> nat \<Rightarrow> ('d, 'f) Net \<Rightarrow> ('d, 'f) Net option" where
  "removeConnection mo i nw = do {
     nw \<leftarrow> clear_dead mo (nw_dead nw) nw;
     Some (conn_update i (\<lambda>c. c\<lparr>cn_handler := False\<rparr>) (nw\<lparr>nw_dead := [i], nw_pending := filter (\<lambda>j. j \<noteq> i) (nw_pending nw)\<rparr>))
   }"

text \<open>\<open>close\<close>: the socket of a connection that is not connected is destroyed.\<close>

definition pending_close :: "Conn \<Rightarrow> Conn" where
  "pending_close c = (if cn_connected c then c else c\<lparr>cn_open := False\<rparr>)\<lparr>cn_closed := True\<rparr>"

definition pending_handleError :: "moment \<Rightarrow> int \<Rightarrow> nat \<Rightarrow> ('d, 'f) Net \<Rightarrow> ('d, 'f) Net option" where
  "pending_handleError mo err i nw = do {
     assert_that (\<not> cn_connected (nw_conns nw i));
     nw \<leftarrow> net_disconnected mo i err nw;
     let nw = conn_update i pending_close nw;
     if cn_handler (nw_conns nw i) then removeConnection mo i nw else Some nw
   }"

definition sendVersion :: "('d, 's, 'k, 'g, 'f) net_env \<Rightarrow> moment \<Rightarrow> nat \<Rightarrow> ('d, 'f) Net \<Rightarrow> ('d, 'f) Net option" where
  "sendVersion ne mo i nw =
     (let sv = services (hi_address (ne_host ne))
      in sendMessage ne i (Version \<lparr>vm_version = hi_version (ne_host ne), vm_services = sv, vm_timestamp = mo_time mo,
           yourAddress = \<lparr>address = peer_of nw i, services = sv\<rparr>, myAddress = NodeAddress_new\<lparr>services := sv\<rparr>, vm_nonce = mo_random mo,
           userAgent = hi_userAgent (ne_host ne), startHeight = 0, relay = False\<rparr>) nw)"

definition pending_version :: "('d, 's, 'k, 'g, 'f) net_env \<Rightarrow> moment \<Rightarrow> bytes \<Rightarrow> nat \<Rightarrow> ('d, 'f) Net \<Rightarrow> ('d, 'f) Net option" where
  "pending_version ne mo payload i nw =
     (let nt = cd_net (ne_codec ne); (m, s) = read_version nt VersionMessage_new (of_bytes (nt_in nt) payload)
      in if \<not> good (nt_in nt) s then pending_handleError mo (-1) i nw
         else sendMessage ne i Verack (conn_update i (\<lambda>c. c\<lparr>cn_address := (cn_address c)\<lparr>services := vm_services m\<rparr>,
           cn_version := vm_version m, cn_userAgent := userAgent m\<rparr>) nw))"

text \<open>The handshake is over with the first \<open>verack\<close>, whether or not a version has come.\<close>

definition pending_verack :: "('d, 's, 'k, 'g, 'f) net_env \<Rightarrow> moment \<Rightarrow> nat \<Rightarrow> ('d, 'f) Net \<Rightarrow> ('d, 'f) Net option" where
  "pending_verack ne mo i nw = do {
     let nw = conn_update i (\<lambda>c. c\<lparr>cn_connected := True\<rparr>) nw;
     assert_that (cn_handler (nw_conns nw i));
     nw \<leftarrow> removeConnection mo i nw;
     addNewNode ne mo i nw
   }"

definition pending_reject :: "('d, 's, 'k, 'g, 'f) net_env \<Rightarrow> moment \<Rightarrow> bytes \<Rightarrow> nat \<Rightarrow> ('d, 'f) Net \<Rightarrow> ('d, 'f) Net option" where
  "pending_reject ne mo payload i nw =
     (let nt = cd_net (ne_codec ne); (m, s) = read_reject nt RejectMessage_new (of_bytes (nt_in nt) payload)
      in pending_handleError mo (if \<not> good (nt_in nt) s then -1 else -2) i nw)"

definition pending_decoded :: "('d, 's, 'k, 'g, 'f) net_env \<Rightarrow> moment \<Rightarrow> nat \<Rightarrow> MessageHeader \<Rightarrow> bytes \<Rightarrow> ('d, 'f) Net \<Rightarrow> ('d, 'f) Net option" where
  "pending_decoded ne mo i h payload nw = do {
     assert_that (unat (payload_length h) = length payload);
     if command h = ascii ''version'' then pending_version ne mo payload i nw
     else if command h = ascii ''verack'' then pending_verack ne mo i nw
     else if command h = ascii ''reject'' then pending_reject ne mo payload i nw
     else None
   }"

section \<open>Connecting\<close>

text \<open>\<open>doConnect\<close> makes a connection to an address that is neither the host's own nor a node's.\<close>

definition doConnect :: "('d, 's, 'k, 'g, 'f) net_env \<Rightarrow> moment \<Rightarrow> PeerAddress \<Rightarrow> ('d, 'f) Net \<Rightarrow> ('d, 'f) Net option" where
  "doConnect ne mo a nw =
     (if address (hi_address (ne_host ne)) = a \<or> hi_external (ne_host ne) = a then Some nw
      else if doesNodeAddressConnected a nw then Some nw
      else do {
        let i = nw_next nw;
        let nw = nw\<lparr>nw_conns := (nw_conns nw)(i := Conn_new (mo_now mo) a), nw_next := i + 1, nw_pending := nw_pending nw @ [i]\<rparr>;
        p \<leftarrow> setPeerConnecting (mo_now mo) a (nw_pool nw);
        Some (nw\<lparr>nw_pool := p\<rparr>)
      })"

text \<open>The loop of \<open>tryConnect\<close>, with the number of connections it may still make.\<close>

fun connect_loop :: "('d, 's, 'k, 'g, 'f) net_env \<Rightarrow> moment \<Rightarrow> nat \<Rightarrow> ('d, 'f) Net \<Rightarrow> ('d, 'f) Net option" where
  "connect_loop ne mo 0 nw = Some nw"
| "connect_loop ne mo (Suc n) nw = do {
     (r, p) \<leftarrow> getConnectionPeer (ne_pool ne) (mo_now mo) (nw_pool nw);
     let nw = nw\<lparr>nw_pool := p\<rparr>;
     case r of None \<Rightarrow> Some nw | Some a \<Rightarrow> do { nw \<leftarrow> doConnect ne mo a nw; connect_loop ne mo n nw }
   }"

definition tryConnect :: "('d, 's, 'k, 'g, 'f) net_env \<Rightarrow> moment \<Rightarrow> ('d, 'f) Net \<Rightarrow> ('d, 'f) Net option" where
  "tryConnect ne mo nw = (if getNodeShortage ne nw > 0 then connect_loop ne mo 5 nw else Some nw)"

section \<open>Ticks\<close>

text \<open>A handshake that takes more than ten seconds is an error.\<close>

definition pending_onTick :: "('d, 's, 'k, 'g, 'f) net_env \<Rightarrow> moment \<Rightarrow> nat \<Rightarrow> ('d, 'f) Net \<Rightarrow> ('d, 'f) Net option" where
  "pending_onTick ne mo i nw =
     (if ne_elapsed32 ne (mo_now mo) (cn_start (nw_conns nw i)) > 10000 \<and> \<not> cn_closed (nw_conns nw i)
      then pending_handleError mo (-1) i nw else Some nw)"

fun tick_all :: "('d, 's, 'k, 'g, 'f) net_env \<Rightarrow> moment \<Rightarrow> nat list \<Rightarrow> ('d, 'f) Net \<Rightarrow> ('d, 'f) Net option" where
  "tick_all ne mo [] nw = Some nw"
| "tick_all ne mo (i # is) nw = do { nw \<leftarrow> pending_onTick ne mo i nw; tick_all ne mo is nw }"

definition connector_onTick :: "('d, 's, 'k, 'g, 'f) net_env \<Rightarrow> moment \<Rightarrow> ('d, 'f) Net \<Rightarrow> ('d, 'f) Net option" where
  "connector_onTick ne mo nw = do { nw \<leftarrow> clear_dead mo (nw_dead nw) nw; tick_all ne mo (nw_pending nw) nw }"

text \<open>A requester that sends nothing is removed; a request is repeated after ten seconds.\<close>

definition checkHeaderRequestTimeout :: "('d, 's, 'k, 'g, 'f) net_env \<Rightarrow> moment \<Rightarrow> ('d, 'f) Net \<Rightarrow> ('d, 'f) Net option" where
  "checkHeaderRequestTimeout ne mo nw =
     (if nw_requesting nw \<and> mo_now mo - nw_headersRequest nw > 5000
      then (case nw_requester nw of
          None \<Rightarrow> Some nw
        | Some r \<Rightarrow> if mo_now mo - cn_received (nw_conns nw r) > 3000 then removeNode ne mo r (nw\<lparr>nw_requesting := False\<rparr>) else Some nw)
      else Some nw)"

definition scheduleRequestHeaders :: "('d, 's, 'k, 'g, 'f) net_env \<Rightarrow> moment \<Rightarrow> ('d, 'f) Net \<Rightarrow> ('d, 'f) Net option" where
  "scheduleRequestHeaders ne mo nw =
     (if nw_requesting nw then Some nw
      else if mo_now mo - nw_headersRequest nw < 10000 then Some nw
      else sync_requestHeaders ne mo None nw)"

definition sync_onTick :: "('d, 's, 'k, 'g, 'f) net_env \<Rightarrow> moment \<Rightarrow> ('d, 'f) Net \<Rightarrow> ('d, 'f) Net option" where
  "sync_onTick ne mo nw = do {
     nw \<leftarrow> checkHeaderRequestTimeout ne mo nw;
     nw \<leftarrow> chooseHeadersRequester ne mo False nw;
     scheduleRequestHeaders ne mo nw
   }"

definition manager_onTick :: "('d, 's, 'k, 'g, 'f) net_env \<Rightarrow> moment \<Rightarrow> ('d, 'f) Net \<Rightarrow> ('d, 'f) Net option" where
  "manager_onTick ne mo nw = do { nw \<leftarrow> connector_onTick ne mo nw; sync_onTick ne mo nw }"

section \<open>Starting\<close>

text \<open>\<open>PeerAddress::parse\<close>: the address is set even when the result is \<open>false\<close>.\<close>

definition address_parse :: "text_ops \<Rightarrow> string \<Rightarrow> PeerAddress \<Rightarrow> bool \<times> PeerAddress" where
  "address_parse tx s a =
     (let (x, y) = split_pair tx s
      in if x = [] \<or> y = [] then (False, a)
         else let a = \<lparr>ip = inet4 tx x, port = of_int (parse_number tx y)\<rparr> in (address_isValid a, a))"

text \<open>\<open>PeerDiscoverer\<close>: the seeds are resolved one after the other.\<close>

definition discoverer_request :: "('d, 's, 'k, 'g, 'f) net_env \<Rightarrow> ('d, 'f) Net \<Rightarrow> ('d, 'f) Net" where
  "discoverer_request ne nw =
     (if nw_times nw \<ge> length (ne_seeds ne) then nw
      else nw\<lparr>nw_resolving := Some (ne_seeds ne ! nw_times nw), nw_times := nw_times nw + 1\<rparr>)"

definition manager_start :: "('d, 's, 'k, 'g, 'f) net_env \<Rightarrow> moment \<Rightarrow> ('d, 'f) Net \<Rightarrow> ('d, 'f) Net option" where
  "manager_start ne mo nw =
     (let (okay, a) = address_parse (ne_text ne) (ne_direct ne) PeerAddress_new
      in tryConnect ne mo (if ne_direct ne \<noteq> [] \<and> okay then nw\<lparr>nw_pool := doAddPeer (ne_pool ne) (mo_now mo) a (nw_pool nw)\<rparr>
           else discoverer_request ne nw))"

definition onPeerDiscovered :: "('d, 's, 'k, 'g, 'f) net_env \<Rightarrow> moment \<Rightarrow> u32 list \<Rightarrow> ('d, 'f) Net \<Rightarrow> ('d, 'f) Net option" where
  "onPeerDiscovered ne mo addrs nw =
     tryConnect ne mo (nw\<lparr>nw_pool := fold (\<lambda>x. doAddPeer (ne_pool ne) (mo_now mo) \<lparr>ip = x, port = ne_port ne\<rparr>) addrs (nw_pool nw)\<rparr>)"

section \<open>Events of the library\<close>

definition on_resolver_address :: "('d, 's, 'k, 'g, 'f) net_env \<Rightarrow> moment \<Rightarrow> int \<Rightarrow> u32 list \<Rightarrow> ('d, 'f) Net \<Rightarrow> ('d, 'f) Net option" where
  "on_resolver_address ne mo err addrs nw = do {
     let nw = nw\<lparr>nw_resolving := None\<rparr>;
     nw \<leftarrow> (if err = 0 \<and> addrs \<noteq> [] then onPeerDiscovered ne mo addrs nw else Some nw);
     Some (discoverer_request ne nw)
   }"

text \<open>The listener of a socket and of its decoder is the pending node and then the node.\<close>

definition on_socket_connect :: "('d, 's, 'k, 'g, 'f) net_env \<Rightarrow> moment \<Rightarrow> nat \<Rightarrow> ('d, 'f) Net \<Rightarrow> ('d, 'f) Net option" where
  "on_socket_connect ne mo i nw = do {
     assert_that (\<not> cn_node (nw_conns nw i));
     assert_that (\<not> cn_inbound (nw_conns nw i));
     sendVersion ne mo i (conn_update i (\<lambda>c. c\<lparr>cn_rtt := mo_now mo - cn_start c\<rparr>) nw)
   }"

definition on_socket_connect_failed :: "moment \<Rightarrow> nat \<Rightarrow> ('d, 'f) Net \<Rightarrow> ('d, 'f) Net option" where
  "on_socket_connect_failed mo i nw = do {
     assert_that (\<not> cn_node (nw_conns nw i));
     assert_that (\<not> cn_inbound (nw_conns nw i));
     pending_handleError mo (-1) i nw
   }"

definition conn_decoded :: "('d, 's, 'k, 'g, 'f) net_env \<Rightarrow> moment \<Rightarrow> nat \<Rightarrow> MessageHeader \<Rightarrow> bytes \<Rightarrow> ('d, 'f) Net \<Rightarrow> ('d, 'f) Net option" where
  "conn_decoded ne mo i h payload nw =
     (if cn_node (nw_conns nw i) then node_decoded ne mo i h payload nw else pending_decoded ne mo i h payload nw)"

text \<open>\<open>decode\<close> never returns \<open>false\<close> here: what makes it do so fails an assertion first.\<close>

definition on_socket_receive :: "('d, 's, 'k, 'g, 'f) net_env \<Rightarrow> moment \<Rightarrow> bytes \<Rightarrow> nat \<Rightarrow> ('d, 'f) Net \<Rightarrow> ('d, 'f) Net option" where
  "on_socket_receive ne mo data i nw = do {
     let nw = (if cn_node (nw_conns nw i) then conn_update i (\<lambda>c. c\<lparr>cn_received := mo_now mo\<rparr>) nw else nw);
     (left, nw) \<leftarrow> decode (ne_codec ne) (conn_decoded ne mo i) data (cn_buffer (nw_conns nw i), nw);
     Some (conn_update i (\<lambda>c. c\<lparr>cn_buffer := left\<rparr>) nw)
   }"

definition on_socket_receive_failed :: "('d, 's, 'k, 'g, 'f) net_env \<Rightarrow> moment \<Rightarrow> nat \<Rightarrow> ('d, 'f) Net \<Rightarrow> ('d, 'f) Net option" where
  "on_socket_receive_failed ne mo i nw =
     (if cn_node (nw_conns nw i) then node_handleError ne mo (-2) i nw else pending_handleError mo (-1) i nw)"

text \<open>The destructor of the connector closes and drops what is pending.\<close>

definition connector_stop :: "moment \<Rightarrow> ('d, 'f) Net \<Rightarrow> ('d, 'f) Net option" where
  "connector_stop mo nw = do {
     nw \<leftarrow> clear_dead mo (nw_dead nw) nw;
     let nw = fold (\<lambda>i. conn_update i pending_close) (nw_pending nw) nw;
     nw \<leftarrow> clear_dead mo (nw_pending nw) nw;
     Some (nw\<lparr>nw_pending := []\<rparr>)
   }"

text \<open>A job of the disk service.\<close>

definition on_disk :: "('d, 's, 'k, 'g, 'f) net_env \<Rightarrow> moment \<Rightarrow> ('d, 'f) Net \<Rightarrow> ('d, 'f) Net option" where
  "on_disk ne mo nw = do { bc \<leftarrow> run_disk_job (ne_cache ne) (mo_late mo 0) (nw_cache nw); Some (nw\<lparr>nw_cache := bc\<rparr>) }"

text \<open>The node as it is before it starts.\<close>

definition Net_new :: "int \<Rightarrow> ('d, 'f) BlockCache \<Rightarrow> ('d, 'f) Net" where
  "Net_new now bc = \<lparr>nw_cache = bc, nw_pool = PeerPool_new, nw_conns = (\<lambda>i. Conn_new now PeerAddress_new), nw_next = 0, nw_pending = [],
     nw_dead = [], nw_nodes = [], nw_addresses = [], nw_syncNodes = [], nw_requester = None, nw_requesting = False, nw_started = now,
     nw_headersRequest = now, nw_times = 0, nw_resolving = None\<rparr>"

end
