(* ===== verification/NetInvariant.thy ===== *)
theory NetInvariant
  imports Network
begin

text \<open>
  What holds of the connections in every run of the node: the tables of the connector, the node manager and the
  synchronizer agree with each other and with the connections they name, and whatever a connection knows of
  blocks are entries of the index.
\<close>

section \<open>The invariant\<close>

text \<open>Every open connection is pending or a node; while one changes from the first to the second, it is in \<open>X\<close>.\<close>

definition links_but :: "nat set \<Rightarrow> ('d, 'f) Net \<Rightarrow> bool" where
  "links_but X nw \<longleftrightarrow> set (nw_pending nw) \<union> set (nw_nodes nw) \<subseteq> {..<nw_next nw} \<and>
     (\<forall>i < nw_next nw. cn_handler (nw_conns nw i) \<longleftrightarrow> i \<in> set (nw_pending nw)) \<and>
     (\<forall>i \<in> set (nw_pending nw). \<not> cn_node (nw_conns nw i) \<and> \<not> cn_connected (nw_conns nw i)) \<and>
     (\<forall>i \<in> set (nw_nodes nw). cn_node (nw_conns nw i)) \<and>
     (\<forall>i < nw_next nw. cn_open (nw_conns nw i) \<longrightarrow> i \<in> X \<or> i \<in> set (nw_pending nw) \<or> i \<in> set (nw_nodes nw)) \<and>
     (\<forall>i < nw_next nw. \<not> cn_inbound (nw_conns nw i)) \<and>
     set (nw_syncNodes nw) = set (nw_nodes nw) \<and> (\<forall>r. nw_requester nw = Some r \<longrightarrow> r \<in> set (nw_nodes nw)) \<and>
     (\<forall>a i. map_of (nw_addresses nw) a = Some i \<longleftrightarrow> i \<in> set (nw_nodes nw) \<and> peer_of nw i = a)"

definition sync_ok :: "bref set \<Rightarrow> NodeSyncInfo \<Rightarrow> bool" where
  "sync_ok R si \<longleftrightarrow> set_option (bestKnownBlock si) \<union> set_option (lastCommonBlock si) \<union> set_option (lastDownloadBlock si) \<union>
     snd ` set (requestingBlocks si) \<subseteq> R"

definition net_ok_but :: "nat set \<Rightarrow> ('d, 'f) Net \<Rightarrow> bool" where
  "net_ok_but X nw \<longleftrightarrow> cache_ok (nw_cache nw) \<and> pool_ok (nw_pool nw) \<and> links_but X nw \<and>
     (\<forall>i. sync_ok (refs (nw_cache nw)) (cn_sync (nw_conns nw i)))"

abbreviation net_ok :: "('d, 'f) Net \<Rightarrow> bool" where
  "net_ok \<equiv> net_ok_but {}"

lemma net_okD:
  assumes "net_ok_but X nw"
  shows "cache_ok (nw_cache nw)" "pool_ok (nw_pool nw)" "links_but X nw" "sync_ok (refs (nw_cache nw)) (cn_sync (nw_conns nw i))"
  using assms by (simp_all add: net_ok_but_def)

lemma links_okD:
  assumes "links_but X nw"
  shows "i \<in> set (nw_pending nw) \<Longrightarrow> i < nw_next nw" "i \<in> set (nw_nodes nw) \<Longrightarrow> i < nw_next nw"
    "i < nw_next nw \<Longrightarrow> cn_handler (nw_conns nw i) \<longleftrightarrow> i \<in> set (nw_pending nw)"
    "i \<in> set (nw_pending nw) \<Longrightarrow> \<not> cn_node (nw_conns nw i) \<and> \<not> cn_connected (nw_conns nw i)"
    "i \<in> set (nw_nodes nw) \<Longrightarrow> cn_node (nw_conns nw i)"
    "i < nw_next nw \<Longrightarrow> cn_open (nw_conns nw i) \<Longrightarrow> i \<in> X \<or> i \<in> set (nw_pending nw) \<or> i \<in> set (nw_nodes nw)"
    "i < nw_next nw \<Longrightarrow> \<not> cn_inbound (nw_conns nw i)"
    "set (nw_syncNodes nw) = set (nw_nodes nw)" "nw_requester nw = Some r \<Longrightarrow> r \<in> set (nw_nodes nw)"
    "map_of (nw_addresses nw) a = Some i \<longleftrightarrow> i \<in> set (nw_nodes nw) \<and> peer_of nw i = a"
  using assms unfolding links_but_def by blast+

section \<open>Steps that do not touch the tables\<close>

text \<open>What sending, disconnecting and clearing change: what was sent, the pool, sockets that are destroyed.\<close>

definition quiet_conn :: "Conn \<Rightarrow> Conn \<Rightarrow> bool" where
  "quiet_conn c c' \<longleftrightarrow> cn_inbound c' = cn_inbound c \<and> address (cn_address c') = address (cn_address c) \<and> (cn_open c' \<longrightarrow> cn_open c) \<and>
     cn_connected c' = cn_connected c \<and> cn_handler c' = cn_handler c \<and> cn_node c' = cn_node c \<and> cn_sync c' = cn_sync c"

definition quiet :: "('d, 'f) Net \<Rightarrow> ('d, 'f) Net \<Rightarrow> bool" where
  "quiet nw nw' \<longleftrightarrow> nw_next nw' = nw_next nw \<and> nw_pending nw' = nw_pending nw \<and> nw_nodes nw' = nw_nodes nw \<and>
     nw_addresses nw' = nw_addresses nw \<and> nw_syncNodes nw' = nw_syncNodes nw \<and> nw_requester nw' = nw_requester nw \<and>
     nw_cache nw' = nw_cache nw \<and> (pool_ok (nw_pool nw) \<longrightarrow> pool_ok (nw_pool nw')) \<and>
     (\<forall>i. quiet_conn (nw_conns nw i) (nw_conns nw' i))"

lemma quiet_conn_refl [simp]: "quiet_conn c c"
  by (simp add: quiet_conn_def)

lemma quiet_refl [simp]: "quiet nw nw"
  by (simp add: quiet_def)

lemma quiet_trans: "quiet nw nw' \<Longrightarrow> quiet nw' nw'' \<Longrightarrow> quiet nw nw''"
  unfolding quiet_def quiet_conn_def by (intro conjI allI) metis+

lemma quietD:
  assumes "quiet nw nw'"
  shows "nw_next nw' = nw_next nw" "nw_pending nw' = nw_pending nw" "nw_nodes nw' = nw_nodes nw"
     "nw_addresses nw' = nw_addresses nw" "nw_syncNodes nw' = nw_syncNodes nw" "nw_requester nw' = nw_requester nw"
     "nw_cache nw' = nw_cache nw" "pool_ok (nw_pool nw) \<Longrightarrow> pool_ok (nw_pool nw')" "peer_of nw' i = peer_of nw i"
     "cn_inbound (nw_conns nw' i) = cn_inbound (nw_conns nw i)" "cn_open (nw_conns nw' i) \<Longrightarrow> cn_open (nw_conns nw i)"
     "cn_connected (nw_conns nw' i) = cn_connected (nw_conns nw i)" "cn_handler (nw_conns nw' i) = cn_handler (nw_conns nw i)"
     "cn_node (nw_conns nw' i) = cn_node (nw_conns nw i)" "cn_sync (nw_conns nw' i) = cn_sync (nw_conns nw i)"
  using assms by (simp_all add: quiet_def quiet_conn_def peer_of_def)

lemma quiet_links:
  assumes "quiet nw nw'" "links_but X nw"
  shows "links_but X nw'"
proof -
  note q = quietD [OF assms(1)] and l = links_okD [OF assms(2)]
  have "cn_open (nw_conns nw' i) \<Longrightarrow> i < nw_next nw \<Longrightarrow> i \<in> X \<or> i \<in> set (nw_pending nw) \<or> i \<in> set (nw_nodes nw)" for i
    using q(11) l(6) by simp
  then show ?thesis using l(1-5,7-10) unfolding links_but_def q(1-6,9,10,12-14) by (intro conjI allI ballI impI subsetI) auto
qed

lemma quiet_ok:
  assumes "quiet nw nw'" "net_ok_but X nw"
  shows "net_ok_but X nw'"
  using assms(2) quiet_links [OF assms(1)] quietD(8) [OF assms(1)] unfolding net_ok_but_def quietD(7,15) [OF assms(1)] by blast

lemma conn_update_fields [simp]:
  "nw_next (conn_update i f nw) = nw_next nw" "nw_pending (conn_update i f nw) = nw_pending nw" "nw_dead (conn_update i f nw) = nw_dead nw"
  "nw_nodes (conn_update i f nw) = nw_nodes nw" "nw_addresses (conn_update i f nw) = nw_addresses nw"
  "nw_syncNodes (conn_update i f nw) = nw_syncNodes nw" "nw_requester (conn_update i f nw) = nw_requester nw"
  "nw_cache (conn_update i f nw) = nw_cache nw" "nw_pool (conn_update i f nw) = nw_pool nw"
  "nw_conns (conn_update i f nw) = (nw_conns nw)(i := f (nw_conns nw i))" "nw_requesting (conn_update i f nw) = nw_requesting nw"
  by (simp_all add: conn_update_def)

lemma quiet_update: "quiet_conn (nw_conns nw i) (f (nw_conns nw i)) \<Longrightarrow> quiet nw (conn_update i f nw)"
  by (simp add: quiet_def)

lemma sendMessage_quiet: "sendMessage ne i m nw = Some nw' \<Longrightarrow> quiet nw nw'"
  by (auto simp: sendMessage_def quiet_conn_def intro!: quiet_update split: bind_splits)

lemma send_all_quiet: "send_all ne i ms nw = Some nw' \<Longrightarrow> quiet nw nw'"
proof (induction ms arbitrary: nw)
  case (Cons m ms)
  then obtain nw1 where "sendMessage ne i m nw = Some nw1" "send_all ne i ms nw1 = Some nw'" by (auto split: bind_splits)
  then show ?case using Cons.IH sendMessage_quiet quiet_trans by blast
qed simp

lemma node_start_quiet: "node_start ne mo i nw = Some nw' \<Longrightarrow> quiet nw nw'"
  unfolding node_start_def by (rule send_all_quiet)

lemma net_disconnected_quiet: "net_disconnected mo i err nw = Some nw' \<Longrightarrow> quiet nw nw'"
  using setPeer_ok(3) by (auto simp: net_disconnected_def quiet_def split: bind_splits if_splits)

lemma sync_requestHeaders_quiet:
  assumes "sync_requestHeaders ne mo block nw = Some nw'"
  shows "quiet nw nw'"
proof (cases "nw_requester nw")
  case (Some r)
  then obtain m nw1 where "sendMessage ne r m nw = Some nw1" "nw' = nw1\<lparr>nw_requesting := True, nw_headersRequest := mo_now mo\<rparr>"
    using assms by (auto simp: sync_requestHeaders_def Let_def split: bind_splits)
  then show ?thesis using sendMessage_quiet by (fastforce simp: quiet_def)
qed (use assms in \<open>simp add: sync_requestHeaders_def\<close>)

lemma pending_destroy_quiet:
  assumes "pending_destroy mo i nw = Some nw'"
  shows "quiet nw nw'"
proof (cases "cn_connected (nw_conns nw i)")
  case False
  then obtain nw1 where "net_disconnected mo i 0 nw = Some nw1" "nw' = conn_update i (\<lambda>c. c\<lparr>cn_open := False\<rparr>) nw1"
    using assms by (auto simp: pending_destroy_def split: bind_splits)
  moreover have "quiet nw1 (conn_update i (\<lambda>c. c\<lparr>cn_open := False\<rparr>) nw1)" by (rule quiet_update) (simp add: quiet_conn_def)
  ultimately show ?thesis using net_disconnected_quiet quiet_trans by blast
qed (use assms in \<open>simp add: pending_destroy_def\<close>)

lemma clear_dead_quiet: "clear_dead mo is nw = Some nw' \<Longrightarrow> quiet nw nw'"
proof (induction "is" arbitrary: nw)
  case Nil
  then show ?case by (auto simp: quiet_def)
next
  case (Cons i "is")
  then obtain nw1 where "pending_destroy mo i nw = Some nw1" "clear_dead mo is nw1 = Some nw'" by (auto split: bind_splits)
  then show ?case using Cons.IH pending_destroy_quiet quiet_trans by blast
qed

section \<open>Joining and leaving\<close>

lemma set_fold_mm_insert: "set (fold (\<lambda>i. mm_insert (g i, i)) is acc) = (\<lambda>i. (g i, i)) ` set is \<union> set acc"
  by (induction "is" arbitrary: acc) auto

lemma findHeadersRequester_in:
  assumes "findHeadersRequester mo nw = Some r"
  shows "r \<in> set (nw_syncNodes nw)"
proof -
  let ?nodes = "fold (\<lambda>i. mm_insert (cn_rtt (nw_conns nw i), i)) (filter (\<lambda>i. \<not> cn_inbound (nw_conns nw i)) (nw_syncNodes nw)) []"
  have "r = snd (hd ?nodes) \<and> ?nodes \<noteq> [] \<or> r = hd (nw_syncNodes nw) \<and> nw_syncNodes nw \<noteq> []"
    using assms by (auto simp: findHeadersRequester_def Let_def split: if_splits)
  moreover have "snd (hd ?nodes) \<in> set (nw_syncNodes nw)" if "?nodes \<noteq> []"
  proof -
    have "hd ?nodes \<in> set ?nodes" using that by (rule hd_in_set)
    then show ?thesis unfolding set_fold_mm_insert by auto
  qed
  ultimately show ?thesis by auto
qed

lemma chooseHeadersRequester_quiet:
  assumes "chooseHeadersRequester ne mo forced nw = Some nw'"
  shows "\<exists>r. quiet (nw\<lparr>nw_requester := r\<rparr>) nw' \<and> (r = nw_requester nw \<and> \<not> forced \<or> set_option r \<subseteq> set (nw_syncNodes nw))"
proof (cases "nw_requester nw \<noteq> None \<and> \<not> forced")
  case True
  then show ?thesis using assms by (intro exI [of _ "nw_requester nw"]) (auto simp: chooseHeadersRequester_def)
next
  case False
  then have "quiet (nw\<lparr>nw_requester := findHeadersRequester mo nw\<rparr>) nw'"
    using assms sync_requestHeaders_quiet unfolding chooseHeadersRequester_def by (auto split: if_splits)
  moreover have "set_option (findHeadersRequester mo nw) \<subseteq> set (nw_syncNodes nw)"
    by (cases "findHeadersRequester mo nw") (use findHeadersRequester_in in auto)
  ultimately show ?thesis by blast
qed

lemma addNewNode_ok:
  assumes ok: "net_ok_but {i} nw" and i: "i < nw_next nw" "i \<notin> set (nw_pending nw)" and run: "addNewNode ne mo i nw = Some nw'"
  shows "net_ok nw' \<and> nw_next nw' = nw_next nw"
proof -
  note l = links_okD [OF net_okD(3) [OF ok]]
  let ?nw = "(conn_update i (\<lambda>c. c\<lparr>cn_node := True, cn_sync := NodeSyncInfo_new\<rparr>) nw)\<lparr>nw_nodes := nw_nodes nw @ [i]\<rparr>"
  obtain nw1 nw2 where s: "i \<notin> set (nw_nodes nw)" "node_start ne mo i ?nw = Some nw1" "sync_addNode ne mo i nw1 = Some nw2"
    "(if cn_inbound (nw_conns nw2 i) then Some nw2
      else do {
       assert_that (\<not> doesNodeAddressConnected (peer_of nw2 i) nw2);
       Some (nw2\<lparr>nw_addresses := AList.update (peer_of nw2 i) i (nw_addresses nw2)\<rparr>)
      }) = Some nw'"
    using run by (auto simp: addNewNode_def Let_def split: bind_splits if_splits)
  note q1 = quietD [OF node_start_quiet [OF s(2)]]
  let ?nw1 = "nw1\<lparr>nw_syncNodes := filter (\<lambda>j. j \<noteq> i) (nw_syncNodes nw1) @ [i]\<rparr>"
  obtain r where r: "quiet (?nw1\<lparr>nw_requester := r\<rparr>) nw2" "r = nw_requester nw \<or> set_option r \<subseteq> set (nw_syncNodes ?nw1)"
    using chooseHeadersRequester_quiet [of ne mo False ?nw1 nw2] s(3) q1(6) by (auto simp: sync_addNode_def)
  note q2 = quietD [OF r(1)]
  have peer: "peer_of nw2 j = peer_of nw j" for j
    using q1(9) [of j] q2(9) [of j] by (simp add: peer_of_def split: if_splits)
  have out: "\<not> cn_inbound (nw_conns nw2 j)" if "j < nw_next nw" for j using l(7) [OF that] q1(10) [of j] q2(10) [of j] by (cases "j = i") simp_all
  have nw': "nw' = nw2\<lparr>nw_addresses := AList.update (peer_of nw i) i (nw_addresses nw2)\<rparr>"
    and free: "map_of (nw_addresses nw) (peer_of nw i) = None"
    using s(4) out [OF i(1)] peer q1(4) q2(4) by (auto simp: doesNodeAddressConnected_def split: if_splits)
  have look: "map_of (nw_addresses nw') a = (if a = peer_of nw i then Some i else map_of (nw_addresses nw) a)" for a
    using q1(4) q2(4) by (simp add: nw' update_conv')
  have nodes: "nw_nodes nw' = nw_nodes nw @ [i]" "nw_next nw' = nw_next nw" "nw_pending nw' = nw_pending nw"
    "nw_requester nw' = r" "nw_syncNodes nw' = filter (\<lambda>j. j \<noteq> i) (nw_syncNodes nw) @ [i]" "nw_cache nw' = nw_cache nw"
    using q1 q2 by (simp_all add: nw')
  have conn: "cn_handler (nw_conns nw' j) = cn_handler (nw_conns nw j)" "cn_connected (nw_conns nw' j) = cn_connected (nw_conns nw j)"
    "cn_node (nw_conns nw' j) = (j = i \<or> cn_node (nw_conns nw j))" "cn_open (nw_conns nw' j) \<Longrightarrow> cn_open (nw_conns nw j)"
    "cn_sync (nw_conns nw' j) = (if j = i then NodeSyncInfo_new else cn_sync (nw_conns nw j))" "\<not> cn_inbound (nw_conns nw' j) \<longleftrightarrow> \<not> cn_inbound (nw_conns nw2 j)" for j
    using q1(11-15) [of j] q2(11-15) [of j] by (cases "j = i"; simp add: nw')+
  have peer': "peer_of nw' j = peer_of nw j" for j using peer [of j] by (simp add: nw' peer_of_def)
  have "links_but {} nw'"
    unfolding links_but_def nodes look peer'
  proof (intro conjI allI ballI impI)
    show "set (nw_pending nw) \<union> set (nw_nodes nw @ [i]) \<subseteq> {..<nw_next nw}" using l(1,2) i(1) by auto
    show "cn_handler (nw_conns nw' j) \<longleftrightarrow> j \<in> set (nw_pending nw)" if "j < nw_next nw" for j using l(3) [OF that] conn(1) by simp
    show "\<not> cn_node (nw_conns nw' j)" "\<not> cn_connected (nw_conns nw' j)" if "j \<in> set (nw_pending nw)" for j
      using l(4) [OF that] conn(2,3) that i(2) by auto
    show "cn_node (nw_conns nw' j)" if "j \<in> set (nw_nodes nw @ [i])" for j using that l(5) conn(3) by auto
    show "j \<in> {} \<or> j \<in> set (nw_pending nw) \<or> j \<in> set (nw_nodes nw @ [i])" if "j < nw_next nw" "cn_open (nw_conns nw' j)" for j
      using l(6) [OF that(1)] conn(4) [OF that(2)] by auto
    show "\<not> cn_inbound (nw_conns nw' j)" if "j < nw_next nw" for j using out [OF that] conn(6) by blast
    show "set (filter (\<lambda>j. j \<noteq> i) (nw_syncNodes nw) @ [i]) = set (nw_nodes nw @ [i])" using l(8) by auto
    show "x \<in> set (nw_nodes nw @ [i])" if "r = Some x" for x using r(2) that l(8,9) q1(5) by auto
    show "((if a = peer_of nw i then Some i else map_of (nw_addresses nw) a) = Some j) = (j \<in> set (nw_nodes nw @ [i]) \<and> peer_of nw j = a)" for a j
      using l(10) [of a j] l(10) [of "peer_of nw i" j] free s(1) by auto
  qed
  moreover have "pool_ok (nw_pool nw')" using q1(8) q2(8) net_okD(2) [OF ok] by (simp add: nw')
  moreover have "sync_ok R NodeSyncInfo_new" for R by (simp add: sync_ok_def NodeSyncInfo_new_def)
  ultimately show ?thesis using net_okD(1,4) [OF ok] unfolding net_ok_but_def nodes conn(5) by simp
qed

text \<open>A connection leaves the connector, connected or not.\<close>

lemma removeConnection_ok:
  assumes ok: "net_ok nw" and i: "i \<in> set (nw_pending nw)"
    and run: "removeConnection mo i (conn_update i (\<lambda>c. c\<lparr>cn_connected := flag\<rparr>) nw) = Some nw'"
  shows "net_ok_but {i} nw' \<and> nw_next nw' = nw_next nw \<and> i \<notin> set (nw_pending nw') \<and> (\<not> cn_open (nw_conns nw i) \<longrightarrow> net_ok nw')"
proof -
  note l = links_okD [OF net_okD(3) [OF ok]]
  let ?nw = "conn_update i (\<lambda>c. c\<lparr>cn_connected := flag\<rparr>) nw"
  obtain nw1 where c: "clear_dead mo (nw_dead nw) ?nw = Some nw1"
    "nw' = conn_update i (\<lambda>c. c\<lparr>cn_handler := False\<rparr>) (nw1\<lparr>nw_dead := [i], nw_pending := filter (\<lambda>j. j \<noteq> i) (nw_pending nw1)\<rparr>)"
    using run by (auto simp: removeConnection_def split: bind_splits)
  note q = quietD [OF clear_dead_quiet [OF c(1)]]
  have nodes: "nw_nodes nw' = nw_nodes nw" "nw_next nw' = nw_next nw" "nw_pending nw' = filter (\<lambda>j. j \<noteq> i) (nw_pending nw)"
    "nw_requester nw' = nw_requester nw" "nw_syncNodes nw' = nw_syncNodes nw" "nw_cache nw' = nw_cache nw" "nw_addresses nw' = nw_addresses nw"
    using q by (simp_all add: c(2))
  have conn: "cn_handler (nw_conns nw' j) = (j \<noteq> i \<and> cn_handler (nw_conns nw j))" "j \<noteq> i \<Longrightarrow> cn_connected (nw_conns nw' j) = cn_connected (nw_conns nw j)"
    "cn_node (nw_conns nw' j) = cn_node (nw_conns nw j)" "cn_open (nw_conns nw' j) \<Longrightarrow> cn_open (nw_conns nw j)"
    "cn_sync (nw_conns nw' j) = cn_sync (nw_conns nw j)" "cn_inbound (nw_conns nw' j) = cn_inbound (nw_conns nw j)" "peer_of nw' j = peer_of nw j" for j
    using q(9-15) [of j] by (cases "j = i"; simp add: c(2) peer_of_def)+
  have i': "i \<notin> set (nw_nodes nw)" using l(4) [OF i] l(5) by blast
  have "links_but {i} nw'"
    unfolding links_but_def nodes conn
  proof (intro conjI allI ballI impI)
    show "set (filter (\<lambda>j. j \<noteq> i) (nw_pending nw)) \<union> set (nw_nodes nw) \<subseteq> {..<nw_next nw}" using l(1,2) by auto
    show "(j \<noteq> i \<and> cn_handler (nw_conns nw j)) \<longleftrightarrow> j \<in> set (filter (\<lambda>j. j \<noteq> i) (nw_pending nw))" if "j < nw_next nw" for j using l(3) [OF that] by auto
    show "\<not> cn_node (nw_conns nw j)" "\<not> cn_connected (nw_conns nw' j)" if "j \<in> set (filter (\<lambda>j. j \<noteq> i) (nw_pending nw))" for j
      using that l(4) [of j] conn(2) [of j] by auto
    show "j \<in> {i} \<or> j \<in> set (filter (\<lambda>j. j \<noteq> i) (nw_pending nw)) \<or> j \<in> set (nw_nodes nw)" if "j < nw_next nw" "cn_open (nw_conns nw' j)" for j
      using l(6) [OF that(1)] conn(4) [OF that(2)] by auto
  qed (use l in auto)
  moreover from this have "\<not> cn_open (nw_conns nw i) \<Longrightarrow> links_but {} nw'"
    unfolding links_but_def using conn(4) [of i] by blast
  moreover have "pool_ok (nw_pool nw')" using q(8) net_okD(2) [OF ok] by (simp add: c(2))
  ultimately show ?thesis using net_okD(1,4) [OF ok] unfolding net_ok_but_def nodes conn(5) by simp
qed

lemma pending_close_quiet: "quiet nw (conn_update i pending_close nw)"
  by (rule quiet_update) (simp add: pending_close_def quiet_conn_def)

lemma not_connected_same: "\<not> cn_connected c \<Longrightarrow> c\<lparr>cn_connected := False\<rparr> = c"
  by (cases c) simp

lemma pending_handleError_ok:
  assumes ok: "net_ok nw" and i: "i < nw_next nw" and run: "pending_handleError mo err i nw = Some nw'"
  shows "net_ok nw' \<and> nw_next nw' = nw_next nw"
proof -
  obtain nw1 where d: "\<not> cn_connected (nw_conns nw i)" "net_disconnected mo i err nw = Some nw1"
    "(if cn_handler (nw_conns (conn_update i pending_close nw1) i) then removeConnection mo i (conn_update i pending_close nw1)
      else Some (conn_update i pending_close nw1)) = Some nw'"
    using run by (auto simp: pending_handleError_def Let_def split: bind_splits if_splits)
  let ?nw = "conn_update i pending_close nw1"
  have q: "quiet nw ?nw" using net_disconnected_quiet [OF d(2)] pending_close_quiet quiet_trans by blast
  have ok': "net_ok ?nw" using quiet_ok [OF q ok] .
  show ?thesis
  proof (cases "cn_handler (nw_conns ?nw i)")
    case False
    then show ?thesis using d(3) ok' quietD(1) [OF q] by auto
  next
    case True
    then have "i \<in> set (nw_pending ?nw)" using links_okD(3) [OF net_okD(3) [OF ok'], of i] i quietD(1) [OF q] by simp
    moreover have "\<not> cn_connected (nw_conns nw1 i)" using quietD(12) [OF net_disconnected_quiet [OF d(2)], of i] d(1) by simp
    then have "\<not> cn_connected (pending_close (nw_conns nw1 i))" "\<not> cn_open (nw_conns ?nw i)" by (simp_all add: pending_close_def)
    then have "conn_update i (\<lambda>c. c\<lparr>cn_connected := False\<rparr>) ?nw = ?nw" "\<not> cn_open (nw_conns ?nw i)"
      by (simp_all add: conn_update_def not_connected_same)
    ultimately show ?thesis using removeConnection_ok [OF ok', of i mo False nw'] d(3) True quietD(1) [OF q] by auto
  qed
qed

lemma pending_verack_ok:
  assumes ok: "net_ok nw" and i: "i < nw_next nw" and run: "pending_verack ne mo i nw = Some nw'"
  shows "net_ok nw' \<and> nw_next nw' = nw_next nw"
proof -
  obtain nw1 where s: "cn_handler (nw_conns nw i)" "removeConnection mo i (conn_update i (\<lambda>c. c\<lparr>cn_connected := True\<rparr>) nw) = Some nw1"
    "addNewNode ne mo i nw1 = Some nw'"
    using run by (auto simp: pending_verack_def Let_def split: bind_splits if_splits)
  have "i \<in> set (nw_pending nw)" using links_okD(3) [OF net_okD(3) [OF ok] i] s(1) by blast
  from removeConnection_ok [OF ok this s(2)] show ?thesis using addNewNode_ok [OF _ _ _ s(3)] i by auto
qed

lemma removeNode_ok:
  assumes ok: "net_ok nw" and i: "i \<in> set (nw_nodes nw)" and run: "removeNode ne mo i nw = Some nw'"
  shows "net_ok nw' \<and> nw_next nw' = nw_next nw"
proof -
  note l = links_okD [OF net_okD(3) [OF ok]]
  obtain nw1 nw2 where s: "sync_removeNode ne mo i nw = Some nw1"
    "(if cn_inbound (nw_conns nw1 i) then Some (conn_update i (\<lambda>c. c\<lparr>cn_open := False\<rparr>) nw1)
      else do {
        assert_that (doesNodeAddressConnected (peer_of (conn_update i (\<lambda>c. c\<lparr>cn_open := False\<rparr>) nw1) i) nw1);
        Some ((conn_update i (\<lambda>c. c\<lparr>cn_open := False\<rparr>) nw1)\<lparr>nw_addresses := AList.delete (peer_of (conn_update i (\<lambda>c. c\<lparr>cn_open := False\<rparr>) nw1) i) (nw_addresses nw1)\<rparr>)
      }) = Some nw2" "nw' = nw2\<lparr>nw_nodes := filter (\<lambda>j. j \<noteq> i) (nw_nodes nw2)\<rparr>"
    using run by (auto simp: removeNode_def Let_def doesNodeAddressConnected_def split: bind_splits if_splits)
  let ?nw = "nw\<lparr>nw_syncNodes := filter (\<lambda>j. j \<noteq> i) (nw_syncNodes nw)\<rparr>"
  obtain r where r: "quiet (?nw\<lparr>nw_requester := r\<rparr>) nw1" "r = nw_requester nw \<and> r \<noteq> Some i \<or> set_option r \<subseteq> set (nw_syncNodes ?nw)"
  proof (cases "nw_requester nw = Some i")
    case True
    then show thesis using that chooseHeadersRequester_quiet [of ne mo True ?nw nw1] s(1) by (auto simp: sync_removeNode_def)
  next
    case False
    then show thesis using that [of "nw_requester nw"] s(1) by (auto simp: sync_removeNode_def)
  qed
  note q = quietD [OF r(1)]
  have i': "i < nw_next nw" using l(2) [OF i] .
  have "\<not> cn_inbound (nw_conns nw1 i)" using l(7) [OF i'] q(10) [of i] by simp
  moreover have peer: "peer_of nw1 j = peer_of nw j" for j using q(9) [of j] by (simp add: peer_of_def)
  moreover have "peer_of (conn_update i (\<lambda>c. c\<lparr>cn_open := False\<rparr>) nw1) j = peer_of nw1 j" for j by (simp add: peer_of_def)
  ultimately have nw': "nw' = (conn_update i (\<lambda>c. c\<lparr>cn_open := False\<rparr>) nw1)\<lparr>nw_addresses := AList.delete (peer_of nw i) (nw_addresses nw1),
      nw_nodes := filter (\<lambda>j. j \<noteq> i) (nw_nodes nw1)\<rparr>"
    using s(2,3) by (auto split: if_splits)
  have nodes: "nw_nodes nw' = filter (\<lambda>j. j \<noteq> i) (nw_nodes nw)" "nw_next nw' = nw_next nw" "nw_pending nw' = nw_pending nw"
    "nw_requester nw' = r" "nw_syncNodes nw' = filter (\<lambda>j. j \<noteq> i) (nw_syncNodes nw)" "nw_cache nw' = nw_cache nw"
    using q(1-7) by (simp_all add: nw')
  have look: "map_of (nw_addresses nw') a = (if a = peer_of nw i then None else map_of (nw_addresses nw) a)" for a
    using q(4) by (simp add: nw' delete_conv')
  have conn: "cn_handler (nw_conns nw' j) = cn_handler (nw_conns nw j)" "cn_connected (nw_conns nw' j) = cn_connected (nw_conns nw j)"
    "cn_node (nw_conns nw' j) = cn_node (nw_conns nw j)" "cn_open (nw_conns nw' j) \<Longrightarrow> j \<noteq> i \<and> cn_open (nw_conns nw j)"
    "cn_sync (nw_conns nw' j) = cn_sync (nw_conns nw j)" "cn_inbound (nw_conns nw' j) = cn_inbound (nw_conns nw j)" "peer_of nw' j = peer_of nw j" for j
    using q(10-15) [of j] peer [of j] by (cases "j = i"; simp add: nw' peer_of_def)+
  have "links_but {} nw'"
    unfolding links_but_def nodes look conn
  proof (intro conjI allI ballI impI)
    show "set (nw_pending nw) \<union> set (filter (\<lambda>j. j \<noteq> i) (nw_nodes nw)) \<subseteq> {..<nw_next nw}" using l(1,2) by auto
    show "j \<in> {} \<or> j \<in> set (nw_pending nw) \<or> j \<in> set (filter (\<lambda>j. j \<noteq> i) (nw_nodes nw))" if "j < nw_next nw" "cn_open (nw_conns nw' j)" for j
      using l(6) [OF that(1)] conn(4) [OF that(2)] by auto
    show "x \<in> set (filter (\<lambda>j. j \<noteq> i) (nw_nodes nw))" if "r = Some x" for x using r(2) that l(8,9) by auto
    show "((if a = peer_of nw i then None else map_of (nw_addresses nw) a) = Some j) = (j \<in> set (filter (\<lambda>j. j \<noteq> i) (nw_nodes nw)) \<and> peer_of nw j = a)" for a j
    proof (cases "a = peer_of nw i")
      case True
      then have "peer_of nw j = a \<and> j \<in> set (nw_nodes nw) \<longrightarrow> j = i" using l(10) [of a j] l(10) [of a i] i by (metis option.inject)
      then show ?thesis using True by auto
    next
      case False
      then show ?thesis using l(10) [of a j] by auto
    qed
    show "cn_handler (nw_conns nw j) \<longleftrightarrow> j \<in> set (nw_pending nw)" if "j < nw_next nw" for j using l(3) [OF that] .
    show "\<not> cn_node (nw_conns nw j)" "\<not> cn_connected (nw_conns nw j)" if "j \<in> set (nw_pending nw)" for j using l(4) [OF that] by simp_all
    show "cn_node (nw_conns nw j)" if "j \<in> set (filter (\<lambda>j. j \<noteq> i) (nw_nodes nw))" for j using that l(5) by simp
    show "\<not> cn_inbound (nw_conns nw j)" if "j < nw_next nw" for j using l(7) [OF that] .
    show "set (filter (\<lambda>j. j \<noteq> i) (nw_syncNodes nw)) = set (filter (\<lambda>j. j \<noteq> i) (nw_nodes nw))" using l(8) by simp
  qed
  moreover have "pool_ok (nw_pool nw')" using q(8) net_okD(2) [OF ok] by (simp add: nw')
  ultimately show ?thesis using net_okD(1,4) [OF ok] unfolding net_ok_but_def nodes conn(5) by simp
qed

section \<open>What a connection knows of the index\<close>

lemma sync_okD:
  assumes "sync_ok R si"
  shows "bestKnownBlock si = Some p \<Longrightarrow> p \<in> R" "lastCommonBlock si = Some p \<Longrightarrow> p \<in> R" "lastDownloadBlock si = Some p \<Longrightarrow> p \<in> R"
    "snd ` set (requestingBlocks si) \<subseteq> R"
  using assms by (auto simp: sync_ok_def)

lemma sync_ok_mono: "sync_ok R si \<Longrightarrow> R \<subseteq> R' \<Longrightarrow> sync_ok R' si"
  by (auto simp: sync_ok_def)

lemma better_known_ok: "sync_ok R si \<Longrightarrow> p \<in> R \<Longrightarrow> sync_ok R (better_known bn H p si)"
  by (auto simp: sync_ok_def better_known_def split: option.splits)

lemma getBlockIndex_refs: "getBlockIndex h bc = Some p \<Longrightarrow> p \<in> refs bc"
  by (auto simp: getBlockIndex_def refs_def split: option.splits)

lemma processBlockAvailability_ok:
  assumes "sync_ok (refs bc) si"
  shows "sync_ok (refs bc) (processBlockAvailability bn bc si)"
proof -
  have *: "sync_ok R (si\<lparr>lastUnknownBlockHash := h\<rparr>) = sync_ok R si" for R h si by (simp add: sync_ok_def)
  show ?thesis
  proof (cases "getBlockIndex (lastUnknownBlockHash si) bc")
    case (Some p)
    from better_known_ok [OF assms getBlockIndex_refs [OF Some]] show ?thesis using Some assms by (simp add: processBlockAvailability_def *)
  qed (use assms in \<open>simp add: processBlockAvailability_def\<close>)
qed

lemma updateBlockAvailability_ok:
  assumes "sync_ok (refs bc) si" "set_option block \<subseteq> refs bc"
  shows "sync_ok (refs bc) (updateBlockAvailability bn h block bc si)"
proof -
  have *: "sync_ok R (si\<lparr>lastUnknownBlockHash := h\<rparr>) = sync_ok R si" for R h si by (simp add: sync_ok_def)
  show ?thesis using assms better_known_ok processBlockAvailability_ok [OF assms(1)]
    by (auto simp: updateBlockAvailability_def Let_def * split: option.split)
qed

lemma fill_back_in:
  "header_tree H R \<Longrightarrow> fill_back H n p = Some ps \<Longrightarrow> p \<in> R \<Longrightarrow> set ps \<subseteq> R"
proof (induction H n p arbitrary: ps rule: fill_back.induct)
  case (3 H n p)
  from 3(3) obtain q qs where q: "previous (H p) = Some q" "fill_back H (Suc n) q = Some qs" "ps = qs @ [p]" by (auto split: bind_splits)
  have "q \<in> R" using header_tree_parent(5) [OF 3(2,4) q(1)] by blast
  from 3(1) [OF q(1) 3(2) q(2) this] show ?case using q(3) 3(4) by simp
qed auto

lemma findLastCommonAncestor_in:
  assumes "tree_ok H R" "p \<in> R" "q \<in> R" "findLastCommonAncestor H p q = Some (Some c)"
  shows "c \<in> R"
proof -
  have "ancestor H c c" unfolding ancestor_def by (rule exI [of _ 0]) simp
  then have "ancestor H c p" using common_ancestor [OF assms(1-3)] assms(4) by auto
  then show ?thesis using ancestor_level(1) [OF assms(1,2)] by blast
qed

lemma getAncestor_in:
  assumes "tree_ok H R" "p \<in> R" "getAncestor H p d = Some (Some q)"
  shows "q \<in> R"
proof -
  have "parent_walk H (nat (height (H p) - d)) p = Some q"
    using assms(3) getAncestor_walk [OF assms(1,2), of d] by (simp split: if_splits)
  from parent_walk_height [OF assms(1,2) this] show ?thesis by blast
qed

lemma chain_entry_in:
  assumes "cache_ok bc" "chain_getBlock (bc_chain bc) h = Some p"
  shows "p \<in> refs bc"
proof -
  have "0 \<le> h" "h < int (length (bc_chain bc))" "bc_chain bc ! nat h = Some p"
    using assms(2) by (simp_all add: chain_getBlock_def split: if_splits)
  then have "nat h < length (bc_chain bc)" by linarith
  then show ?thesis using cache_okD(3) [OF assms(1)] \<open>bc_chain bc ! nat h = Some p\<close> by (simp add: linked_def)
qed

lemma findBlocksToDownload_ok:
  assumes ok: "cache_ok bc" and si: "sync_ok (refs bc) si" and run: "findBlocksToDownload bn minWork cnt bc si = Some (bs, si')"
  shows "sync_ok (refs bc) si' \<and> set bs \<subseteq> refs bc \<and> requestingBlocks si' = requestingBlocks (processBlockAvailability bn bc si)"
proof -
  let ?H = "bc_heap bc" and ?si = "processBlockAvailability bn bc si"
  note ok' = processBlockAvailability_ok [OF si, of bn] and tree = cache_okD(4) [OF ok]
  show ?thesis
  proof (cases "bs = [] \<and> si' = ?si")
    case True
    then show ?thesis using ok' by simp
  next
    case False
    obtain best where best: "bestKnownBlock ?si = Some best" using run False
      by (cases "bestKnownBlock ?si") (auto simp: findBlocksToDownload_def Let_def)
    then have best': "best \<in> refs bc" using sync_okD(1) [OF ok'] by blast
    obtain s where s: "(case lastCommonBlock ?si of Some c \<Rightarrow> Some (Some c)
        | None \<Rightarrow> do { ht \<leftarrow> chain_getHeight (bc_chain bc); Some (chain_getBlock (bc_chain bc) (min (height (?H best)) ht)) }) = Some (Some s)"
      and rest: "\<exists>common. findLastCommonAncestor ?H s best = Some common \<and>
        (common = Some best \<and> bs = [] \<and> si' = ?si\<lparr>lastCommonBlock := Some best\<rparr> \<or>
         (\<exists>c d n block. common = Some c \<and> getAncestor ?H best d = Some (Some block) \<and> fill_back ?H n block = Some bs \<and>
           si' = ?si\<lparr>lastCommonBlock := common, lastDownloadBlock := Some block, lastCommonBlock := Some block\<rparr>))"
      using run False best unfolding findBlocksToDownload_def Let_def
      by (simp split: bind_splits if_splits) blast+
    have "s \<in> refs bc"
    proof (cases "lastCommonBlock ?si")
      case None
      then show ?thesis using s chain_entry_in [OF ok] by (auto split: bind_splits)
    next
      case (Some c)
      then show ?thesis using s sync_okD(2) [OF ok'] by simp
    qed
    note common = findLastCommonAncestor_in [OF tree this best']
    from rest show ?thesis
    proof (elim exE conjE disjE)
      fix common assume "bs = []" "si' = ?si\<lparr>lastCommonBlock := Some best\<rparr>"
      then show ?thesis using ok' best' by (auto simp: sync_ok_def)
    next
      fix common c d n block
      assume b: "getAncestor ?H best d = Some (Some block)" "fill_back ?H n block = Some bs"
        "si' = ?si\<lparr>lastCommonBlock := common, lastDownloadBlock := Some block, lastCommonBlock := Some block\<rparr>"
      have "block \<in> refs bc" using getAncestor_in [OF tree best' b(1)] .
      then show ?thesis using ok' fill_back_in [OF cache_okD(1) [OF ok] b(2)] b(3) by (auto simp: sync_ok_def)
    qed
  qed
qed

lemma set_update_snd: "snd ` set (AList.update k v m) \<subseteq> insert v (snd ` set m)"
  by (induction m) auto

lemma record_blocks_in:
  "record_blocks H ps m = Some m' \<Longrightarrow> set ps \<subseteq> R \<Longrightarrow> snd ` set m \<subseteq> R \<Longrightarrow> snd ` set m' \<subseteq> R"
proof (induction H ps m rule: record_blocks.induct)
  case (2 H p ps m)
  from 2(2) obtain h where "index_getHash (H p) = Some h" "h \<noteq> uint256_null" "record_blocks H ps (AList.update h p m) = Some m'"
    by (auto split: bind_splits if_splits)
  moreover from this have "snd ` set (AList.update h p m) \<subseteq> R"
    using 2(3,4) by (intro order_trans [OF set_update_snd]) simp
  ultimately show ?case using 2(1) 2(3) by simp
qed simp

lemma recordRequestingBlocks_ok:
  assumes "sync_ok R si" "set ps \<subseteq> R" "recordRequestingBlocks H ps si = Some si'"
  shows "sync_ok R si'"
proof -
  obtain m where "record_blocks H ps [] = Some m" "si' = si\<lparr>requestingBlocks := m\<rparr>"
    using assms(3) by (auto simp: recordRequestingBlocks_def split: bind_splits if_splits)
  then show ?thesis using assms(1) record_blocks_in [OF _ assms(2), of H "[]" m] by (simp add: sync_ok_def)
qed

lemma removeBlockRecord_ok:
  assumes "sync_ok R si" "removeBlockRecord block si = Some si'"
  shows "sync_ok R si'"
proof -
  obtain h where si': "si' = si\<lparr>requestingBlocks := AList.delete h (requestingBlocks si)\<rparr>"
    using assms(2) by (auto simp: removeBlockRecord_def Let_def split: bind_splits if_splits)
  have "snd ` set (AList.delete h (requestingBlocks si)) \<subseteq> snd ` set (requestingBlocks si)"
    by (rule image_mono) (simp add: AList.delete_eq)
  also have "\<dots> \<subseteq> R" using sync_okD(4) [OF assms(1)] .
  finally show ?thesis using assms(1) unfolding sync_ok_def si' by simp
qed

section \<open>Messages keep the invariant\<close>

text \<open>The index may grow, and what one connection knows may change.\<close>

lemma cache_sync_ok:
  assumes ok: "net_ok nw" and bc: "cache_ok bc" "refs (nw_cache nw) \<subseteq> refs bc" and si: "sync_ok (refs bc) si"
  shows "net_ok ((conn_update i (\<lambda>c. c\<lparr>cn_sync := si\<rparr>) nw)\<lparr>nw_cache := bc\<rparr>)"
proof -
  let ?nw = "(conn_update i (\<lambda>c. c\<lparr>cn_sync := si\<rparr>) nw)\<lparr>nw_cache := bc\<rparr>"
  have "links_but {} ?nw" using net_okD(3) [OF ok] by (simp add: links_but_def peer_of_def)
  moreover have "sync_ok (refs bc) (cn_sync (nw_conns nw j))" for j using sync_ok_mono [OF net_okD(4) [OF ok] bc(2)] .
  ultimately show ?thesis using bc(1) si net_okD(2) [OF ok] by (simp add: net_ok_but_def)
qed

lemma sync_update_ok:
  assumes "net_ok nw" "sync_ok (refs (nw_cache nw)) si"
  shows "net_ok (conn_update i (\<lambda>c. c\<lparr>cn_sync := si\<rparr>) nw)"
  using cache_sync_ok [OF assms(1) net_okD(1) [OF assms(1)] order_refl assms(2), of i] by (simp add: conn_update_def)

lemma checkRequestBlocks_ok:
  assumes ok: "net_ok nw" and run: "checkRequestBlocks ne i nw = Some nw'"
  shows "net_ok nw' \<and> nw_next nw' = nw_next nw"
proof (cases "isRequestingBlock (cn_sync (nw_conns nw i))")
  case True
  then show ?thesis using assms by (simp add: checkRequestBlocks_def)
next
  case False
  then obtain bs si where f: "findBlocksToDownload (v_bn (c_val (ne_cache ne))) (ne_minWork ne) 128 (nw_cache nw) (cn_sync (nw_conns nw i)) = Some (bs, si)"
    and r: "(if bs \<noteq> [] then node_requestBlocks ne bs i (conn_update i (\<lambda>c. c\<lparr>cn_sync := si\<rparr>) nw)
      else Some (conn_update i (\<lambda>c. c\<lparr>cn_sync := si\<rparr>) nw)) = Some nw'"
    using run by (auto simp: checkRequestBlocks_def sync_requestBlocks_def Let_def split: bind_splits)
  note fb = findBlocksToDownload_ok [OF net_okD(1,4) [OF ok] f]
  have ok1: "net_ok (conn_update i (\<lambda>c. c\<lparr>cn_sync := si\<rparr>) nw)" using sync_update_ok [OF ok] fb by blast
  show ?thesis
  proof (cases "bs = []")
    case True
    then show ?thesis using r ok1 by auto
  next
    case False
    then obtain items nw1 si1 where n: "sendMessage ne i (GetData items) (conn_update i (\<lambda>c. c\<lparr>cn_sync := si\<rparr>) nw) = Some nw1"
      "recordRequestingBlocks (bc_heap (nw_cache nw1)) bs (cn_sync (nw_conns nw1 i)) = Some si1"
      "nw' = conn_update i (\<lambda>c. c\<lparr>cn_sync := si1\<rparr>) nw1"
      using r by (auto simp: node_requestBlocks_def split: bind_splits)
    note q = sendMessage_quiet [OF n(1)]
    have ok2: "net_ok nw1" using quiet_ok [OF q ok1] .
    have "refs (nw_cache nw1) = refs (nw_cache nw)" using quietD(7) [OF q] by simp
    then have "sync_ok (refs (nw_cache nw1)) si1" using recordRequestingBlocks_ok [OF net_okD(4) [OF ok2] _ n(2)] fb by simp
    then show ?thesis using sync_update_ok [OF ok2] n(3) quietD(1) [OF q] by simp
  qed
qed

lemma fold_pool_ok: "pool_ok p \<Longrightarrow> pool_ok (fold (\<lambda>x. doAddPeer pc now (f x)) xs p)"
  by (induction xs arbitrary: p) (simp_all add: doAddPeer_ok)

lemma pool_update_ok: "net_ok nw \<Longrightarrow> pool_ok p \<Longrightarrow> net_ok (nw\<lparr>nw_pool := p\<rparr>)"
  by (simp add: net_ok_but_def links_but_def peer_of_def)

text \<open>A connection is updated in what the tables do not depend on.\<close>

lemma quiet_flags [simp]:
  "quiet nw (nw\<lparr>nw_requesting := flag\<rparr>)" "quiet nw (nw\<lparr>nw_headersRequest := t\<rparr>)" "quiet nw (nw\<lparr>nw_resolving := s\<rparr>)"
  "quiet nw (nw\<lparr>nw_times := n\<rparr>)" "quiet nw (nw\<lparr>nw_resolving := s, nw_times := n\<rparr>)"
  by (simp_all add: quiet_def)

lemma handlers_split:
  "(if a then None else if b then x else if c then y else if d then z else if e then u else Some v) = Some w \<Longrightarrow>
    x = Some w \<or> y = Some w \<or> z = Some w \<or> u = Some w \<or> w = v"
  by (simp split: if_splits)

locale network = cache_numbers "ne_cache ne" for ne :: "('d, 's, 'k, 'g, 'f) net_env" +
  assumes no_own_parent: "previousBlockHash h \<noteq> hash (net_header ne h)"
begin

lemma own_parent: "previousBlockHash (net_header ne h) \<noteq> hash (net_header ne h)"
  using no_own_parent [of h] by (simp add: net_header_def computeHash_def)

lemma add_headers_ok:
  assumes "add_headers (ne_cache ne) late (map (net_header ne) hs) r bc = Some (r', bc')" "cache_ok bc" "set_option r \<subseteq> refs bc"
  shows "cache_ok bc' \<and> refs bc \<subseteq> refs bc' \<and> set_option r' \<subseteq> refs bc'"
  using assms
proof (induction hs arbitrary: r bc)
  case (Cons h hs)
  then obtain r1 bc1 where a: "addBlockIndex (ne_cache ne) (late (length hs)) (net_header ne h) bc = Some (r1, bc1)"
    "add_headers (ne_cache ne) late (map (net_header ne) hs) r1 bc1 = Some (r', bc')"
    by (auto split: bind_splits)
  have o: "cache_ok bc1" "refs bc \<subseteq> refs bc1" "set_option r1 \<subseteq> refs bc1"
    using addBlockIndex_ok [OF Cons.prems(2) own_parent a(1)] by auto
  from Cons.IH [OF a(2) o(1,3)] o(2) show ?case by blast
qed simp

lemma handleHeaders_ok:
  assumes ok: "net_ok nw" and run: "handleHeaders ne mo hs i nw = Some nw'"
  shows "net_ok nw' \<and> nw_next nw' = nw_next nw"
proof -
  let ?hs = "map (net_header ne) hs" and ?bn = "v_bn (c_val (ne_cache ne))"
  obtain block bc nw1 where s: "add_headers (ne_cache ne) (mo_late mo) ?hs None (nw_cache nw) = Some (block, bc)"
    "(if ?hs = [] then Some (nw\<lparr>nw_requesting := False, nw_cache := bc\<rparr>)
      else do {
        p \<leftarrow> block;
        sync_requestHeaders ne mo (Some p) (conn_update i (\<lambda>c. c\<lparr>cn_sync :=
          updateBlockAvailability ?bn (hash (List.last ?hs)) (Some p) bc (cn_sync c)\<rparr>) (nw\<lparr>nw_requesting := False, nw_cache := bc\<rparr>))
      }) = Some nw1"
    "(if length ?hs < 2000 \<and> lastDownloadBlock (cn_sync (nw_conns nw1 i)) = None then checkRequestBlocks ne i nw1 else Some nw1) = Some nw'"
    using run by (auto simp: handleHeaders_def Let_def split: bind_splits)
  have bc: "cache_ok bc" "refs (nw_cache nw) \<subseteq> refs bc" "set_option block \<subseteq> refs bc"
    using add_headers_ok [OF s(1) net_okD(1) [OF ok]] by auto
  have si: "sync_ok (refs bc) (cn_sync (nw_conns nw i))" using sync_ok_mono [OF net_okD(4) [OF ok] bc(2)] .
  have ok0: "net_ok (nw\<lparr>nw_requesting := False\<rparr>)" using quiet_ok [OF quiet_flags(1) ok] .
  have ok1: "net_ok nw1 \<and> nw_next nw1 = nw_next nw"
  proof (cases "hs = []")
    case True
    have "(conn_update i (\<lambda>c. c\<lparr>cn_sync := cn_sync (nw_conns nw i)\<rparr>) (nw\<lparr>nw_requesting := False\<rparr>))\<lparr>nw_cache := bc\<rparr> = nw1"
      using s(2) True by (simp add: conn_update_def)
    then show ?thesis using cache_sync_ok [OF ok0, of bc "cn_sync (nw_conns nw i)" i] bc(1,2) si by auto
  next
    case False
    then obtain p where p: "block = Some p" "sync_requestHeaders ne mo (Some p) (conn_update i (\<lambda>c. c\<lparr>cn_sync :=
          updateBlockAvailability ?bn (hash (List.last ?hs)) (Some p) bc (cn_sync c)\<rparr>) (nw\<lparr>nw_requesting := False, nw_cache := bc\<rparr>)) = Some nw1"
      using s(2) by (auto split: bind_splits)
    let ?si = "updateBlockAvailability ?bn (hash (List.last ?hs)) (Some p) bc (cn_sync (nw_conns nw i))"
    have "sync_ok (refs bc) ?si" using updateBlockAvailability_ok [OF si] bc(3) p(1) by simp
    from cache_sync_ok [OF ok0 _ _ this] bc(1,2)
    have "net_ok ((conn_update i (\<lambda>c. c\<lparr>cn_sync := ?si\<rparr>) (nw\<lparr>nw_requesting := False\<rparr>))\<lparr>nw_cache := bc\<rparr>)" by simp
    moreover have "(conn_update i (\<lambda>c. c\<lparr>cn_sync := ?si\<rparr>) (nw\<lparr>nw_requesting := False\<rparr>))\<lparr>nw_cache := bc\<rparr> =
        conn_update i (\<lambda>c. c\<lparr>cn_sync := updateBlockAvailability ?bn (hash (List.last ?hs)) (Some p) bc (cn_sync c)\<rparr>) (nw\<lparr>nw_requesting := False, nw_cache := bc\<rparr>)"
      by (simp add: conn_update_def)
    ultimately show ?thesis using quiet_ok [OF sync_requestHeaders_quiet [OF p(2)]] quietD(1) [OF sync_requestHeaders_quiet [OF p(2)]] by simp
  qed
  then show ?thesis using s(3) checkRequestBlocks_ok by (auto split: if_splits)
qed

lemma handleBlock_ok:
  assumes ok: "net_ok nw" and h: "previousBlockHash (blk_header block) \<noteq> hash (blk_header block)" and run: "handleBlock ne mo block i nw = Some nw'"
  shows "net_ok nw' \<and> nw_next nw' = nw_next nw"
proof -
  let ?block = "block\<lparr>transactions := map (computeHash_tx (cd_digests (ne_codec ne)) (nt_out (cd_net (ne_codec ne)))) (transactions block)\<rparr>"
  obtain si p bc where s: "removeBlockRecord ?block (cn_sync (nw_conns nw i)) = Some si"
    "addBlock (ne_cache ne) (mo_late mo 0) ?block (nw_cache nw) = Some (Some p, bc)"
    "checkRequestBlocks ne i ((conn_update i (\<lambda>c. c\<lparr>cn_sync := si\<rparr>) nw)\<lparr>nw_cache := bc\<rparr>) = Some nw'"
    using run by (auto simp: handleBlock_def Let_def split: bind_splits)
  have bc: "cache_ok bc" "refs (nw_cache nw) \<subseteq> refs bc" using addBlock_ok [OF net_okD(1) [OF ok] _ s(2)] h by simp_all
  have "sync_ok (refs bc) si" using removeBlockRecord_ok [OF sync_ok_mono [OF net_okD(4) [OF ok] bc(2)] s(1)] .
  from checkRequestBlocks_ok [OF cache_sync_ok [OF ok bc this] s(3)] show ?thesis by simp
qed

lemma node_decoded_ok:
  assumes ok: "net_ok nw" and run: "node_decoded ne mo i h payload nw = Some nw'"
  shows "net_ok nw' \<and> nw_next nw' = nw_next nw"
proof -
  consider "handleCommand_addr ne mo payload nw = Some nw'" | "handleCommand_block ne mo payload i nw = Some nw'"
    | "handleCommand_headers ne mo payload i nw = Some nw'" | "handleCommand_ping ne mo payload i nw = Some nw'" | "nw' = nw"
    using handlers_split [OF run [unfolded node_decoded_def]] by blast
  then show ?thesis
  proof cases
    case 1
    then show ?thesis using ok pool_update_ok [OF ok fold_pool_ok [OF net_okD(2) [OF ok]]]
      by (auto simp: handleCommand_addr_def Let_def split: prod.splits if_splits)
  next
    case 2
    then obtain block where "handleBlock ne mo (block\<lparr>blk_header := net_header ne (blk_header block)\<rparr>) i nw = Some nw'"
      by (auto simp: handleCommand_block_def Let_def split: prod.splits if_splits)
    from handleBlock_ok [OF ok _ this] show ?thesis using own_parent by simp
  next
    case 3
    then show ?thesis using handleHeaders_ok [OF ok] by (auto simp: handleCommand_headers_def Let_def split: prod.splits if_splits)
  next
    case 4
    then obtain n where "sendMessage ne i (Pong n) nw = Some nw'" by (auto simp: handleCommand_ping_def Let_def split: prod.splits)
    from quiet_ok [OF sendMessage_quiet [OF this] ok] quietD(1) [OF sendMessage_quiet [OF this]] show ?thesis by simp
  qed (use ok in simp)
qed

lemma pending_decoded_ok:
  assumes ok: "net_ok nw" and i: "i < nw_next nw" and run: "pending_decoded ne mo i h payload nw = Some nw'"
  shows "net_ok nw' \<and> nw_next nw' = nw_next nw"
proof -
  consider "pending_version ne mo payload i nw = Some nw'" | "pending_verack ne mo i nw = Some nw'" | "pending_reject ne mo payload i nw = Some nw'"
    using run unfolding pending_decoded_def by (auto split: if_splits)
  then show ?thesis
  proof cases
    case 1
    obtain m s where m: "read_version (cd_net (ne_codec ne)) VersionMessage_new (of_bytes (nt_in (cd_net (ne_codec ne))) payload) = (m, s)"
      by fastforce
    show ?thesis
    proof (cases "good (nt_in (cd_net (ne_codec ne))) s")
      case False
      then show ?thesis using 1 m pending_handleError_ok [OF ok i] by (simp add: pending_version_def Let_def)
    next
      case True
      let ?nw = "conn_update i (\<lambda>c. c\<lparr>cn_address := (cn_address c)\<lparr>services := vm_services m\<rparr>, cn_version := vm_version m, cn_userAgent := userAgent m\<rparr>) nw"
      have "sendMessage ne i Verack ?nw = Some nw'" using 1 m True by (simp add: pending_version_def Let_def)
      moreover have "quiet nw ?nw" by (rule quiet_update) (simp add: quiet_conn_def)
      ultimately have "quiet nw nw'" using sendMessage_quiet quiet_trans by blast
      then show ?thesis using quiet_ok [OF _ ok] quietD(1) by blast
    qed
  next
    case 2
    then show ?thesis using pending_verack_ok [OF ok i] by blast
  next
    case 3
    then show ?thesis using pending_handleError_ok [OF ok i] by (auto simp: pending_reject_def Let_def split: prod.splits)
  qed
qed

lemma conn_decoded_ok:
  assumes "net_ok nw" "i < nw_next nw" "conn_decoded ne mo i h payload nw = Some nw'"
  shows "net_ok nw' \<and> nw_next nw' = nw_next nw"
proof (cases "cn_node (nw_conns nw i)")
  case True
  then have "node_decoded ne mo i h payload nw = Some nw'" using assms(3) by (simp add: conn_decoded_def)
  then show ?thesis by (rule node_decoded_ok [OF assms(1)])
next
  case False
  then have "pending_decoded ne mo i h payload nw = Some nw'" using assms(3) by (simp add: conn_decoded_def)
  then show ?thesis by (rule pending_decoded_ok [OF assms(1,2)])
qed

end

section \<open>Events keep the invariant\<close>

lemma decodeMessages_keeps:
  assumes keeps: "\<And>h p l l'. P l \<Longrightarrow> f h p l = Some l' \<Longrightarrow> P l'"
  shows "decodeMessages cd f data l = Some (left, l') \<Longrightarrow> P l \<Longrightarrow> P l'"
proof (induction data arbitrary: l rule: measure_induct_rule [of length])
  case (less data)
  note step = less.prems(1) [unfolded decodeMessages.simps [of cd f data l]]
  show ?case
  proof (cases "data = []")
    case True
    then show ?thesis using step less.prems(2) by simp
  next
    case False
    then obtain r where r: "decodeOneMessage cd data = Some r" using step by (cases "decodeOneMessage cd data") auto
    show ?thesis
    proof (cases r)
      case NeedMore
      then show ?thesis using step less.prems(2) False r by simp
    next
      case (OneMessage h p)
      then obtain l1 where m: "f h p l = Some l1" "decodeMessages cd f (drop (PROTOCOL_HEADER_SIZE + unat (payload_length h)) data) l1 = Some (left, l')"
        using step False r by (cases "f h p l") auto
      have "length (drop (PROTOCOL_HEADER_SIZE + unat (payload_length h)) data) < length data"
        using False by (simp add: PROTOCOL_HEADER_SIZE_def)
      from less.IH [OF this m(2) keeps [OF less.prems(2) m(1)]] show ?thesis .
    qed
  qed
qed

lemma requester_ok:
  assumes "net_ok nw" "set_option r \<subseteq> set (nw_nodes nw)"
  shows "net_ok (nw\<lparr>nw_requester := r\<rparr>)"
  using assms unfolding net_ok_but_def links_but_def by (auto simp: peer_of_def)

lemma chooseHeadersRequester_ok:
  assumes "net_ok nw" "chooseHeadersRequester ne mo False nw = Some nw'"
  shows "net_ok nw' \<and> nw_next nw' = nw_next nw"
proof -
  note l = links_okD [OF net_okD(3) [OF assms(1)]]
  obtain r where r: "quiet (nw\<lparr>nw_requester := r\<rparr>) nw'" "r = nw_requester nw \<or> set_option r \<subseteq> set (nw_syncNodes nw)"
    using chooseHeadersRequester_quiet [OF assms(2)] by blast
  then have "set_option r \<subseteq> set (nw_nodes nw)" using l(8,9) by auto
  then show ?thesis using quiet_ok [OF r(1) requester_ok [OF assms(1)]] quietD(1) [OF r(1)] by simp
qed

lemma sync_onTick_ok:
  assumes ok: "net_ok nw" and run: "sync_onTick ne mo nw = Some nw'"
  shows "net_ok nw' \<and> nw_next nw' = nw_next nw"
proof -
  obtain nw1 nw2 where s: "checkHeaderRequestTimeout ne mo nw = Some nw1" "chooseHeadersRequester ne mo False nw1 = Some nw2"
    "scheduleRequestHeaders ne mo nw2 = Some nw'"
    using run by (auto simp: sync_onTick_def split: bind_splits)
  have ok0: "net_ok (nw\<lparr>nw_requesting := False\<rparr>)" using quiet_ok [OF quiet_flags(1) ok] .
  have "net_ok nw1 \<and> nw_next nw1 = nw_next nw"
  proof (cases "nw1 = nw")
    case False
    then obtain r where r: "nw_requester nw = Some r" "removeNode ne mo r (nw\<lparr>nw_requesting := False\<rparr>) = Some nw1"
      using s(1) by (auto simp: checkHeaderRequestTimeout_def split: if_splits option.splits)
    then have "r \<in> set (nw_nodes (nw\<lparr>nw_requesting := False\<rparr>))" using links_okD(9) [OF net_okD(3) [OF ok]] by simp
    from removeNode_ok [OF ok0 this r(2)] show ?thesis by simp
  qed (use ok in simp)
  then have ok2: "net_ok nw2 \<and> nw_next nw2 = nw_next nw" using chooseHeadersRequester_ok [OF _ s(2)] by auto
  have "quiet nw2 nw'" using s(3) sync_requestHeaders_quiet by (auto simp: scheduleRequestHeaders_def split: if_splits)
  then show ?thesis using ok2 quiet_ok quietD(1) by metis
qed

lemma tick_all_ok:
  "tick_all ne mo is nw = Some nw' \<Longrightarrow> net_ok nw \<Longrightarrow> \<forall>i \<in> set is. i < nw_next nw \<Longrightarrow> net_ok nw' \<and> nw_next nw' = nw_next nw"
proof (induction "is" arbitrary: nw)
  case (Cons i "is")
  then obtain nw1 where t: "pending_onTick ne mo i nw = Some nw1" "tick_all ne mo is nw1 = Some nw'" by (auto split: bind_splits)
  have "net_ok nw1 \<and> nw_next nw1 = nw_next nw"
  proof (cases "nw1 = nw")
    case False
    then have "pending_handleError mo (-1) i nw = Some nw1" using t(1) by (auto simp: pending_onTick_def split: if_splits)
    from pending_handleError_ok [OF Cons.prems(2) _ this] Cons.prems(3) show ?thesis by simp
  qed (use Cons.prems(2) in simp)
  then show ?case using Cons.IH [OF t(2)] Cons.prems(3) by auto
qed simp

lemma manager_onTick_ok:
  assumes ok: "net_ok nw" and run: "manager_onTick ne mo nw = Some nw'"
  shows "net_ok nw' \<and> nw_next nw' = nw_next nw"
proof -
  obtain nw1 nw2 where s: "clear_dead mo (nw_dead nw) nw = Some nw1" "tick_all ne mo (nw_pending nw1) nw1 = Some nw2" "sync_onTick ne mo nw2 = Some nw'"
    using run by (auto simp: manager_onTick_def connector_onTick_def split: bind_splits)
  note q = clear_dead_quiet [OF s(1)]
  have ok1: "net_ok nw1" using quiet_ok [OF q ok] .
  have "\<forall>i \<in> set (nw_pending nw1). i < nw_next nw1" using links_okD(1) [OF net_okD(3) [OF ok1]] by blast
  then have ok2: "net_ok nw2 \<and> nw_next nw2 = nw_next nw1" using tick_all_ok [OF s(2) ok1] by blast
  then have "net_ok nw2" by blast
  from sync_onTick_ok [OF this s(3)] ok2 quietD(1) [OF q] show ?thesis by simp
qed

lemma doConnect_ok:
  assumes ok: "net_ok nw" and run: "doConnect ne mo a nw = Some nw'"
  shows "net_ok nw'"
proof (cases "nw' = nw")
  case False
  let ?i = "nw_next nw"
  note l = links_okD [OF net_okD(3) [OF ok]]
  let ?nw = "nw\<lparr>nw_conns := (nw_conns nw)(?i := Conn_new (mo_now mo) a), nw_next := ?i + 1, nw_pending := nw_pending nw @ [?i]\<rparr>"
  obtain p where p: "setPeerConnecting (mo_now mo) a (nw_pool nw) = Some p" "nw' = ?nw\<lparr>nw_pool := p\<rparr>"
    using run False by (auto simp: doConnect_def Let_def split: bind_splits if_splits)
  have new: "cn_node (Conn_new t a) = False" "cn_handler (Conn_new t a)" "cn_connected (Conn_new t a) = False"
    "cn_inbound (Conn_new t a) = False" "cn_sync (Conn_new t a) = NodeSyncInfo_new" for t a by (simp_all add: Conn_new_def)
  have old: "?i \<notin> set (nw_nodes nw)" "?i \<notin> set (nw_pending nw)" using l(1,2) by blast+
  have "links_but {} ?nw"
    unfolding links_but_def
  proof (intro conjI allI ballI impI)
    show "set (nw_pending ?nw) \<union> set (nw_nodes ?nw) \<subseteq> {..<nw_next ?nw}" using l(1,2) by fastforce
    show "cn_handler (nw_conns ?nw j) \<longleftrightarrow> j \<in> set (nw_pending ?nw)" if "j < nw_next ?nw" for j
      using that l(3) [of j] new(2) old(2) by (cases "j = ?i") auto
    show "\<not> cn_node (nw_conns ?nw j)" "\<not> cn_connected (nw_conns ?nw j)" if "j \<in> set (nw_pending ?nw)" for j
      using that l(4) [of j] new by (cases "j = ?i"; simp)+
    show "cn_node (nw_conns ?nw j)" if "j \<in> set (nw_nodes ?nw)" for j using that l(5) [of j] old(1) by (cases "j = ?i") auto
    show "j \<in> {} \<or> j \<in> set (nw_pending ?nw) \<or> j \<in> set (nw_nodes ?nw)" if "j < nw_next ?nw" "cn_open (nw_conns ?nw j)" for j
      using that l(6) [of j] by (cases "j = ?i") auto
    show "\<not> cn_inbound (nw_conns ?nw j)" if "j < nw_next ?nw" for j using that l(7) [of j] new(4) by (cases "j = ?i") auto
    show "set (nw_syncNodes ?nw) = set (nw_nodes ?nw)" using l(8) by simp
    show "r \<in> set (nw_nodes ?nw)" if "nw_requester ?nw = Some r" for r using that l(9) by simp
    show "map_of (nw_addresses ?nw) b = Some j \<longleftrightarrow> j \<in> set (nw_nodes ?nw) \<and> peer_of ?nw j = b" for b j
      using l(10) [of b j] old(1) by (cases "j = ?i") (auto simp: peer_of_def)
  qed
  moreover have "sync_ok R NodeSyncInfo_new" for R by (simp add: sync_ok_def NodeSyncInfo_new_def)
  ultimately have "net_ok ?nw" using net_okD(1,2,4) [OF ok] new(5) by (simp add: net_ok_but_def)
  then show ?thesis using pool_update_ok setPeer_ok(1) [OF net_okD(2) [OF ok] p(1)] p(2) by blast
qed (use ok in simp)

lemma connect_loop_ok: "connect_loop ne mo n nw = Some nw' \<Longrightarrow> net_ok nw \<Longrightarrow> net_ok nw'"
proof (induction n arbitrary: nw)
  case (Suc n)
  then obtain r p where c: "getConnectionPeer (ne_pool ne) (mo_now mo) (nw_pool nw) = Some (r, p)"
    "(case r of None \<Rightarrow> Some (nw\<lparr>nw_pool := p\<rparr>)
      | Some a \<Rightarrow> do { nw \<leftarrow> doConnect ne mo a (nw\<lparr>nw_pool := p\<rparr>); connect_loop ne mo n nw }) = Some nw'"
    by (auto simp: Let_def split: bind_splits)
  have ok: "net_ok (nw\<lparr>nw_pool := p\<rparr>)" using pool_update_ok [OF Suc.prems(2) getConnectionPeer_ok [OF net_okD(2) [OF Suc.prems(2)] c(1)]] .
  show ?case
  proof (cases r)
    case None
    then show ?thesis using c(2) ok by simp
  next
    case (Some a)
    then obtain nw1 where "doConnect ne mo a (nw\<lparr>nw_pool := p\<rparr>) = Some nw1" "connect_loop ne mo n nw1 = Some nw'"
      using c(2) by (auto split: bind_splits)
    then show ?thesis using Suc.IH doConnect_ok [OF ok] by blast
  qed
qed simp

lemma tryConnect_ok: "tryConnect ne mo nw = Some nw' \<Longrightarrow> net_ok nw \<Longrightarrow> net_ok nw'"
  using connect_loop_ok by (auto simp: tryConnect_def simp del: connect_loop.simps split: if_splits)

lemma discoverer_request_ok: "net_ok nw \<Longrightarrow> net_ok (discoverer_request ne nw)"
  by (auto simp: discoverer_request_def intro: quiet_ok [OF quiet_flags(5)])

lemma manager_start_ok:
  assumes "net_ok nw" "manager_start ne mo nw = Some nw'"
  shows "net_ok nw'"
proof -
  obtain flag a where a: "address_parse (ne_text ne) (ne_direct ne) PeerAddress_new = (flag, a)" by fastforce
  have "net_ok (nw\<lparr>nw_pool := doAddPeer (ne_pool ne) (mo_now mo) a (nw_pool nw)\<rparr>)"
    using pool_update_ok [OF assms(1) doAddPeer_ok [OF net_okD(2) [OF assms(1)]]] .
  then have "net_ok (if ne_direct ne \<noteq> [] \<and> flag then nw\<lparr>nw_pool := doAddPeer (ne_pool ne) (mo_now mo) a (nw_pool nw)\<rparr> else discoverer_request ne nw)"
    using discoverer_request_ok [OF assms(1), of ne] by simp
  then show ?thesis using assms(2) a tryConnect_ok unfolding manager_start_def Let_def by (simp only: prod.case) blast
qed

lemma on_resolver_address_ok:
  assumes "net_ok nw" "on_resolver_address ne mo err addrs nw = Some nw'"
  shows "net_ok nw'"
proof -
  have ok: "net_ok (nw\<lparr>nw_resolving := None\<rparr>)" using quiet_ok [OF quiet_flags(3) assms(1)] .
  obtain nw1 where s: "(if err = 0 \<and> addrs \<noteq> [] then onPeerDiscovered ne mo addrs (nw\<lparr>nw_resolving := None\<rparr>) else Some (nw\<lparr>nw_resolving := None\<rparr>)) = Some nw1"
    "nw' = discoverer_request ne nw1" using assms(2) by (auto simp: on_resolver_address_def Let_def split: bind_splits)
  have "net_ok nw1"
  proof (cases "err = 0 \<and> addrs \<noteq> []")
    case True
    then have "onPeerDiscovered ne mo addrs (nw\<lparr>nw_resolving := None\<rparr>) = Some nw1" using s(1) by simp
    from tryConnect_ok [OF this [unfolded onPeerDiscovered_def] pool_update_ok [OF ok fold_pool_ok [OF net_okD(2) [OF ok]]]] show ?thesis .
  next
    case False
    then have "nw1 = nw\<lparr>nw_resolving := None\<rparr>" using s(1) by (auto split: if_splits)
    then show ?thesis using ok by simp
  qed
  then show ?thesis using discoverer_request_ok s(2) by blast
qed

lemma on_socket_connect_ok:
  assumes "net_ok nw" "on_socket_connect ne mo i nw = Some nw'"
  shows "net_ok nw'"
proof -
  let ?nw = "conn_update i (\<lambda>c. c\<lparr>cn_rtt := mo_now mo - cn_start c\<rparr>) nw"
  have "quiet nw ?nw" by (rule quiet_update) (simp add: quiet_conn_def)
  moreover have "quiet ?nw nw'" using assms(2) sendMessage_quiet by (auto simp: on_socket_connect_def sendVersion_def Let_def split: bind_splits if_splits)
  ultimately show ?thesis using quiet_ok quiet_trans assms(1) by metis
qed

lemma on_socket_receive_failed_ok:
  assumes ok: "net_ok nw" and i: "i < nw_next nw" "cn_open (nw_conns nw i)" and run: "on_socket_receive_failed ne mo i nw = Some nw'"
  shows "net_ok nw'"
proof (cases "cn_node (nw_conns nw i)")
  case False
  then show ?thesis using pending_handleError_ok [OF ok i(1)] run by (simp add: on_socket_receive_failed_def)
next
  case True
  note l = links_okD [OF net_okD(3) [OF ok]]
  have node: "i \<in> set (nw_nodes nw)" using l(6) [OF i] l(4) [of i] True by blast
  obtain nw1 where s: "net_disconnected mo i (-2) nw = Some nw1" "removeNode ne mo i (conn_update i (\<lambda>c. c\<lparr>cn_open := False\<rparr>) nw1) = Some nw'"
    using run True by (auto simp: on_socket_receive_failed_def node_handleError_def split: bind_splits)
  let ?nw = "conn_update i (\<lambda>c. c\<lparr>cn_open := False\<rparr>) nw1"
  have "quiet nw1 ?nw" by (rule quiet_update) (simp add: quiet_conn_def)
  then have q: "quiet nw ?nw" using net_disconnected_quiet [OF s(1)] quiet_trans by blast
  have "i \<in> set (nw_nodes ?nw)" unfolding quietD(3) [OF q] by (rule node)
  from removeNode_ok [OF quiet_ok [OF q ok] this s(2)] show ?thesis by blast
qed

context network
begin

lemma on_socket_receive_ok:
  assumes ok: "net_ok nw" and i: "i < nw_next nw" and run: "on_socket_receive ne mo data i nw = Some nw'"
  shows "net_ok nw'"
proof -
  let ?nw = "if cn_node (nw_conns nw i) then conn_update i (\<lambda>c. c\<lparr>cn_received := mo_now mo\<rparr>) nw else nw"
  obtain left nw1 where d: "decode (ne_codec ne) (conn_decoded ne mo i) data (cn_buffer (nw_conns ?nw i), ?nw) = Some (left, nw1)"
    "nw' = conn_update i (\<lambda>c. c\<lparr>cn_buffer := left\<rparr>) nw1"
    using run unfolding on_socket_receive_def Let_def by (auto split: bind_splits)
  have q: "quiet nw ?nw" using quiet_update [of nw i "\<lambda>c. c\<lparr>cn_received := mo_now mo\<rparr>"] by (simp add: quiet_conn_def)
  have "net_ok ?nw \<and> i < nw_next ?nw" using quiet_ok [OF q ok] quietD(1) [OF q] i by (simp del: if_split)
  then have "net_ok nw1 \<and> i < nw_next nw1"
    using decodeMessages_keeps [of "\<lambda>nw. net_ok nw \<and> i < nw_next nw" "conn_decoded ne mo i"] conn_decoded_ok d(1)
    unfolding decode_def by (metis snd_conv)
  moreover have "quiet nw1 nw'" unfolding d(2) by (rule quiet_update) (simp add: quiet_conn_def)
  ultimately show ?thesis using quiet_ok by blast
qed

lemma on_disk_ok:
  assumes ok: "net_ok nw" and run: "on_disk ne mo nw = Some nw'"
  shows "net_ok nw'"
proof -
  obtain bc where "run_disk_job (ne_cache ne) (mo_late mo 0) (nw_cache nw) = Some bc" "nw' = nw\<lparr>nw_cache := bc\<rparr>"
    using run by (auto simp: on_disk_def split: bind_splits)
  moreover from this have "cache_ok bc \<and> refs bc = refs (nw_cache nw)" using run_disk_job_ok [OF net_okD(1) [OF ok]] by blast
  ultimately show ?thesis using ok by (simp add: net_ok_but_def links_but_def peer_of_def)
qed

end

section \<open>Runs\<close>

text \<open>A step is what the library may do once the node has started: sockets connect, receive and fail while they are open,
  names are resolved, the timer ticks and the disk service goes on, in any order.\<close>

inductive net_step :: "('d, 's, 'k, 'g, 'f) net_env \<Rightarrow> ('d, 'f) Net \<Rightarrow> ('d, 'f) Net \<Rightarrow> bool" for ne where
  step_tick: "manager_onTick ne mo nw = Some nw' \<Longrightarrow> net_step ne nw nw'"
| step_resolved: "on_resolver_address ne mo err addrs nw = Some nw' \<Longrightarrow> net_step ne nw nw'"
| step_connect: "on_socket_connect ne mo i nw = Some nw' \<Longrightarrow> net_step ne nw nw'"
| step_connect_failed: "i < nw_next nw \<Longrightarrow> on_socket_connect_failed mo i nw = Some nw' \<Longrightarrow> net_step ne nw nw'"
| step_receive: "i < nw_next nw \<Longrightarrow> on_socket_receive ne mo data i nw = Some nw' \<Longrightarrow> net_step ne nw nw'"
| step_receive_failed: "i < nw_next nw \<Longrightarrow> cn_open (nw_conns nw i) \<Longrightarrow> on_socket_receive_failed ne mo i nw = Some nw' \<Longrightarrow> net_step ne nw nw'"
| step_disk: "on_disk ne mo nw = Some nw' \<Longrightarrow> net_step ne nw nw'"

inductive net_run :: "('d, 's, 'k, 'g, 'f) net_env \<Rightarrow> ('d, 'f) Net \<Rightarrow> ('d, 'f) Net \<Rightarrow> bool" for ne nw0 where
  net_start: "manager_start ne mo nw0 = Some nw \<Longrightarrow> net_run ne nw0 nw"
| net_more: "net_run ne nw0 nw \<Longrightarrow> net_step ne nw nw' \<Longrightarrow> net_run ne nw0 nw'"

lemma net_step_ok:
  assumes "network ne" "net_step ne nw nw'" "net_ok nw"
  shows "net_ok nw'"
  using assms(2)
proof cases
  case (step_tick mo)
  then show ?thesis using manager_onTick_ok assms(3) by blast
next
  case (step_resolved mo err addrs)
  then show ?thesis using on_resolver_address_ok assms(3) by blast
next
  case (step_connect mo i)
  then show ?thesis using on_socket_connect_ok assms(3) by blast
next
  case (step_connect_failed i mo)
  then have "pending_handleError mo (-1) i nw = Some nw'" by (auto simp: on_socket_connect_failed_def split: if_splits)
  then show ?thesis using pending_handleError_ok assms(3) step_connect_failed by blast
next
  case (step_receive i mo data)
  then show ?thesis using network.on_socket_receive_ok [OF assms(1)] assms(3) by blast
next
  case (step_receive_failed i mo)
  then show ?thesis using on_socket_receive_failed_ok assms(3) by blast
next
  case (step_disk mo)
  then show ?thesis using network.on_disk_ok [OF assms(1) assms(3)] by blast
qed

lemma net_run_ok:
  assumes "network ne" "net_run ne nw0 nw" "net_ok nw0"
  shows "net_ok nw"
  using assms(2,3) by induction (blast intro: manager_start_ok net_step_ok [OF assms(1)])+

lemma net_steps_ok:
  assumes "network ne" "(net_step ne)\<^sup>*\<^sup>* nw nw'" "net_ok nw"
  shows "net_ok nw'"
  using assms(2,3) by induction (blast intro: net_step_ok [OF assms(1)])+

lemma Net_new_ok: "cache_ok bc \<Longrightarrow> net_ok (Net_new now bc)"
  by (simp add: net_ok_but_def links_but_def Net_new_def pool_new_ok sync_ok_def NodeSyncInfo_new_def Conn_new_def)

end
