(* ===== verification/NetProps.thy ===== *)
theory NetProps
  imports NetInvariant
begin

text \<open>
  The node as a whole: its tables stay consistent in every run, a silent requester is replaced, a round of
  connecting is bounded; and what a peer can do to it before and after the handshake. The witnesses run a small
  node whose digest is a function that no header satisfies as its own parent.
\<close>

section \<open>A small node\<close>

definition small_digests :: digests where
  "small_digests = \<lparr>sha256 = \<lambda>b. if length b = 32 then b else (hd (drop 4 b @ [0]) + 1) # replicate 31 0, ripemd160 = id\<rparr>"

definition small_codec :: "(bytes \<times> bool) codec_context" where
  "small_codec = \<lparr>cd_net = le_net, cd_bits = le_converter, cd_digests = small_digests, cd_magic = 0xD9B4BEF9\<rparr>"

lemma small_codec_simps [simp]:
  "cd_net small_codec = le_net" "cd_bits small_codec = le_converter" "cd_magic small_codec = 0xD9B4BEF9" "cd_digests small_codec = small_digests"
  by (simp_all add: small_codec_def)

interpretation smallcd: codec small_codec
  by (intro codec.intro codec_axioms.intro) (simp_all add: lem.message_streams_axioms lec.little_endian_axioms, simp add: small_digests_def)

definition peer2 :: PeerAddress where
  "peer2 = \<lparr>ip = 0x0A000002, port = 8333\<rparr>"

definition small_net :: "((bytes \<times> bytes) list, bytes \<times> bool, bytes, bytes, int \<Rightarrow> bytes option) net_env" where
  "small_net = \<lparr>ne_cache = plain_cache, ne_codec = small_codec,
     ne_text = \<lparr>split_pair = \<lambda>s. (takeWhile (\<lambda>c. c \<noteq> CHR '':'') s, tl (dropWhile (\<lambda>c. c \<noteq> CHR '':'') s)), inet4 = \<lambda>s. 0x0A000002, parse_number = \<lambda>s. 8333\<rparr>,
     ne_elapsed32 = \<lambda>now t. now - t,
     ne_host = \<lparr>hi_address = NodeAddress_new\<lparr>services := 1\<rparr>, hi_external = PeerAddress_new, hi_userAgent = [], hi_version = 70015, hi_headersSynced = False\<rparr>,
     ne_minWork = uint256_null, ne_maxNodes = 30, ne_direct = ''10.0.0.2:8333'', ne_seeds = [], ne_port = 8333\<rparr>"

lemma small_net_simps [simp]:
  "ne_cache small_net = plain_cache" "ne_codec small_net = small_codec" "ne_elapsed32 small_net now t = now - t" "ne_maxNodes small_net = 30"
  "ne_direct small_net = ''10.0.0.2:8333''" "hi_external (ne_host small_net) = PeerAddress_new" "address (hi_address (ne_host small_net)) = PeerAddress_new"
  by (simp_all add: small_net_def NodeAddress_new_def)

lemma small_not_own_parent: "previousBlockHash h \<noteq> hash (net_header small_net h)"
proof -
  let ?b = "write_header le_ostream h" and ?prev = "previousBlockHash h"
  have b: "?b = le_bytes 4 (version h) @ ?prev @ (merkleRootHash h @ le_bytes 4 (timestamp h) @ le_bytes 4 (bits h) @ le_bytes 4 (nonce h))"
    by (simp add: write_header_def le_ostream_def)
  then have "drop 4 ?b = ?prev @ (merkleRootHash h @ le_bytes 4 (timestamp h) @ le_bytes 4 (bits h) @ le_bytes 4 (nonce h))"
    "length ?prev < length ?b" by simp_all
  then have "hash256 small_digests ?b \<noteq> ?prev"
    by (cases ?prev) (auto simp: hash256_def small_digests_def)
  then show ?thesis by (auto simp: net_header_def computeHash_def)
qed

interpretation small: network small_net
  by (intro network.intro cache_numbers.intro network_axioms.intro)
    (simp_all add: small_not_own_parent lec.little_endian_axioms lbn.big_number_axioms)

definition at_time :: "int \<Rightarrow> moment" where
  "at_time t = \<lparr>mo_now = t, mo_late = (\<lambda>k. False), mo_time = 0, mo_random = 0, mo_garbage = 0\<rparr>"

lemma at_time_now [simp]: "mo_now (at_time t) = t"
  by (simp add: at_time_def)

text \<open>The node after it has started: one connection, to the address it was given.\<close>

definition started :: "((bytes \<times> bytes) list, int \<Rightarrow> bytes option) Net" where
  "started = (Net_new 10000 cache0)\<lparr>nw_conns := (\<lambda>i. Conn_new 10000 PeerAddress_new)(0 := Conn_new 10000 peer2), nw_next := 1, nw_pending := [0],
     nw_pool := \<lparr>peers = [(peer2, (PoolPeerInfo_new 10000 peer2)\<lparr>lastConnectTime := 10000, pp_state := connecting\<rparr>)],
       connectionPool = [], expiringPool = [(10000, peer2)]\<rparr>\<rparr>"

lemma start_small:
  "tryConnect small_net (at_time 10000) ((Net_new 10000 cache0)\<lparr>nw_pool := \<lparr>peers = [(peer2, PoolPeerInfo_new 10000 peer2)],
     connectionPool = [(0, peer2)], expiringPool = [(10000, peer2)]\<rparr>\<rparr>) = Some started"
  "manager_start small_net (at_time 10000) (Net_new 10000 cache0) = Some started"
proof -
  let ?info = "PoolPeerInfo_new 10000 peer2" and ?pc = "ne_pool small_net"
  have pc: "localEndPoint ?pc = PeerAddress_new" "elapsed32 ?pc now t = now - t" for now t by (simp_all add: ne_pool_def)
  have parse: "address_parse (ne_text small_net) ''10.0.0.2:8333'' PeerAddress_new = (True, peer2)"
    by (simp add: address_parse_def small_net_def peer2_def address_isValid_def Let_def)
  have valid: "address_isValid peer2" "peer2 \<noteq> PeerAddress_new" by (simp_all add: peer2_def PeerAddress_new_def address_isValid_def)
  have pool: "doAddPeer ?pc 10000 peer2 PeerPool_new = \<lparr>peers = [(peer2, ?info)], connectionPool = [(0, peer2)], expiringPool = [(10000, peer2)]\<rparr>"
    using valid by (simp add: doAddPeer_def isSelf_def pc PeerPool_new_def addPeerMap_def PoolPeerInfo_new_def isStandby_def isConnected_def)
  let ?pool1 = "\<lparr>peers = [(peer2, ?info\<lparr>lastConnectTime := 10000\<rparr>)], connectionPool = [(10000, peer2)], expiringPool = [(10000, peer2)]\<rparr>"
  have get: "getConnectionPeer ?pc 10000 \<lparr>peers = [(peer2, ?info)], connectionPool = [(0, peer2)], expiringPool = [(10000, peer2)]\<rparr> = Some (Some peer2, ?pool1)"
    using valid by (simp add: getConnectionPeer_def pc update_item_def addPeerMap_def removePeerMap_def mm_erase_def PoolPeerInfo_new_def isStandby_def isConnected_def Let_def)
  let ?pool2 = "\<lparr>peers = [(peer2, ?info\<lparr>lastConnectTime := 10000, pp_state := connecting\<rparr>)], connectionPool = [], expiringPool = [(10000, peer2)]\<rparr>"
  have set: "setPeerConnecting 10000 peer2 ?pool1 = Some ?pool2"
    using valid by (simp add: setPeerConnecting_def findPeer_def update_item_def addPeerMap_def removePeerMap_def mm_erase_def PoolPeerInfo_new_def isStandby_def isConnected_def Let_def)
  have stop: "getConnectionPeer ?pc 10000 ?pool2 = Some (None, ?pool2)" by (simp add: getConnectionPeer_def)
  let ?nw = "(Net_new 10000 cache0)\<lparr>nw_pool := \<lparr>peers = [(peer2, ?info)], connectionPool = [(0, peer2)], expiringPool = [(10000, peer2)]\<rparr>\<rparr>"
  have "connect_loop small_net (at_time 10000) (Suc (Suc n)) ?nw = Some started" for n
    using valid by (simp add: Net_new_def get doConnect_def set stop doesNodeAddressConnected_def started_def Let_def)
  moreover have "(5 :: nat) = Suc (Suc 3)" by simp
  ultimately have "connect_loop small_net (at_time 10000) 5 ?nw = Some started" by metis
  moreover have "nw_pool (Net_new 10000 cache0) = PeerPool_new" "getNodeShortage small_net ?nw = 30"
    by (simp_all add: Net_new_def getNodeShortage_def)
  ultimately show "tryConnect small_net (at_time 10000) ?nw = Some started"
    and "manager_start small_net (at_time 10000) (Net_new 10000 cache0) = Some started"
    by (simp_all add: manager_start_def parse tryConnect_def pool Let_def)
qed

lemma encode_short: "length (write_object le_net m) \<le> 1000 \<Longrightarrow> \<exists>e. encode small_codec m = Some e"
  using type_short(1) [of m] by (simp add: encode_def writeMessageCommand_def PROTOCOL_HEADER_SIZE_def ENCODER_BUFFER_def Let_def)

lemma send_short: "length (write_object le_net m) \<le> 1000 \<Longrightarrow>
    sendMessage small_net i m nw = Some (conn_update i (\<lambda>c. if cn_open c then c\<lparr>cn_sent := cn_sent c @ [m]\<rparr> else c) nw)"
  using encode_short [of m] by (auto simp: sendMessage_def)

text \<open>A \<open>verack\<close> as the first message makes it a node.\<close>

lemma verack_small: "\<exists>nw. pending_verack small_net (at_time 10100) 0 started = Some nw \<and> nw_nodes nw = [0] \<and> nw_requester nw = None"
proof -
  have short: "length (write_object le_net GetAddr) \<le> 1000" "length (write_object le_net SendHeaders) \<le> 1000"
    "length (write_object le_net (SendCmpct False 1)) \<le> 1000" "length (write_object le_net (Ping 0)) \<le> 1000"
    by (simp_all add: le_net_def le_ostream_def)
  note sends = send_short [OF short(1)] send_short [OF short(2)] send_short [OF short(3)] send_short [OF short(4)]
  show ?thesis
    by (simp add: pending_verack_def started_def Net_new_def Let_def Conn_new_def removeConnection_def addNewNode_def node_start_def sends at_time_def
        sync_addNode_def chooseHeadersRequester_def findHeadersRequester_def sync_requestHeaders_def doesNodeAddressConnected_def conn_update_def peer_of_def)
qed

section \<open>One message on the wire\<close>

lemma decode_one:
  assumes "codec cd" "encode cd m = Some e"
  shows "decode cd f e ([], l) = map_option (Pair []) (f (header_of cd m) (write_object (cd_net cd) m) l)"
proof -
  have "length e < 2 ^ 32" using codec.encode_length(2) [OF assms] by (simp add: ENCODER_BUFFER_def)
  then have "decode_pieces cd f [e] ([], l) = map_option (Pair []) (deliver cd f [m] l)"
    using codec.decode_pieces_messages [OF assms(1), of "[m]" "[e]" "[]" "[e]" f l] assms(2) by simp
  moreover have "decode_pieces cd f [e] ([], l) = decode cd f e ([], l)" by (cases "decode cd f e ([], l)") simp_all
  moreover have "deliver cd f [m] l = f (header_of cd m) (write_object (cd_net cd) m) l"
    by (cases "f (header_of cd m) (write_object (cd_net cd) m) l") simp_all
  ultimately show ?thesis by simp
qed

lemma receive_one:
  assumes "codec (ne_codec ne)" "encode (ne_codec ne) m = Some e" "cn_buffer (nw_conns nw i) = []"
  shows "on_socket_receive ne mo e i nw = map_option (conn_update i (\<lambda>c. c\<lparr>cn_buffer := []\<rparr>))
    (conn_decoded ne mo i (header_of (ne_codec ne) m) (write_object (cd_net (ne_codec ne)) m)
      (if cn_node (nw_conns nw i) then conn_update i (\<lambda>c. c\<lparr>cn_received := mo_now mo\<rparr>) nw else nw))"
proof -
  define nw0 where "nw0 = (if cn_node (nw_conns nw i) then conn_update i (\<lambda>c. c\<lparr>cn_received := mo_now mo\<rparr>) nw else nw)"
  have "cn_buffer (nw_conns nw0 i) = []" using assms(3) by (simp add: nw0_def)
  then show ?thesis
    unfolding on_socket_receive_def nw0_def [symmetric] Let_def
    by (simp add: decode_one [OF assms(1,2)] map_option_case split: option.split)
qed

lemma header_of_length:
  assumes "codec cd" "encode cd m = Some e"
  shows "unat (payload_length (header_of cd m)) = length (write_object (cd_net cd) m)"
  using codec.encode_length [OF assms] by (simp add: header_of_def Let_def unat_of_nat ENCODER_BUFFER_def)

lemma command_header_of [simp]: "command (header_of cd m) = getMessageType m"
  by (simp add: header_of_def Let_def)

lemma codec_small: "codec (ne_codec small_net)"
  using smallcd.codec_axioms by simp

lemma started_simps [simp]:
  "nw_pending started = [0]" "nw_next started = 1" "nw_nodes started = []" "nw_cache started = cache0" "nw_conns started 0 = Conn_new 10000 peer2"
  by (simp_all add: started_def Net_new_def)

lemma started_run: "net_run small_net (Net_new 10000 cache0) started"
  by (rule net_run.net_start [OF start_small(2)])

lemma Conn_new_simps [simp]:
  "cn_buffer (Conn_new t a) = []" "cn_node (Conn_new t a) = False" "cn_version (Conn_new t a) = 0" "cn_connected (Conn_new t a) = False"
  by (simp_all add: Conn_new_def)

lemma verack_encoded: "\<exists>e. encode small_codec Verack = Some e"
  by (rule encode_short) simp

lemma receive_verack:
  assumes "encode small_codec Verack = Some e"
  shows "\<exists>nw. on_socket_receive small_net (at_time 10100) e 0 started = Some nw \<and> nw_nodes nw = [0] \<and> nw_requester nw = None"
proof -
  obtain nw where nw: "pending_verack small_net (at_time 10100) 0 started = Some nw" "nw_nodes nw = [0]" "nw_requester nw = None"
    using verack_small by blast
  have "payload_length (header_of small_codec Verack) = 0" by (simp add: header_of_def Let_def)
  moreover have "ascii ''verack'' \<noteq> ascii ''version''" by (simp add: ascii_def)
  ultimately show ?thesis
    using receive_one [OF codec_small, of Verack e started 0 "at_time 10100"] assms nw by (simp add: conn_decoded_def pending_decoded_def)
qed

section \<open>Frames\<close>

text \<open>What a step leaves alone: the version of every connection.\<close>

definition same_versions :: "('d, 'f) Net \<Rightarrow> ('d, 'f) Net \<Rightarrow> bool" where
  "same_versions nw nw' \<longleftrightarrow> (\<forall>i. cn_version (nw_conns nw' i) = cn_version (nw_conns nw i))"

lemma same_versions_trans: "same_versions nw nw' \<Longrightarrow> same_versions nw' nw'' \<Longrightarrow> same_versions nw nw''"
  by (simp add: same_versions_def)

lemma sendMessage_versions: "sendMessage ne i m nw = Some nw' \<Longrightarrow> same_versions nw nw'"
  by (auto simp: sendMessage_def same_versions_def split: bind_splits)

lemma send_all_versions: "send_all ne i ms nw = Some nw' \<Longrightarrow> same_versions nw nw'"
proof (induction ms arbitrary: nw)
  case (Cons m ms)
  then obtain nw1 where "sendMessage ne i m nw = Some nw1" "send_all ne i ms nw1 = Some nw'" by (auto split: bind_splits)
  then show ?case using Cons.IH sendMessage_versions same_versions_trans by blast
qed (simp add: same_versions_def)

lemma clear_dead_versions: "clear_dead mo is nw = Some nw' \<Longrightarrow> same_versions nw nw'"
proof (induction "is" arbitrary: nw)
  case (Cons i "is")
  then obtain nw1 where c: "pending_destroy mo i nw = Some nw1" "clear_dead mo is nw1 = Some nw'" by (auto split: bind_splits)
  have "same_versions nw nw1" using c(1)
    by (auto simp: pending_destroy_def net_disconnected_def same_versions_def split: bind_splits if_splits)
  then show ?case using Cons.IH [OF c(2)] same_versions_trans by blast
qed (auto simp: same_versions_def)

lemma sync_requestHeaders_versions:
  assumes "sync_requestHeaders ne mo block nw = Some nw'"
  shows "same_versions nw nw'"
proof (cases "nw_requester nw")
  case (Some r)
  then obtain m nw1 where "sendMessage ne r m nw = Some nw1" "nw' = nw1\<lparr>nw_requesting := True, nw_headersRequest := mo_now mo\<rparr>"
    using assms by (auto simp: sync_requestHeaders_def Let_def split: bind_splits)
  then show ?thesis using sendMessage_versions by (fastforce simp: same_versions_def)
qed (use assms in \<open>simp add: sync_requestHeaders_def same_versions_def\<close>)

lemma chooseHeadersRequester_versions:
  assumes "chooseHeadersRequester ne mo forced nw = Some nw'"
  shows "same_versions nw nw'"
proof (cases "nw_requester nw \<noteq> None \<and> \<not> forced")
  case False
  then have "sync_requestHeaders ne mo None (nw\<lparr>nw_requester := findHeadersRequester mo nw\<rparr>) = Some nw'"
    using assms unfolding chooseHeadersRequester_def by (simp only: if_False)
  from sync_requestHeaders_versions [OF this] show ?thesis by (simp add: same_versions_def)
qed (use assms in \<open>auto simp: chooseHeadersRequester_def same_versions_def\<close>)

lemma addNewNode_frame:
  assumes "addNewNode ne mo i nw = Some nw'"
  shows "same_versions nw nw' \<and> nw_nodes nw' = nw_nodes nw @ [i]"
proof -
  let ?nw = "(conn_update i (\<lambda>c. c\<lparr>cn_node := True, cn_sync := NodeSyncInfo_new\<rparr>) nw)\<lparr>nw_nodes := nw_nodes nw @ [i]\<rparr>"
  obtain nw1 nw2 where s: "node_start ne mo i ?nw = Some nw1" "sync_addNode ne mo i nw1 = Some nw2"
    "nw' = nw2 \<or> nw' = nw2\<lparr>nw_addresses := AList.update (peer_of nw2 i) i (nw_addresses nw2)\<rparr>"
    using assms by (auto simp: addNewNode_def Let_def split: bind_splits if_splits)
  let ?nw1 = "nw1\<lparr>nw_syncNodes := filter (\<lambda>j. j \<noteq> i) (nw_syncNodes nw1) @ [i]\<rparr>"
  have a: "chooseHeadersRequester ne mo False ?nw1 = Some nw2" using s(2) by (simp add: sync_addNode_def)
  obtain r where r: "quiet (?nw1\<lparr>nw_requester := r\<rparr>) nw2" using chooseHeadersRequester_quiet [OF a] by blast
  have "same_versions nw ?nw" by (simp add: same_versions_def)
  moreover have "same_versions ?nw nw1" using s(1) send_all_versions unfolding node_start_def by blast
  moreover have "same_versions nw1 nw2" using chooseHeadersRequester_versions [OF a] by (simp add: same_versions_def)
  ultimately have "same_versions nw nw2" using same_versions_trans by blast
  moreover have "nw_nodes nw2 = nw_nodes nw @ [i]" using quietD(3) [OF r] quietD(3) [OF node_start_quiet [OF s(1)]] by simp
  ultimately show ?thesis using s(3) by (auto simp: same_versions_def)
qed

lemma pending_verack_frame:
  assumes "pending_verack ne mo i nw = Some nw'"
  shows "same_versions nw nw' \<and> i \<in> set (nw_nodes nw')"
proof -
  obtain nw1 nw2 where s: "clear_dead mo (nw_dead nw) (conn_update i (\<lambda>c. c\<lparr>cn_connected := True\<rparr>) nw) = Some nw1"
    "nw2 = conn_update i (\<lambda>c. c\<lparr>cn_handler := False\<rparr>) (nw1\<lparr>nw_dead := [i], nw_pending := filter (\<lambda>j. j \<noteq> i) (nw_pending nw1)\<rparr>)"
    "addNewNode ne mo i nw2 = Some nw'"
    using assms by (auto simp: pending_verack_def removeConnection_def Let_def split: bind_splits if_splits)
  have "same_versions nw nw1" using clear_dead_versions [OF s(1)] by (auto simp: same_versions_def split: if_splits)
  moreover have "same_versions nw1 nw2" by (simp add: s(2) same_versions_def)
  ultimately have "same_versions nw nw'" using addNewNode_frame [OF s(3)] same_versions_trans by blast
  then show ?thesis using addNewNode_frame [OF s(3)] by simp
qed

lemma doConnect_next: "doConnect ne mo a nw = Some nw' \<Longrightarrow> nw_next nw' \<le> nw_next nw + 1 \<and> nw_nodes nw' = nw_nodes nw"
  by (auto simp: doConnect_def Let_def split: bind_splits if_splits)

lemma connect_loop_next: "connect_loop ne mo n nw = Some nw' \<Longrightarrow> nw_next nw' \<le> nw_next nw + n \<and> nw_nodes nw' = nw_nodes nw"
proof (induction n arbitrary: nw)
  case (Suc n)
  then obtain r p where c: "(case r of None \<Rightarrow> Some (nw\<lparr>nw_pool := p\<rparr>)
      | Some a \<Rightarrow> do { nw \<leftarrow> doConnect ne mo a (nw\<lparr>nw_pool := p\<rparr>); connect_loop ne mo n nw }) = Some nw'"
    by (auto simp: Let_def split: bind_splits)
  show ?case
  proof (cases r)
    case (Some a)
    then obtain nw1 where "doConnect ne mo a (nw\<lparr>nw_pool := p\<rparr>) = Some nw1" "connect_loop ne mo n nw1 = Some nw'"
      using c by (auto split: bind_splits)
    then show ?thesis using Suc.IH [of nw1] doConnect_next [of ne mo a "nw\<lparr>nw_pool := p\<rparr>" nw1] by simp
  qed (use c in auto)
qed simp

section \<open>Properties\<close>

text \<open>C2: in every run of the node from its start, whatever arrives from the network, in whatever order with the ticks
  and the disk: the index, the chain and the pool stay consistent; every open connection is either pending or a
  node; the table of addresses names exactly the nodes, each address once; the synchronizer knows exactly
  the nodes and asks one of them for headers; and what a connection knows of blocks is in the index.\<close>

theorem network_invariant:
  assumes "network ne" "cache_ok bc" "net_run ne (Net_new now bc) nw"
  shows "net_ok nw"
  by (rule net_run_ok [OF assms(1,3) Net_new_ok [OF assms(2)]])

theorem network_invariant_witness: "\<exists>nw. net_run small_net (Net_new 10000 cache0) nw \<and> nw_nodes nw = [0] \<and> net_ok nw"
proof -
  obtain e nw where "on_socket_receive small_net (at_time 10100) e 0 started = Some nw" "nw_nodes nw = [0]"
    using verack_encoded receive_verack by blast
  moreover from this have "net_run small_net (Net_new 10000 cache0) nw" by (intro net_run.net_more [OF started_run] net_step.step_receive) simp_all
  ultimately show ?thesis using network_invariant [OF small.network_axioms cache0_ok] by blast
qed

text \<open>C11: a peer whose first message is not of the handshake ends the process: a connection that is not a node yet knows
  three commands, and any other message that arrives whole, though correct, fails an assertion.\<close>

theorem early_message_crash:
  assumes "codec (ne_codec ne)" "encode (ne_codec ne) m = Some e" "cn_buffer (nw_conns nw i) = []" "\<not> cn_node (nw_conns nw i)"
    and "getMessageType m \<notin> {ascii ''version'', ascii ''verack'', ascii ''reject''}"
  shows "on_socket_receive ne mo e i nw = None"
  using receive_one [OF assms(1-3), of mo] assms(4,5) by (simp add: conn_decoded_def pending_decoded_def)

theorem early_message_crash_witness:
  "\<exists>e. encode small_codec SendHeaders = Some e \<and> on_socket_receive small_net (at_time 10100) e 0 started = None"
proof -
  obtain e where e: "encode small_codec SendHeaders = Some e" using encode_short [of SendHeaders] by auto
  have "on_socket_receive small_net (at_time 10100) e 0 started = None"
    by (rule early_message_crash [OF codec_small, of SendHeaders]) (simp_all add: e, simp add: ascii_def)
  then show ?thesis using e by blast
qed

text \<open>C17: the handshake is over with the first \<open>verack\<close>, whether or not the peer has sent its version: the
  connection becomes a node with the version it had, which is 0 when none has come.\<close>

theorem handshake_without_version:
  assumes "codec (ne_codec ne)" "encode (ne_codec ne) Verack = Some e" "cn_buffer (nw_conns nw i) = []" "\<not> cn_node (nw_conns nw i)"
    and "on_socket_receive ne mo e i nw = Some nw'"
  shows "i \<in> set (nw_nodes nw') \<and> cn_version (nw_conns nw' i) = cn_version (nw_conns nw i)"
proof -
  have "ascii ''verack'' \<noteq> ascii ''version''" by (simp add: ascii_def)
  then obtain nw1 where "pending_verack ne mo i nw = Some nw1" "nw' = conn_update i (\<lambda>c. c\<lparr>cn_buffer := []\<rparr>) nw1"
    using receive_one [OF assms(1-3), of mo] assms(4,5) header_of_length [OF assms(1,2)]
    by (cases "pending_verack ne mo i nw") (auto simp: conn_decoded_def pending_decoded_def)
  then show ?thesis using pending_verack_frame by (fastforce simp: same_versions_def)
qed

theorem handshake_without_version_witness:
  "\<exists>e nw. on_socket_receive small_net (at_time 10100) e 0 started = Some nw \<and> 0 \<in> set (nw_nodes nw) \<and> cn_version (nw_conns nw 0) = 0"
proof -
  obtain e nw where e: "encode small_codec Verack = Some e" "on_socket_receive small_net (at_time 10100) e 0 started = Some nw"
    using verack_encoded receive_verack by blast
  then have "0 \<in> set (nw_nodes nw) \<and> cn_version (nw_conns nw 0) = cn_version (nw_conns started 0)"
    by (intro handshake_without_version [OF codec_small, of e]) simp_all
  then show ?thesis using e(2) by auto
qed

text \<open>a round of connecting makes at most five connections, and none when there are as many nodes as the
  configuration allows; it makes no node.\<close>

theorem connecting_bounded:
  assumes "tryConnect ne mo nw = Some nw'"
  shows "nw_next nw' \<le> nw_next nw + (if getNodeShortage ne nw > 0 then 5 else 0) \<and> nw_nodes nw' = nw_nodes nw"
proof (cases "getNodeShortage ne nw > 0")
  case True
  then have "connect_loop ne mo 5 nw = Some nw'" using assms unfolding tryConnect_def by (simp only: if_True)
  from connect_loop_next [OF this] show ?thesis using True by simp
qed (use assms in \<open>simp add: tryConnect_def\<close>)

theorem connecting_bounded_witness:
  "\<exists>nw. tryConnect small_net (at_time 10000) nw = Some started \<and> nw_next started \<le> nw_next nw + 5"
proof -
  let ?nw = "(Net_new 10000 cache0)\<lparr>nw_pool := \<lparr>peers = [(peer2, PoolPeerInfo_new 10000 peer2)],
     connectionPool = [(0, peer2)], expiringPool = [(10000, peer2)]\<rparr>\<rparr>"
  have "getNodeShortage small_net ?nw > 0" by (simp add: getNodeShortage_def Net_new_def)
  then have "nw_next started \<le> nw_next ?nw + 5" using connecting_bounded [OF start_small(1)] by simp
  then show ?thesis using start_small(1) by blast
qed

text \<open>A header becomes an entry only under its own hash, and only with its proof of work.\<close>

lemma updateBlockInfo_blocks: "updateBlockInfo cx p bc = Some bc' \<Longrightarrow> bc_blocks bc' = bc_blocks bc"
  by (auto simp: updateBlockInfo_def Let_def get_index_def split: bind_splits sum.splits option.splits if_splits)

lemma link_index_blocks: "link_index h bc = Some (p, bc') \<Longrightarrow> bc_blocks bc' = AList.update (hash h) (Some (bc_next bc)) (bc_blocks bc)"
  by (auto simp: link_index_def Let_def split: bind_splits option.splits if_splits)

lemma addBlockIndex_no_entry:
  assumes "addBlockIndex cx late h bc = Some (r, bc')" "getBlockIndex k bc = None"
    and "hash h = k \<Longrightarrow> \<not> validateBlockHeader (v_bn (c_val cx)) h"
  shows "getBlockIndex k bc' = None \<and> (hash h = k \<longrightarrow> r = None)"
proof -
  let ?bc = "with_cell (hash h) bc"
  have none: "getBlockIndex k ?bc = None" using assms(2) by (auto simp: getBlockIndex_def with_cell_lookup split: option.splits)
  consider p where "map_of (bc_blocks ?bc) (hash h) = Some (Some p)" "bc' = ?bc"
    | "\<not> validateBlockHeader (v_bn (c_val cx)) h" "r = None" "bc' = ?bc"
    | p bc1 bc2 where "validateBlockHeader (v_bn (c_val cx)) h" "link_index h ?bc = Some (p, bc1)" "updateBlockInfo cx p bc1 = Some bc2"
        "markDirtyBlock cx late p bc2 = Some bc'"
    using assms(1) unfolding addBlockIndex_def with_cell_def [symmetric] Let_def by (auto split: bind_splits option.splits if_splits)
  then show ?thesis
  proof cases
    case 1
    then show ?thesis using none by (auto simp: getBlockIndex_def)
  next
    case 2
    then show ?thesis using none by simp
  next
    case 3
    then have "bc_blocks bc' = AList.update (hash h) (Some (bc_next ?bc)) (bc_blocks ?bc)"
      using markDirtyBlock_only [OF 3(4)] updateBlockInfo_blocks [OF 3(3)] link_index_blocks [OF 3(2)] by (simp add: only_flushed_def)
    then show ?thesis using 3(1) assms(3) none by (auto simp: getBlockIndex_def update_conv')
  qed
qed

lemma add_headers_bad_last:
  assumes "add_headers cx late (hs @ [h]) r bc = Some (r', bc')" "getBlockIndex (hash h) bc = None"
    and "\<forall>x \<in> set (hs @ [h]). hash x = hash h \<longrightarrow> \<not> validateBlockHeader (v_bn (c_val cx)) x"
  shows "r' = None"
  using assms
proof (induction hs arbitrary: r bc)
  case Nil
  then show ?case using addBlockIndex_no_entry [of cx "late 0" h bc r' bc' "hash h"] by (auto split: bind_splits)
next
  case (Cons x hs)
  obtain r1 bc1 where a: "addBlockIndex cx (late (length (hs @ [h]))) x bc = Some (r1, bc1)" "add_headers cx late (hs @ [h]) r1 bc1 = Some (r', bc')"
    using Cons.prems(1) by (auto split: bind_splits)
  have "getBlockIndex (hash h) bc1 = None" using addBlockIndex_no_entry [OF a(1) Cons.prems(2)] Cons.prems(3) by simp
  then show ?case using Cons.IH [OF a(2)] Cons.prems(3) by simp
qed

text \<open>C16: a headers message of any length whose last header lacks its proof of work ends the process, whatever headers come
  before it. The hash of that header must not be the hash of an entry, nor of a header with its proof of work earlier in
  the message: since every entry passed the check when it was made, and the check looks at the hash and the bits only, either would be a
  collision of the hash.\<close>

theorem bad_header_crash:
  assumes "\<not> validateBlockHeader (v_bn (c_val (ne_cache ne))) (net_header ne h)"
    and "getBlockIndex (hash (net_header ne h)) (nw_cache nw) = None"
    and "\<forall>x \<in> set hs. hash (net_header ne x) = hash (net_header ne h) \<longrightarrow> \<not> validateBlockHeader (v_bn (c_val (ne_cache ne))) (net_header ne x)"
  shows "handleHeaders ne mo (hs @ [h]) i nw = None"
proof (cases "add_headers (ne_cache ne) (mo_late mo) (map (net_header ne) (hs @ [h])) None (nw_cache nw)")
  case (Some z)
  then have "fst z = None"
    using add_headers_bad_last [of "ne_cache ne" "mo_late mo" "map (net_header ne) hs" "net_header ne h" None "nw_cache nw" "fst z" "snd z"] assms
    by auto
  then show ?thesis using Some by (cases z) (simp add: handleHeaders_def Let_def)
qed (simp add: handleHeaders_def Let_def)

theorem bad_header_crash_witness:
  "handleHeaders small_net (at_time 10100) ([BlockHeader_new\<lparr>bits := 1\<rparr>] @ [BlockHeader_new]) 0 started = None"
proof (rule bad_header_crash)
  have h: "hash (net_header small_net x) = 1 # replicate 31 0" if "x \<in> {BlockHeader_new, BlockHeader_new\<lparr>bits := 1\<rparr>}" for x
    using that by (auto simp: net_header_def computeHash_def hash256_def small_digests_def write_header_def BlockHeader_new_def uint256_null_def le_ostream_def)
  have b: "bits (net_header small_net x) = bits x" for x by (simp add: net_header_def computeHash_def)
  have bad: "\<not> validateBlockHeader (v_bn (c_val (ne_cache small_net))) (net_header small_net x)" if "x \<in> {BlockHeader_new, BlockHeader_new\<lparr>bits := 1\<rparr>}" for x
    using checkProofOfWork_exact [OF lbn.big_number_axioms, of "net_header small_net x"] h [OF that] b [of x] that
    by (auto simp: BlockHeader_new_def validateBlockHeader_def compact_val_def compact_mantissa_def compact_exponent_def Let_def)
  show "\<not> validateBlockHeader (v_bn (c_val (ne_cache small_net))) (net_header small_net BlockHeader_new)"
    by (rule bad) simp
  show "getBlockIndex (hash (net_header small_net BlockHeader_new)) (nw_cache started) = None" by (simp add: getBlockIndex_def)
  show "\<forall>x \<in> set [BlockHeader_new\<lparr>bits := 1\<rparr>]. hash (net_header small_net x) = hash (net_header small_net BlockHeader_new) \<longrightarrow>
      \<not> validateBlockHeader (v_bn (c_val (ne_cache small_net))) (net_header small_net x)"
    using bad by simp
qed

text \<open>C22: a peer that was asked for headers more than five seconds ago and has sent nothing for three is dropped at the
  next tick: it is no node any more, its socket is closed, and it is not the one that is asked next.\<close>

theorem idle_requester_replaced:
  assumes "net_ok nw" "nw_requesting nw" "mo_now mo - nw_headersRequest nw > 5000" "nw_requester nw = Some r"
    and "mo_now mo - cn_received (nw_conns nw r) > 3000" "sync_onTick ne mo nw = Some nw'"
  shows "r \<notin> set (nw_nodes nw') \<and> \<not> cn_open (nw_conns nw' r) \<and> nw_requester nw' \<noteq> Some r"
proof -
  obtain nw1 nw2 where s: "removeNode ne mo r (nw\<lparr>nw_requesting := False\<rparr>) = Some nw1" "chooseHeadersRequester ne mo False nw1 = Some nw2"
    "scheduleRequestHeaders ne mo nw2 = Some nw'"
    using assms(2-6) by (auto simp: sync_onTick_def checkHeaderRequestTimeout_def split: bind_splits)
  have ok0: "net_ok (nw\<lparr>nw_requesting := False\<rparr>)" using quiet_ok [OF quiet_flags(1) assms(1)] .
  have "r \<in> set (nw_nodes (nw\<lparr>nw_requesting := False\<rparr>))" using links_okD(9) [OF net_okD(3) [OF assms(1)] assms(4)] by simp
  have gone: "r \<notin> set (nw_nodes nw1) \<and> \<not> cn_open (nw_conns nw1 r)"
    using s(1) by (auto simp: removeNode_def Let_def split: bind_splits if_splits)
  have ok1: "net_ok nw1" using removeNode_ok [OF ok0 \<open>r \<in> _\<close> s(1)] by blast
  have ok2: "net_ok nw2" using chooseHeadersRequester_ok [OF ok1 s(2)] by blast
  obtain x where "quiet (nw1\<lparr>nw_requester := x\<rparr>) nw2" using chooseHeadersRequester_quiet [OF s(2)] by blast
  moreover have q2: "quiet nw2 nw'" using s(3) sync_requestHeaders_quiet by (auto simp: scheduleRequestHeaders_def split: if_splits)
  ultimately have q: "quiet (nw1\<lparr>nw_requester := x\<rparr>) nw'" by (rule quiet_trans)
  have "r \<notin> set (nw_nodes nw') \<and> \<not> cn_open (nw_conns nw' r)" using gone quietD(3) [OF q] quietD(11) [OF q, of r] by auto
  moreover have "nw_requester nw' = Some y \<Longrightarrow> y \<in> set (nw_nodes nw')" for y
    using links_okD(9) [OF net_okD(3) [OF quiet_ok [OF q2 ok2]]] .
  ultimately show ?thesis by blast
qed

theorem idle_requester_replaced_witness:
  "\<exists>t nw nw'. sync_onTick small_net (at_time t) nw = Some nw' \<and> 0 \<in> set (nw_nodes nw) \<and> 0 \<notin> set (nw_nodes nw')"
proof -
  obtain e nw where e: "on_socket_receive small_net (at_time 10100) e 0 started = Some nw" "nw_nodes nw = [0]"
    using verack_encoded receive_verack by blast
  then have "net_run small_net (Net_new 10000 cache0) nw" by (intro net_run.net_more [OF started_run] net_step.step_receive) simp_all
  from net_run_ok [OF small.network_axioms this Net_new_ok [OF cache0_ok]] have ok: "net_ok nw" .
  let ?nw = "nw\<lparr>nw_requester := Some 0, nw_requesting := True\<rparr>"
  have ok': "net_ok ?nw" using quiet_ok [OF quiet_flags(1) requester_ok [OF ok, of "Some 0"]] e(2) by simp
  note l = links_okD [OF net_okD(3) [OF ok']]
  define t where "t = max (nw_headersRequest nw) (cn_received (nw_conns nw 0)) + 20000"
  have late: "t - nw_headersRequest nw > 5000" "t - cn_received (nw_conns nw 0) > 3000" "\<not> t - nw_headersRequest nw < 10000"
    by (simp_all add: t_def)
  have sync: "filter (\<lambda>j. j \<noteq> 0) (nw_syncNodes nw) = []" using l(8) e(2) by (simp add: filter_empty_conv)
  let ?nw1 = "nw\<lparr>nw_requester := None, nw_requesting := False, nw_syncNodes := []\<rparr>"
  have s: "sync_removeNode small_net (at_time t) 0 (?nw\<lparr>nw_requesting := False\<rparr>) = Some ?nw1"
    using sync by (simp add: sync_removeNode_def chooseHeadersRequester_def findHeadersRequester_def sync_requestHeaders_def)
  have conn: "map_of (nw_addresses nw) (peer_of nw 0) = Some 0" using l(10) [of "peer_of nw 0" 0] e(2) by (simp add: peer_of_def)
  have "\<exists>nw'. removeNode small_net (at_time t) 0 (?nw\<lparr>nw_requesting := False\<rparr>) = Some nw' \<and> nw_requester nw' = None \<and>
      nw_syncNodes nw' = [] \<and> nw_requesting nw' = False \<and> nw_headersRequest nw' = nw_headersRequest nw"
    using conn s by (simp add: removeNode_def doesNodeAddressConnected_def peer_of_def conn_update_def Let_def)
  then obtain nw' where "sync_onTick small_net (at_time t) ?nw = Some nw'"
    using late by (auto simp: sync_onTick_def checkHeaderRequestTimeout_def chooseHeadersRequester_def findHeadersRequester_def
        sync_requestHeaders_def scheduleRequestHeaders_def)
  moreover from idle_requester_replaced [OF ok' _ _ _ _ this, of 0] late have "0 \<notin> set (nw_nodes nw')" by simp
  ultimately show ?thesis using e(2) by (intro exI [of _ t] exI [of _ ?nw] exI [of _ nw']) simp
qed

end
