(* ===== verification/Merkle.thy ===== *)
theory Merkle
  imports BlockData
begin

text \<open>
  \<open>data/MerkleTree.cpp\<close>: the constant-space Merkle root and branch. The hash of two siblings is a
  parameter \<open>H\<close> of the loops (\<open>hashSiblingLeaves\<close> at the top). \<open>count\<close> is the code's 32-bit
  counter; a shift by 32 or more, which the code would reach only after the counter wraps, is the
  result \<open>None\<close>.
\<close>

definition hashSiblingLeaves :: "digests \<Rightarrow> uint256 \<Rightarrow> uint256 \<Rightarrow> uint256" where
  "hashSiblingLeaves dg x y = hash256 dg (x @ y)"

section \<open>The loops\<close>

record merkle_state =
  inner :: "uint256 list"
  mutated :: bool
  matchlevel :: int
  branch :: "uint256 list"

text \<open>What both loops do to the branch at a level: append the sibling when the hash depends on the
  wanted leaf, or append the hash itself when its sibling does.\<close>

definition branch_step :: "bool \<Rightarrow> nat \<Rightarrow> uint256 \<Rightarrow> bool \<Rightarrow> merkle_state \<Rightarrow> bool \<times> merkle_state" where
  "branch_step want level h matchh st =
     (if \<not> want then (matchh, st)
      else if matchh then (matchh, st\<lparr>branch := branch st @ [inner st ! level]\<rparr>)
      else if matchlevel st = int level then (True, st\<lparr>branch := branch st @ [h]\<rparr>)
      else (matchh, st))"

text \<open>The loop over the zero bits of \<open>count\<close> from \<open>level\<close> up; \<open>leaf\<close> says whether it is the one that
  records mutations.\<close>

function up_loop :: "(uint256 \<Rightarrow> uint256 \<Rightarrow> uint256) \<Rightarrow> bool \<Rightarrow> bool \<Rightarrow> u32 \<Rightarrow> nat \<Rightarrow> uint256 \<Rightarrow> bool \<Rightarrow> merkle_state \<Rightarrow>
    (nat \<times> uint256 \<times> bool \<times> merkle_state) option" where
  "up_loop H want leaf count level h matchh st =
     (if level \<ge> 32 then None
      else if count AND push_bit level 1 \<noteq> 0 then Some (level, h, matchh, st)
      else case branch_step want level h matchh st of (matchh', st') \<Rightarrow>
        up_loop H want leaf count (level + 1) (H (inner st ! level) h) matchh'
          (if leaf then st'\<lparr>mutated := mutated st \<or> inner st ! level = h\<rparr> else st'))"
  by pat_completeness auto
termination by (relation "measure (\<lambda>(H, want, leaf, count, level, h, matchh, st). 32 - level)") auto

declare up_loop.simps [simp del]

definition leaf_step :: "(uint256 \<Rightarrow> uint256 \<Rightarrow> uint256) \<Rightarrow> bool \<Rightarrow> u32 \<Rightarrow> u32 \<Rightarrow> uint256 \<Rightarrow> merkle_state \<Rightarrow> merkle_state option" where
  "leaf_step H want branchpos count leaf st =
     (case up_loop H want True (count + 1) 0 leaf (count = branchpos) st of
        None \<Rightarrow> None
      | Some (level, h, matchh, st') \<Rightarrow>
          Some (st'\<lparr>inner := (inner st')[level := h], matchlevel := (if matchh then int level else matchlevel st')\<rparr>))"

text \<open>The loop over the leaves: \<open>count\<close> is the index of the first leaf left.\<close>

fun leaf_loop :: "(uint256 \<Rightarrow> uint256 \<Rightarrow> uint256) \<Rightarrow> bool \<Rightarrow> u32 \<Rightarrow> u32 \<Rightarrow> uint256 list \<Rightarrow> merkle_state \<Rightarrow> (u32 \<times> merkle_state) option" where
  "leaf_loop H want branchpos count [] st = Some (count, st)"
| "leaf_loop H want branchpos count (leaf # leaves) st =
     (case leaf_step H want branchpos count leaf st of
        None \<Rightarrow> None | Some st' \<Rightarrow> leaf_loop H want branchpos (count + 1) leaves st')"

function lowest_level :: "u32 \<Rightarrow> nat \<Rightarrow> nat option" where
  "lowest_level count level =
     (if level \<ge> 32 then None else if count AND push_bit level 1 \<noteq> 0 then Some level else lowest_level count (level + 1))"
  by pat_completeness auto
termination by (relation "measure (\<lambda>(count, level). 32 - level)") auto

declare lowest_level.simps [simp del]

text \<open>The final sweep over the right edge of the tree.\<close>

lemma up_loop_level: "up_loop H want leaf count level h m st = Some (level', r) \<Longrightarrow> level \<le> level' \<and> level' < 32"
proof (induction H want leaf count level h m st rule: up_loop.induct)
  case (1 H want leaf count level h m st)
  then show ?case
    by (subst (asm) (2) up_loop.simps) (fastforce split: if_splits prod.splits)
qed

function sweep :: "(uint256 \<Rightarrow> uint256 \<Rightarrow> uint256) \<Rightarrow> bool \<Rightarrow> u32 \<Rightarrow> nat \<Rightarrow> uint256 \<Rightarrow> bool \<Rightarrow> merkle_state \<Rightarrow> (uint256 \<times> merkle_state) option" where
  "sweep H want count level h matchh st =
     (if level \<ge> 32 then None
      else if count = push_bit level 1 then Some (h, st)
      else
        (let st' = (if want \<and> matchh then st\<lparr>branch := branch st @ [h]\<rparr> else st);
             count' = count + push_bit level 1
         in case up_loop H want False count' (level + 1) (H h h) matchh st' of
              None \<Rightarrow> None
            | Some (level', h', matchh', st'') \<Rightarrow> sweep H want count' level' h' matchh' st''))"
  by pat_completeness auto
termination
  by (relation "measure (\<lambda>(H, want, count, level, h, matchh, st). 32 - level)") (auto dest!: up_loop_level)

declare sweep.simps [simp del]

text \<open>The results are \<open>proot\<close>, \<open>pmutated\<close> and \<open>pbranch\<close>; \<open>want\<close> says whether a branch is asked for.\<close>

definition merkle_compute :: "(uint256 \<Rightarrow> uint256 \<Rightarrow> uint256) \<Rightarrow> bool \<Rightarrow> u32 \<Rightarrow> uint256 list \<Rightarrow> (uint256 \<times> bool \<times> uint256 list) option" where
  "merkle_compute H want branchpos leaves =
     (if leaves = [] then Some (uint256_null, False, [])
      else do {
        (count, st) \<leftarrow> leaf_loop H want branchpos 0 leaves
          \<lparr>inner = replicate 32 uint256_null, mutated = False, matchlevel = -1, branch = []\<rparr>;
        level \<leftarrow> lowest_level count 0;
        (h, st') \<leftarrow> sweep H want count level (inner st ! level) (matchlevel st = int level) st;
        Some (h, mutated st', branch st')
      })"

definition computeRoot :: "(uint256 \<Rightarrow> uint256 \<Rightarrow> uint256) \<Rightarrow> uint256 list \<Rightarrow> (uint256 \<times> bool) option" where
  "computeRoot H leaves = map_option (\<lambda>(h, m, b). (h, m)) (merkle_compute H False (-1) leaves)"

text \<open>\<open>MerkleTree::build\<close>: the leaves are the hashes of the transactions, each asserted to be set.\<close>

fun leaf_hashes :: "Transaction list \<Rightarrow> uint256 list option" where
  "leaf_hashes [] = Some []"
| "leaf_hashes (t # ts) = do { h \<leftarrow> getHash t; hs \<leftarrow> leaf_hashes ts; Some (h # hs) }"

definition merkle_build :: "digests \<Rightarrow> Transaction list \<Rightarrow> (uint256 \<times> bool) option" where
  "merkle_build dg txs = do { leaves \<leftarrow> leaf_hashes txs; computeRoot (hashSiblingLeaves dg) leaves }"

section \<open>The reference tree\<close>

text \<open>A level of the tree pairs the hashes of the level below, an odd last one with itself; the root is
  the only hash of the first level that has one.\<close>

fun next_level :: "(uint256 \<Rightarrow> uint256 \<Rightarrow> uint256) \<Rightarrow> uint256 list \<Rightarrow> uint256 list" where
  "next_level H [] = []"
| "next_level H [x] = [H x x]"
| "next_level H (x # y # r) = H x y # next_level H r"

lemma length_next_level: "length (next_level H xs) = (length xs + 1) div 2"
  by (induction H xs rule: next_level.induct) simp_all

function merkle_root :: "(uint256 \<Rightarrow> uint256 \<Rightarrow> uint256) \<Rightarrow> uint256 list \<Rightarrow> uint256" where
  "merkle_root H xs = (if xs = [] then uint256_null else if length xs = 1 then hd xs else merkle_root H (next_level H xs))"
  by pat_completeness auto
termination
  by (relation "measure (\<lambda>(H, xs). length xs)") (auto simp: length_next_level neq_Nil_conv)

declare merkle_root.simps [simp del]

lemma nth_next_level:
  "2 * i + 1 < length xs \<Longrightarrow> next_level H xs ! i = H (xs ! (2 * i)) (xs ! (2 * i + 1))"
  "2 * i + 1 = length xs \<Longrightarrow> next_level H xs ! i = H (xs ! (2 * i)) (xs ! (2 * i))"
proof (induction H xs arbitrary: i rule: next_level.induct)
  case (3 H x y r)
  { case 1 then show ?case using "3.IH"(1) by (cases i) simp_all
  next case 2 then show ?case using "3.IH"(2) by (cases i) (simp_all, metis nth_Cons_Suc) }
qed simp_all

definition level_at :: "(uint256 \<Rightarrow> uint256 \<Rightarrow> uint256) \<Rightarrow> uint256 list \<Rightarrow> nat \<Rightarrow> uint256 list" where
  "level_at H leaves k = (next_level H ^^ k) leaves"

lemma level_at_0 [simp]: "level_at H leaves 0 = leaves"
  by (simp add: level_at_def)

lemma level_at_Suc: "level_at H leaves (Suc k) = next_level H (level_at H leaves k)"
  by (simp add: level_at_def)

text \<open>The width of a level is the number of its blocks of \<open>2 ^ k\<close> leaves, the last one perhaps short.\<close>

lemma width_level: "length (level_at H leaves k) = (length leaves + 2 ^ k - 1) div 2 ^ k"
proof (induction k)
  case (Suc k)
  have e: "length leaves + 2 ^ k * 2 - 1 = (length leaves + 2 ^ k - 1) + 2 ^ k" by simp
  have d: "((length leaves + 2 ^ k - 1) + 2 ^ k) div 2 ^ k = (length leaves + 2 ^ k - 1) div 2 ^ k + 1"
    by (subst div_add_self2) simp_all
  show ?case unfolding power_Suc2 div_mult2_eq e d by (simp only: level_at_Suc length_next_level Suc)
qed simp

lemma merkle_root_level:
  "(\<forall>j < k. 1 < length (level_at H leaves j)) \<Longrightarrow> merkle_root H leaves = merkle_root H (level_at H leaves k)"
proof (induction k)
  case (Suc k)
  then have "1 < length (level_at H leaves k)" by simp
  then have "merkle_root H (level_at H leaves k) = merkle_root H (level_at H leaves (Suc k))"
    by (subst merkle_root.simps) (auto simp: level_at_Suc)
  then show ?case using Suc by simp
qed simp

section \<open>Bits of the counter\<close>

lemma test_bit_word: "count AND 2 ^ l \<noteq> 0 \<longleftrightarrow> bit (count :: u32) l" "count AND 2 ^ l = 0 \<longleftrightarrow> \<not> bit (count :: u32) l"
  by (simp_all add: and_exp_eq_0_iff_not_bit)

lemma bit_count: "l < 32 \<Longrightarrow> bit (of_nat c :: u32) l \<longleftrightarrow> odd (c div 2 ^ l)"
proof -
  assume "l < 32"
  then have "bit (of_nat c :: u32) l \<longleftrightarrow> bit c l" by (simp add: bit_of_nat_iff possible_bit_word)
  then show ?thesis by (simp only: bit_iff_odd [of c])
qed

lemma dvd_level_less: "(2 :: nat) ^ l dvd c \<Longrightarrow> 0 < c \<Longrightarrow> c < 2 ^ 32 \<Longrightarrow> l < 32"
  by (meson dvd_imp_le le_less_trans nat_power_less_imp_less zero_less_numeral)

lemma even_level_dvd: "(2 :: nat) ^ l dvd c \<Longrightarrow> even (c div 2 ^ l) \<Longrightarrow> 2 ^ Suc l dvd c"
  by (metis dvd_mult_div_cancel mult.commute mult_dvd_mono dvd_refl power_Suc)

lemma branch_step_fields:
  "branch_step want l h m st = (m', st') \<Longrightarrow> inner st' = inner st \<and> mutated st' = mutated st \<and> matchlevel st' = matchlevel st"
  by (auto simp: branch_step_def split: if_splits)

text \<open>What the loop over the zero bits computes, for hashes \<open>X j i\<close> (the \<open>i\<close>-th at level \<open>j\<close>) that are
  combined along the counter \<open>c\<close>.\<close>

lemma up_loop_node:
  assumes c: "0 < c" "c < 2 ^ 32"
    and comb: "\<And>j. 2 ^ j dvd c \<Longrightarrow> even (c div 2 ^ j) \<Longrightarrow> l0 \<le> j \<Longrightarrow>
      H (X j (c div 2 ^ j - 2)) (X j (c div 2 ^ j - 1)) = X (Suc j) (c div 2 ^ Suc j - 1)"
    and inn: "\<And>j. 2 ^ j dvd c \<Longrightarrow> even (c div 2 ^ j) \<Longrightarrow> l0 \<le> j \<Longrightarrow> ins ! j = X j (c div 2 ^ j - 2)"
  shows "2 ^ l dvd c \<Longrightarrow> l0 \<le> l \<Longrightarrow> h = X l (c div 2 ^ l - 1) \<Longrightarrow> inner st = ins \<Longrightarrow>
    \<exists>l' m' st'. up_loop H want leaf (of_nat c) l h m st = Some (l', X l' (c div 2 ^ l' - 1), m', st') \<and>
      l \<le> l' \<and> l' < 32 \<and> 2 ^ l' dvd c \<and> odd (c div 2 ^ l') \<and> inner st' = ins \<and> matchlevel st' = matchlevel st \<and>
      (mutated st' \<longleftrightarrow> mutated st \<or> (leaf \<and> (\<exists>j. l \<le> j \<and> j < l' \<and> X j (c div 2 ^ j - 2) = X j (c div 2 ^ j - 1))))"
proof (induction "32 - l" arbitrary: l h m st rule: less_induct)
  case less
  have l: "l < 32" using dvd_level_less [OF less.prems(1) c] .
  show ?case
  proof (cases "odd (c div 2 ^ l)")
    case True
    then show ?thesis using l less.prems by (subst up_loop.simps) (auto simp: test_bit_word bit_count)
  next
    case False
    obtain m1 st1 where b: "branch_step want l h m st = (m1, st1)" by (cases "branch_step want l h m st")
    note bf = branch_step_fields [OF b]
    define st2 where "st2 = (if leaf then st1\<lparr>mutated := mutated st \<or> inner st ! l = h\<rparr> else st1)"
    have st2: "inner st2 = ins" "matchlevel st2 = matchlevel st"
      "mutated st2 \<longleftrightarrow> mutated st \<or> leaf \<and> X l (c div 2 ^ l - 2) = X l (c div 2 ^ l - 1)"
      using bf less.prems inn [of l] False by (auto simp: st2_def)
    have "up_loop H want leaf (of_nat c) l h m st = up_loop H want leaf (of_nat c) (Suc l) (H (inner st ! l) h) m1 st2"
      using l False b by (subst up_loop.simps) (simp add: test_bit_word bit_count st2_def)
    moreover have "H (inner st ! l) h = X (Suc l) (c div 2 ^ Suc l - 1)"
      using comb [of l] inn [of l] less.prems False by simp
    moreover have "\<exists>l' m' st'. up_loop H want leaf (of_nat c) (Suc l) (X (Suc l) (c div 2 ^ Suc l - 1)) m1 st2 =
        Some (l', X l' (c div 2 ^ l' - 1), m', st') \<and> Suc l \<le> l' \<and> l' < 32 \<and> 2 ^ l' dvd c \<and> odd (c div 2 ^ l') \<and>
        inner st' = ins \<and> matchlevel st' = matchlevel st2 \<and>
        (mutated st' \<longleftrightarrow> mutated st2 \<or> (leaf \<and> (\<exists>j. Suc l \<le> j \<and> j < l' \<and> X j (c div 2 ^ j - 2) = X j (c div 2 ^ j - 1))))"
      by (rule less.hyps) (use l less.prems(2) st2(1) even_level_dvd [OF less.prems(1)] False in simp_all)
    ultimately obtain l' m' st' where r: "up_loop H want leaf (of_nat c) l h m st = Some (l', X l' (c div 2 ^ l' - 1), m', st')"
      "Suc l \<le> l'" "l' < 32" "2 ^ l' dvd c" "odd (c div 2 ^ l')" "inner st' = ins" "matchlevel st' = matchlevel st2"
      "mutated st' \<longleftrightarrow> mutated st2 \<or> (leaf \<and> (\<exists>j. Suc l \<le> j \<and> j < l' \<and> X j (c div 2 ^ j - 2) = X j (c div 2 ^ j - 1)))"
      by (elim exE conjE) (simp only:, blast)
    have "(\<exists>j. l \<le> j \<and> j < l' \<and> X j (c div 2 ^ j - 2) = X j (c div 2 ^ j - 1)) \<longleftrightarrow>
        X l (c div 2 ^ l - 2) = X l (c div 2 ^ l - 1) \<or>
        (\<exists>j. Suc l \<le> j \<and> j < l' \<and> X j (c div 2 ^ j - 2) = X j (c div 2 ^ j - 1))"
      using r(2) by (metis Suc_leD Suc_le_eq le_neq_implies_less order_refl)
    then show ?thesis using r st2 by (intro exI [of _ l'] exI [of _ m'] exI [of _ st']) auto
  qed
qed

lemma low_bit_iff: "(2 :: nat) ^ l dvd c \<Longrightarrow> odd (c div 2 ^ l) \<Longrightarrow> 2 ^ k dvd c \<longleftrightarrow> k \<le> l"
proof
  assume l: "2 ^ l dvd c" "odd (c div 2 ^ l)" and k: "2 ^ k dvd c"
  show "k \<le> l"
  proof (rule ccontr)
    assume "\<not> k \<le> l"
    then have "(2 :: nat) ^ Suc l dvd 2 ^ k" by (intro le_imp_power_dvd) simp
    then have "2 ^ Suc l dvd c" using k by (rule dvd_trans)
    then obtain m where "c = 2 ^ Suc l * m" by (rule dvdE)
    then have "c div 2 ^ l = 2 * m" by (simp add: mult.assoc [symmetric] mult.commute)
    then show False using l(2) by simp
  qed
qed (meson dvd_trans le_imp_power_dvd)

lemma even_level_iff: "2 ^ l dvd c \<Longrightarrow> odd (c div 2 ^ l) \<Longrightarrow> (2 :: nat) ^ j dvd c \<and> even (c div 2 ^ j) \<longleftrightarrow> j < l"
proof -
  assume l: "2 ^ l dvd c" "odd (c div 2 ^ l)"
  have "(2 :: nat) ^ j dvd c \<and> even (c div 2 ^ j) \<longleftrightarrow> 2 ^ Suc j dvd c"
  proof
    assume "(2 :: nat) ^ Suc j dvd c"
    then obtain m where m: "c = 2 ^ Suc j * m" by (rule dvdE)
    then have "c div 2 ^ j = 2 * m" by (simp add: mult.assoc [symmetric] mult.commute)
    then show "2 ^ j dvd c \<and> even (c div 2 ^ j)" using m by simp
  qed (use even_level_dvd in blast)
  then show ?thesis using low_bit_iff [OF l, of "Suc j"] by (simp add: Suc_le_eq)
qed

section \<open>The leaves\<close>

text \<open>After \<open>c\<close> leaves, \<open>inner\<close> holds at every set bit of \<open>c\<close> the last complete hash of that level, and
  \<open>mutated\<close> says whether two complete siblings seen so far are equal.\<close>

definition leaves_inv :: "(uint256 \<Rightarrow> uint256 \<Rightarrow> uint256) \<Rightarrow> uint256 list \<Rightarrow> nat \<Rightarrow> merkle_state \<Rightarrow> bool" where
  "leaves_inv H leaves c st \<longleftrightarrow> length (inner st) = 32 \<and>
     (\<forall>l < 32. odd (c div 2 ^ l) \<longrightarrow> inner st ! l = level_at H leaves l ! (c div 2 ^ l - 1)) \<and>
     (mutated st \<longleftrightarrow> (\<exists>l i. (2 * i + 2) * 2 ^ l \<le> c \<and> level_at H leaves l ! (2 * i) = level_at H leaves l ! (2 * i + 1)))"

lemma complete_in_level: "0 < m \<Longrightarrow> m * 2 ^ j \<le> length leaves \<Longrightarrow> m \<le> length (level_at H leaves j)"
proof -
  assume m: "m * 2 ^ j \<le> length leaves"
  have "(1 :: nat) \<le> 2 ^ j" by simp
  then have "m * 2 ^ j \<le> length leaves + 2 ^ j - 1" using m by linarith
  then show ?thesis unfolding width_level by (subst less_eq_div_iff_mult_less_eq) simp_all
qed

lemma combine_complete:
  assumes "2 ^ j dvd c" "even (c div 2 ^ j)" "0 < c" "c \<le> length leaves"
  shows "H (level_at H leaves j ! (c div 2 ^ j - 2)) (level_at H leaves j ! (c div 2 ^ j - 1)) =
    level_at H leaves (Suc j) ! (c div 2 ^ Suc j - 1)"
proof -
  obtain m where m: "c div 2 ^ j = 2 * m" using assms(2) by (auto elim: evenE)
  have cm: "c = 2 * m * 2 ^ j" using m dvd_div_mult_self [OF assms(1)] by simp
  then have "0 < m" using assms(3) by (cases m) simp_all
  then obtain i where i: "m = Suc i" by (cases m) simp_all
  have "c div 2 ^ Suc j = m" using m by (simp only: power_Suc2 div_mult2_eq)
  moreover have "2 * m \<le> length (level_at H leaves j)"
    using cm assms(4) i by (intro complete_in_level) simp_all
  ultimately show ?thesis
    using nth_next_level(1) [of i "level_at H leaves j" H] by (simp add: m i level_at_Suc)
qed

lemma leaf_step_inv:
  assumes inv: "leaves_inv H leaves c st" and c: "c < length leaves" "length leaves < 2 ^ 32"
  shows "\<exists>st'. leaf_step H want bp (of_nat c) (leaves ! c) st = Some st' \<and> leaves_inv H leaves (Suc c) st'"
proof -
  let ?X = "\<lambda>j i. level_at H leaves j ! i"
  have comb: "H (?X j (Suc c div 2 ^ j - 2)) (?X j (Suc c div 2 ^ j - 1)) = ?X (Suc j) (Suc c div 2 ^ Suc j - 1)"
    if "2 ^ j dvd Suc c" "even (Suc c div 2 ^ j)" for j
    using combine_complete [OF that, of leaves H] c by simp
  have inn: "inner st ! j = ?X j (Suc c div 2 ^ j - 2)"
    if d: "2 ^ j dvd Suc c" "even (Suc c div 2 ^ j)" for j
  proof -
    have j: "j < 32" using dvd_level_less [OF d(1)] c by simp
    have "Suc c div 2 ^ j = Suc (c div 2 ^ j)" using d(1) by (simp add: div_Suc dvd_eq_mod_eq_0)
    then have "odd (c div 2 ^ j)" "c div 2 ^ j - 1 = Suc c div 2 ^ j - 2" using d(2) by simp_all
    then show ?thesis using inv j unfolding leaves_inv_def by metis
  qed
  obtain l' m' st1 where r: "up_loop H want True (of_nat (Suc c)) 0 (leaves ! c) (of_nat c = bp) st =
      Some (l', ?X l' (Suc c div 2 ^ l' - 1), m', st1)"
    "l' < 32" "2 ^ l' dvd Suc c" "odd (Suc c div 2 ^ l')" "inner st1 = inner st"
    "mutated st1 \<longleftrightarrow> mutated st \<or> (\<exists>j. j < l' \<and> ?X j (Suc c div 2 ^ j - 2) = ?X j (Suc c div 2 ^ j - 1))"
    using up_loop_node [of "Suc c" 0 H ?X "inner st" 0 "leaves ! c" st want True "of_nat c = bp"] comb inn c by auto
  define st2 where "st2 = st1\<lparr>inner := (inner st1)[l' := ?X l' (Suc c div 2 ^ l' - 1)],
     matchlevel := (if m' then int l' else matchlevel st1)\<rparr>"
  have step: "leaf_step H want bp (of_nat c) (leaves ! c) st = Some st2"
    using r(1) by (simp add: leaf_step_def st2_def add.commute)
  have "inner st2 ! l = ?X l (Suc c div 2 ^ l - 1)" if l: "l < 32" "odd (Suc c div 2 ^ l)" for l
  proof (cases "l = l'")
    case True
    then show ?thesis using l inv r(5) by (simp add: st2_def leaves_inv_def)
  next
    case False
    have nd: "\<not> 2 ^ l dvd Suc c"
      using even_level_iff [OF r(3,4), of l] low_bit_iff [OF r(3,4), of l] l False by auto
    then have "Suc c div 2 ^ l = c div 2 ^ l" by (simp add: div_Suc dvd_eq_mod_eq_0)
    then show ?thesis using l inv r(5) False by (simp add: st2_def leaves_inv_def)
  qed
  moreover have "mutated st2 \<longleftrightarrow> (\<exists>l i. (2 * i + 2) * 2 ^ l \<le> Suc c \<and> ?X l (2 * i) = ?X l (2 * i + 1))"
  proof -
    have new: "(\<exists>j. j < l' \<and> ?X j (Suc c div 2 ^ j - 2) = ?X j (Suc c div 2 ^ j - 1)) \<longleftrightarrow>
        (\<exists>l i. (2 * i + 2) * 2 ^ l = Suc c \<and> ?X l (2 * i) = ?X l (2 * i + 1))" (is "?L \<longleftrightarrow> ?R")
    proof
      assume ?L
      then obtain j where j: "2 ^ j dvd Suc c" "even (Suc c div 2 ^ j)" "?X j (Suc c div 2 ^ j - 2) = ?X j (Suc c div 2 ^ j - 1)"
        using even_level_iff [OF r(3,4)] by blast
      obtain m where m: "Suc c div 2 ^ j = 2 * m" using j(2) by (auto elim: evenE)
      have "Suc c = 2 * m * 2 ^ j" using m dvd_div_mult_self [OF j(1)] by simp
      then obtain i where i: "m = Suc i" by (cases m) simp_all
      have "(2 * i + 2) * 2 ^ j = Suc c" using \<open>Suc c = 2 * m * 2 ^ j\<close> i by simp
      moreover have "?X j (2 * i) = ?X j (2 * i + 1)" using j(3) by (simp add: m i)
      ultimately show ?R by blast
    next
      assume ?R
      then obtain l i where li: "(2 * i + 2) * 2 ^ l = Suc c" "?X l (2 * i) = ?X l (2 * i + 1)" by blast
      then have "Suc c div 2 ^ l = 2 * i + 2" "2 ^ l dvd Suc c" by (metis nonzero_mult_div_cancel_right power_not_zero zero_neq_numeral, metis dvd_triv_right)
      then show ?L using li(2) even_level_iff [OF r(3,4), of l] by (intro exI [of _ l]) simp
    qed
    have "mutated st \<longleftrightarrow> (\<exists>l i. (2 * i + 2) * 2 ^ l \<le> c \<and> ?X l (2 * i) = ?X l (2 * i + 1))"
      using inv by (simp add: leaves_inv_def)
    then show ?thesis using r(6) new by (auto simp: st2_def le_Suc_eq)
  qed
  ultimately show ?thesis using step inv r(5) by (auto simp: leaves_inv_def st2_def)
qed

lemma leaf_loop_inv:
  assumes "length leaves < 2 ^ 32"
  shows "leaves_inv H leaves c st \<Longrightarrow> c \<le> length leaves \<Longrightarrow>
    \<exists>st'. leaf_loop H want bp (of_nat c) (drop c leaves) st = Some (of_nat (length leaves), st') \<and>
      leaves_inv H leaves (length leaves) st'"
proof (induction "length leaves - c" arbitrary: c st)
  case (Suc d)
  then have c: "c < length leaves" by simp
  obtain st1 where st1: "leaf_step H want bp (of_nat c) (leaves ! c) st = Some st1" "leaves_inv H leaves (Suc c) st1"
    using leaf_step_inv [OF Suc.prems(1) c assms] by auto
  have "drop c leaves = leaves ! c # drop (Suc c) leaves" using c by (rule Cons_nth_drop_Suc [symmetric])
  then show ?case using Suc.hyps(1) [OF _ st1(2)] Suc.hyps(2) c st1(1) by (simp add: add.commute)
qed simp

section \<open>The sweep\<close>

lemma width_eqI:
  assumes "length leaves \<le> c" "c < length leaves + 2 ^ j" "2 ^ j dvd c"
  shows "length (level_at H leaves j) = c div 2 ^ j"
proof -
  obtain m where m: "c = 2 ^ j * m" using assms(3) by (rule dvdE)
  have "(length leaves + 2 ^ j - 1) div 2 ^ j = m"
    using assms by (intro div_nat_eqI) (simp_all add: m mult.commute)
  then show ?thesis by (simp add: width_level m)
qed

lemma width_bounds:
  "length leaves \<le> length (level_at H leaves j) * 2 ^ j"
  "length (level_at H leaves j) * 2 ^ j < length leaves + 2 ^ j"
proof -
  let ?N = "length leaves + 2 ^ j - 1"
  have "(0 :: nat) < 2 ^ j" by simp
  then have "?N mod 2 ^ j < 2 ^ j" by simp
  moreover have "?N div 2 ^ j * 2 ^ j + ?N mod 2 ^ j = ?N" by (rule div_mult_mod_eq)
  moreover have "?N + 1 = length leaves + 2 ^ j" by simp
  ultimately show "length leaves \<le> length (level_at H leaves j) * 2 ^ j"
    "length (level_at H leaves j) * 2 ^ j < length leaves + 2 ^ j"
    unfolding width_level by linarith+
qed

lemma width_limit:
  assumes "length leaves \<le> 2 ^ 31" "j \<le> 31"
  shows "length (level_at H leaves j) * 2 ^ j \<le> 2 ^ 31"
proof -
  have p: "(2 :: nat) ^ 31 = 2 ^ (31 - j) * 2 ^ j" using assms(2) by (simp flip: power_add)
  have "length (level_at H leaves j) * 2 ^ j < (2 ^ (31 - j) + 1) * 2 ^ j"
    using width_bounds(2) [where H = H and leaves = leaves and j = j] assms(1) [unfolded p] by simp
  then have "length (level_at H leaves j) < 2 ^ (31 - j) + 1" by (simp only: mult_less_cancel2)
  then have "length (level_at H leaves j) \<le> 2 ^ (31 - j)" by simp
  then have "length (level_at H leaves j) * 2 ^ j \<le> 2 ^ (31 - j) * 2 ^ j" by (rule mult_le_mono1)
  then show ?thesis by (simp only: p)
qed

lemma word_of_nat_eq: "a < 2 ^ 32 \<Longrightarrow> b < 2 ^ 32 \<Longrightarrow> (of_nat a :: u32) = of_nat b \<longleftrightarrow> a = b"
proof
  assume b: "a < 2 ^ 32" "b < 2 ^ 32" and "(of_nat a :: u32) = of_nat b"
  then have "unat (of_nat a :: u32) = unat (of_nat b :: u32)" by simp
  then show "a = b" using b by (simp add: unat_of_nat)
qed simp

lemma sweep_root:
  assumes n: "0 < length leaves" "length leaves \<le> 2 ^ 31"
    and ins: "\<forall>l < 32. odd (length leaves div 2 ^ l) \<longrightarrow> ins ! l = level_at H leaves l ! (length leaves div 2 ^ l - 1)"
  shows "level \<le> 31 \<Longrightarrow> odd (length (level_at H leaves level)) \<Longrightarrow> \<forall>j < level. 1 < length (level_at H leaves j) \<Longrightarrow>
    \<forall>j > level. \<not> 2 ^ j dvd length leaves \<Longrightarrow> h = level_at H leaves level ! (length (level_at H leaves level) - 1) \<Longrightarrow>
    inner st = ins \<Longrightarrow>
    \<exists>st'. sweep H want (of_nat (length (level_at H leaves level) * 2 ^ level)) level h m st = Some (merkle_root H leaves, st') \<and>
      mutated st' = mutated st"
proof (induction "32 - level" arbitrary: level h m st rule: less_induct)
  case less
  let ?X = "\<lambda>j i. level_at H leaves j ! i"
  define w where "w = length (level_at H leaves level)"
  have lim: "w * 2 ^ level \<le> 2 ^ 31" unfolding w_def using width_limit n(2) less.prems(1) by blast
  have p32: "(2 :: nat) ^ level < 2 ^ 32" using less.prems(1) by (intro power_strict_increasing) simp_all
  show ?case
  proof (cases "w = 1")
    case True
    have "merkle_root H leaves = merkle_root H (level_at H leaves level)"
      using merkle_root_level less.prems(3) by blast
    also have "\<dots> = h" using True less.prems(5) unfolding w_def
      by (subst merkle_root.simps) (auto simp: hd_conv_nth)
    finally show ?thesis using True less.prems(1) unfolding w_def
      by (subst sweep.simps) simp
  next
    case False
    then obtain i where i: "w = 2 * i + 1" "0 < i" using less.prems(2) unfolding w_def
      by (metis add_0 gr0I mult_0_right oddE)
    define c where "c = (i + 1) * 2 ^ Suc level"
    have wS: "length (level_at H leaves (Suc level)) = i + 1"
      using i by (simp add: level_at_Suc length_next_level flip: w_def)
    have l31: "level < 31"
    proof (rule ccontr)
      assume "\<not> level < 31"
      then have "level = 31" using less.prems(1) by simp
      then show False using lim i by simp
    qed
    have c: "length leaves \<le> c" "c < length leaves + 2 ^ Suc level" "c \<le> 2 ^ 31"
      using width_bounds [where H = H and leaves = leaves and j = "Suc level"] width_limit [OF n(2), of "Suc level" H] l31 by (simp_all add: c_def wS)
    have count: "(of_nat (w * 2 ^ level) :: u32) + push_bit level 1 = of_nat c"
      by (simp add: c_def i push_bit_eq_mult algebra_simps)
    have ne: "(of_nat (w * 2 ^ level) :: u32) \<noteq> push_bit level 1"
      using word_of_nat_eq [of "w * 2 ^ level" "2 ^ level"] lim p32 False by (simp add: push_bit_eq_mult)
    have width: "length (level_at H leaves j) = c div 2 ^ j" if "2 ^ j dvd c" "Suc level \<le> j" for j
    proof (rule width_eqI [OF c(1) _ that(1)])
      have "(2 :: nat) ^ Suc level \<le> 2 ^ j" using that(2) by (intro power_increasing) simp_all
      then show "c < length leaves + 2 ^ j" using c(2) by linarith
    qed
    have "0 < c" using c(1) n(1) by linarith
    moreover have "c < 2 ^ 32" using c(3) by simp
    ultimately have c0: "0 < c" "c < 2 ^ 32" by simp_all
    have comb: "H (?X j (c div 2 ^ j - 2)) (?X j (c div 2 ^ j - 1)) = ?X (Suc j) (c div 2 ^ Suc j - 1)"
      if d: "2 ^ j dvd c" "even (c div 2 ^ j)" "Suc level \<le> j" for j
    proof -
      obtain k where k: "c div 2 ^ j = 2 * k" using d(2) by (auto elim: evenE)
      have "c = 2 * k * 2 ^ j" using k dvd_div_mult_self [OF d(1)] by simp
      then obtain k' where k': "k = Suc k'" using c0 by (cases k) simp_all
      have "c div 2 ^ Suc j = k" using k by (simp only: power_Suc2 div_mult2_eq)
      then show ?thesis using nth_next_level(1) [of k' "level_at H leaves j" H] width [OF d(1,3)]
        by (simp add: k k' level_at_Suc)
    qed
    have inn: "ins ! j = ?X j (c div 2 ^ j - 2)" if d: "2 ^ j dvd c" "even (c div 2 ^ j)" "Suc level \<le> j" for j
    proof -
      have j: "j < 32" using dvd_level_less [OF d(1) c0] .
      have nd: "\<not> 2 ^ j dvd length leaves" using less.prems(4) d(3) by simp
      have w: "c div 2 ^ j = length leaves div 2 ^ j + 1"
      proof -
        have "(length leaves + 2 ^ j - 1) div 2 ^ j = length leaves div 2 ^ j + 1"
        proof (rule div_nat_eqI)
          have r: "0 < length leaves mod 2 ^ j" "length leaves mod 2 ^ j < 2 ^ j" using nd by (simp_all add: dvd_eq_mod_eq_0)
          have e: "2 ^ j * (length leaves div 2 ^ j) + length leaves mod 2 ^ j = length leaves" by (rule mult_div_mod_eq)
          show "2 ^ j * (length leaves div 2 ^ j + 1) \<le> length leaves + 2 ^ j - 1"
            "length leaves + 2 ^ j - 1 < 2 ^ j * Suc (length leaves div 2 ^ j + 1)"
            unfolding distrib_left mult_Suc_right mult_1_right using r e by linarith+
        qed
        then show ?thesis using width [OF d(1,3)] by (simp add: width_level)
      qed
      then have "odd (length leaves div 2 ^ j)" using d(2) by simp
      then show ?thesis using ins j w by simp
    qed
    have h': "H h h = ?X (Suc level) (c div 2 ^ Suc level - 1)"
      using nth_next_level(2) [of i "level_at H leaves level" H] less.prems(5) i
      by (simp add: level_at_Suc c_def flip: w_def)
    define st1 where "st1 = (if want \<and> m then st\<lparr>branch := branch st @ [h]\<rparr> else st)"
    have st1: "inner st1 = ins" "mutated st1 = mutated st" using less.prems(6) by (simp_all add: st1_def)
    obtain l' m' st2 where r: "up_loop H want False (of_nat c) (Suc level) (H h h) m st1 = Some (l', ?X l' (c div 2 ^ l' - 1), m', st2)"
      "Suc level \<le> l'" "l' < 32" "2 ^ l' dvd c" "odd (c div 2 ^ l')" "inner st2 = ins" "mutated st2 = mutated st1"
      using up_loop_node [of c "Suc level" H ?X ins "Suc level" "H h h" st1 want False m] comb inn c0 h' st1 by (auto simp: c_def)
    have wl': "length (level_at H leaves l') = c div 2 ^ l'" using width r by blast
    have "\<exists>st'. sweep H want (of_nat (length (level_at H leaves l') * 2 ^ l')) l' (?X l' (c div 2 ^ l' - 1)) m' st2 =
        Some (merkle_root H leaves, st') \<and> mutated st' = mutated st2"
    proof (rule less.hyps)
      show "32 - l' < 32 - level" using r l31 by simp
      show "\<forall>j < l'. 1 < length (level_at H leaves j)"
      proof (intro allI impI)
        fix j assume j: "j < l'"
        consider "j < level" | "j = level" | "Suc level \<le> j" by linarith
        then show "1 < length (level_at H leaves j)"
        proof cases
          case 3
          have d: "2 ^ j dvd c" "even (c div 2 ^ j)" using even_level_iff [OF r(4,5), of j] j by simp_all
          have "c div 2 ^ j \<noteq> 0" using d(1) c0 by (auto simp: dvd_div_eq_0_iff)
          then show ?thesis using width [OF d(1) 3] d(2) by (cases "c div 2 ^ j = 1") auto
        qed (use less.prems(3) i in \<open>simp_all flip: w_def\<close>)
      qed
    qed (use r wl' less.prems(4) in \<open>simp_all\<close>)
    then show ?thesis using r l31 ne count wl' st1
      by (subst sweep.simps) (simp add: st1_def Let_def flip: w_def)
  qed
qed

lemma lowest_level_bit:
  assumes "0 < c" "c < 2 ^ 32"
  shows "2 ^ l dvd c \<Longrightarrow> \<exists>t. lowest_level (of_nat c) l = Some t \<and> t < 32 \<and> 2 ^ t dvd c \<and> odd (c div 2 ^ t)"
proof (induction "32 - l" arbitrary: l rule: less_induct)
  case less
  have l: "l < 32" using dvd_level_less [OF less.prems assms] .
  show ?case
  proof (cases "odd (c div 2 ^ l)")
    case True
    then show ?thesis using l less.prems by (subst lowest_level.simps) (simp add: test_bit_word bit_count)
  next
    case False
    then have "\<exists>t. lowest_level (of_nat c) (Suc l) = Some t \<and> t < 32 \<and> 2 ^ t dvd c \<and> odd (c div 2 ^ t)"
      using l even_level_dvd [OF less.prems] by (intro less.hyps) simp_all
    then show ?thesis using l False by (subst lowest_level.simps) (simp add: test_bit_word bit_count)
  qed
qed

definition equal_siblings :: "(uint256 \<Rightarrow> uint256 \<Rightarrow> uint256) \<Rightarrow> uint256 list \<Rightarrow> bool" where
  "equal_siblings H leaves \<longleftrightarrow> (\<exists>l i. (2 * i + 2) * 2 ^ l \<le> length leaves \<and>
     level_at H leaves l ! (2 * i) = level_at H leaves l ! (2 * i + 1))"

lemma computeRoot_eq:
  assumes "length leaves \<le> 2 ^ 31"
  shows "computeRoot H leaves = Some (merkle_root H leaves, equal_siblings H leaves)"
proof (cases "leaves = []")
  case True
  then show ?thesis by (simp add: computeRoot_def merkle_compute_def merkle_root.simps equal_siblings_def)
next
  case False
  define n where "n = length leaves"
  have n: "0 < n" "n < 2 ^ 32" using assms False by (simp_all add: n_def)
  define st0 where "st0 = \<lparr>inner = replicate 32 uint256_null, mutated = False, matchlevel = -1, branch = []\<rparr>"
  have "leaves_inv H leaves 0 st0" by (simp add: leaves_inv_def st0_def)
  then obtain st where st: "leaf_loop H False (-1) 0 leaves st0 = Some (of_nat n, st)" "leaves_inv H leaves n st"
    using leaf_loop_inv [of leaves H 0 st0 False "-1"] n by (auto simp: n_def)
  obtain t where t: "lowest_level (of_nat n) 0 = Some t" "t < 32" "2 ^ t dvd n" "odd (n div 2 ^ t)"
    using lowest_level_bit [OF n, of 0] by auto
  have wt: "length (level_at H leaves j) = n div 2 ^ j" if "2 ^ j dvd n" for j
    using that by (intro width_eqI) (simp_all add: n_def)
  have "\<exists>st'. sweep H False (of_nat (length (level_at H leaves t) * 2 ^ t)) t (inner st ! t) (matchlevel st = int t) st =
      Some (merkle_root H leaves, st') \<and> mutated st' = mutated st"
  proof (rule sweep_root)
    show "\<forall>j < t. 1 < length (level_at H leaves j)"
    proof (intro allI impI)
      fix j assume "j < t"
      then have d: "2 ^ j dvd n" "even (n div 2 ^ j)" using even_level_iff [OF t(3,4), of j] by simp_all
      have "n div 2 ^ j \<noteq> 0" using d(1) n by (auto simp: dvd_div_eq_0_iff)
      then show "1 < length (level_at H leaves j)" using wt [OF d(1)] d(2) by (cases "n div 2 ^ j = 1") auto
    qed
    show "\<forall>j > t. \<not> 2 ^ j dvd length leaves" using low_bit_iff [OF t(3,4)] by (auto simp: n_def)
    show "inner st ! t = level_at H leaves t ! (length (level_at H leaves t) - 1)"
      using st(2) t wt [OF t(3)] by (simp add: leaves_inv_def)
  qed (use assms n t wt [OF t(3)] st(2) in \<open>simp_all add: leaves_inv_def n_def\<close>)
  moreover have "n = length (level_at H leaves t) * 2 ^ t" using wt [OF t(3)] t(3) by simp
  ultimately obtain st' where "sweep H False (of_nat n) t (inner st ! t) (matchlevel st = int t) st =
      Some (merkle_root H leaves, st')" "mutated st' = mutated st" by auto
  then show ?thesis using False st t
    by (simp add: computeRoot_def merkle_compute_def leaves_inv_def equal_siblings_def n_def flip: st0_def)
qed

section \<open>Properties\<close>

text \<open>C8: for up to \<open>2 ^ 31\<close> leaves the constant-space algorithm returns the root of the tree that pairs
  every level and duplicates an odd last hash, and reports a mutation exactly when two complete
  sibling hashes are equal at some level; it never shifts out of range, and its 32-bit counter does
  not wrap.\<close>

theorem merkle_root_correct:
  assumes "length leaves \<le> 2 ^ 31"
  shows "computeRoot H leaves = Some (merkle_root H leaves, equal_siblings H leaves)"
  using assms by (rule computeRoot_eq)

theorem merkle_root_correct_witness:
  "\<exists>m. computeRoot (\<lambda>x y. x @ y) [[1], [2], [3]] = Some ([1, 2, 3, 3], m)"
proof -
  have "merkle_root (\<lambda>x y. x @ y) [[1], [2], [3]] = [1, 2, 3, 3]"
    by (simp add: merkle_root.simps)
  then show ?thesis using merkle_root_correct [of "[[1], [2], [3]]" "\<lambda>x y. x @ y"] by simp
qed

text \<open>repeating the last leaf of an odd list gives the same root, the ambiguity of the tree that
  lets different blocks share a root; the mutation flag tells the repeated list apart.\<close>

theorem merkle_duplicate_flagged:
  assumes "odd (length leaves)" "1 < length leaves" "length leaves < 2 ^ 31"
  shows "\<exists>m. computeRoot H leaves = Some (merkle_root H leaves, m) \<and>
    computeRoot H (leaves @ [last leaves]) = Some (merkle_root H leaves, True)"
proof -
  have dup: "next_level H (xs @ [last xs]) = next_level H xs" if "odd (length xs)" for xs
    using that by (induction H xs rule: next_level.induct) (auto simp: neq_Nil_conv length_Suc_conv elim!: oddE)
  have "merkle_root H (leaves @ [last leaves]) = merkle_root H (next_level H (leaves @ [last leaves]))"
    using assms by (subst merkle_root.simps) auto
  also have "\<dots> = merkle_root H leaves"
    using assms dup by (subst (2) merkle_root.simps) auto
  finally have root: "merkle_root H (leaves @ [last leaves]) = merkle_root H leaves" .
  obtain k where k: "length leaves = 2 * k + 1" using assms(1) by (rule oddE)
  then have "leaves \<noteq> []" by auto
  then have "equal_siblings H (leaves @ [last leaves])" unfolding equal_siblings_def
    by (intro exI [of _ 0] exI [of _ k]) (simp add: k nth_append last_conv_nth)
  then show ?thesis using computeRoot_eq [of leaves H] computeRoot_eq [of "leaves @ [last leaves]" H] root assms by simp
qed

theorem merkle_duplicate_flagged_witness:
  "computeRoot (\<lambda>x y. x @ y) ([[1], [2], [3]] @ [last [[1], [2], [3]]]) =
     Some (merkle_root (\<lambda>x y. x @ y) [[1], [2], [3]], True)"
  using merkle_duplicate_flagged [of "[[1], [2], [3]]" "\<lambda>x y. x @ y"] by auto

end
