(* ===== verification/App.thy ===== *)
theory App
  imports NetProps Merkle "HOL-Library.Signed_Division"
begin

text \<open>
  \<open>storage/ChainParams.cpp\<close> and \<open>app.cpp\<close>: the parameters of the two chains, with their genesis blocks, and the
  application that loads the index and starts the node. The library's \<open>data_encoding::little_endian()\<close>, its
  digests, its text functions and the stores are parts of the record \<open>library\<close>.
\<close>

section \<open>The chains\<close>

record ChainParams =
  cp_genesisBlock :: Block
  dnsSeeds :: "string list"
  cp_protocolMagic :: u32
  defaultPort :: int

definition COIN :: int where "COIN = 100000000"

definition timestampstr :: bytes where
  "timestampstr = ascii ''The Times 03/Jan/2009 Chancellor on brink of second bailout for banks''"

definition genesis_key :: bytes where
  "genesis_key = ascii ''04678afdb0fe5548271967f1a67130b7105cd6a828e03909a67962e0ea1f61deb649f6bc3f4cef38c4f35504e51ec112de5c384df7ba0b8d578a4c702b6bf11d5f''"

definition doCreateGenesisBlock :: "digests \<Rightarrow> ostream \<Rightarrow> bytes \<Rightarrow> bytes \<Rightarrow> u32 \<Rightarrow> u32 \<Rightarrow> u32 \<Rightarrow> u32 \<Rightarrow> int \<Rightarrow> Block option" where
  "doCreateGenesisBlock dg os str script ts n bs v reward = do {
     i \<leftarrow> writeScriptInteger os 486604799;
     k \<leftarrow> writeScriptNumber os 4;
     let txNew = Transaction_new\<lparr>tx_version := 1, inputs := [TransactionInput_new\<lparr>signatureScript := i @ k @ writeScriptString os str\<rparr>],
       outputs := [TransactionOutput_new\<lparr>out_value := word_of_int reward, scriptPublicKey := script\<rparr>]\<rparr>;
     let txNew = computeHash_tx dg os txNew;
     let h = BlockHeader_new\<lparr>timestamp := ts, bits := bs, nonce := n, version := v\<rparr>;
     (root, m) \<leftarrow> merkle_build dg [txNew];
     Some \<lparr>blk_header = computeHash dg os (h\<lparr>merkleRootHash := root\<rparr>), transactions = [txNew]\<rparr>
   }"

definition createGenesisBlock :: "digests \<Rightarrow> ostream \<Rightarrow> u32 \<Rightarrow> u32 \<Rightarrow> u32 \<Rightarrow> u32 \<Rightarrow> int \<Rightarrow> Block option" where
  "createGenesisBlock dg os ts n bs v reward =
     doCreateGenesisBlock dg os timestampstr (writeScriptString os (parseHex genesis_key) @ [OP_CHECKSIG]) ts n bs v reward"

definition createMainChainParams :: "digests \<Rightarrow> ostream \<Rightarrow> ChainParams option" where
  "createMainChainParams dg os = do {
     g \<leftarrow> createGenesisBlock dg os 1231006505 2083236893 0x1d00ffff 1 (50 * COIN);
     Some \<lparr>cp_genesisBlock = g,
       dnsSeeds = [''seed.bitcoin.sipa.be'', ''dnsseed.bluematt.me'', ''dnsseed.bitcoin.dashjr.org'', ''seed.bitcoinstats.com'',
         ''seed.bitcoin.jonasschnelli.ch'', ''seed.btc.petertodd.org''],
       cp_protocolMagic = 0xD9B4BEF9, defaultPort = 8333\<rparr>
   }"

definition createTestNetChainParams :: "digests \<Rightarrow> ostream \<Rightarrow> ChainParams option" where
  "createTestNetChainParams dg os = do {
     g \<leftarrow> createGenesisBlock dg os 1296688602 414098458 0x1d00ffff 1 (50 * COIN);
     Some \<lparr>cp_genesisBlock = g,
       dnsSeeds = [''testnet-seed.bitcoin.jonasschnelli.ch'', ''seed.tbtc.petertodd.org'', ''seed.testnet.bitcoin.sprovoost.nl'',
         ''testnet-seed.bluematt.me''],
       cp_protocolMagic = 0x0709110B, defaultPort = 18333\<rparr>
   }"

section \<open>The user agent\<close>

text \<open>\<open>strings::format\<close> of the library prints an \<open>int\<close> for \<open>%d\<close>; quotients and remainders are those of C++.\<close>

definition formatVersion :: "(int \<Rightarrow> string) \<Rightarrow> int \<Rightarrow> string" where
  "formatVersion pr nVersion =
     (let a = pr (nVersion sdiv 1000000) @ ''.'' @ pr ((nVersion sdiv 10000) smod 100) @ ''.'' @ pr ((nVersion sdiv 100) smod 100)
      in if nVersion smod 100 = 0 then a else a @ ''.'' @ pr (nVersion smod 100))"

definition formatUserAgent :: "(int \<Rightarrow> string) \<Rightarrow> string \<Rightarrow> int \<Rightarrow> string list \<Rightarrow> string" where
  "formatUserAgent pr name nClientVersion comments =
     ''/'' @ name @ '':'' @ formatVersion pr nClientVersion @
     (case comments of [] \<Rightarrow> '''' | c # cs \<Rightarrow> ''('' @ c @ concat (map (\<lambda>s. ''; '' @ s) cs) @ '')'') @ ''/''"

definition PROTOCOL_VERSION :: u32 where "PROTOCOL_VERSION = 70015"
definition NODE_NETWORK :: u64 where "NODE_NETWORK = 1"

section \<open>The application\<close>

record AppConfig =
  tcpPort :: int
  httpPort :: int
  connectInterval :: int
  maxNodeCount :: int
  dataDir :: string
  dbCache :: int
  minimumChainWork :: uint256
  directNode :: string
  testNet :: bool

text \<open>The configuration without options, given \<open>uint256::parse\<close> and the library's counts of bytes; \<open>tcpPortRange\<close> has no
  initial value and no use.\<close>

definition AppConfig_new :: "(string \<Rightarrow> uint256) \<Rightarrow> (int \<Rightarrow> string \<Rightarrow> int) \<Rightarrow> AppConfig" where
  "AppConfig_new parse byteCount = \<lparr>tcpPort = 18333, httpPort = 18080, connectInterval = 30, maxNodeCount = 30, dataDir = [],
     dbCache = byteCount 450 ''MB'',
     minimumChainWork = parse ''00000000000000000000000000000000000000000000000000000000000000cc'', directNode = [], testNet = False\<rparr>"

record ('d, 's, 'k, 'g, 'f) library =
  lb_cache :: "('d, 's, 'k, 'g, 'f) cache_context"
  lb_codec :: "'s codec_context"
  lb_os :: ostream
  lb_text :: text_ops
  lb_elapsed32 :: "int \<Rightarrow> int \<Rightarrow> int"
  lb_print :: "int \<Rightarrow> string"

definition app_host :: "(int \<Rightarrow> string) \<Rightarrow> HostNodeInfo" where
  "app_host pr = \<lparr>hi_address = NodeAddress_new\<lparr>services := NODE_NETWORK\<rparr>, hi_external = PeerAddress_new,
     hi_userAgent = ascii (formatUserAgent pr ''xbtc'' CLIENT_VERSION []), hi_version = PROTOCOL_VERSION, hi_headersSynced = False\<rparr>"

definition app_env :: "('d, 's, 'k, 'g, 'f) library \<Rightarrow> AppConfig \<Rightarrow> ChainParams \<Rightarrow> ('d, 's, 'k, 'g, 'f) net_env" where
  "app_env lb cf cp = \<lparr>
     ne_cache = (lb_cache lb)\<lparr>genesisBlock := cp_genesisBlock cp, c_disk := (c_disk (lb_cache lb))\<lparr>protocolMagic := cp_protocolMagic cp\<rparr>\<rparr>,
     ne_codec = (lb_codec lb)\<lparr>cd_magic := cp_protocolMagic cp\<rparr>, ne_text = lb_text lb, ne_elapsed32 = lb_elapsed32 lb, ne_host = app_host (lb_print lb),
     ne_minWork = minimumChainWork cf, ne_maxNodes = maxNodeCount cf, ne_direct = directNode cf, ne_seeds = dnsSeeds cp, ne_port = of_int (defaultPort cp)\<rparr>"

definition app_params :: "('d, 's, 'k, 'g, 'f) library \<Rightarrow> AppConfig \<Rightarrow> ChainParams option" where
  "app_params lb cf = (if testNet cf then createTestNetChainParams else createMainChainParams) (cd_digests (lb_codec lb)) (lb_os lb)"

text \<open>Whether loading succeeds is not looked at.\<close>

definition app_start :: "('d, 's, 'k, 'g, 'f) library \<Rightarrow> AppConfig \<Rightarrow> moment \<Rightarrow> ('d, 'f) BlockCache \<Rightarrow>
    (('d, 's, 'k, 'g, 'f) net_env \<times> ('d, 'f) Net) option" where
  "app_start lb cf mo bc = do {
     cp \<leftarrow> app_params lb cf;
     let ne = app_env lb cf cp;
     (ok, bc) \<leftarrow> cache_load (ne_cache ne) (mo_late mo 0) bc;
     nw \<leftarrow> manager_start ne mo (Net_new (mo_now mo) bc);
     Some (ne, nw)
   }"

section \<open>The genesis block\<close>

lemma genesis_number: "writeScriptInteger os 486604799 = Some [0x04, 0xff, 0xff, 0x00, 0x1d]" "writeScriptNumber os 4 = Some [0x01, 0x04]"
proof -
  have "number_loop 486604799 = [0xff, 0xff, 0x00, 0x1d]" "number_loop 4 = [0x04]" by code_simp+
  then have "encodeScriptNumber 486604799 = Some [0xff, 0xff, 0x00, 0x1d]" "encodeScriptNumber 4 = Some [0x04]"
    by (simp_all add: encodeScriptNumber_def int64_def in64_def Let_def)
  then show "writeScriptInteger os 486604799 = Some [0x04, 0xff, 0xff, 0x00, 0x1d]" "writeScriptNumber os 4 = Some [0x01, 0x04]"
    by (simp_all add: writeScriptInteger_def writeScriptNumber_def writeScriptString_def push_header_def as_int32_def Let_def)
qed

lemma genesis_text: "writeScriptString os timestampstr = 0x45 # timestampstr"
proof -
  have "length timestampstr = 69" by (simp add: timestampstr_def ascii_def)
  then show ?thesis by (simp add: writeScriptString_def push_header_def as_int32_def Let_def)
qed

definition genesis_key_bytes :: bytes where
  "genesis_key_bytes = [0x04, 0x67, 0x8a, 0xfd, 0xb0, 0xfe, 0x55, 0x48, 0x27, 0x19, 0x67, 0xf1, 0xa6, 0x71, 0x30, 0xb7, 0x10, 0x5c, 0xd6, 0xa8, 0x28, 0xe0,
     0x39, 0x09, 0xa6, 0x79, 0x62, 0xe0, 0xea, 0x1f, 0x61, 0xde, 0xb6, 0x49, 0xf6, 0xbc, 0x3f, 0x4c, 0xef, 0x38, 0xc4, 0xf3, 0x55, 0x04, 0xe5, 0x1e, 0xc1, 0x12,
     0xde, 0x5c, 0x38, 0x4d, 0xf7, 0xba, 0x0b, 0x8d, 0x57, 0x8a, 0x4c, 0x70, 0x2b, 0x6b, 0xf1, 0x1d, 0x5f]"

lemma genesis_key_parsed: "parseHex genesis_key = genesis_key_bytes"
  by code_simp

lemma user_agent: "formatUserAgent pr name CLIENT_VERSION [] = ''/'' @ name @ '':'' @ pr 0 @ ''.'' @ pr 16 @ ''.'' @ pr 99 @ ''/''"
  by (simp add: formatUserAgent_def formatVersion_def CLIENT_VERSION_def)

text \<open>The scripts of the genesis transaction.\<close>

definition genesis_input :: bytes where
  "genesis_input = [0x04, 0xff, 0xff, 0x00, 0x1d, 0x01, 0x04, 0x45] @ timestampstr"

definition genesis_output :: bytes where
  "genesis_output = 0x41 # genesis_key_bytes @ [0xac]"

definition genesis_tx :: "digests \<Rightarrow> ostream \<Rightarrow> int \<Rightarrow> Transaction" where
  "genesis_tx dg os reward = computeHash_tx dg os (Transaction_new\<lparr>tx_version := 1,
     inputs := [TransactionInput_new\<lparr>signatureScript := genesis_input\<rparr>],
     outputs := [TransactionOutput_new\<lparr>out_value := word_of_int reward, scriptPublicKey := genesis_output\<rparr>]\<rparr>)"

lemma genesis_output_script: "writeScriptString os (parseHex genesis_key) @ [OP_CHECKSIG] = genesis_output"
proof -
  have "length genesis_key_bytes = 65" by (simp add: genesis_key_bytes_def)
  then show ?thesis by (simp add: genesis_key_parsed genesis_output_def writeScriptString_def push_header_def as_int32_def Let_def)
qed

lemma doCreate_genesis:
  "createGenesisBlock dg os ts n bs v reward = do {
     (root, m) \<leftarrow> merkle_build dg [genesis_tx dg os reward];
     Some \<lparr>blk_header = computeHash dg os (BlockHeader_new\<lparr>timestamp := ts, bits := bs, nonce := n, version := v, merkleRootHash := root\<rparr>),
       transactions = [genesis_tx dg os reward]\<rparr>
   }"
  by (simp add: createGenesisBlock_def genesis_output_script doCreateGenesisBlock_def genesis_number genesis_text
    genesis_tx_def genesis_input_def Let_def)

lemma merkle_build_one:
  assumes "tx_hash t \<noteq> uint256_null"
  shows "\<exists>m. merkle_build dg [t] = Some (tx_hash t, m)"
proof -
  have "getHash t = Some (tx_hash t)" using assms by (simp add: getHash_def)
  then have "merkle_build dg [t] = computeRoot (hashSiblingLeaves dg) [tx_hash t]" by (simp add: merkle_build_def)
  also have "\<dots> = Some (merkle_root (hashSiblingLeaves dg) [tx_hash t], equal_siblings (hashSiblingLeaves dg) [tx_hash t])"
    by (rule computeRoot_eq) simp
  finally show ?thesis by (simp add: merkle_root.simps)
qed

lemma genesis_block:
  assumes "tx_hash (genesis_tx dg os reward) \<noteq> uint256_null"
  shows "createGenesisBlock dg os ts n bs v reward = Some \<lparr>
    blk_header = computeHash dg os (BlockHeader_new\<lparr>timestamp := ts, bits := bs, nonce := n, version := v,
      merkleRootHash := tx_hash (genesis_tx dg os reward)\<rparr>),
    transactions = [genesis_tx dg os reward]\<rparr>"
  using merkle_build_one [OF assms, of dg] by (auto simp: doCreate_genesis)

end
