(* ===== verification/Reload.thy ===== *)
theory Reload
  imports BlockCache
begin

text \<open>
  \<open>BlockCacheImpl::load\<close>: what the entries of the database become. Loading stored entries fails no assertion and links each
  to the entry its header names as its parent; the heights are those that were stored. When every stored entry is one above the stored
  entry its header names, and a root has none (\<open>sound_index\<close>), the cache that results is consistent. Since a flush stores every
  entry of the index and no null pointer, a restart after it knows the same headers at the same heights.
\<close>

section \<open>Stored trees\<close>

text \<open>Entries as they are stored: each under the hash of its header, with its proof of work, and no pointers.\<close>

definition stored_items :: "big_number_ops \<Rightarrow> (uint256 \<times> BlockIndex) list \<Rightarrow> bool" where
  "stored_items bn items \<longleftrightarrow> distinct (map fst items) \<and>
     (\<forall>(h, b) \<in> set items. hash (header b) = h \<and> h \<noteq> uint256_null \<and> validateBlockHeader bn (header b) \<and> previous b = None \<and> skip b = None)"

text \<open>Their heights fit the parents their headers name.\<close>

definition sound_index :: "big_number_ops \<Rightarrow> (uint256 \<times> BlockIndex) list \<Rightarrow> bool" where
  "sound_index bn items \<longleftrightarrow> stored_items bn items \<and>
     (\<forall>(h, b) \<in> set items. case map_of items (previousBlockHash (header b)) of
        None \<Rightarrow> height b = 0 | Some b' \<Rightarrow> 0 \<le> height b' \<and> height b = height b' + 1)"

lemma stored_itemsD:
  assumes "stored_items bn items"
  shows "distinct (map fst items)" "(h, b) \<in> set items \<Longrightarrow> hash (header b) = h \<and> h \<noteq> uint256_null \<and> validateBlockHeader bn (header b) \<and>
      previous b = None \<and> skip b = None"
  using assms by (auto simp: stored_items_def)

lemma sound_indexD:
  assumes "sound_index bn items"
  shows "stored_items bn items"
    "(h, b) \<in> set items \<Longrightarrow> 0 \<le> height b"
    "(h, b) \<in> set items \<Longrightarrow> map_of items (previousBlockHash (header b)) = None \<Longrightarrow> height b = 0"
    "(h, b) \<in> set items \<Longrightarrow> map_of items (previousBlockHash (header b)) = Some b' \<Longrightarrow> height b = height b' + 1"
  using assms by (auto simp: sound_index_def split: option.splits)

section \<open>Adopting the entries\<close>

lemma update_new: "k \<notin> fst ` set al \<Longrightarrow> AList.update k v al = al @ [(k, v)]"
  by (induction al) auto

lemma adopt_blocks_zip:
  assumes "distinct (map fst items)" "fst ` set items \<inter> fst ` set (bc_blocks bc) = {}"
  shows "\<exists>bc'. adopt_blocks items bc = bc' \<and> bc_blocks bc' = bc_blocks bc @ zip (map fst items) (map Some [bc_next bc..<bc_next bc + length items]) \<and>
    (\<forall>i < length items. bc_heap bc' (bc_next bc + i) = snd (items ! i)) \<and> bc_next bc' = bc_next bc + length items \<and>
    (\<forall>p < bc_next bc. bc_heap bc' p = bc_heap bc p) \<and>
    bc_best bc' = bc_best bc \<and> bc_chain bc' = bc_chain bc \<and> bc_jobs bc' = bc_jobs bc \<and> bc_coins bc' = bc_coins bc"
  using assms
proof (induction items arbitrary: bc)
  case (Cons x items)
  obtain h b where x: "x = (h, b)" by fastforce
  let ?bc = "put_index (bc_next bc) b (bc\<lparr>bc_next := bc_next bc + 1, bc_blocks := AList.update h (Some (bc_next bc)) (bc_blocks bc)\<rparr>)"
  have new: "AList.update h (Some (bc_next bc)) (bc_blocks bc) = bc_blocks bc @ [(h, Some (bc_next bc))]"
    using Cons.prems(2) by (intro update_new) (auto simp: x)
  have "fst ` set items \<inter> fst ` set (bc_blocks ?bc) = {}" using Cons.prems by (auto simp: x new)
  moreover have "distinct (map fst items)" using Cons.prems(1) by simp
  ultimately obtain bc' where bc': "adopt_blocks items ?bc = bc'"
    "bc_blocks bc' = bc_blocks ?bc @ zip (map fst items) (map Some [bc_next ?bc..<bc_next ?bc + length items])"
    "\<forall>i < length items. bc_heap bc' (bc_next ?bc + i) = snd (items ! i)" "bc_next bc' = bc_next ?bc + length items"
    "\<forall>p < bc_next ?bc. bc_heap bc' p = bc_heap ?bc p"
    "bc_best bc' = bc_best ?bc" "bc_chain bc' = bc_chain ?bc" "bc_jobs bc' = bc_jobs ?bc" "bc_coins bc' = bc_coins ?bc"
    using Cons.IH by blast
  have "bc_heap bc' (bc_next bc + i) = snd ((x # items) ! i)" if "i < length (x # items)" for i
    using that bc'(3,5) by (cases i) (auto simp: x)
  moreover have "bc_blocks bc' = bc_blocks bc @ zip (map fst (x # items)) (map Some [bc_next bc..<bc_next bc + length (x # items)])"
    by (simp add: bc'(2) new x upt_conv_Cons del: upt_Suc)
  moreover have "bc_heap bc' p = bc_heap bc p" if "p < bc_next bc" for p using that bc'(5) by simp
  ultimately show ?case using bc' by (intro exI [of _ bc']) (simp add: x)
qed simp

section \<open>Linking the entries\<close>

definition cell_parent :: "(uint256 \<times> bref option) list \<Rightarrow> BlockIndex \<Rightarrow> bref option" where
  "cell_parent bl b = (case map_of bl (previousBlockHash (header b)) of None \<Rightarrow> None | Some q \<Rightarrow> q)"

lemma cell_parent_header: "header b = header b' \<Longrightarrow> cell_parent bl b = cell_parent bl b'"
  by (simp add: cell_parent_def)

lemma link_previous_all:
  assumes "\<forall>(h, r) \<in> set items. \<exists>p. r = Some p \<and> hash (header (bc_heap bc p)) = h \<and> h \<noteq> uint256_null \<and> previous (bc_heap bc p) = None"
    "distinct (map snd items)"
  shows "\<exists>bc'. link_previous items bc = Some bc' \<and> same_rest bc bc' \<and> bc_best bc' = bc_best bc \<and>
    (\<forall>p. bc_heap bc' p = (if Some p \<in> snd ` set items then (bc_heap bc p)\<lparr>previous := cell_parent (bc_blocks bc) (bc_heap bc p)\<rparr> else bc_heap bc p))"
  using assms
proof (induction items arbitrary: bc)
  case Nil
  then show ?case by (simp add: same_rest_def)
next
  case (Cons x items)
  obtain h p where x: "x = (h, Some p)" and p: "hash (header (bc_heap bc p)) = h" "h \<noteq> uint256_null" "previous (bc_heap bc p) = None"
    using Cons.prems(1) by fastforce
  define bc1 where "bc1 = (case map_of (bc_blocks bc) (previousBlockHash (header (bc_heap bc p))) of
    None \<Rightarrow> bc | Some q \<Rightarrow> put_index p ((bc_heap bc p)\<lparr>previous := q\<rparr>) bc)"
  have step: "link_previous (x # items) bc = link_previous items bc1"
    using p by (simp add: x index_getHash_def get_index_def bc1_def cong: option.case_cong)
  have heap: "bc_heap bc1 q = (if q = p then (bc_heap bc p)\<lparr>previous := cell_parent (bc_blocks bc) (bc_heap bc p)\<rparr> else bc_heap bc q)" for q
    using p(3) by (simp add: bc1_def cell_parent_def split: option.split)
  have rest: "same_rest bc bc1" "bc_best bc1 = bc_best bc" "bc_blocks bc1 = bc_blocks bc"
    by (simp_all add: bc1_def same_rest_def put_index_def split: option.split)
  have np: "Some p \<notin> snd ` set items" using Cons.prems(2) by (auto simp: x)
  have "\<exists>q. r = Some q \<and> hash (header (bc_heap bc1 q)) = k \<and> k \<noteq> uint256_null \<and> previous (bc_heap bc1 q) = None" if "(k, r) \<in> set items" for k r
  proof -
    obtain q where q: "r = Some q" "hash (header (bc_heap bc q)) = k" "k \<noteq> uint256_null" "previous (bc_heap bc q) = None"
      using Cons.prems(1) \<open>(k, r) \<in> set items\<close> by fastforce
    moreover have "q \<noteq> p" using np that q(1) by force
    ultimately show ?thesis by (simp add: heap)
  qed
  then have pre: "\<forall>(k, r) \<in> set items. \<exists>q. r = Some q \<and> hash (header (bc_heap bc1 q)) = k \<and> k \<noteq> uint256_null \<and> previous (bc_heap bc1 q) = None"
    by blast
  have "distinct (map snd items)" using Cons.prems(2) by simp
  from Cons.IH [OF pre this] obtain bc' where bc': "link_previous items bc1 = Some bc'" "same_rest bc1 bc'" "bc_best bc' = bc_best bc1"
    "\<forall>q. bc_heap bc' q = (if Some q \<in> snd ` set items then (bc_heap bc1 q)\<lparr>previous := cell_parent (bc_blocks bc1) (bc_heap bc1 q)\<rparr> else bc_heap bc1 q)"
    by blast
  have "bc_heap bc' q = (if Some q \<in> snd ` set (x # items) then (bc_heap bc q)\<lparr>previous := cell_parent (bc_blocks bc) (bc_heap bc q)\<rparr> else bc_heap bc q)" for q
    using bc'(4) np by (auto simp: heap x rest(3))
  then show ?case using bc'(1-3) rest step by (intro exI [of _ bc']) (simp add: same_rest_def)
qed

section \<open>Adding up the work\<close>

fun linkable :: "index_heap \<Rightarrow> bref set \<Rightarrow> bref list \<Rightarrow> bool" where
  "linkable H R [] \<longleftrightarrow> True"
| "linkable H R (p # ps) \<longleftrightarrow> p \<notin> R \<and> entry_linked H R p \<and> linkable H (insert p R) ps"

definition same_tree :: "index_heap \<Rightarrow> index_heap \<Rightarrow> bool" where
  "same_tree H H' \<longleftrightarrow> (\<forall>p. header (H' p) = header (H p) \<and> height (H' p) = height (H p) \<and> previous (H' p) = previous (H p) \<and> skip (H' p) = skip (H p))"

lemma same_tree_linked: "same_tree H H' \<Longrightarrow> entry_linked H' R p \<longleftrightarrow> entry_linked H R p"
  by (simp add: same_tree_def entry_linked_def split: option.split)

lemma same_tree_linkable: "same_tree H H' \<Longrightarrow> linkable H' R ps \<longleftrightarrow> linkable H R ps"
  by (induction ps arbitrary: R) (simp_all add: same_tree_linked)

definition near_root :: "index_heap \<Rightarrow> bref set \<Rightarrow> bref \<Rightarrow> bool" where
  "near_root H S p \<longleftrightarrow> skip (H p) = None \<and> (case previous (H p) of None \<Rightarrow> height (H p) = 0
     | Some q \<Rightarrow> q \<in> S \<and> height (H p) = height (H q) + 1 \<and> hash (header (H q)) = previousBlockHash (header (H p)))"

lemma near_root_linked: "near_root H (R \<union> S) p \<Longrightarrow> (\<And>q. q \<in> S \<Longrightarrow> height (H p) \<le> height (H q)) \<Longrightarrow> entry_linked H R p"
  by (force simp: near_root_def entry_linked_def split: option.splits)

lemma sorted_linkable:
  assumes "\<And>p. p \<in> set ps \<Longrightarrow> near_root H (R \<union> set ps) p" "sorted (map (\<lambda>p. height (H p)) ps)" "distinct ps" "set ps \<inter> R = {}"
  shows "linkable H R ps"
  using assms
proof (induction ps arbitrary: R)
  case (Cons p ps)
  have low: "height (H p) \<le> height (H q)" if "q \<in> set (p # ps)" for q using Cons.prems(2) that by auto
  have "near_root H (R \<union> set (p # ps)) p" by (rule Cons.prems(1)) simp
  then have "entry_linked H R p" using near_root_linked low by blast
  moreover have "linkable H (insert p R) ps"
  proof (rule Cons.IH)
    fix q assume "q \<in> set ps"
    then have "near_root H (R \<union> set (p # ps)) q" using Cons.prems(1) by simp
    moreover have "R \<union> set (p # ps) = insert p R \<union> set ps" by auto
    ultimately show "near_root H (insert p R \<union> set ps) q" by simp
  qed (use Cons.prems in auto)
  ultimately show ?case using Cons.prems(4) by simp
qed simp

text \<open>The header and the height of every entry, by its hash; null pointers in the index are no entries.\<close>

definition known :: "('d, 'f) BlockCache \<Rightarrow> uint256 \<Rightarrow> (BlockHeader \<times> int) option" where
  "known bc h = map_option (\<lambda>p. (header (bc_heap bc p), height (bc_heap bc p))) (getBlockIndex h bc)"

lemma getBlockIndex_Some: "getBlockIndex h bc = Some p \<longleftrightarrow> map_of (bc_blocks bc) h = Some (Some p)"
  by (auto simp: getBlockIndex_def split: option.splits)

text \<open>Every entry points to the entry its header names as its parent, if the index has one.\<close>

definition all_linked :: "('d, 'f) BlockCache \<Rightarrow> bool" where
  "all_linked bc \<longleftrightarrow> (\<forall>p \<in> refs bc. previous (bc_heap bc p) = getBlockIndex (previousBlockHash (header (bc_heap bc p))) bc)"

context cache_numbers
begin

lemma update_infos_all:
  assumes "header_tree (bc_heap bc) R" "best_ok (bc_heap bc) R (bc_best bc)" "linkable (bc_heap bc) R ps"
  shows "\<exists>bc'. update_infos cx ps bc = Some bc' \<and> header_tree (bc_heap bc') (R \<union> set ps) \<and> best_ok (bc_heap bc') (R \<union> set ps) (bc_best bc') \<and>
    same_rest bc bc' \<and> same_tree (bc_heap bc) (bc_heap bc')"
  using assms
proof (induction ps arbitrary: bc R)
  case Nil
  then show ?case by (simp add: same_rest_def same_tree_def)
next
  case (Cons p ps)
  have p: "p \<notin> R" "entry_linked (bc_heap bc) R p" "linkable (bc_heap bc) (insert p R) ps" using Cons.prems(3) by simp_all
  obtain b bc1 where u: "updateBlockInfo cx p bc = Some bc1" "bc_heap bc1 = (bc_heap bc)(p := b)" "header b = header (bc_heap bc p)"
    "previous b = previous (bc_heap bc p)" "height b = height (bc_heap bc p)" "entry_ok' ((bc_heap bc)(p := b)) R p" "same_rest bc bc1"
    "bc_best bc1 = (case bc_best bc of None \<Rightarrow> Some p
       | Some m \<Rightarrow> if bn_greater (v_bn (c_val cx)) (chainWork b) (chainWork (((bc_heap bc)(p := b)) m)) then Some p else Some m)"
    using updateBlockInfo_entry [OF Cons.prems(1) p(1,2)] by blast
  have skip: "skip b = skip (bc_heap bc p)" using u(6) p(2) by (simp add: entry_ok'_def entry_linked_def)
  have same: "same_tree (bc_heap bc) (bc_heap bc1)" using u(2-5) skip by (simp add: same_tree_def)
  have work: "\<forall>q \<in> R. length (chainWork (bc_heap bc q)) = 32" using header_tree_parent(3) [OF Cons.prems(1)] by blast
  have nonneg: "0 \<le> height b"
  proof (cases "previous (bc_heap bc p)")
    case (Some q)
    then have "q \<in> R" "height b = height (bc_heap bc q) + 1" using p(2) u(5) by (simp_all add: entry_linked_def)
    then show ?thesis using header_tree_parent(1) [OF Cons.prems(1)] by fastforce
  qed (use p(2) u(5) in \<open>simp add: entry_linked_def\<close>)
  have tree: "header_tree (bc_heap bc1) (insert p R)"
    unfolding u(2) by (rule header_tree_insert [OF Cons.prems(1) p(1) nonneg u(6)])
  have best: "best_ok (bc_heap bc1) (insert p R) (bc_best bc1)"
    unfolding u(2,8) by (rule updateBlockInfo_best [OF Cons.prems(2) p(1) u(6) work])
  have "linkable (bc_heap bc1) (insert p R) ps" using p(3) same_tree_linkable [OF same] by blast
  from Cons.IH [OF tree best this] obtain bc' where "update_infos cx ps bc1 = Some bc'" "header_tree (bc_heap bc') (insert p R \<union> set ps)"
    "best_ok (bc_heap bc') (insert p R \<union> set ps) (bc_best bc')" "same_rest bc1 bc'" "same_tree (bc_heap bc1) (bc_heap bc')" by blast
  then show ?case using u(1,7) same by (intro exI [of _ bc']) (simp add: same_rest_def same_tree_def)
qed

lemma update_infos_runs:
  "\<exists>bc'. update_infos cx ps bc = Some bc' \<and> same_rest bc bc' \<and> same_tree (bc_heap bc) (bc_heap bc') \<and>
     (bc_best bc \<noteq> None \<or> ps \<noteq> [] \<longrightarrow> bc_best bc' \<noteq> None)"
proof (induction ps arbitrary: bc)
  case Nil
  then show ?case by (simp add: same_rest_def same_tree_def)
next
  case (Cons p ps)
  obtain w where w: "calcBlockProof (c_bits cx) (bits (header (bc_heap bc p))) = Inr w"
    using calcBlockProof_val [of "bits (header (bc_heap bc p))"] by blast
  obtain bc1 where u: "updateBlockInfo cx p bc = Some bc1" "same_rest bc bc1" "same_tree (bc_heap bc) (bc_heap bc1)" "bc_best bc1 \<noteq> None"
    by (cases "previous (bc_heap bc p)"; cases "bc_best bc")
      (auto simp: updateBlockInfo_def Let_def get_index_def w same_rest_def same_tree_def put_index_def)
  obtain bc' where "update_infos cx ps bc1 = Some bc'" "same_rest bc1 bc'" "same_tree (bc_heap bc1) (bc_heap bc')" "bc_best bc' \<noteq> None"
    using Cons.IH [of bc1] u(4) by blast
  then show ?case using u(1-3) by (intro exI [of _ bc']) (simp add: same_rest_def same_tree_def)
qed

text \<open>The state in which the work is added up.\<close>

lemma sortOutBlocks_linked:
  assumes stored: "stored_items (v_bn (c_val cx)) items" and new: "bc_blocks bc = []" "bc_best bc = None"
  shows "\<exists>bc2. sortOutBlocks cx (adopt_blocks items bc) = updateChainWork cx bc2 \<and>
    bc_blocks bc2 = zip (map fst items) (map Some [bc_next bc..<bc_next bc + length items]) \<and>
    (\<forall>i < length items. bc_heap bc2 (bc_next bc + i) = (snd (items ! i))\<lparr>previous := cell_parent (bc_blocks bc2) (snd (items ! i))\<rparr>) \<and>
    bc_next bc2 = bc_next bc + length items \<and> bc_best bc2 = None \<and> bc_chain bc2 = bc_chain bc \<and> bc_jobs bc2 = bc_jobs bc \<and> bc_coins bc2 = bc_coins bc"
proof -
  let ?n = "bc_next bc" and ?cells = "zip (map fst items) (map Some [bc_next bc..<bc_next bc + length items])"
  obtain bc1 where a: "adopt_blocks items bc = bc1" "bc_blocks bc1 = ?cells" "\<forall>i < length items. bc_heap bc1 (?n + i) = snd (items ! i)"
    "bc_next bc1 = ?n + length items" "bc_best bc1 = None" "bc_chain bc1 = bc_chain bc" "bc_jobs bc1 = bc_jobs bc" "bc_coins bc1 = bc_coins bc"
    using adopt_blocks_zip [OF stored_itemsD(1) [OF stored], of bc] new by auto
  have len: "length (map fst items) = length (map Some [?n..<?n + length items])" by simp
  have look: "map_of ?cells (fst (items ! i)) = Some (Some (?n + i))" if "i < length items" for i
    using map_of_zip_nth [OF len stored_itemsD(1) [OF stored], of i] that by simp
  have item: "(fst (items ! i), snd (items ! i)) \<in> set items" if "i < length items" for i using that by simp
  have cell: "\<exists>i < length items. r = Some (?n + i) \<and> h = fst (items ! i)" if "(h, r) \<in> set ?cells" for h r
    using that by (auto simp: in_set_zip)
  have valid: "validateBlockIndexes cx bc1 = Some bc1"
  proof -
    have "validateBlockIndex (v_bn (c_val cx)) (get_index bc1 (the r)) \<and> r \<noteq> None" if c: "(h, r) \<in> set ?cells" for h r
    proof -
      obtain i where "i < length items" "r = Some (?n + i)" using cell [OF c] by blast
      then show ?thesis using a(3) stored_itemsD(2) [OF stored item] by (simp add: validateBlockIndex_def get_index_def)
    qed
    then have "filter (\<lambda>(h, r). validateBlockIndex (v_bn (c_val cx)) (get_index bc1 (the r))) ?cells = ?cells" "list_all (\<lambda>(h, r). r \<noteq> None) ?cells"
      by (auto simp: filter_id_conv list_all_iff)
    then show ?thesis by (simp add: validateBlockIndexes_def a(2))
  qed
  have pre: "\<forall>(h, r) \<in> set ?cells. \<exists>p. r = Some p \<and> hash (header (bc_heap bc1 p)) = h \<and> h \<noteq> uint256_null \<and> previous (bc_heap bc1 p) = None"
  proof clarify
    fix h r assume "(h, r) \<in> set ?cells"
    from cell [OF this] obtain i where i: "i < length items" "r = Some (?n + i)" "h = fst (items ! i)" by blast
    from stored_itemsD(2) [OF stored item [OF i(1)]] show "\<exists>p. r = Some p \<and> hash (header (bc_heap bc1 p)) = h \<and> h \<noteq> uint256_null \<and> previous (bc_heap bc1 p) = None"
      using i a(3) by simp
  qed
  obtain bc2 where l: "link_previous ?cells bc1 = Some bc2" "same_rest bc1 bc2" "bc_best bc2 = None"
    "\<forall>p. bc_heap bc2 p = (if Some p \<in> snd ` set ?cells then (bc_heap bc1 p)\<lparr>previous := cell_parent ?cells (bc_heap bc1 p)\<rparr> else bc_heap bc1 p)"
    using link_previous_all [OF pre] by (auto simp: a(2,5) distinct_map)
  have heap: "bc_heap bc2 (?n + i) = (snd (items ! i))\<lparr>previous := cell_parent ?cells (snd (items ! i))\<rparr>" if "i < length items" for i
  proof -
    have "(fst (items ! i), Some (?n + i)) \<in> set ?cells" using look [OF that] by (rule map_of_SomeD)
    then have "Some (?n + i) \<in> snd ` set ?cells" by force
    then show ?thesis using l(4) a(3) that by simp
  qed
  have blocks: "bc_blocks bc2 = ?cells" using l(2) a(2) by (simp add: same_rest_def)
  have "updatePreviousBlock bc1 = Some bc2" using l(1) unfolding updatePreviousBlock_def a(2) .
  then have "sortOutBlocks cx (adopt_blocks items bc) = updateChainWork cx bc2" unfolding sortOutBlocks_def a(1) valid by simp
  moreover have "bc_next bc2 = ?n + length items" "bc_chain bc2 = bc_chain bc" "bc_jobs bc2 = bc_jobs bc" "bc_coins bc2 = bc_coins bc"
    using l(2) a(4,6-8) by (simp_all add: same_rest_def)
  ultimately show ?thesis using heap blocks l(3) unfolding blocks [symmetric] by blast
qed

text \<open>The cells of a zipped index.\<close>

lemma zip_cells:
  assumes "distinct (map fst items)" "bl = zip (map fst items) (map Some [n..<n + length items])"
  shows "i < length items \<Longrightarrow> map_of bl (fst (items ! i)) = Some (Some (n + i))"
    "map_of bl h = Some r \<Longrightarrow> \<exists>i < length items. r = Some (n + i) \<and> h = fst (items ! i)"
    "map_of bl h = None \<longleftrightarrow> map_of items h = None" "map (\<lambda>(h, r). the r) bl = [n..<n + length items]"
    "list_all (\<lambda>(h, r). r \<noteq> None) bl" "distinct (map fst bl)"
proof -
  have len: "length (map fst items) = length (map Some [n..<n + length items])" by simp
  show "i < length items \<Longrightarrow> map_of bl (fst (items ! i)) = Some (Some (n + i))"
    using map_of_zip_nth [OF len assms(1), of i] assms(2) by simp
  show "map_of bl h = Some r \<Longrightarrow> \<exists>i < length items. r = Some (n + i) \<and> h = fst (items ! i)"
    by (drule map_of_SomeD) (auto simp: assms(2) in_set_zip)
  have f: "map fst bl = map fst items" by (simp add: assms(2))
  then show "map_of bl h = None \<longleftrightarrow> map_of items h = None" unfolding map_of_eq_None_iff by (metis list.set_map)
  show "map (\<lambda>(h, r). the r) bl = [n..<n + length items]" by (auto intro: nth_equalityI simp: assms(2))
  show "list_all (\<lambda>(h, r). r \<noteq> None) bl" by (auto simp: assms(2) list_all_iff in_set_zip)
  show "distinct (map fst bl)" using assms(1) f by simp
qed

text \<open>Sorting out never fails an assertion on stored entries: every entry keeps its header and its height and is linked to the entry its
  header names.\<close>

lemma sortOutBlocks_runs:
  assumes stored: "stored_items (v_bn (c_val cx)) items" and new: "bc_blocks bc = []" "bc_best bc = None"
  shows "\<exists>bc'. sortOutBlocks cx (adopt_blocks items bc) = Some bc' \<and> all_linked bc' \<and>
    (\<forall>h. known bc' h = map_option (\<lambda>b. (header b, height b)) (map_of items h))"
proof -
  let ?n = "bc_next bc"
  obtain bc2 where l: "sortOutBlocks cx (adopt_blocks items bc) = updateChainWork cx bc2"
    "bc_blocks bc2 = zip (map fst items) (map Some [?n..<?n + length items])"
    "\<forall>i < length items. bc_heap bc2 (?n + i) = (snd (items ! i))\<lparr>previous := cell_parent (bc_blocks bc2) (snd (items ! i))\<rparr>"
    using sortOutBlocks_linked [OF assms] by blast
  note z = zip_cells [OF stored_itemsD(1) [OF stored] l(2)]
  define ps where "ps = sort_key (\<lambda>p. height (get_index bc2 p)) (map (\<lambda>(h, r). the r) (bc_blocks bc2))"
  obtain bc3 where u: "update_infos cx ps bc2 = Some bc3" "same_rest bc2 bc3" "same_tree (bc_heap bc2) (bc_heap bc3)" "ps \<noteq> [] \<Longrightarrow> bc_best bc3 \<noteq> None"
    using update_infos_runs [of ps bc2] by blast
  have blocks: "bc_blocks bc3 = bc_blocks bc2" using u(2) by (simp add: same_rest_def)
  have "length ps = length (bc_blocks bc2)" by (simp add: ps_def)
  then have "ps = [] \<longleftrightarrow> bc_blocks bc2 = []" by auto
  then have "bc_best bc3 \<noteq> None \<or> bc_blocks bc3 = []" using u(4) blocks by auto
  then have run: "updateChainWork cx bc2 = Some bc3" using u(1) z(5) unfolding updateChainWork_def ps_def [symmetric] by simp
  have entry: "\<exists>i < length items. p = ?n + i" if "p \<in> refs bc3" for p
    using that z(2) unfolding refs_def blocks by blast
  have f: "header (bc_heap bc3 (?n + i)) = header (snd (items ! i))" "height (bc_heap bc3 (?n + i)) = height (snd (items ! i))"
    "previous (bc_heap bc3 (?n + i)) = cell_parent (bc_blocks bc2) (snd (items ! i))" "skip (bc_heap bc3 (?n + i)) = skip (snd (items ! i))"
    if "i < length items" for i using that u(3) l(3) by (simp_all add: same_tree_def)
  have "all_linked bc3"
    unfolding all_linked_def
  proof
    fix p assume "p \<in> refs bc3"
    then obtain i where "i < length items" "p = ?n + i" using entry by blast
    then show "previous (bc_heap bc3 p) = getBlockIndex (previousBlockHash (header (bc_heap bc3 p))) bc3"
      using f by (simp add: getBlockIndex_def cell_parent_def blocks)
  qed
  moreover have "known bc3 h = map_option (\<lambda>b. (header b, height b)) (map_of items h)" for h
  proof (cases "map_of items h")
    case None
    moreover from this have "map_of (bc_blocks bc2) h = None" by (rule iffD2 [OF z(3)])
    ultimately show ?thesis by (simp only: option.map known_def getBlockIndex_def blocks option.case)
  next
    case (Some b)
    then obtain i where i: "i < length items" "h = fst (items ! i)" "b = snd (items ! i)"
      using map_of_SomeD [OF Some] by (metis fst_conv in_set_conv_nth snd_conv)
    then show ?thesis using Some f [OF i(1)] z(1) [OF i(1)] by (simp add: known_def getBlockIndex_def blocks)
  qed
  ultimately show ?thesis using l(1) run by (intro exI [of _ bc3]) simp
qed

text \<open>What sorting out does to the entries of a sound index.\<close>

lemma sortOutBlocks_sound:
  assumes sound: "sound_index (v_bn (c_val cx)) items" and new: "bc_blocks bc = []" "bc_best bc = None"
  shows "\<exists>bc'. sortOutBlocks cx (adopt_blocks items bc) = Some bc' \<and> distinct (map fst (bc_blocks bc')) \<and>
    (\<forall>h p. map_of (bc_blocks bc') h = Some (Some p) \<longrightarrow> p < bc_next bc') \<and>
    header_tree (bc_heap bc') (refs bc') \<and> best_ok (bc_heap bc') (refs bc') (bc_best bc') \<and>
    bc_chain bc' = bc_chain bc \<and> bc_jobs bc' = bc_jobs bc \<and> bc_coins bc' = bc_coins bc"
proof -
  let ?n = "bc_next bc"
  note stored = sound_indexD(1) [OF sound]
  obtain bc2 where l: "sortOutBlocks cx (adopt_blocks items bc) = updateChainWork cx bc2"
    "bc_blocks bc2 = zip (map fst items) (map Some [?n..<?n + length items])"
    "\<forall>i < length items. bc_heap bc2 (?n + i) = (snd (items ! i))\<lparr>previous := cell_parent (bc_blocks bc2) (snd (items ! i))\<rparr>"
    "bc_next bc2 = ?n + length items" "bc_best bc2 = None" "bc_chain bc2 = bc_chain bc" "bc_jobs bc2 = bc_jobs bc" "bc_coins bc2 = bc_coins bc"
    using sortOutBlocks_linked [OF stored new] by blast
  note z = zip_cells [OF stored_itemsD(1) [OF stored] l(2)]
  have item: "(fst (items ! i), snd (items ! i)) \<in> set items" if "i < length items" for i using that by simp
  have near: "near_root (bc_heap bc2) {?n..<?n + length items} (?n + i)" if i: "i < length items" for i
  proof (cases "map_of items (previousBlockHash (header (snd (items ! i))))")
    case None
    then have "map_of (bc_blocks bc2) (previousBlockHash (header (snd (items ! i)))) = None" by (rule iffD2 [OF z(3)])
    then have "cell_parent (bc_blocks bc2) (snd (items ! i)) = None" unfolding cell_parent_def by (simp only: option.case)
    then show ?thesis using stored_itemsD(2) [OF stored item [OF i]] sound_indexD(3) [OF sound item [OF i]] None l(3) i by (simp add: near_root_def)
  next
    case (Some b')
    then obtain j where j: "j < length items" "previousBlockHash (header (snd (items ! i))) = fst (items ! j)" "b' = snd (items ! j)"
      using map_of_SomeD [OF Some] by (metis fst_conv in_set_conv_nth snd_conv)
    then have "cell_parent (bc_blocks bc2) (snd (items ! i)) = Some (?n + j)" using z(1) [OF j(1)] by (simp add: cell_parent_def)
    moreover have "height (snd (items ! i)) = height b' + 1" using sound_indexD(4) [OF sound item [OF i] Some] .
    ultimately show ?thesis using stored_itemsD(2) [OF stored item [OF i]] stored_itemsD(2) [OF stored item [OF j(1)]] j l(3) i
      by (simp add: near_root_def)
  qed
  define ps where "ps = sort_key (\<lambda>p. height (get_index bc2 p)) (map (\<lambda>(h, r). the r) (bc_blocks bc2))"
  have ps: "ps = sort_key (\<lambda>p. height (bc_heap bc2 p)) [?n..<?n + length items]" by (simp add: ps_def z(4) get_index_def)
  then have set: "set ps = {?n..<?n + length items}" by simp
  have range: "\<exists>i < length items. p = ?n + i" if "p \<in> {?n..<?n + length items}" for p
    using that by (intro exI [of _ "p - ?n"]) auto
  have "linkable (bc_heap bc2) {} ps"
  proof (rule sorted_linkable)
    fix p assume "p \<in> set ps"
    then obtain i where "p = ?n + i" "i < length items" using range unfolding set by blast
    then show "near_root (bc_heap bc2) ({} \<union> set ps) p" using near set by simp
  qed (simp_all add: ps)
  then obtain bc3 where u: "update_infos cx ps bc2 = Some bc3" "header_tree (bc_heap bc3) (set ps)" "best_ok (bc_heap bc3) (set ps) (bc_best bc3)"
    "same_rest bc2 bc3"
    using update_infos_all [of bc2 "{}" ps] l(5) by (auto simp: header_tree_def best_ok_def)
  have blocks3: "bc_blocks bc3 = bc_blocks bc2" "bc_next bc3 = ?n + length items" using u(4) l(4) by (simp_all add: same_rest_def)
  have refs: "refs bc3 = set ps"
  proof (rule set_eqI, rule iffI)
    fix p assume "p \<in> refs bc3"
    then obtain h where "map_of (bc_blocks bc2) h = Some (Some p)" unfolding refs_def blocks3 by blast
    from z(2) [OF this] show "p \<in> set ps" unfolding set by auto
  next
    fix p assume "p \<in> set ps"
    then obtain i where "i < length items" "p = ?n + i" using range unfolding set by blast
    then show "p \<in> refs bc3" unfolding refs_def blocks3 using z(1) by blast
  qed
  have best: "bc_best bc3 \<noteq> None \<or> bc_blocks bc3 = []" using u(3) set by (auto simp: best_ok_def blocks3 l(2) split: option.splits)
  then have run: "updateChainWork cx bc2 = Some bc3" using u(1) z(5) unfolding updateChainWork_def ps_def [symmetric] by simp
  have "p < bc_next bc3" if "map_of (bc_blocks bc2) h = Some (Some p)" for h p
    using z(2) [OF that] by (auto simp: blocks3)
  moreover have "bc_chain bc3 = bc_chain bc" "bc_jobs bc3 = bc_jobs bc" "bc_coins bc3 = bc_coins bc"
    using u(4) l(6-8) by (simp_all add: same_rest_def)
  ultimately show ?thesis using run l(1) z(6) u(2,3) unfolding refs [symmetric] blocks3(1) [symmetric] by auto
qed

lemma known_hash:
  assumes "stored_items bn items" "\<forall>h. known bc' h = map_option (\<lambda>b. (header b, height b)) (map_of items h)"
    and "map_of (bc_blocks bc') h = Some (Some p)"
  shows "hash (header (bc_heap bc' p)) = h" "h \<noteq> uint256_null"
    "\<exists>b. map_of items h = Some b \<and> header b = header (bc_heap bc' p) \<and> height b = height (bc_heap bc' p)"
proof -
  obtain b where b: "map_of items h = Some b" "header (bc_heap bc' p) = header b" "height (bc_heap bc' p) = height b"
    using assms(2) [rule_format, of h] assms(3) by (cases "map_of items h") (auto simp: known_def getBlockIndex_def)
  then show "hash (header (bc_heap bc' p)) = h" "h \<noteq> uint256_null"
    "\<exists>b. map_of items h = Some b \<and> header b = header (bc_heap bc' p) \<and> height b = height (bc_heap bc' p)"
    using stored_itemsD(2) [OF assms(1) map_of_SomeD [OF b(1)]] by simp_all
qed

lemma sortOutBlocks_ok:
  assumes sound: "sound_index (v_bn (c_val cx)) items"
    and new: "bc_blocks bc = []" "bc_best bc = None" "bc_chain bc = []" "bc_jobs bc = []"
  shows "\<exists>bc'. sortOutBlocks cx (adopt_blocks items bc) = Some bc' \<and> cache_ok bc' \<and> bc_coins bc' = bc_coins bc \<and> bc_chain bc' = [] \<and>
    bc_jobs bc' = []"
proof -
  note stored = sound_indexD(1) [OF sound]
  obtain bc' where b: "sortOutBlocks cx (adopt_blocks items bc) = Some bc'" "distinct (map fst (bc_blocks bc'))"
    "\<forall>h p. map_of (bc_blocks bc') h = Some (Some p) \<longrightarrow> p < bc_next bc'"
    "header_tree (bc_heap bc') (refs bc')" "best_ok (bc_heap bc') (refs bc') (bc_best bc')"
    "bc_chain bc' = []" "bc_jobs bc' = []" "bc_coins bc' = bc_coins bc"
    using sortOutBlocks_sound [OF sound new(1,2)] unfolding new(3,4) by blast
  have k: "\<forall>h. known bc' h = map_option (\<lambda>b. (header b, height b)) (map_of items h)" "all_linked bc'"
    using sortOutBlocks_runs [OF stored new(1,2)] b(1) by auto
  note hash = known_hash [OF stored k(1)]
  have "roots_ok (bc_heap bc') (refs bc')"
    unfolding roots_ok_def
  proof (intro ballI impI disjI2)
    fix p q assume p: "p \<in> refs bc'" "previous (bc_heap bc' p) = None"
      and q: "q \<in> refs bc'" "hash (header (bc_heap bc' q)) = previousBlockHash (header (bc_heap bc' p))"
    obtain h where h: "map_of (bc_blocks bc') h = Some (Some q)" using q(1) by (auto simp: refs_def)
    then have "getBlockIndex (previousBlockHash (header (bc_heap bc' p))) bc' = Some q"
      using hash(1) [OF h] q(2) by (simp add: getBlockIndex_Some del: map_of_eq_Some_iff)
    then show "p < q" using k(2) p unfolding all_linked_def by auto
  qed
  then have "cache_ok bc'" using b(2-7) hash(1) by (simp add: cache_ok_def linked_def del: map_of_eq_Some_iff)
  then show ?thesis using b by blast
qed

end

section \<open>The chain after loading\<close>

lemma BlockCache_new_fields [simp]:
  "bc_db (BlockCache_new H cv db fs) = db" "bc_storage (BlockCache_new H cv db fs) = BlockStorage_new" "bc_coins (BlockCache_new H cv db fs) = cv"
  "bc_blocks (BlockCache_new H cv db fs) = []" "bc_best (BlockCache_new H cv db fs) = None" "bc_chain (BlockCache_new H cv db fs) = []"
  "bc_jobs (BlockCache_new H cv db fs) = []" "refs (BlockCache_new H cv db fs) = {}"
  by (simp_all add: BlockCache_new_def refs_def)

lemma BlockCache_new_ok: "cache_ok (BlockCache_new H cv db fs)"
  by (simp add: cache_ok_def header_tree_def roots_ok_def best_ok_def linked_def)

lemma cache_chain_ok:
  assumes "cache_ok bc" "p \<in> refs bc" "chain_setTip (bc_heap bc) (bc_chain bc) (Some p) = Some ch"
  shows "cache_ok (bc\<lparr>bc_chain := ch\<rparr>) \<and> refs (bc\<lparr>bc_chain := ch\<rparr>) = refs bc"
proof -
  note tree = cache_okD(4) [OF assms(1)]
  have "ch = chain_of (bc_heap bc) p" using setTip_chain_of [OF tree assms(2) cache_okD(3) [OF assms(1)]] assms(3) by simp
  then show ?thesis
    using linked_chain_of [OF tree assms(2)] cache_okD(7) [OF assms(1)] by (intro cache_ok_same [OF assms(1)]) simp_all
qed

lemma cache_no_chain_ok: "cache_ok bc \<Longrightarrow> cache_ok (bc\<lparr>bc_chain := []\<rparr>)"
  by (rule conjunct1 [OF cache_ok_same]) (use cache_okD(7) in \<open>auto simp: linked_def\<close>)

lemma cell_chain_ok:
  assumes ok: "cache_ok bc" and cell: "map_of (bc_blocks bc) h = Some r" and run: "chain_setTip (bc_heap bc) (bc_chain bc) r = Some ch"
  shows "cache_ok (bc\<lparr>bc_chain := ch\<rparr>)"
proof (cases r)
  case None
  then have "ch = []" using run by (simp add: chain_setTip_def)
  then show ?thesis using cache_no_chain_ok [OF ok] by simp
next
  case (Some p)
  then show ?thesis using cache_chain_ok [OF ok _ run [unfolded Some]] cache_okD(5) [OF ok] cell by blast
qed

lemma loadChainTip_ok:
  assumes ok: "cache_ok bc" and run: "loadChainTip bc = Some (b, bc')"
  shows "cache_ok bc'"
proof (cases "bestBlockHash (coins (bc_coins bc)) = uint256_null")
  case True
  then show ?thesis using ok run by (simp add: loadChainTip_def Let_def)
next
  case False
  then obtain r ch where "map_of (bc_blocks bc) (bestBlockHash (coins (bc_coins bc))) = Some r"
    "chain_setTip (bc_heap bc) (bc_chain bc) r = Some ch" "bc' = bc\<lparr>bc_chain := ch\<rparr>"
    using run by (auto simp: loadChainTip_def Let_def split: option.splits bind_splits)
  then show ?thesis using cell_chain_ok [OF ok] by simp
qed

context cache_numbers
begin

lemma loadGenesisBlock_ok:
  assumes ok: "cache_ok bc" and g: "previousBlockHash (blk_header (genesisBlock cx)) \<noteq> hash (blk_header (genesisBlock cx))"
    and run: "loadGenesisBlock cx late bc = Some bc'"
  shows "cache_ok bc'"
proof (cases "map_of (bc_blocks bc) (hash (blk_header (genesisBlock cx)))")
  case None
  then obtain p bc1 bc2 bc3 ch where r: "addBlockIndex cx late (blk_header (genesisBlock cx)) bc = Some (Some p, bc1)"
    "updateBlockIndex p (genesisBlock cx) bc1 = Some bc2" "saveBlock cx (genesisBlock cx) p bc2 = Some bc3"
    "chain_setTip (bc_heap bc3) (bc_chain bc3) (Some p) = Some ch" "cache_flush cx (bc3\<lparr>bc_chain := ch\<rparr>) = Some bc'"
    using run by (auto simp: loadGenesisBlock_def split: bind_splits if_splits)
  have "cache_ok bc1" "p \<in> refs bc1" using addBlockIndex_ok [OF ok g r(1)] by simp_all
  then have "cache_ok bc2" "p \<in> refs bc2" using updateBlockIndex_ok [OF _ r(2)] by simp_all
  then have "cache_ok bc3" "p \<in> refs bc3" using saveBlock_ok [OF _ r(3)] by simp_all
  then have "cache_ok (bc3\<lparr>bc_chain := ch\<rparr>)" using cache_chain_ok [OF _ _ r(4)] by simp
  from only_flushed_ok [OF this cache_flush_only [OF r(5)]] show ?thesis by simp
next
  case (Some r)
  then obtain ch where "chain_setTip (bc_heap bc) (bc_chain bc) r = Some ch" "bc' = bc\<lparr>bc_chain := ch\<rparr>"
    using run by (auto simp: loadGenesisBlock_def split: bind_splits if_splits)
  then show ?thesis using cell_chain_ok [OF ok Some] by simp
qed

text \<open>Loading a sound index.\<close>

lemma cache_load_ok:
  assumes data: "loadAll (c_index cx) (dk_digests (c_disk cx)) db IndexesData_new = Some data" "sound_index (v_bn (c_val cx)) (ix_blocks data)"
    and g: "previousBlockHash (blk_header (genesisBlock cx)) \<noteq> hash (blk_header (genesisBlock cx))"
    and run: "cache_load cx late (BlockCache_new H cv db fs) = Some (ok, bc')"
  shows "cache_ok bc'"
proof -
  let ?bc = "(BlockCache_new H cv db fs)\<lparr>bc_storage := storage_load (ix_files data) (ix_lastBlockFile data) BlockStorage_new, bc_blocks := []\<rparr>"
  obtain bc1 where s: "sortOutBlocks cx (adopt_blocks (ix_blocks data) ?bc) = Some bc1" "cache_ok bc1"
    using sortOutBlocks_ok [OF data(2), of ?bc] by auto
  obtain cv' bc2 b where "loadGenesisBlock cx late (bc1\<lparr>bc_coins := cv'\<rparr>) = Some bc2" "loadChainTip bc2 = Some (b, bc')"
    using run data(1) s(1) by (auto simp: cache_load_def Let_def split: bind_splits)
  then show ?thesis using loadChainTip_ok [OF loadGenesisBlock_ok [OF conjunct1 [OF coins_ok [OF s(2)]] g]] by blast
qed

end

section \<open>From the disk back to the cache\<close>

text \<open>Every entry the loader finds is one that was stored, and no hash comes twice.\<close>

definition from_stored :: "ostream \<Rightarrow> digests \<Rightarrow> IndexesData \<Rightarrow> bool" where
  "from_stored os dg d \<longleftrightarrow> distinct (map fst (ix_blocks d)) \<and>
     (\<forall>h b. map_of (ix_blocks d) h = Some b \<longrightarrow> (\<exists>x. storable os dg x \<and> hash (header x) = h \<and> b = restored x))"

lemma from_stored_add:
  assumes "from_stored os dg d" "storable os dg x"
  shows "from_stored os dg (d\<lparr>ix_blocks := AList.update (hash (header x)) (restored x) (ix_blocks d)\<rparr>)"
  using assms by (auto simp: from_stored_def distinct_update update_conv')

context streams
begin

lemma load_entries_stored:
  assumes "list_all (entry_wf os dg) es" "db_in cx = ist" "db_out cx = os" "load_entries cx dg es d = Some d'" "from_stored os dg d"
  shows "from_stored os dg d'"
  using assms(1,4,5)
proof (induction es arbitrary: d)
  case (Cons e es)
  obtain k v where e: "e = (k, v)" by fastforce
  have wf: "entry_wf os dg (k, v)" and rest: "list_all (entry_wf os dg) es" using Cons.prems(1) e by simp_all
  consider b where "storable os dg b" "k = block_key os (hash (header b))" "write_index os b = Some v"
    | i where "loadBlockFileInfo ist k v = Some i" "k \<noteq> []" "k ! 0 = DB_BLOCK_FILES"
    | "k \<noteq> []" "k ! 0 \<noteq> DB_BLOCK_INDEX" "k ! 0 \<noteq> DB_BLOCK_FILES"
    using wf loadBlockFileInfo_ok by (fastforce simp: entry_wf_def)
  then show ?case
  proof cases
    case 1
    have "hash (header b) \<noteq> uint256_null" using 1(1) by (simp add: storable_def)
    then have "load_entries cx dg es (d\<lparr>ix_blocks := AList.update (hash (header b)) (restored b) (ix_blocks d)\<rparr>) = Some d'"
      using Cons.prems(2) loadBlockIndex_ok [OF 1(1,3)] by (simp add: e 1(2) load_entries_Cons assms(2,3) index_getHash_def restored_def)
    then show ?thesis using Cons.IH [OF rest] from_stored_add [OF Cons.prems(3) 1(1)] by blast
  next
    case 2
    then have "load_entries cx dg es (d\<lparr>ix_files := ix_files d @ [i]\<rparr>) = Some d'"
      using Cons.prems(2) by (simp add: e load_entries_Cons assms(2,3))
    moreover have "from_stored os dg (d\<lparr>ix_files := ix_files d @ [i]\<rparr>)" using Cons.prems(3) by (simp add: from_stored_def)
    ultimately show ?thesis using Cons.IH [OF rest] by blast
  next
    case 3
    then have "load_entries cx dg es d = Some d'" using Cons.prems(2) by (simp add: e load_entries_Cons)
    then show ?thesis using Cons.IH [OF rest] Cons.prems(3) by blast
  qed
qed (use assms in simp)

end

lemma loadAll_stored:
  assumes "key_value_store (store cx)" "streams (db_in cx) (db_out cx)" "index_db_ok cx dg odb" "loadAll cx dg odb IndexesData_new = Some d"
  shows "from_stored (db_out cx) dg d"
proof -
  have "list_all (entry_wf (db_out cx) dg) (ldb_entries (store cx) (m_db odb))"
    using assms(3) key_value_store.entries_map [OF assms(1), of odb] by (auto simp: list_all_iff index_db_ok_def)
  moreover have "load_entries cx dg (ldb_entries (store cx) (m_db odb)) (IndexesData_new\<lparr>ix_lastBlockFile := stored_last cx odb\<rparr>) = Some d"
    using assms(4) by (auto simp: loadAll_def seekToFirst_def IndexesData_new_def stored_last_def split: prod.splits)
  ultimately show ?thesis
    by (rule streams.load_entries_stored [OF assms(2) _ refl refl]) (simp add: from_stored_def IndexesData_new_def)
qed

text \<open>A cache whose entries can all be stored; its index may hold null pointers and roots whose parents came late.\<close>

definition storable_tree :: "ostream \<Rightarrow> digests \<Rightarrow> big_number_ops \<Rightarrow> ('d, 'f) BlockCache \<Rightarrow> bool" where
  "storable_tree os dg bn bc \<longleftrightarrow> cache_ok bc \<and>
     (\<forall>p \<in> refs bc. storable os dg (bc_heap bc p) \<and> validateBlockHeader bn (header (bc_heap bc p)))"

text \<open>The database and the entries still to be written make up the tree.\<close>

definition covers :: "(uint256 \<times> BlockIndex) list \<Rightarrow> (uint256 \<times> bref) list \<Rightarrow> ('d, 'f) BlockCache \<Rightarrow> bool" where
  "covers items todo bc \<longleftrightarrow> distinct (map fst todo) \<and> (\<forall>(h, p) \<in> set todo. map_of (bc_blocks bc) h = Some (Some p)) \<and>
     (\<forall>h b. map_of items h = Some b \<longrightarrow> (\<exists>p. map_of (bc_blocks bc) h = Some (Some p) \<and> (b = restored (bc_heap bc p) \<or> (h, p) \<in> set todo))) \<and>
     (\<forall>h p. map_of (bc_blocks bc) h = Some (Some p) \<longrightarrow> map_of items h \<noteq> None \<or> (h, p) \<in> set todo)"

lemma restored_fields [simp]:
  "header (restored b) = header b" "height (restored b) = height b" "previous (restored b) = None" "skip (restored b) = None"
  by (simp_all add: restored_def disk_index_def BlockIndex_new_def)

lemma restored_stored:
  assumes tree: "storable_tree os dg bn bc" and items: "distinct (map fst items)"
    "\<forall>h. map_of items h = map_option (\<lambda>p. restored (bc_heap bc p)) (getBlockIndex h bc)"
  shows "stored_items bn items"
  unfolding stored_items_def
proof (intro conjI items(1) ballI, clarify)
  fix h b assume "(h, b) \<in> set items"
  then have "map_of items h = Some b" using items(1) by simp
  then obtain p where p: "map_of (bc_blocks bc) h = Some (Some p)" "b = restored (bc_heap bc p)"
    using items(2) by (auto simp: getBlockIndex_Some simp del: map_of_eq_Some_iff)
  have ok: "cache_ok bc" using tree by (simp add: storable_tree_def)
  have r: "p \<in> refs bc" "hash (header (bc_heap bc p)) = h" using cache_okD(5) [OF ok p(1)] by simp_all
  then have "storable os dg (bc_heap bc p)" "validateBlockHeader bn (header (bc_heap bc p))" using tree by (simp_all add: storable_tree_def)
  then show "hash (header b) = h \<and> h \<noteq> uint256_null \<and> validateBlockHeader bn (header b) \<and> previous b = None \<and> skip b = None"
    using r(2) p(2) by (auto simp: storable_def)
qed

lemma entry_lookup: "cache_ok bc \<Longrightarrow> p \<in> refs bc \<Longrightarrow> getBlockIndex (hash (header (bc_heap bc p))) bc = Some p"
  using cache_okD(5) [of bc _ p] by (auto simp: refs_def getBlockIndex_Some simp del: map_of_eq_Some_iff)

lemma restored_sound:
  assumes tree: "storable_tree os dg bn bc" and items: "distinct (map fst items)"
    "\<forall>h. map_of items h = map_option (\<lambda>p. restored (bc_heap bc p)) (getBlockIndex h bc)" and linked: "all_linked bc"
  shows "sound_index bn items"
  unfolding sound_index_def
proof (intro conjI restored_stored [OF tree items] ballI, clarify)
  fix h b assume "(h, b) \<in> set items"
  then have "map_of items h = Some b" using items(1) by simp
  then obtain p where p: "map_of (bc_blocks bc) h = Some (Some p)" "b = restored (bc_heap bc p)"
    using items(2) by (auto simp: getBlockIndex_Some simp del: map_of_eq_Some_iff)
  have ok: "cache_ok bc" using tree by (simp add: storable_tree_def)
  have r: "p \<in> refs bc" using cache_okD(5) [OF ok p(1)] by simp
  note t = header_tree_parent [OF cache_okD(1) [OF ok] r]
  have g: "getBlockIndex (previousBlockHash (header (bc_heap bc p))) bc = previous (bc_heap bc p)"
    using linked r by (simp add: all_linked_def)
  show "case map_of items (previousBlockHash (header b)) of None \<Rightarrow> height b = 0 | Some b' \<Rightarrow> 0 \<le> height b' \<and> height b = height b' + 1"
  proof (cases "previous (bc_heap bc p)")
    case None
    then show ?thesis using t(4) items(2) p(2) g by simp
  next
    case (Some q)
    then have "q \<in> refs bc" "height (bc_heap bc p) = height (bc_heap bc q) + 1" using t(5) by simp_all
    then show ?thesis using header_tree_parent(1) [OF cache_okD(1) [OF ok]] items(2) p(2) g Some by simp
  qed
qed

text \<open>A cache that knows the headers of another at the same heights, all linked, is consistent only when the other was all linked.\<close>

lemma known_linked:
  assumes "cache_ok bc'" "all_linked bc'" "known bc' = known bc" "cache_ok bc"
  shows "all_linked bc"
  unfolding all_linked_def
proof
  fix p assume p: "p \<in> refs bc"
  let ?k = "previousBlockHash (header (bc_heap bc p))"
  note t = header_tree_parent [OF cache_okD(1) [OF assms(4)] p]
  show "previous (bc_heap bc p) = getBlockIndex ?k bc"
  proof (cases "previous (bc_heap bc p)")
    case (Some q)
    then show ?thesis using t(5) [OF Some] entry_lookup [OF assms(4), of q] by simp
  next
    case None
    show ?thesis
    proof (rule ccontr)
      assume "previous (bc_heap bc p) \<noteq> getBlockIndex ?k bc"
      then obtain q where q: "getBlockIndex ?k bc = Some q" using None by (metis not_None_eq)
      have "known bc' ?k = Some (header (bc_heap bc q), height (bc_heap bc q))" using q unfolding assms(3) by (simp add: known_def)
      then obtain q' where q': "getBlockIndex ?k bc' = Some q'" by (auto simp: known_def)
      have "known bc' (hash (header (bc_heap bc p))) = Some (header (bc_heap bc p), height (bc_heap bc p))"
        using entry_lookup [OF assms(4) p] unfolding assms(3) by (simp add: known_def)
      then obtain p' where p': "getBlockIndex (hash (header (bc_heap bc p))) bc' = Some p'"
        "header (bc_heap bc' p') = header (bc_heap bc p)" "height (bc_heap bc' p') = 0" using t(4) [OF None] by (auto simp: known_def)
      have r: "p' \<in> refs bc'" using p'(1) by (auto simp: getBlockIndex_Some refs_def simp del: map_of_eq_Some_iff)
      then have "previous (bc_heap bc' p') = Some q'" using assms(2) p'(2) q' by (simp add: all_linked_def)
      from header_tree_parent(5) [OF cache_okD(1) [OF assms(1)] r this] have "q' \<in> refs bc'" "height (bc_heap bc' p') = height (bc_heap bc' q') + 1"
        by simp_all
      then show False using header_tree_parent(1) [OF cache_okD(1) [OF assms(1)], of q'] p'(3) by simp
    qed
  qed
qed

lemma flushed_items:
  assumes db: "key_value_store (store cx)" "streams (db_in cx) (db_out cx)" "index_db_ok cx dg odb"
    and tree: "storable_tree (db_out cx) dg bn bc"
    and load: "loadAll cx dg odb IndexesData_new = Some d" "covers (ix_blocks d) todo bc"
    and files: "list_all (\<lambda>i. - (2 ^ 31) \<le> info_fileIndex i \<and> info_fileIndex i < 2 ^ 31) files"
    and wrote: "writeBlocks cx \<lparr>ix_blocks = map (\<lambda>(h, p). (h, bc_heap bc p)) todo, ix_files = files, ix_lastBlockFile = l\<rparr> odb = Some (True, odb')"
  shows "\<exists>d'. loadAll cx dg odb' IndexesData_new = Some d' \<and> distinct (map fst (ix_blocks d')) \<and>
    (\<forall>h. map_of (ix_blocks d') h = map_option (\<lambda>p. restored (bc_heap bc p)) (getBlockIndex h bc))"
proof -
  let ?items = "map (\<lambda>(h, p). (h, bc_heap bc p)) todo"
  let ?data = "\<lparr>ix_blocks = ?items, ix_files = files, ix_lastBlockFile = l\<rparr>"
  have ok: "cache_ok bc" using tree by (simp add: storable_tree_def)
  have todo: "distinct (map fst todo)" "\<And>h p. (h, p) \<in> set todo \<Longrightarrow> map_of (bc_blocks bc) h = Some (Some p)"
    using load(2) by (auto simp: covers_def)
  have entry: "storable (db_out cx) dg (bc_heap bc p) \<and> hash (header (bc_heap bc p)) = h" if "map_of (bc_blocks bc) h = Some (Some p)" for h p
    using cache_okD(5) [OF ok that] tree by (auto simp: storable_tree_def)
  have st: "list_all (storable (db_out cx) dg \<circ> snd) (ix_blocks ?data)" using todo(2) entry by (fastforce simp: list_all_iff)
  have keys: "map (\<lambda>(_, x). (hash (header x), x)) (ix_blocks ?data) = ?items"
    using todo(2) entry by (auto intro!: map_idI)
  have "map (\<lambda>(_, x). hash (header x)) (ix_blocks ?data) = map fst todo" using todo(2) entry by auto
  then have dist: "distinct (map (\<lambda>(_, x). hash (header x)) (ix_blocks ?data))" using todo(1) by (simp only:)
  have fs: "list_all (\<lambda>i. - (2 ^ 31) \<le> info_fileIndex i \<and> info_fileIndex i < 2 ^ 31) (ix_files ?data)" using files by simp
  obtain d0 d' where d0: "index_db_ok cx dg odb'" "loadAll cx dg odb IndexesData_new = Some d0" "loadAll cx dg odb' IndexesData_new = Some d'"
    "\<forall>h. length h = 32 \<longrightarrow> map_of (ix_blocks d') h = (case map_of ?items h of Some x \<Rightarrow> Some (restored x) | None \<Rightarrow> map_of (ix_blocks d0) h)"
    using writeBlocks_loadAll [OF db st fs dist wrote] unfolding keys by blast
  moreover have "d0 = d" using d0(2) load(1) by simp
  ultimately have d': "index_db_ok cx dg odb'" "loadAll cx dg odb' IndexesData_new = Some d'"
    "\<forall>h. length h = 32 \<longrightarrow> map_of (ix_blocks d') h = (case map_of ?items h of Some x \<Rightarrow> Some (restored x) | None \<Rightarrow> map_of (ix_blocks d) h)"
    by blast+
  note f = loadAll_stored [OF db(1,2) d'(1,2)]
  have "map_of (ix_blocks d') h = map_option (\<lambda>p. restored (bc_heap bc p)) (getBlockIndex h bc)" for h
  proof (cases "length h = 32")
    case False
    then have "map_of (ix_blocks d') h = None"
    proof (cases "map_of (ix_blocks d') h")
      case (Some b)
      then obtain x where "storable (db_out cx) dg x" "hash (header x) = h" using f unfolding from_stored_def by blast
      then show ?thesis using False by (auto simp: storable_def)
    qed simp
    moreover have "getBlockIndex h bc = None"
    proof (rule ccontr)
      assume "getBlockIndex h bc \<noteq> None"
      then obtain p where "map_of (bc_blocks bc) h = Some (Some p)" by (auto simp: getBlockIndex_Some simp del: map_of_eq_Some_iff)
      then show False using entry False by (fastforce simp: storable_def)
    qed
    ultimately show ?thesis by simp
  next
    case True
    show ?thesis
    proof (cases "map_of ?items h")
      case None
      then have "h \<notin> fst ` set todo" by (force simp: map_of_eq_None_iff)
      then have n: "(h, p) \<notin> set todo" for p by force
      show ?thesis
      proof (cases "map_of (ix_blocks d) h")
        case None': None
        have "getBlockIndex h bc = None"
        proof (rule ccontr)
          assume "getBlockIndex h bc \<noteq> None"
          then obtain p where "map_of (bc_blocks bc) h = Some (Some p)" by (auto simp: getBlockIndex_Some simp del: map_of_eq_Some_iff)
          then have "map_of (ix_blocks d) h \<noteq> None \<or> (h, p) \<in> set todo" using load(2) unfolding covers_def by blast
          then show False using None' n by blast
        qed
        then show ?thesis using d'(3) True None None' by simp
      next
        case (Some b)
        then obtain p where "map_of (bc_blocks bc) h = Some (Some p)" "b = restored (bc_heap bc p)"
          using load(2) n unfolding covers_def by blast
        then show ?thesis using d'(3) True None Some by (simp add: getBlockIndex_def)
      qed
    next
      case (Some b)
      then obtain p where "(h, p) \<in> set todo" "b = bc_heap bc p" by (auto dest!: map_of_SomeD)
      moreover from this have "getBlockIndex h bc = Some p" using todo(2) by (simp add: getBlockIndex_Some del: map_of_eq_Some_iff)
      ultimately show ?thesis using d'(3) True Some by simp
    qed
  qed
  then show ?thesis using d'(2) f by (auto simp: from_stored_def)
qed


section \<open>Properties\<close>

text \<open>C10: a restart after a flush finds the headers again: when the database and the entries that are flushed make up the
  index, whose entries fit the format and pass the check of their proof of work, loading what the disk then holds fails no assertion
  and knows exactly the same headers at the same heights, each linked to the entry its header names as its parent, if there is one.
  Null pointers in the index are not stored and are gone. The loaded cache is consistent exactly when every entry was so linked
  before: an entry whose parent came after it is now linked but keeps its height 0, which is not one above its parent.\<close>

theorem restart_keeps_tree:
  assumes "key_value_store (store (c_index cx))" "streams (db_in (c_index cx)) (db_out (c_index cx))"
    and "little_endian (c_bits cx)" "big_number (v_bn (c_val cx))" "index_db_ok (c_index cx) dg odb"
    and "storable_tree (db_out (c_index cx)) dg (v_bn (c_val cx)) bc"
    and "loadAll (c_index cx) dg odb IndexesData_new = Some d" "covers (ix_blocks d) todo bc"
    and "list_all (\<lambda>i. - (2 ^ 31) \<le> info_fileIndex i \<and> info_fileIndex i < 2 ^ 31) files"
    and "writeBlocks (c_index cx) \<lparr>ix_blocks = map (\<lambda>(h, p). (h, bc_heap bc p)) todo, ix_files = files, ix_lastBlockFile = l\<rparr> odb = Some (True, odb')"
  shows "\<exists>d' bc'. loadAll (c_index cx) dg odb' IndexesData_new = Some d' \<and>
    sortOutBlocks cx (adopt_blocks (ix_blocks d') (BlockCache_new H cv odb' fs)) = Some bc' \<and> known bc' = known bc \<and> all_linked bc' \<and>
    (cache_ok bc' \<longleftrightarrow> all_linked bc)"
proof -
  obtain d' where d': "loadAll (c_index cx) dg odb' IndexesData_new = Some d'" "distinct (map fst (ix_blocks d'))"
    "\<forall>h. map_of (ix_blocks d') h = map_option (\<lambda>p. restored (bc_heap bc p)) (getBlockIndex h bc)"
    using flushed_items [OF assms(1,2,5-10)] by blast
  have num: "cache_numbers cx" using assms(3,4) by (simp add: cache_numbers_def)
  let ?new = "BlockCache_new H cv odb' fs"
  from cache_numbers.sortOutBlocks_runs [OF num restored_stored [OF assms(6) d'(2,3)], of ?new]
  obtain bc' where run: "sortOutBlocks cx (adopt_blocks (ix_blocks d') ?new) = Some bc'" and all: "all_linked bc'"
    and "\<forall>h. known bc' h = map_option (\<lambda>b. (header b, height b)) (map_of (ix_blocks d') h)" by auto
  then have same: "known bc' = known bc" using d'(3) by (simp add: fun_eq_iff known_def option.map_comp comp_def)
  have "cache_ok bc' \<longleftrightarrow> all_linked bc"
  proof
    assume "all_linked bc"
    from cache_numbers.sortOutBlocks_ok [OF num restored_sound [OF assms(6) d'(2,3) this], of ?new] show "cache_ok bc'" using run by auto
  qed (use known_linked [OF _ all same] assms(6) in \<open>simp add: storable_tree_def\<close>)
  then show ?thesis using d'(1) run same all by blast
qed

definition one_digests :: digests where
  "one_digests = \<lparr>sha256 = \<lambda>b. 1 # replicate 31 0, ripemd160 = id\<rparr>"

definition one_header :: "uint256 \<Rightarrow> ((bytes \<times> bytes) list, int \<Rightarrow> bytes option) BlockCache" where
  "one_header w = cache0\<lparr>bc_heap := (\<lambda>p. (createBlockIndex (easy_header 1 uint256_null))\<lparr>chainWork := w\<rparr>), bc_next := 1,
     bc_blocks := [(1 # replicate 31 0, Some 0)], bc_best := Some 0\<rparr>"

lemma one_header_simps [simp]:
  "bc_blocks (one_header w) = [(1 # replicate 31 0, Some 0)]" "refs (one_header w) = {0}"
  "bc_heap (one_header w) p = (createBlockIndex (easy_header 1 uint256_null))\<lparr>chainWork := w\<rparr>"
  by (auto simp: one_header_def refs_def)

lemma one_header_tree:
  assumes "length w = 32" "bytes_val w = proof_val 0x1d00ffff"
  shows "storable_tree le_ostream one_digests limb_big_number (one_header w)"
proof -
  let ?b = "(createBlockIndex (easy_header 1 uint256_null))\<lparr>chainWork := w\<rparr>"
  have b: "skip ?b = None" "previous ?b = None" "height ?b = 0" "chainWork ?b = w" "header ?b = easy_header 1 uint256_null"
    "status ?b = 0" "fileIndex ?b = 0"
    by (simp_all add: createBlockIndex_def BlockIndex_new_def)
  have bits: "bits (easy_header 1 uint256_null) = 0x1d00ffff" by (simp add: easy_header_def)
  have "cache_ok (one_header w)"
    using assms b bits by (simp add: cache_ok_def header_tree_def roots_ok_def entry_ok'_def best_ok_def linked_def) (simp add: one_header_def)
  moreover have "easy_header 1 uint256_null = computeHash one_digests le_ostream (easy_header 1 uint256_null)"
    by (simp add: computeHash_def hash256_def one_digests_def easy_header_def)
  then have "storable le_ostream one_digests ?b"
    using b by (simp add: storable_def wf_index_def wf_header_def disk_index_def BlockIndex_new_def)
      (simp add: easy_header_def BlockHeader_new_def uint256_null_def)
  ultimately show ?thesis using b easy_header_valid by (simp add: storable_tree_def)
qed

theorem restart_keeps_tree_witness:
  "\<exists>bc :: ((bytes \<times> bytes) list, int \<Rightarrow> bytes option) BlockCache. \<exists>odb' d' bc'. loadAll le_db one_digests odb' IndexesData_new = Some d' \<and>
     sortOutBlocks plain_cache (adopt_blocks (ix_blocks d') (BlockCache_new (\<lambda>p. BlockIndex_new) view0 odb' (\<lambda>i. None))) = Some bc' \<and>
     known bc' = known bc \<and> known bc (1 # replicate 31 0) \<noteq> None"
proof -
  obtain w where w: "length w = 32" "bytes_val w = proof_val 0x1d00ffff"
    using little_endian.calcBlockProof_val [OF lec.little_endian_axioms, of "0x1d00ffff"] unfolding proof_val_def by blast
  let ?todo = "[(1 # replicate 31 0, 0)] :: (uint256 \<times> bref) list"
  let ?data = "\<lparr>ix_blocks = map (\<lambda>(h, p). (h, bc_heap (one_header w) p)) ?todo, ix_files = [], ix_lastBlockFile = 0\<rparr>"
  note t = one_header_tree [OF w]
  have ix: "c_index plain_cache = le_db" by (simp add: plain_cache_def)
  have load: "loadAll le_db one_digests index0 IndexesData_new = Some IndexesData_new" by (simp add: loadAll_def index0_def) code_simp
  have cover: "covers (ix_blocks IndexesData_new) ?todo (one_header w)" by (simp add: covers_def IndexesData_new_def)
  have "list_all (storable le_ostream one_digests \<circ> snd) (ix_blocks ?data)" using t by (simp add: storable_tree_def)
  from index0_write [OF this] obtain odb' where wr: "writeBlocks le_db ?data index0 = Some (True, odb')" by blast
  have tree: "storable_tree (db_out (c_index plain_cache)) one_digests (v_bn (c_val plain_cache)) (one_header w)" using t by (simp add: ix)
  have "\<exists>d' bc'. loadAll (c_index plain_cache) one_digests odb' IndexesData_new = Some d' \<and>
    sortOutBlocks plain_cache (adopt_blocks (ix_blocks d') (BlockCache_new (\<lambda>p. BlockIndex_new) view0 odb' (\<lambda>i. None))) = Some bc' \<and>
    known bc' = known (one_header w) \<and> all_linked bc' \<and> (cache_ok bc' \<longleftrightarrow> all_linked (one_header w))"
    by (rule restart_keeps_tree [OF _ _ _ _ _ tree _ cover _ wr [folded ix]])
      (simp_all add: ix load index0_ok als.key_value_store_axioms les.streams_axioms lec.little_endian_axioms lbn.big_number_axioms)
  moreover have "known (one_header w) (1 # replicate 31 0) \<noteq> None" by (simp add: known_def getBlockIndex_def)
  ultimately show ?thesis unfolding ix by blast
qed

end
