(* ===== verification/Startup.thy ===== *)
theory Startup
  imports App Reload
begin

text \<open>
  The start of the application: when the index on the disk is sound, or empty, every run of the node that follows keeps
  the invariant of the network.
\<close>

section \<open>Starting the application\<close>

lemma app_start_parts:
  assumes "app_start lb cf mo bc = Some (ne, nw)"
  shows "\<exists>cp ok bc1. app_params lb cf = Some cp \<and> ne = app_env lb cf cp \<and> cache_load (ne_cache ne) (mo_late mo 0) bc = Some (ok, bc1) \<and>
    manager_start ne mo (Net_new (mo_now mo) bc1) = Some nw"
  using assms by (auto simp: app_start_def Let_def split: bind_splits)

lemma genesis_previous: "createGenesisBlock dg os ts n bs v reward = Some b \<Longrightarrow> previousBlockHash (blk_header b) = uint256_null"
  by (auto simp: doCreate_genesis computeHash_def BlockHeader_new_def split: bind_splits)

lemma genesis_no_parent: "app_params lb cf = Some cp \<Longrightarrow> previousBlockHash (blk_header (cp_genesisBlock cp)) = uint256_null"
  by (auto simp: app_params_def createMainChainParams_def createTestNetChainParams_def dest: genesis_previous split: bind_splits if_splits)

lemma genesis_asserted:
  assumes "cache_load cx late bc = Some (ok, bc')"
  shows "hash (blk_header (genesisBlock cx)) \<noteq> uint256_null"
  using assms by (auto simp: cache_load_def loadGenesisBlock_def split: bind_splits if_splits)

lemma app_start_ok:
  assumes "network ne" "app_start lb cf mo (BlockCache_new H cv db fs) = Some (ne, nw)"
    "loadAll (c_index (lb_cache lb)) (dk_digests (c_disk (lb_cache lb))) db IndexesData_new = Some data"
    "sound_index (v_bn (c_val (lb_cache lb))) (ix_blocks data)"
  shows "net_ok nw"
proof -
  obtain cp ok bc1 where a: "app_params lb cf = Some cp" "ne = app_env lb cf cp"
    "cache_load (ne_cache ne) (mo_late mo 0) (BlockCache_new H cv db fs) = Some (ok, bc1)"
    "manager_start ne mo (Net_new (mo_now mo) bc1) = Some nw"
    using app_start_parts [OF assms(2)] by blast
  have cx: "c_index (ne_cache ne) = c_index (lb_cache lb)" "dk_digests (c_disk (ne_cache ne)) = dk_digests (c_disk (lb_cache lb))"
    "genesisBlock (ne_cache ne) = cp_genesisBlock cp" "c_val (ne_cache ne) = c_val (lb_cache lb)"
    by (simp_all add: a(2) app_env_def)
  have "previousBlockHash (blk_header (genesisBlock (ne_cache ne))) \<noteq> hash (blk_header (genesisBlock (ne_cache ne)))"
    using genesis_asserted [OF a(3)] genesis_no_parent [OF a(1)] by (simp add: cx)
  then have "cache_ok bc1"
    using cache_numbers.cache_load_ok [OF network.axioms(1) [OF assms(1)] _ _ _ a(3)] assms(3,4) by (simp add: cx)
  then show ?thesis using manager_start_ok [OF _ a(4)] Net_new_ok by blast
qed

section \<open>A first start\<close>

definition small_library :: "((bytes \<times> bytes) list, bytes \<times> bool, bytes, bytes, int \<Rightarrow> bytes option) library" where
  "small_library = \<lparr>lb_cache = plain_cache, lb_codec = small_codec, lb_os = le_ostream, lb_text = ne_text small_net,
     lb_elapsed32 = (\<lambda>now t. now - t), lb_print = (\<lambda>n. ''0'')\<rparr>"

definition small_config :: AppConfig where
  "small_config = AppConfig_new (\<lambda>s. uint256_null) (\<lambda>n u. n)"

definition small_header :: BlockHeader where
  "small_header = \<lparr>version = 1, previousBlockHash = uint256_null, merkleRootHash = 2 # replicate 31 0, timestamp = 1231006505,
     bits = 0x1d00ffff, nonce = 2083236893, hash = 1 # replicate 31 0\<rparr>"

definition small_genesis :: Block where
  "small_genesis = \<lparr>blk_header = small_header, transactions = [genesis_tx small_digests le_ostream (50 * COIN)]\<rparr>"

lemma small_genesis_tx: "tx_hash (genesis_tx small_digests le_ostream (50 * COIN)) = 2 # replicate 31 0"
  by code_simp

lemma small_genesis_created: "createGenesisBlock small_digests le_ostream 1231006505 2083236893 0x1d00ffff 1 (50 * COIN) = Some small_genesis"
proof -
  have "hash (computeHash small_digests le_ostream (BlockHeader_new\<lparr>timestamp := 1231006505, bits := 0x1d00ffff, nonce := 2083236893,
    version := 1, merkleRootHash := 2 # replicate 31 0\<rparr>)) = 1 # replicate 31 0" by code_simp
  then show ?thesis
    using genesis_block [where dg = small_digests and os = le_ostream and reward = "50 * COIN" and ts = 1231006505 and n = 2083236893 and bs = "0x1d00ffff" and v = 1]
    by (simp add: small_genesis_tx small_genesis_def small_header_def computeHash_def BlockHeader_new_def)
qed

lemma small_genesis_length: "length (write_block le_ostream small_genesis) = 285"
  by code_simp

lemma small_header_valid: "validateBlockHeader limb_big_number small_header"
proof -
  have "hash small_header = hash (easy_header 1 uint256_null)" "bits small_header = bits (easy_header 1 uint256_null)"
    by (simp_all add: small_header_def easy_header_def)
  then show ?thesis using easy_header_valid [of 1 uint256_null] by (simp only: validateBlockHeader_def checkProofOfWork_def)
qed

lemma small_load: "loadAll le_db dg (ObjectDB_new True []) IndexesData_new = Some IndexesData_new"
  by (simp add: loadAll_def) code_simp

lemma small_view_load: "view_load le_db view0 = Some view0"
  by code_simp

lemma small_view_flush: "\<exists>cv. view_flush le_db view0 = Some (True, cv) \<and> bestBlockHash (coins cv) = uint256_null"
proof -
  have "case view_flush le_db view0 of None \<Rightarrow> False | Some (ok, cv) \<Rightarrow> ok \<and> bestBlockHash (coins cv) = uint256_null" by code_simp
  then show ?thesis by (auto split: option.splits)
qed

definition small_cache :: "((bytes \<times> bytes) list, bytes \<times> bool, bytes, bytes, int \<Rightarrow> bytes option) cache_context" where
  "small_cache = plain_cache\<lparr>genesisBlock := small_genesis, c_disk := plain_disk\<lparr>protocolMagic := 0xD9B4BEF9\<rparr>\<rparr>"


lemma some_work: "\<exists>w. calcBlockProof le_converter 0x1d00ffff = Inr w"
  using little_endian.calcBlockProof_val [OF lec.little_endian_axioms, of "0x1d00ffff"] by blast

lemma find_first: "find_file 293 0 [BlockFileInfo_new] = Some (0, [BlockFileInfo_new])"
  by (subst find_file.simps) (simp add: BlockFileInfo_new_def MAX_BLOCKFILE_SIZE_def)

definition empty_cache :: "((bytes \<times> bytes) list, int \<Rightarrow> bytes option) BlockCache" where
  "empty_cache = cache0\<lparr>bc_storage := storage_load [] 0 BlockStorage_new, bc_blocks := [], bc_coins := view0\<rparr>"

lemma small_header_simps [simp]:
  "hash small_header = 1 # replicate 31 0" "previousBlockHash small_header = uint256_null" "bits small_header = 0x1d00ffff"
  by (simp_all add: small_header_def)

lemma raised_tree: "status b = 0 \<Longrightarrow> raiseValidity BLOCK_VALID_TREE b = Some (True, b\<lparr>status := BLOCK_VALID_TREE\<rparr>)"
  by (simp add: raiseValidity_def BLOCK_VALID_TREE_def BLOCK_VALID_MASK_def BLOCK_VALID_HEADER_def BLOCK_VALID_TRANSACTIONS_def
    BLOCK_VALID_CHAIN_def BLOCK_VALID_SCRIPTS_def)

lemma small_indexed: "\<exists>bc. addBlockIndex small_cache False small_header empty_cache = Some (Some 0, bc) \<and>
  header (bc_heap bc 0) = small_header \<and> height (bc_heap bc 0) = 0 \<and> transactionCount (bc_heap bc 0) = 0 \<and> previous (bc_heap bc 0) = None \<and>
  bc_coins bc = view0 \<and> bc_storage bc = storage_load [] 0 BlockStorage_new \<and> bc_chain bc = []"
proof -
  obtain w where w: "calcBlockProof le_converter 0x1d00ffff = Inr w" using some_work by blast
  have c: "c_val small_cache = plain_validator" "c_bits small_cache = le_converter" by (simp_all add: small_cache_def)
  show ?thesis using small_header_valid
    by (simp add: addBlockIndex_def empty_cache_def link_index_def raised_tree updateBlockInfo_def c w markDirtyBlock_def checkFlush_def
      get_index_def put_index_def Let_def cache0_def BlockCache_new_def index_getHash_def createBlockIndex_def BlockIndex_new_def)
qed

lemma small_written: "\<exists>pos data st. writeBlock (dk_out (c_disk small_cache)) small_genesis b (storage_load [] 0 BlockStorage_new) = Some (pos, data, st) \<and>
  length (blockFiles st) = 1 \<and> dirtyFiles st = [0]"
proof -
  have "dk_out (c_disk small_cache) = le_ostream" by (simp add: small_cache_def plain_disk_def)
  moreover have "findBlockPos 0 293 (storage_load [] 0 BlockStorage_new) = Some (\<lparr>pos_fileIndex = 0, position = 0\<rparr>,
    \<lparr>lastBlockFile = 0, blockFiles = [BlockFileInfo_new\<lparr>info_size := 293\<rparr>], dirtyFiles = [0]\<rparr>)"
    by (simp add: findBlockPos_def storage_load_def BlockStorage_new_def grow_def find_first)
      (simp add: BlockFileInfo_new_def insort_insert_key_def)
  moreover obtain i where "info_addBlock (word_of_int (height b)) (ucast (timestamp (header b))) (BlockFileInfo_new\<lparr>info_size := 293\<rparr>) = Some i"
    by (simp add: info_addBlock_def BlockFileInfo_new_def)
  ultimately show ?thesis
    by (simp add: writeBlock_def small_genesis_length BLOCK_BUFFER_def)
qed

lemma small_genesis_loads: "\<exists>bc. loadGenesisBlock small_cache False empty_cache = Some bc \<and> bestBlockHash (coins (bc_coins bc)) = uint256_null"
proof -
  obtain bc where a: "addBlockIndex small_cache False small_header empty_cache = Some (Some 0, bc)"
    "header (bc_heap bc 0) = small_header" "height (bc_heap bc 0) = 0" "transactionCount (bc_heap bc 0) = 0" "previous (bc_heap bc 0) = None"
    "bc_coins bc = view0" "bc_storage bc = storage_load [] 0 BlockStorage_new" "bc_chain bc = []"
    using small_indexed by blast
  define bc1 where "bc1 = put_index 0 ((bc_heap bc 0)\<lparr>transactionCount := 1\<rparr>) bc"
  have u: "updateBlockIndex 0 small_genesis bc = Some bc1"
    by (simp add: updateBlockIndex_def bc1_def get_index_def a(4) Let_def small_genesis_def)
  have f: "bc_storage bc1 = storage_load [] 0 BlockStorage_new" "bc_coins bc1 = view0" "bc_chain bc1 = []"
    "height (bc_heap bc1 0) = 0" "header (bc_heap bc1 0) = small_header"  "previous (bc_heap bc1 0) = None"
    by (simp_all add: bc1_def put_index_def a)
  obtain pos data st where wb: "writeBlock (dk_out (c_disk small_cache)) small_genesis (get_index bc1 0) (bc_storage bc1) = Some (pos, data, st)"
    "length (blockFiles st) = 1" "dirtyFiles st = [0]"
    using small_written [of "get_index bc1 0"] unfolding f(1) by blast
  obtain ch where ch: "chain_setTip (bc_heap bc1) [] (Some 0) = Some ch"
    by (simp add: chain_setTip_def f chain_resize_def set_tip_loop.simps)
  obtain cv where cv: "view_flush le_db view0 = Some (True, cv)" "bestBlockHash (coins cv) = uint256_null" using small_view_flush by blast
  have gb: "genesisBlock small_cache = small_genesis" "blk_header small_genesis = small_header" "v_db (c_val small_cache) = le_db"
    by (simp_all add: small_cache_def small_genesis_def)
  have nb: "map_of (bc_blocks empty_cache) (1 # replicate 31 0) = None" by (simp add: empty_cache_def)
  show ?thesis using cv(2)
    by (simp add: loadGenesisBlock_def gb nb a(1) u saveBlock_def wb [unfolded f(1)] ch f cache_flush_def storage_flush_def cv(1))
qed

lemma small_cache_view_load: "view_load (v_db (c_val small_cache)) (bc_coins cache0) = Some view0"
  using small_view_load by (simp add: small_cache_def)

lemma sort_out_empty: "bc_blocks bc = [] \<Longrightarrow> sortOutBlocks cx bc = Some (bc\<lparr>bc_blocks := []\<rparr>)"
  by (simp add: sortOutBlocks_def validateBlockIndexes_def updatePreviousBlock_def updateChainWork_def)

lemma small_cache_loads: "\<exists>bc. cache_load small_cache False cache0 = Some (True, bc)"
proof -
  obtain bc where bc: "loadGenesisBlock small_cache False empty_cache = Some bc" "bestBlockHash (coins (bc_coins bc)) = uint256_null"
    using small_genesis_loads by blast
  have "cache_load small_cache False cache0 = do { bc \<leftarrow> loadGenesisBlock small_cache False empty_cache; (ok, bc) \<leftarrow> loadChainTip bc; Some (True, bc) }"
  proof -
    have st: "bc_storage cache0 = BlockStorage_new" "bc_db cache0 = ObjectDB_new True []" by (simp_all add: cache0_def)
    have ix: "c_index small_cache = le_db" by (simp add: small_cache_def plain_cache_def)
    have d: "ix_files IndexesData_new = []" "ix_lastBlockFile IndexesData_new = 0" "ix_blocks IndexesData_new = []"
      by (simp_all add: IndexesData_new_def)
    have e: "(cache0\<lparr>bc_storage := storage_load [] 0 BlockStorage_new, bc_blocks := []\<rparr>)\<lparr>bc_coins := view0\<rparr> = empty_cache"
      by (simp add: empty_cache_def)
    have "sortOutBlocks small_cache (cache0\<lparr>bc_storage := storage_load [] 0 BlockStorage_new, bc_blocks := []\<rparr>) =
      Some (cache0\<lparr>bc_storage := storage_load [] 0 BlockStorage_new, bc_blocks := []\<rparr>)" by (simp add: sort_out_empty)
    then show ?thesis using small_cache_view_load
      by (simp add: cache_load_def st ix small_load d empty_cache_def)
  qed
  then show ?thesis using bc by (simp add: loadChainTip_def Let_def)
qed

lemma small_params: "\<exists>cp. app_params small_library small_config = Some cp \<and> cp_genesisBlock cp = small_genesis \<and> cp_protocolMagic cp = 0xD9B4BEF9"
  by (simp add: app_params_def small_config_def AppConfig_new_def small_library_def createMainChainParams_def small_genesis_created)

lemma small_starts: "\<exists>ne nw. app_start small_library small_config (at_time 10000) cache0 = Some (ne, nw) \<and> network ne"
proof -
  obtain cp where cp: "app_params small_library small_config = Some cp" "cp_genesisBlock cp = small_genesis" "cp_protocolMagic cp = 0xD9B4BEF9"
    using small_params by blast
  define ne where "ne = app_env small_library small_config cp"
  have env: "ne_cache ne = small_cache" "ne_direct ne = []" "ne_maxNodes ne = 30" "ne_codec ne = small_codec"
    by (simp_all add: ne_def app_env_def small_library_def small_config_def AppConfig_new_def cp small_cache_def plain_cache_def small_codec_def)
  obtain bc where bc: "cache_load small_cache False cache0 = Some (True, bc)" using small_cache_loads by blast
  have "\<exists>nw. manager_start ne (at_time 10000) (Net_new 10000 bc) = Some nw"
  proof -
    have "getNodeShortage ne (discoverer_request ne (Net_new 10000 bc)) > 0" "nw_pool (discoverer_request ne (Net_new 10000 bc)) = PeerPool_new"
      by (simp_all add: getNodeShortage_def env discoverer_request_def Net_new_def)
    then have "\<exists>nw. tryConnect ne (at_time 10000) (discoverer_request ne (Net_new 10000 bc)) = Some nw"
      by (simp add: tryConnect_def numeral_eq_Suc getConnectionPeer_def PeerPool_new_def)
    then show ?thesis by (simp add: manager_start_def env split: prod.splits)
  qed
  moreover have "network ne"
  proof -
    have "net_header ne h = net_header small_net h" for h by (simp add: net_header_def env)
    then show ?thesis using small_not_own_parent small.network_axioms
      by (simp add: network_def network_axioms_def env small_cache_def cache_numbers_def lec.little_endian_axioms lbn.big_number_axioms)
  qed
  ultimately show ?thesis using bc
    by (auto simp: app_start_def cp(1) ne_def [symmetric] env Let_def at_time_def)
qed

section \<open>Properties\<close>

text \<open>C3: when the application starts on an index in which every entry is stored once, under its hash and with its proof of work, every entry is one above the entry its header names as its parent, and no
  entry of height above 0 lacks its parent (the empty index of a first start is one), then from then on, whatever the network, the clock
  and the disk service do, as long as no assertion fails: the headers form the forest of the invariant of the block cache, with its
  work and best header, and the active chain is linked through it; the jobs of the disk service refer to its entries; the pool of peers indexes
  its peers rightly; the tables of connections, addresses and nodes agree with each other; the synchronizer knows exactly
  the nodes and asks one of them; and what is known of the blocks of a peer are entries of the index. Nothing is said here of the
  coins, the block files, the list of dirty entries and the database, which have properties of their own.\<close>

theorem started_node_invariant:
  assumes "network ne" "app_start lb cf mo (BlockCache_new H cv db fs) = Some (ne, nw)"
    "loadAll (c_index (lb_cache lb)) (dk_digests (c_disk (lb_cache lb))) db IndexesData_new = Some data"
    "sound_index (v_bn (c_val (lb_cache lb))) (ix_blocks data)" "(net_step ne)\<^sup>*\<^sup>* nw nw'"
  shows "net_ok nw'"
  using net_steps_ok [OF assms(1,5)] app_start_ok [OF assms(1-4)] .

theorem started_node_invariant_witness:
  "\<exists>ne nw. app_start small_library small_config (at_time 10000) cache0 = Some (ne, nw) \<and> net_ok nw"
proof -
  obtain ne nw where s: "app_start small_library small_config (at_time 10000) cache0 = Some (ne, nw)" "network ne" using small_starts by blast
  have "c_index (lb_cache small_library) = le_db" by (simp add: small_library_def plain_cache_def)
  moreover have "sound_index bn (ix_blocks IndexesData_new)" for bn by (simp add: sound_index_def stored_items_def IndexesData_new_def)
  ultimately have "net_ok nw"
    using started_node_invariant [OF s(2) s(1) [unfolded cache0_def] _ _ rtranclp.rtrancl_refl] small_load by simp
  then show ?thesis using s(1) by blast
qed

end
