(* ===== verification/UintTerms.thy ===== *)
theory UintTerms
  imports ArithUint256
begin

text \<open>
  Terms over the operators of \<open>base_uint\<close>: an expression of the program that uses them has eight limbs, raises only the
  error of a division by zero, and means what the same expression means over the integers modulo \<open>2 ^ 256\<close>.
\<close>

section \<open>Terms\<close>

datatype uint_term =
    Variable nat
  | Number u64
  | Plus uint_term uint_term
  | Minus uint_term uint_term
  | Times uint_term uint_term
  | Times32 uint_term u32
  | Divide uint_term uint_term
  | Conj uint_term uint_term
  | Disj uint_term uint_term
  | Xor uint_term uint_term
  | Negate uint_term
  | Complement uint_term
  | Increment uint_term
  | Decrement uint_term
  | ShiftLeft uint_term nat
  | ShiftRight uint_term nat

text \<open>What the program computes, the left operand first.\<close>

abbreviation both :: "(limbs \<Rightarrow> limbs \<Rightarrow> uint_error + limbs) \<Rightarrow> uint_error + limbs \<Rightarrow> uint_error + limbs \<Rightarrow> uint_error + limbs" where
  "both f x y \<equiv> (case x of Inl e \<Rightarrow> Inl e | Inr a \<Rightarrow> (case y of Inl e \<Rightarrow> Inl e | Inr b \<Rightarrow> f a b))"

primrec compute :: "(nat \<Rightarrow> limbs) \<Rightarrow> uint_term \<Rightarrow> uint_error + limbs" where
  "compute \<rho> (Variable n) = Inr (\<rho> n)"
| "compute \<rho> (Number w) = Inr (base_uint_of_u64 w)"
| "compute \<rho> (Plus s t) = both (\<lambda>a b. Inr (op_add a b)) (compute \<rho> s) (compute \<rho> t)"
| "compute \<rho> (Minus s t) = both (\<lambda>a b. Inr (op_sub a b)) (compute \<rho> s) (compute \<rho> t)"
| "compute \<rho> (Times s t) = both (\<lambda>a b. Inr (op_mul a b)) (compute \<rho> s) (compute \<rho> t)"
| "compute \<rho> (Times32 s w) = map_sum id (\<lambda>a. op_mul_u32 a w) (compute \<rho> s)"
| "compute \<rho> (Divide s t) = both op_div (compute \<rho> s) (compute \<rho> t)"
| "compute \<rho> (Conj s t) = both (\<lambda>a b. Inr (op_and a b)) (compute \<rho> s) (compute \<rho> t)"
| "compute \<rho> (Disj s t) = both (\<lambda>a b. Inr (op_or a b)) (compute \<rho> s) (compute \<rho> t)"
| "compute \<rho> (Xor s t) = both (\<lambda>a b. Inr (op_xor a b)) (compute \<rho> s) (compute \<rho> t)"
| "compute \<rho> (Negate s) = map_sum id op_neg (compute \<rho> s)"
| "compute \<rho> (Complement s) = map_sum id op_not (compute \<rho> s)"
| "compute \<rho> (Increment s) = map_sum id op_inc (compute \<rho> s)"
| "compute \<rho> (Decrement s) = map_sum id op_dec (compute \<rho> s)"
| "compute \<rho> (ShiftLeft s n) = map_sum id (\<lambda>a. op_shl a n) (compute \<rho> s)"
| "compute \<rho> (ShiftRight s n) = map_sum id (\<lambda>a. op_shr a n) (compute \<rho> s)"

text \<open>What the term means; \<open>None\<close> is a division by zero.\<close>

definition modulo :: "int \<Rightarrow> int" where "modulo x = x mod 2 ^ 256"

primrec meaning :: "(nat \<Rightarrow> int) \<Rightarrow> uint_term \<Rightarrow> int option" where
  "meaning \<rho> (Variable n) = Some (\<rho> n)"
| "meaning \<rho> (Number w) = Some (uint w)"
| "meaning \<rho> (Plus s t) = do { x \<leftarrow> meaning \<rho> s; y \<leftarrow> meaning \<rho> t; Some (modulo (x + y)) }"
| "meaning \<rho> (Minus s t) = do { x \<leftarrow> meaning \<rho> s; y \<leftarrow> meaning \<rho> t; Some (modulo (x - y)) }"
| "meaning \<rho> (Times s t) = do { x \<leftarrow> meaning \<rho> s; y \<leftarrow> meaning \<rho> t; Some (modulo (x * y)) }"
| "meaning \<rho> (Times32 s w) = map_option (\<lambda>x. modulo (x * uint w)) (meaning \<rho> s)"
| "meaning \<rho> (Divide s t) = do { x \<leftarrow> meaning \<rho> s; y \<leftarrow> meaning \<rho> t; if y = 0 then None else Some (x div y) }"
| "meaning \<rho> (Conj s t) = do { x \<leftarrow> meaning \<rho> s; y \<leftarrow> meaning \<rho> t; Some (x AND y) }"
| "meaning \<rho> (Disj s t) = do { x \<leftarrow> meaning \<rho> s; y \<leftarrow> meaning \<rho> t; Some (x OR y) }"
| "meaning \<rho> (Xor s t) = do { x \<leftarrow> meaning \<rho> s; y \<leftarrow> meaning \<rho> t; Some (x XOR y) }"
| "meaning \<rho> (Negate s) = map_option (\<lambda>x. modulo (- x)) (meaning \<rho> s)"
| "meaning \<rho> (Complement s) = map_option (\<lambda>x. 2 ^ 256 - 1 - x) (meaning \<rho> s)"
| "meaning \<rho> (Increment s) = map_option (\<lambda>x. modulo (x + 1)) (meaning \<rho> s)"
| "meaning \<rho> (Decrement s) = map_option (\<lambda>x. modulo (x - 1)) (meaning \<rho> s)"
| "meaning \<rho> (ShiftLeft s n) = map_option (\<lambda>x. modulo (x * 2 ^ n)) (meaning \<rho> s)"
| "meaning \<rho> (ShiftRight s n) = map_option (\<lambda>x. x div 2 ^ n) (meaning \<rho> s)"

section \<open>Bitwise operators\<close>

lemma nth_map2: "i < length a \<Longrightarrow> length a = length b \<Longrightarrow> map2 f a b ! i = f (a ! i) (b ! i)"
  by simp

lemma limbs_val_bitwise:
  assumes "length a = length b"
  shows "limbs_val (op_and a b) = limbs_val a AND limbs_val b" "limbs_val (op_or a b) = limbs_val a OR limbs_val b"
    "limbs_val (op_xor a b) = limbs_val a XOR limbs_val b"
  by (rule bit_eqI; insert assms;
    auto simp only: bit_limbs_val op_and_def op_or_def op_xor_def bit_and_iff bit_or_iff bit_xor_iff length_map length_zip nth_map2 min.idem)+

lemma length_bitwise [simp]:
  "length (op_and a b) = min (length a) (length b)" "length (op_or a b) = min (length a) (length b)" "length (op_xor a b) = min (length a) (length b)"
  by (simp_all add: op_and_def op_or_def op_xor_def)

lemma limbs_val_u64: "limbs_val (base_uint_of_u64 w) = uint w"
proof -
  have w: "uint (ucast w :: u32) = uint w mod 2 ^ 32" "uint (ucast (drop_bit 32 w) :: u32) = uint w div 2 ^ 32 mod 2 ^ 32"
    by (simp_all add: unsigned_ucast_eq take_bit_eq_mod uint_drop_bit)
  have "uint w div 2 ^ 32 < 2 ^ 32" using uint_less_exp [of w] by simp
  moreover have "0 \<le> uint w div 2 ^ 32" by (intro pos_imp_zdiv_nonneg_iff [THEN iffD2]) simp_all
  ultimately have "uint w div 2 ^ 32 mod 2 ^ 32 = uint w div 2 ^ 32" by (rule mod_pos_pos_trivial [rotated])
  then show ?thesis
    by (simp only: base_uint_of_u64_def WIDTH_def append.simps limbs_val_Cons limbs_val_replicate_0 w) simp
qed

section \<open>The meaning of what is computed\<close>

definition means :: "uint_error + limbs \<Rightarrow> int option \<Rightarrow> bool" where
  "means r m \<longleftrightarrow> (case r of Inl e \<Rightarrow> e = Division_by_zero \<and> m = None | Inr a \<Rightarrow> length a = 8 \<and> m = Some (limbs_val a))"

lemma means_both:
  assumes "means x m" "means y n"
    "\<And>a b. length a = 8 \<Longrightarrow> length b = 8 \<Longrightarrow> means (f a b) (g (limbs_val a) (limbs_val b))"
  shows "means (both f x y) (Option.bind m (\<lambda>u. Option.bind n (g u)))"
proof (cases x)
  case (Inr a)
  then have a: "length a = 8" "m = Some (limbs_val a)" using assms(1) by (simp_all add: means_def)
  show ?thesis
  proof (cases y)
    case (Inr b)
    then have "length b = 8" "n = Some (limbs_val b)" using assms(2) by (simp_all add: means_def)
    then show ?thesis using assms(3) a \<open>x = Inr a\<close> Inr by simp
  qed (use assms(2) Inr a in \<open>simp add: means_def\<close>)
qed (use assms(1) in \<open>simp add: means_def\<close>)

lemma means_div:
  assumes "length a = 8" "length b = 8"
  shows "means (op_div a b) (if limbs_val b = 0 then None else Some (limbs_val a div limbs_val b))"
  using op_divmod_correct [of b a] assms by (auto simp: means_def op_div_def)

lemma means_map:
  assumes "means x m" "\<And>a. length a = 8 \<Longrightarrow> length (f a) = 8 \<and> limbs_val (f a) = g (limbs_val a)"
  shows "means (map_sum id f x) (map_option g m)"
  using assms by (auto simp: means_def split: sum.splits)

lemma compute_means:
  assumes "\<And>n. length (\<rho> n) = 8"
  shows "means (compute \<rho> t) (meaning (\<lambda>n. limbs_val (\<rho> n)) t)"
proof (induction t)
  case (Variable n)
  then show ?case using assms by (simp add: means_def)
next
  case (Number w)
  then show ?case by (simp add: means_def limbs_val_u64) (simp add: base_uint_of_u64_def WIDTH_def)
next
  case (Divide s t)
  show ?case unfolding compute.simps meaning.simps
    by (rule means_both [OF Divide.IH]) (rule means_div)
qed (simp only: compute.simps meaning.simps;
    (rule means_both | rule means_map); simp add: means_def modulo_def limbs_val_add limbs_val_sub limbs_val_mul limbs_val_mul_u32
      limbs_val_bitwise limbs_val_neg limbs_val_not limbs_val_inc limbs_val_dec limbs_val_shl limbs_val_shr)+

section \<open>Properties\<close>

text \<open>C18: whatever expression is built of the operators of \<open>arith_uint256\<close> over numbers of full width, it computes a number
  of full width whose value is that of the expression over the integers modulo \<open>2 ^ 256\<close>, unless it divides by zero, and
  then it raises that error and no other.\<close>

theorem uint256_terms:
  assumes "\<And>n. wf_limbs (\<rho> n)"
  shows "case compute \<rho> t of
      Inl e \<Rightarrow> e = Division_by_zero \<and> meaning (\<lambda>n. limbs_val (\<rho> n)) t = None
    | Inr a \<Rightarrow> wf_limbs a \<and> meaning (\<lambda>n. limbs_val (\<rho> n)) t = Some (limbs_val a)"
  using compute_means [of \<rho> t] assms by (simp add: means_def wf_limbs_def WIDTH_def split: sum.splits)

text \<open>The expression of \<open>GetBlockProof\<close> at the target of the genesis block.\<close>

definition proof_term :: uint_term where
  "proof_term = Increment (Divide (Complement (Variable 0)) (Increment (Variable 0)))"

theorem uint256_terms_witness:
  "\<exists>a. compute (\<lambda>n. 3 # replicate 7 0) proof_term = Inr a \<and> wf_limbs a"
proof -
  let ?\<rho> = "\<lambda>n :: nat. 3 # replicate 7 (0 :: u32)"
  have wf: "wf_limbs (?\<rho> n)" for n by (simp add: wf_limbs_def WIDTH_def)
  have "limbs_val (?\<rho> 0) = 3" by (simp only: limbs_val_Cons limbs_val_replicate_0) simp
  then have "meaning (\<lambda>n. limbs_val (?\<rho> n)) proof_term \<noteq> None"
    by (simp add: proof_term_def modulo_def del: replicate_Suc limbs_val_Cons)
  then show ?thesis
    using uint256_terms [of ?\<rho> proof_term, OF wf] by (cases "compute ?\<rho> proof_term") auto
qed

end
