(* ===== verification/Spec2Isabelle.thy ===== *)
theory Spec2Isabelle
  imports Startup UintTerms
begin

text \<open>
  A verification development of xbtc, a small Bitcoin node in C++.

  \<^bold>\<open>The program.\<close> \<open>BitCoinApp::start\<close> (\<open>app.cpp\<close>) chooses the parameters of a chain, makes the block cache, loads it
  from the disk and starts the node manager. The node manager (\<open>net/NodeManager.cpp\<close>) finds addresses, keeps them in a pool
  of peers, and asks the connector for connections; a connection is a pending node until the handshake ends and a node
  afterwards. Bytes of a socket go through the message codec to the handlers of the pending node or of the node. The handlers
  of headers and blocks go to the block synchronizer, which adds headers to the block cache, chooses which blocks to ask of
  whom, and adds the blocks that come. The block cache (\<open>storage/BlockCache.cpp\<close>) owns the index of headers, the active chain,
  the coins, and the storage, which writes blocks and index entries through a disk service and reports each write; a written
  block is verified against the coins by the validator, which runs the scripts, and then becomes the tip.

  \<^bold>\<open>How it is modelled.\<close> The program is built with its assertions: a failing assertion, a null pointer followed, an
  index out of range and a signed overflow are all the value \<open>None\<close> of an \<open>option\<close>, which means that the process ends or has no defined
  behaviour. Exceptions are the left values of a sum. Integers have the width of their types: unsigned ones are words, signed
  ones are \<open>int\<close>, with \<open>int64\<close> and tests of the range where they can overflow. Objects that are shared and changed are
  references into a heap (\<open>bref\<close> into \<open>index_heap\<close> for entries of the index, numbers into \<open>nw_conns\<close> for connections).
  Ordered maps are association lists or sorted lists; the model uses no order of addresses of objects in memory where the
  result could depend on it, except in \<open>updateChainWork\<close>, where it says so. What the program calls outside its
  sources (the library xul with its streams, texts, big numbers and sockets, LevelDB, OpenSSL, boost) is a parameter of the definitions, collected
  in records; the laws relied on are locales: \<open>little_endian\<close>, \<open>big_number\<close> and \<open>streams\<close> (External), \<open>key_value_store\<close> (ObjectDB),
  \<open>block_files\<close> and \<open>sound_device\<close> (BlockFiles). The locales of the components extend them (\<open>message_streams\<close>, \<open>codec\<close>, \<open>disk\<close>,
  \<open>script_machine\<close>, \<open>cache_numbers\<close>, \<open>network\<close>); each is interpreted on concrete functions, on which the witnesses run.

  \<^bold>\<open>The theories\<close>, from the bottom up; each opens with what it models.
  \<^item> Prelude, External: assertions, collections of rewrite rules, lemmas on lists and words; the interfaces of the library.
  \<^item> ArithUint256, UintTerms, CompactTarget, Consensus: \<open>util/arith_uint256.hpp\<close>, \<open>util/arith_uint256.cpp\<close>, \<open>storage/Consensus.cpp\<close>. Limbs are
    lists of 32-bit words; every operator, and every term over them, is refined to the integers, division by its loop, the compact encoding to its meaning
    \<open>compact_val\<close>, and the work of a block to \<open>2 ^ 256 div (target + 1)\<close>.
  \<^item> SipHash, Serialization: \<open>util/Hasher.hpp\<close>, \<open>util/Hasher.cpp\<close>, \<open>util/serialization.hpp\<close>, \<open>util/serialization.cpp\<close>. Incremental
    hashing equals hashing at once; the variable-length encodings read back.
  \<^item> TxData, BlockData, Merkle: the files of \<open>data/\<close>. Formats and their round trips, the skip pointers, the status flags, and the
    constant-space Merkle tree against the tree of levels.
  \<^item> Script, ScriptVM: the files of \<open>script/\<close>. The opcodes with their names, the writers and the parser of numbers, then the stack machine with
    its function table; termination, what the writers' pushes do, and the multi-signature loop against ordered matchings.
  \<^item> BlockChain: \<open>storage/BlockChain.cpp\<close>: the active chain is the list of ancestors of its tip (\<open>chain_of\<close>).
  \<^item> ObjectDB, CoinView: \<open>util/LevelDB.cpp\<close>, \<open>storage/ObjectDB.cpp\<close>, \<open>storage/CoinDB.cpp\<close>, \<open>storage/CoinView.cpp\<close>. In any run
    the cache and the database behind it refine a ledger of coins on disk, unspent coins and outpoints spent since the last flush; the effect of
    an event on it is \<open>event_spec\<close>. Where no outpoint is created again, the ledger is one map of unspent coins, \<open>utxo\<close>.
  \<^item> Validator: \<open>util/Key.cpp\<close>, \<open>storage/Compatibility.cpp\<close>, \<open>storage/Validator.cpp\<close>: proof of work, duplicates, inputs.
  \<^item> BlockFiles, BlockIndexDB: \<open>storage/BlockStorage.cpp\<close>, \<open>storage/BlockIndexDB.cpp\<close>: reserving, writing and reading blocks, and
    the database of the index.
  \<^item> BlockCache: \<open>storage/BlockCache.cpp\<close> with the queue of the disk service as a list of jobs. \<open>cache_ok\<close> is its invariant, with the entries whose
    parents came late as roots; connecting a block is refined to the ledger and, in the regular case, to the map of coins.
  \<^item> Messages, MessageCodec: \<open>net/Message.hpp\<close>, \<open>net/Messages.hpp\<close>, \<open>net/Messages.cpp\<close>, \<open>net/NodeAddress.hpp\<close>, \<open>net/MessageCodec.cpp\<close>.
  \<^item> PeerPool, NodeSync: \<open>net/PeerPoolImpl.hpp\<close>, \<open>net/NodeSyncInfo.hpp\<close>: the pool and its two orders in time; what is known of the
    blocks of a peer and which to ask for.
  \<^item> Network, NetInvariant, NetProps: \<open>net/NodeConnector.cpp\<close>, \<open>net/PendingNode.cpp\<close>, \<open>net/Node.cpp\<close>, \<open>net/NodeManager.cpp\<close>,
    \<open>net/BlockSynchronizer.cpp\<close>, \<open>net/MessageSender.cpp\<close>. \<open>Net\<close> is the state of all of them, one definition models one operation or one event of a
    socket, the timer, the resolver or the disk; \<open>net_step\<close> and \<open>net_run\<close> are the runs and \<open>net_ok\<close> their invariant. The composed
    state holds the block cache and the pool, so that the invariant of the node rests on theirs.
  \<^item> Reload, App, Startup: \<open>storage/ChainParams.cpp\<close>, \<open>app.cpp\<close>: the genesis blocks, the configuration, the start; loading a sound index, or an
    empty one, leaves the invariant of the cache, and what a flush has written is loaded again as the same headers at
    the same heights, each linked to its parent.

  \<^bold>\<open>Interleaving.\<close> The main thread and the disk thread are modelled as one sequence of events in any order: each handler and each job of
  the disk queue runs to its end before the next. The code posts the completion of a write to the disk thread, so that
  \<open>onBlockWritten\<close> in fact runs beside the handlers without a lock; that race is a finding and not modelled.

  \<^bold>\<open>Loops and bounds.\<close> Loops that are not structural are functions with a measure (the levels of the Merkle tree below 32, the bytes left to a
  decoder, the bits of a number) or \<open>partial_function (option)\<close> where the code itself may not end (\<open>set_tip_loop\<close>, \<open>ancestor_loop\<close>, \<open>locator_loop\<close>,
  \<open>find_file\<close>, \<open>expire_loop\<close>); for these the theorems say that they return. The only bound that acts as fuel is the code's own:
  five connections a round, \<open>connect_loop\<close>.

  \<^bold>\<open>Not modelled.\<close> The sources of the library; logging; \<open>dump\<close> functions; the threads themselves; the acceptor of inbound connections
  (\<open>net/NodeAcceptor.cpp\<close>: nothing creates it, and it closes every client and fails an assertion); the accessors of \<open>AppInfo\<close> and of the host information;
  constants no code uses; the main program, which reads the options and starts the application; the message classes without
  handlers (compact blocks); \<open>getdouble\<close> and the printing of numbers, which only logs use; the bytes a stream holds after a write that did not fit.
  The memory of uninitialised fields is an arbitrary value where it reaches the wire (the nonce of a ping).
\<close>

end
